(* ===== verification/Prelude.thy ===== *)
theory Prelude
  imports Complex_Main "HOL-Library.Word" "HOL-Library.Multiset"
begin

text \<open>
  Shared vocabulary of the development.

  \<^item> \<open>trap\<close> and \<open>res\<close>: the macro \<open>ERROR\<close> of \<open>support/messages.h\<close> prints its message and
    raises \<open>SIGTRAP\<close>; the program does not handle the signal, so the run ends there. Such a run is
    the value \<open>Inl\<close> of a sum. \<open>abort()\<close>, an operation whose result is an infinity or a NaN
    (the program is compiled with \<open>-ffast-math\<close>, which excludes them) and an access outside an allocated array
    or through a null pointer (undefined behaviour in C) are traps of their own, so that a theorem that some
    operation returns \<open>Inr\<close> also says that it stays inside its arrays.
  \<^item> Loop indices and array subscripts that the code keeps far below \<open>2^63\<close> are \<open>nat\<close> or
    \<open>int\<close>; the integer types whose width matters (Peano and Morton keys, bit masks,
    array capacities) are words of their C width.
  \<^item> \<open>model_defs\<close> collects the unfolding equations the component proofs share.
\<close>

named_theorems model_defs \<open>unfolding equations of the model\<close>

section \<open>Runs that stop\<close>

datatype trap =
    Trap string        \<comment> \<open>\<open>ERROR(fmt, ...)\<close>\<close>
  | Abort              \<comment> \<open>\<open>abort()\<close>\<close>
  | Out_of_bounds      \<comment> \<open>access outside an array, or through a null pointer\<close>
  | Hang               \<comment> \<open>a loop that never ends\<close>
  | No_number          \<comment> \<open>a division by zero or a logarithm of a number that is not positive\<close>

type_synonym 'a res = "trap + 'a"

definition rbind :: "'a res \<Rightarrow> ('a \<Rightarrow> 'b res) \<Rightarrow> 'b res" where
  "rbind r f = (case r of Inl e \<Rightarrow> Inl e | Inr x \<Rightarrow> f x)"

lemma rbind_simps [simp]:
  "rbind (Inl e) f = Inl e"
  "rbind (Inr x) f = f x"
  by (simp_all add: rbind_def)

lemma rbind_Inr_iff: "rbind r f = Inr y \<longleftrightarrow> (\<exists>x. r = Inr x \<and> f x = Inr y)"
  by (cases r) simp_all

lemma rbind_InrE:
  assumes "rbind r f = Inr y"
  obtains x where "r = Inr x" and "f x = Inr y"
  using assms by (auto simp: rbind_Inr_iff)

section \<open>Arrays as lists\<close>

definition swap_at :: "'a list \<Rightarrow> nat \<Rightarrow> nat \<Rightarrow> 'a list" where
  "swap_at xs i j = (xs[i := xs ! j])[j := xs ! i]"

lemma length_swap_at [simp]: "length (swap_at xs i j) = length xs"
  by (simp add: swap_at_def)

lemma nth_swap_at:
  "i < length xs \<Longrightarrow> j < length xs \<Longrightarrow> k < length xs \<Longrightarrow>
   swap_at xs i j ! k = (if k = j then xs ! i else if k = i then xs ! j else xs ! k)"
  by (simp add: swap_at_def nth_list_update)

lemma mset_swap_at:
  "i < length xs \<Longrightarrow> j < length xs \<Longrightarrow> mset (swap_at xs i j) = mset xs"
  by (simp add: swap_at_def mset_swap)

lemma nth_equalityI_iff:
  "xs = ys \<longleftrightarrow> length xs = length ys \<and> (\<forall>i < length xs. xs ! i = ys ! i)"
  by (auto intro: nth_equalityI)

lemma list_all_uptD: "list_all P [0..<n] \<Longrightarrow> i < n \<Longrightarrow> P i"
  by (simp add: list_all_iff)

section \<open>Words\<close>

unbundle bit_operations_syntax

lemma bit_less_exp: "(v :: nat) < 2 ^ n \<Longrightarrow> bit v k \<Longrightarrow> k < n"
  by (metis bit_take_bit_iff take_bit_nat_eq_self)

lemma push_bit_or_eq_add:
  fixes k :: "'a::len word"
  assumes "d < 2 ^ n"
  shows "push_bit n k OR of_nat d = push_bit n k + of_nat d"
proof (rule disjunctive_add_eq_or [symmetric])
  show "push_bit n k AND of_nat d = 0"
  proof (rule bit_word_eqI)
    fix m assume "m < LENGTH('a)"
    have "\<not> bit d m" if "n \<le> m"
      using bit_less_exp [OF assms, of m] that by auto
    then show "bit (push_bit n k AND of_nat d) m = bit (0 :: 'a word) m"
      by (auto simp: bit_simps)
  qed
qed

lemma bit_mask_test: "(x AND 2 ^ n \<noteq> (0 :: 'a::len word)) \<longleftrightarrow> bit x n"
  by (simp add: and_exp_eq_0_iff_not_bit)

lemma unat_drop_bit_div: "unat (drop_bit n w) = unat w div 2 ^ n" for w :: "'a::len word"
proof -
  have "unat (drop_bit n w) = drop_bit n (unat w)" by (rule unat_drop_bit_eq)
  then show ?thesis by (simp only: drop_bit_eq_div [where 'a = nat])
qed

lemma unat_and_mask_mod: "unat (w AND mask n) = unat w mod 2 ^ n" for w :: "'a::len word"
proof -
  have "unat (w AND mask n) = take_bit n (unat w)"
    by (simp only: unsigned_take_bit_eq flip: take_bit_eq_mask)
  then show ?thesis by (simp only: take_bit_eq_mod [where 'a = nat])
qed

end
