(* ===== verification/Float_Model.thy ===== *)
theory Float_Model
  imports Prelude "HOL-Library.Log_Nat"
begin

text \<open>
  Floating point values of the C code. A \<open>double\<close> or \<open>float\<close> is the real number it stands
  for, and an operation is the operation on reals followed by the rounding of the format:
  round to nearest, ties to even, to 53 or 24 bits (\<open>db\<close>, \<open>fl\<close>). The exponent is not bounded
  (no overflow, no subnormal numbers) and there is neither an infinity nor a NaN: the
  program is compiled with \<open>-ffast-math\<close>, under which the compiler assumes that none occurs.
  Each expression is rounded operation by operation in the order the source writes it.
  \<open>(int) x\<close> and the other conversions to an integer truncate toward zero.

  The rounding functions are executable on rational arguments. The locale \<open>rounding\<close> names
  the laws the proofs about the program use (monotone, idempotent, odd, exact on 0 and 1); it
  is interpreted on \<open>fl\<close> and on \<open>db\<close>.
\<close>

section \<open>Rounding to p bits\<close>

definition ilog2 :: "real \<Rightarrow> int" where
  "ilog2 x = (if 1 \<le> x then bitlen \<lfloor>x\<rfloor> - 1 else - int (ceillog2 (nat \<lceil>1 / x\<rceil>)))"

definition round_even :: "real \<Rightarrow> int" where
  "round_even y =
     (let f = \<lfloor>y\<rfloor>; d = y - of_int f
      in if d < 1/2 then f else if 1/2 < d then f + 1 else if even f then f else f + 1)"

definition ulp :: "nat \<Rightarrow> real \<Rightarrow> real" where
  "ulp p x = 2 powi (ilog2 \<bar>x\<bar> - int p + 1)"

definition rnd :: "nat \<Rightarrow> real \<Rightarrow> real" where
  "rnd p x = (if x = 0 then 0 else of_int (round_even (x / ulp p x)) * ulp p x)"

definition fl :: "real \<Rightarrow> real" where "fl = rnd 24"
definition db :: "real \<Rightarrow> real" where "db = rnd 53"

text \<open>An array of three coordinates (\<open>float[3]\<close>, \<open>double[3]\<close>).\<close>

type_synonym vec3 = "real \<times> real \<times> real"

text \<open>The conversion of a floating point value to an integer type.\<close>

definition trunc :: "real \<Rightarrow> int" where
  "trunc x = (if 0 \<le> x then \<lfloor>x\<rfloor> else \<lceil>x\<rceil>)"

text \<open>
  Operations whose result may not be a number, and the functions of \<open>math.h\<close> the code uses: a
  division, the decimal logarithm, the positive difference, the power and the square root.
\<close>

definition fdiv :: "(real \<Rightarrow> real) \<Rightarrow> real \<Rightarrow> real \<Rightarrow> real res" where
  "fdiv rd x y = (if y = 0 then Inl No_number else Inr (rd (x / y)))"

definition flog10 :: "(real \<Rightarrow> real) \<Rightarrow> real \<Rightarrow> real res" where
  "flog10 rd x = (if x \<le> 0 then Inl No_number else Inr (rd (log 10 x)))"

definition fdim :: "(real \<Rightarrow> real) \<Rightarrow> real \<Rightarrow> real \<Rightarrow> real" where
  "fdim rd x y = (if y < x then rd (x - y) else 0)"

definition fpow :: "(real \<Rightarrow> real) \<Rightarrow> real \<Rightarrow> real \<Rightarrow> real res" where
  "fpow rd x y =
     (if y = 0 then Inr 1 else if x < 0 \<or> (x = 0 \<and> y < 0) then Inl No_number else Inr (rd (x powr y)))"

definition fsqrt :: "(real \<Rightarrow> real) \<Rightarrow> real \<Rightarrow> real res" where
  "fsqrt rd x = (if x < 0 then Inl No_number else Inr (rd (sqrt x)))"

section \<open>The binade of a number\<close>

lemma ilog2_bounds:
  assumes "0 < x"
  shows "2 powi ilog2 x \<le> x" and "x < 2 powi (ilog2 x + 1)"
proof -
  have "2 powi ilog2 x \<le> x \<and> x < 2 powi (ilog2 x + 1)"
  proof (cases "1 \<le> x")
    case True
    define n where "n = nat (bitlen \<lfloor>x\<rfloor> - 1)"
    have f: "0 < \<lfloor>x\<rfloor>" using True by linarith
    have b: "2 ^ nat (bitlen \<lfloor>x\<rfloor> - 1) \<le> \<lfloor>x\<rfloor>" "\<lfloor>x\<rfloor> < 2 ^ nat (bitlen \<lfloor>x\<rfloor>)"
      using bitlen_bounds [OF f] by auto
    have pos: "1 \<le> bitlen \<lfloor>x\<rfloor>"
      using f bitlen_eq_zero_iff [of "\<lfloor>x\<rfloor>"] bitlen_nonneg [of "\<lfloor>x\<rfloor>"] by linarith
    have n: "ilog2 x = int n" "nat (bitlen \<lfloor>x\<rfloor>) = Suc n"
      using True pos by (auto simp: ilog2_def n_def)
    have "(2::real) ^ n \<le> of_int \<lfloor>x\<rfloor>" 
      using b(1) unfolding n_def [symmetric] by (metis of_int_le_iff of_int_numeral of_int_power)
    then have 1: "(2::real) ^ n \<le> x" by linarith
    have "\<lfloor>x\<rfloor> < 2 ^ Suc n" using b(2) n(2) by simp
    then have "x < of_int (2 ^ Suc n)" by (simp add: floor_less_iff)
    then have 2: "x < 2 ^ Suc n" by simp
    show ?thesis
      using 1 2 unfolding n(1) by (simp add: power_int_add)
  next
    case False
    define c where "c = nat \<lceil>1 / x\<rceil>"
    have x1: "1 < 1 / x" using False assms by simp
    then have c: "1 < c" "1 / x \<le> real c" "real c < 1 / x + 1"
      unfolding c_def by linarith+
    have c0: "0 < c" using c(1) by simp
    have i: "ilog2 x = - int (ceillog2 c)"
      using False by (simp add: ilog2_def c_def)
    have le: "real c \<le> 2 ^ ceillog2 c"
      using le_two_power_ceillog2 [of c] by (metis of_nat_le_iff of_nat_numeral of_nat_power)
    have "2 ^ ceillog2 c < 2 * c"
      by (rule two_power_ceillog2_gt) (use c(1) in simp)
    moreover have "ceillog2 c \<noteq> 0"
    proof
      assume "ceillog2 c = 0"
      then have "c \<le> 1" using le_two_power_ceillog2 [of c] by simp
      then show False using c(1) by simp
    qed
    then obtain k where k: "ceillog2 c = Suc k" by (cases "ceillog2 c") auto
    ultimately have "2 ^ k < c" by simp
    then have "2 ^ k \<le> c - 1" by simp
    then have "(2::real) ^ k \<le> real c - 1"
      using c(1) by (metis One_nat_def Suc_leI c0 of_nat_1 of_nat_diff of_nat_le_iff of_nat_numeral of_nat_power)
    with c(3) have k1: "2 ^ k < 1 / x" by linarith
    from le c(2) have k2: "1 / x \<le> 2 ^ Suc k" unfolding k by linarith
    have "x < inverse (2 ^ k)" using k1 assms by (simp add: field_simps)
    moreover have "inverse (2 ^ Suc k) \<le> x" using k2 assms by (simp add: field_simps)
    moreover have "(2::real) powi ilog2 x = inverse (2 ^ Suc k)"
      unfolding i k by (subst power_int_minus) (simp only: power_int_of_nat)
    moreover have "(2::real) powi (ilog2 x + 1) = inverse (2 ^ k)"
      unfolding i k by (simp add: power_int_minus)
    ultimately show ?thesis by simp
  qed
  then show "2 powi ilog2 x \<le> x" and "x < 2 powi (ilog2 x + 1)" by auto
qed

lemma powi_mono2: "a \<le> b \<Longrightarrow> (2::real) powi a \<le> 2 powi b"
  by (rule power_int_increasing) auto

lemma ilog2_unique:
  assumes "2 powi n \<le> x" and "x < 2 powi (n + 1)"
  shows "ilog2 x = n"
proof -
  have x: "0 < x" using assms(1) by (meson less_le_trans zero_less_numeral zero_less_power_int)
  have "\<not> ilog2 x + 1 \<le> n" and "\<not> n + 1 \<le> ilog2 x"
    using ilog2_bounds [OF x] assms powi_mono2 [of "ilog2 x + 1" n] powi_mono2 [of "n + 1" "ilog2 x"]
    by linarith+
  then show ?thesis by linarith
qed

lemma ilog2_mono: "0 < x \<Longrightarrow> x \<le> y \<Longrightarrow> ilog2 x \<le> ilog2 y"
proof (rule ccontr)
  assume x: "0 < x" "x \<le> y" and "\<not> ilog2 x \<le> ilog2 y"
  then have "(2::real) powi (ilog2 y + 1) \<le> 2 powi ilog2 x" by (intro powi_mono2) simp
  with ilog2_bounds [OF x(1)] ilog2_bounds [of y] x show False by linarith
qed

lemma ulp_pos [simp]: "0 < ulp p x"
  by (simp add: ulp_def)

lemma abs_ulp [simp]: "\<bar>ulp p x\<bar> = ulp p x"
  by (simp add: ulp_def)

lemma ulp_minus [simp]: "ulp p (- x) = ulp p x"
  by (simp add: ulp_def)

section \<open>Rounding to an integer\<close>

lemma round_even_cases:
  obtains f d where "y = of_int f + d" "0 \<le> d" "d < 1"
    and "round_even y = (if d < 1/2 \<or> (d = 1/2 \<and> even f) then f else f + 1)"
proof (rule that [of "\<lfloor>y\<rfloor>" "y - of_int \<lfloor>y\<rfloor>"])
  show "round_even y = (if y - of_int \<lfloor>y\<rfloor> < 1/2 \<or> (y - of_int \<lfloor>y\<rfloor> = 1/2 \<and> even \<lfloor>y\<rfloor>) then \<lfloor>y\<rfloor> else \<lfloor>y\<rfloor> + 1)"
    by (simp add: round_even_def Let_def)
qed linarith+

lemma round_even_le_iff: "round_even y \<le> n \<longleftrightarrow>
    (y < of_int n + 1/2 \<or> (y = of_int n + 1/2 \<and> even n))"
proof -
  obtain f d where y: "y = of_int f + d" "0 \<le> d" "d < 1"
    and r: "round_even y = (if d < 1/2 \<or> (d = 1/2 \<and> even f) then f else f + 1)"
    by (rule round_even_cases)
  consider "f < n" | "f = n" | "n < f" by linarith
  then show ?thesis
  proof cases
    case 1
    then have "of_int f + 1 \<le> (of_int n :: real)" by linarith
    then have "y < of_int n" using y by linarith
    moreover have "round_even y \<le> n" using r 1 by simp
    ultimately show ?thesis by simp
  next
    case 2
    then show ?thesis using y r by auto
  next
    case 3
    then have "of_int n + 1 \<le> (of_int f :: real)" by linarith
    then have "of_int n + 1 \<le> y" using y by linarith
    moreover have "\<not> round_even y \<le> n" using r 3 by simp
    ultimately show ?thesis by auto
  qed
qed

lemma round_even_mono: "y \<le> z \<Longrightarrow> round_even y \<le> round_even z"
  using round_even_le_iff [of z "round_even z"] by (auto simp: round_even_le_iff)

lemma round_even_of_int [simp]: "round_even (of_int n) = n"
  by (simp add: round_even_def)

lemma round_even_le: "y \<le> of_int n \<Longrightarrow> round_even y \<le> n"
  using round_even_mono [of y "of_int n"] by simp

lemma round_even_ge: "of_int n \<le> y \<Longrightarrow> n \<le> round_even y"
  using round_even_mono [of "of_int n" y] by simp

lemma round_even_minus [simp]: "round_even (- y) = - round_even y"
proof (cases "y = of_int \<lfloor>y\<rfloor>")
  case True
  then show ?thesis by (metis of_int_minus round_even_of_int)
next
  case False
  then have "\<lfloor>- y\<rfloor> = - \<lfloor>y\<rfloor> - 1" by linarith
  then show ?thesis
    unfolding round_even_def Let_def by auto
qed

lemma round_even_near: "\<bar>of_int (round_even y) - y\<bar> \<le> 1/2"
  by (rule round_even_cases [of y]) (auto split: if_splits)

section \<open>Representable numbers\<close>

definition rep :: "nat \<Rightarrow> real \<Rightarrow> bool" where
  "rep p x \<longleftrightarrow> (\<exists>m e. x = of_int m * 2 powi e \<and> \<bar>m\<bar> \<le> 2 ^ p)"

lemma rnd_0 [simp]: "rnd p 0 = 0"
  by (simp add: rnd_def)

lemma rnd_minus [simp]: "rnd p (- x) = - rnd p x"
  by (simp add: rnd_def)

lemma binade_ulp:
  assumes "0 < p"
  shows "(2 :: real) powi (ilog2 \<bar>x\<bar>) = 2 ^ (p - 1) * ulp p x"
    and "(2 :: real) powi (ilog2 \<bar>x\<bar> + 1) = 2 ^ p * ulp p x"
  using assms unfolding ulp_def
  by (simp_all add: power_int_add [symmetric] flip: power_int_of_nat)

lemma scaled_bounds:
  assumes "0 < p" and "x \<noteq> 0"
  shows "2 ^ (p - 1) \<le> \<bar>x / ulp p x\<bar>" and "\<bar>x / ulp p x\<bar> < 2 ^ p"
proof -
  note u = binade_ulp [OF assms(1), of x]
  have "2 ^ (p - 1) * ulp p x \<le> \<bar>x\<bar>" "\<bar>x\<bar> < 2 ^ p * ulp p x"
    using ilog2_bounds [of "\<bar>x\<bar>"] assms(2) by (simp_all add: u)
  then show "2 ^ (p - 1) \<le> \<bar>x / ulp p x\<bar>" and "\<bar>x / ulp p x\<bar> < 2 ^ p"
    by (simp_all add: field_simps)
qed

lemma rep_rnd: "0 < p \<Longrightarrow> rep p (rnd p x)"
proof (cases "x = 0")
  case False
  assume p: "0 < p"
  have "\<bar>x / ulp p x\<bar> \<le> of_int (2 ^ p)" using scaled_bounds(2) [OF p False] by simp
  then have "x / ulp p x \<le> of_int (2 ^ p)" "of_int (- (2 ^ p)) \<le> x / ulp p x"
    unfolding of_int_minus by linarith+
  then have "round_even (x / ulp p x) \<le> 2 ^ p" "- (2 ^ p) \<le> round_even (x / ulp p x)"
    by (auto intro: round_even_le round_even_ge simp del: of_int_power of_int_minus)
  then have "\<bar>round_even (x / ulp p x)\<bar> \<le> 2 ^ p" by linarith
  then show ?thesis
    using False unfolding rep_def rnd_def ulp_def by auto
qed (auto simp: rep_def intro: exI [of _ 0])

lemma rnd_rep:
  assumes "0 < p" and "rep p x"
  shows "rnd p x = x"
proof (cases "x = 0")
  case False
  obtain m e where x: "x = of_int m * 2 powi e" and m: "\<bar>m\<bar> \<le> 2 ^ p"
    using assms(2) unfolding rep_def by auto
  define k where "k = e - (ilog2 \<bar>x\<bar> - int p + 1)"
  have xu: "x / ulp p x = of_int m * 2 powi k"
    unfolding ulp_def k_def by (subst x) (simp add: power_int_diff)
  have "\<exists>n. of_int m * 2 powi k = (of_int n :: real)"
  proof (cases "0 \<le> k")
    case True
    then show ?thesis
      by (intro exI [of _ "m * 2 ^ nat k"]) (simp add: power_int_def)
  next
    case k: False
    have "\<bar>m\<bar> \<noteq> 2 ^ p \<Longrightarrow> False"
    proof -
      assume "\<bar>m\<bar> \<noteq> 2 ^ p"
      with m have "\<bar>m\<bar> \<le> 2 ^ p - 1" by simp
      then have "\<bar>of_int m :: real\<bar> < 2 ^ p"
        by (metis add_le_cancel_right diff_add_cancel of_int_abs of_int_less_iff of_int_numeral of_int_power zle_diff1_eq \<open>\<bar>m\<bar> \<noteq> 2 ^ p\<close> m order_less_le)
      moreover have "(2::real) powi k \<le> inverse 2"
        using powi_mono2 [of k "-1"] k by (simp add: power_int_minus)
      ultimately have "\<bar>of_int m\<bar> * 2 powi k < 2 ^ p * inverse (2::real)"
        by (intro mult_less_le_imp_less) auto
      also have "\<dots> = 2 ^ (p - 1)" using assms(1) by (cases p) auto
      finally show False
        using scaled_bounds(1) [OF assms(1) False] unfolding xu by (simp add: abs_mult)
    qed
    then have mp: "\<bar>m\<bar> = 2 ^ p" by blast
    have "(2::real) ^ (p - 1) \<le> 2 ^ p * 2 powi k"
      using scaled_bounds(1) [OF assms(1) False] mp unfolding xu
      by (simp add: abs_mult flip: of_int_abs)
    then have "inverse 2 \<le> (2::real) powi k" using assms(1) by (cases p) auto
    then have "k = -1"
      using powi_mono2 [of k "-2"] k by (cases "k \<le> -2") (auto simp: power_int_minus)
    moreover obtain q where "m = 2 * q" using mp assms(1)
      by (metis abs_dvd_iff dvd_def dvd_power_iff_le even_abs_add_iff even_power evenE zero_less_iff_neq_zero dvd_refl even_numeral abs_if minus_equation_iff even_minus)
    ultimately show ?thesis by (intro exI [of _ q]) (simp add: power_int_minus)
  qed
  then have "of_int (round_even (x / ulp p x)) = x / ulp p x"
    unfolding xu by (metis round_even_of_int)
  then show ?thesis using False by (simp add: rnd_def ulp_def)
qed simp

lemma rnd_pos_bounds:
  assumes "0 < p" and "0 < x"
  shows "2 powi ilog2 x \<le> rnd p x" and "rnd p x \<le> 2 powi (ilog2 x + 1)"
proof -
  have "of_int (2 ^ (p - 1)) \<le> x / ulp p x" "x / ulp p x \<le> of_int (2 ^ p)"
    using scaled_bounds [of p x] assms by (simp_all add: abs_divide)
  then have "2 ^ (p - 1) \<le> round_even (x / ulp p x)" "round_even (x / ulp p x) \<le> 2 ^ p"
    by (auto intro: round_even_le round_even_ge simp del: of_int_power of_int_minus)
  then have "(2 :: real) ^ (p - 1) \<le> of_int (round_even (x / ulp p x))"
    "of_int (round_even (x / ulp p x)) \<le> (2 :: real) ^ p"
    by (metis of_int_le_iff of_int_numeral of_int_power)+
  then show "2 powi ilog2 x \<le> rnd p x" and "rnd p x \<le> 2 powi (ilog2 x + 1)"
    using assms(2) binade_ulp [OF assms(1), of x] by (simp_all add: rnd_def)
qed

lemma rnd_nonneg: "0 < p \<Longrightarrow> 0 \<le> x \<Longrightarrow> 0 \<le> rnd p x"
proof (cases "x = 0")
  case False
  assume "0 < p" "0 \<le> x"
  then have "2 powi ilog2 x \<le> rnd p x" using False by (intro rnd_pos_bounds) auto
  moreover have "0 < (2::real) powi ilog2 x" by simp
  ultimately show ?thesis by linarith
qed simp

lemma rnd_mono_pos:
  assumes p: "0 < p" and "0 < x" and "x \<le> y"
  shows "rnd p x \<le> rnd p y"
proof (cases "ilog2 x = ilog2 y")
  case True
  then have "ulp p x = ulp p y" using assms by (simp add: ulp_def)
  moreover have "round_even (x / ulp p y) \<le> round_even (y / ulp p y)"
    using assms by (intro round_even_mono divide_right_mono) (auto simp: less_imp_le)
  ultimately show ?thesis
    using assms by (simp add: rnd_def mult_right_mono less_imp_le)
next
  case False
  then have "ilog2 x + 1 \<le> ilog2 y" using ilog2_mono [of x y] assms by simp
  then have "(2::real) powi (ilog2 x + 1) \<le> 2 powi ilog2 y" by (rule powi_mono2)
  then show ?thesis
    using rnd_pos_bounds(2) [of p x] rnd_pos_bounds(1) [of p y] assms by linarith
qed

lemma rnd_mono:
  assumes p: "0 < p" and "x \<le> y"
  shows "rnd p x \<le> rnd p y"
proof -
  consider "0 < x" | "x \<le> 0" "0 \<le> y" | "y < 0" by linarith
  then show ?thesis
  proof cases
    case 1
    then show ?thesis using assms by (intro rnd_mono_pos)
  next
    case 2
    then show ?thesis
      using rnd_nonneg [OF p, of "- x"] rnd_nonneg [OF p, of y] by simp
  next
    case 3
    then show ?thesis
      using rnd_mono_pos [OF p, of "- y" "- x"] assms by simp
  qed
qed

lemma rnd_error:
  assumes "0 < p"
  shows "\<bar>rnd p x - x\<bar> \<le> \<bar>x\<bar> / 2 ^ p"
proof (cases "x = 0")
  case False
  have "rnd p x - x = (of_int (round_even (x / ulp p x)) - x / ulp p x) * ulp p x"
    using False ulp_pos [of p x] by (simp add: rnd_def left_diff_distrib less_imp_neq [THEN not_sym])
  then have "\<bar>rnd p x - x\<bar> \<le> 1/2 * ulp p x"
    using round_even_near [of "x / ulp p x"] ulp_pos [of p x]
    by (simp add: abs_mult del: ulp_pos)
  also have "\<dots> = 2 powi ilog2 \<bar>x\<bar> / 2 ^ p"
    using assms by (simp add: binade_ulp(1)) (cases p; simp)
  also have "\<dots> \<le> \<bar>x\<bar> / 2 ^ p"
    using ilog2_bounds(1) [of "\<bar>x\<bar>"] False by (simp add: divide_right_mono)
  finally show ?thesis .
qed simp

lemma rep_of_int: "\<bar>m\<bar> \<le> 2 ^ p \<Longrightarrow> rep p (of_int m)"
  unfolding rep_def by (intro exI [of _ m] exI [of _ 0]) simp

lemma rep_mono: "p \<le> q \<Longrightarrow> rep p x \<Longrightarrow> rep q x"
proof -
  assume pq: "p \<le> q" and "rep p x"
  moreover have "(2::int) ^ p \<le> 2 ^ q" using pq by (rule power_increasing) simp
  ultimately show ?thesis unfolding rep_def using order_trans by blast
qed

section \<open>The laws of a rounding\<close>

locale rounding =
  fixes r :: "real \<Rightarrow> real"
  assumes mono: "x \<le> y \<Longrightarrow> r x \<le> r y"
    and idem: "r (r x) = r x"
    and minus: "r (- x) = - r x"
    and one: "r 1 = 1"
begin

lemma zero: "r 0 = 0"
  using minus [of 0] by simp

lemma nonneg: "0 \<le> x \<Longrightarrow> 0 \<le> r x"
  using mono [of 0 x] by (simp add: zero)

lemma nonpos: "x \<le> 0 \<Longrightarrow> r x \<le> 0"
  using mono [of x 0] by (simp add: zero)

lemma le_one: "x \<le> 1 \<Longrightarrow> r x \<le> 1"
  using mono [of x 1] by (simp add: one)

lemma ge_one: "1 \<le> x \<Longrightarrow> 1 \<le> r x"
  using mono [of 1 x] by (simp add: one)

lemma less_cancel: "r x < r y \<Longrightarrow> x < y"
  using mono [of y x] by linarith

lemma le_exact: "r z = z \<Longrightarrow> x \<le> z \<Longrightarrow> r x \<le> z"
  using mono [of x z] by simp

lemma ge_exact: "r z = z \<Longrightarrow> z \<le> x \<Longrightarrow> z \<le> r x"
  using mono [of z x] by simp

lemma sub_le: "r x = x \<Longrightarrow> 0 \<le> y \<Longrightarrow> r (x - y) \<le> x"
  by (rule le_exact) auto

end

interpretation fl: rounding fl
  by unfold_locales
    (simp_all add: fl_def rnd_mono rnd_rep rep_rnd rep_of_int [of 1, simplified])

interpretation db: rounding db
  by unfold_locales
    (simp_all add: db_def rnd_mono rnd_rep rep_rnd rep_of_int [of 1, simplified])

text \<open>Every \<open>float\<close> is a \<open>double\<close>: the conversion from \<open>float\<close> to \<open>double\<close> is exact.\<close>

lemma db_fl [simp]: "db (fl x) = fl x"
  unfolding db_def by (rule rnd_rep) (auto simp: fl_def intro: rep_mono [OF _ rep_rnd])

lemma fl_exact_db: "fl x = x \<Longrightarrow> db x = x"
  using db_fl [of x] by simp

lemmas round_simps [simp] =
  fl.idem fl.minus fl.one fl.zero db.idem db.minus db.one db.zero

lemma fl_of_int: "\<bar>m\<bar> \<le> 2 ^ 24 \<Longrightarrow> fl (of_int m) = of_int m"
  by (simp add: fl_def rnd_rep rep_of_int)

lemma db_of_int: "\<bar>m\<bar> \<le> 2 ^ 53 \<Longrightarrow> db (of_int m) = of_int m"
  by (simp add: db_def rnd_rep rep_of_int)

lemma fl_numeral [simp]: "(numeral k :: int) \<le> 2 ^ 24 \<Longrightarrow> fl (numeral k) = numeral k"
  using fl_of_int [of "numeral k"] by simp

lemma db_numeral [simp]: "(numeral k :: int) \<le> 2 ^ 53 \<Longrightarrow> db (numeral k) = numeral k"
  using db_of_int [of "numeral k"] by simp

lemma fl_error: "\<bar>fl x - x\<bar> \<le> \<bar>x\<bar> / 2 ^ 24"
  unfolding fl_def by (rule rnd_error) simp

lemma db_error: "\<bar>db x - x\<bar> \<le> \<bar>x\<bar> / 2 ^ 53"
  unfolding db_def by (rule rnd_error) simp

lemma rep_scale: "rep p x \<Longrightarrow> rep p (x * 2 ^ n)"
proof -
  assume "rep p x"
  then obtain m e where "x = of_int m * 2 powi e" "\<bar>m\<bar> \<le> 2 ^ p" by (auto simp: rep_def)
  then show ?thesis
    unfolding rep_def
    by (intro exI [of _ m] exI [of _ "e + int n"]) (simp add: power_int_add)
qed

lemma fl_exact_rep: "fl x = x \<Longrightarrow> rep 24 x"
  using rep_rnd [of 24 x] by (simp add: fl_def)

lemma fl_scale: "fl x = x \<Longrightarrow> fl (x * 2 ^ n) = x * 2 ^ n"
  using rnd_rep [OF _ rep_scale [OF fl_exact_rep], of x n] by (simp add: fl_def)

lemma error_twice: "\<bar>y - x\<bar> \<le> \<bar>x\<bar> / 2 ^ n \<Longrightarrow> 0 \<le> x \<Longrightarrow> 0 < n \<Longrightarrow> x / 2 \<le> y \<and> y \<le> 2 * x"
  for x y :: real
proof -
  assume h: "\<bar>y - x\<bar> \<le> \<bar>x\<bar> / 2 ^ n" "0 \<le> x" "0 < n"
  have "(2::real) \<le> 2 ^ n" using h(3) by (cases n) simp_all
  then have "x / 2 ^ n \<le> x / 2" using h(2) by (intro divide_left_mono) simp_all
  moreover have "\<bar>y - x\<bar> \<le> x / 2 ^ n" using h by simp
  ultimately show ?thesis unfolding abs_le_iff using h(2) by linarith
qed

lemma fl_twice: "0 \<le> x \<Longrightarrow> x / 2 \<le> fl x \<and> fl x \<le> 2 * x"
  by (rule error_twice [OF fl_error]) simp_all

lemma db_twice: "0 \<le> x \<Longrightarrow> x / 2 \<le> db x \<and> db x \<le> 2 * x"
  by (rule error_twice [OF db_error]) simp_all

lemma trunc_of_int [simp]: "trunc (of_int m) = m"
  by (simp add: trunc_def)

lemma trunc_less_one: "\<bar>x\<bar> < 1 \<Longrightarrow> trunc x = 0"
  by (simp add: trunc_def) linarith

lemma trunc_mono: "x \<le> y \<Longrightarrow> trunc x \<le> trunc y"
proof -
  assume xy: "x \<le> y"
  have "\<lceil>x\<rceil> \<le> \<lfloor>y\<rfloor>" if "x < 0" "0 \<le> y"
    using that by (meson ceiling_le_zero less_imp_le order_trans zero_le_floor)
  then show ?thesis
    using xy unfolding trunc_def by (auto simp: floor_mono ceiling_mono)
qed

end
