(* ===== verification/Growable_Array.thy ===== *)
theory Growable_Array
  imports Prelude
begin

text \<open>
  The growing arrays of \<open>src/support/array.h\<close>: the macros \<open>ARRAY_DEFINE\<close>, \<open>ARRAY_ENSURE\<close>,
  \<open>ARRAY_ENSURE0\<close>, \<open>ARRAY_RESIZE\<close>, \<open>ARRAY_APPEND\<close>, \<open>ARRAY_APPEND_REUSE\<close>, \<open>ARRAY_CLEAR\<close> and
  \<open>ARRAY_FREE\<close>. The three C variables of an array are the fields of a record. The storage is
  \<open>None\<close> for the null pointer, otherwise a list of cells; a cell is \<open>None\<close> while its contents
  are indeterminate (fresh memory of \<open>realloc\<close>). The allocation functions are assumed to
  succeed. \<open>z\<close> is the element whose bytes are all zero (\<open>calloc\<close>, \<open>memset\<close>).

  The capacity is doubled in a \<open>size_t\<close>; the doubling loop is a partial function, \<open>None\<close>
  when it never ends.

  The locale \<open>vector\<close> states the contract the clients rely on (the array holds the list of the
  elements appended since the last clear); it is interpreted on the macros.
\<close>

section \<open>The macros\<close>

record 'a garray =
  gdata :: "'a option list option"
  glength :: "64 word"
  gsize :: "64 word"

definition array_define :: "'a garray" where
  "array_define = \<lparr>gdata = None, glength = 0, gsize = 0\<rparr>"

partial_function (option) array_roundup :: "64 word \<Rightarrow> 64 word \<Rightarrow> 64 word option" where
  "array_roundup old new =
     (if old < new then array_roundup (push_bit 1 old) new else Some old)"

definition c_realloc :: "'a option list \<Rightarrow> 64 word \<Rightarrow> 'a option list" where
  "c_realloc cells n = take (unat n) (cells @ replicate (unat n - length cells) None)"

definition first_alloc :: "'a \<Rightarrow> 'a garray \<Rightarrow> 'a garray" where
  "first_alloc z a = (case gdata a of
       None \<Rightarrow> a\<lparr>gsize := 128, gdata := Some (replicate 128 (Some z))\<rparr>
     | Some _ \<Rightarrow> a)"

definition cells :: "'a garray \<Rightarrow> 'a option list" where
  "cells a = (case gdata a of None \<Rightarrow> [] | Some cs \<Rightarrow> cs)"

definition array_ensure :: "'a \<Rightarrow> 'a garray \<Rightarrow> 64 word \<Rightarrow> 'a garray option" where
  "array_ensure z a sz =
     (let a = first_alloc z a
      in if gsize a < sz then
           (case array_roundup (gsize a) sz of
              None \<Rightarrow> None
            | Some s \<Rightarrow> Some (a\<lparr>gsize := s, gdata := Some (c_realloc (cells a) s)\<rparr>))
         else Some a)"

definition array_realloc0 :: "'a \<Rightarrow> 'a option list \<Rightarrow> 64 word \<Rightarrow> 64 word \<Rightarrow> 'a option list option"
where
  "array_realloc0 z cs old new =
     (case array_roundup old new of
        None \<Rightarrow> None
      | Some s \<Rightarrow> Some (take (unat old) (c_realloc cs s) @ replicate (unat (s - old)) (Some z)))"

definition array_ensure0 :: "'a \<Rightarrow> 'a garray \<Rightarrow> 64 word \<Rightarrow> 'a garray option" where
  "array_ensure0 z a sz =
     (let a = first_alloc z a
      in if gsize a < sz then
           (case (array_realloc0 z (cells a) (gsize a) sz, array_roundup (gsize a) sz) of
              (Some cs, Some s) \<Rightarrow> Some (a\<lparr>gdata := Some cs, gsize := s\<rparr>)
            | _ \<Rightarrow> None)
         else Some a)"

definition array_resize :: "'a \<Rightarrow> 'a garray \<Rightarrow> 64 word \<Rightarrow> 'a garray option" where
  "array_resize z a len = map_option (\<lambda>a. a\<lparr>glength := len\<rparr>) (array_ensure0 z a len)"

definition array_clear :: "'a garray \<Rightarrow> 'a garray" where
  "array_clear a = a\<lparr>glength := 0\<rparr>"

definition array_free :: "'a garray \<Rightarrow> 'a garray" where
  "array_free a = \<lparr>gdata = None, glength = 0, gsize = 0\<rparr>"

text \<open>\<open>*(ARRAY_APPEND(array, type)) = v\<close>, and the slot \<open>ARRAY_APPEND_REUSE\<close> returns.\<close>

definition array_append :: "'a \<Rightarrow> 'a garray \<Rightarrow> 'a \<Rightarrow> 'a garray option" where
  "array_append z a v =
     (let a = a\<lparr>glength := glength a + 1\<rparr>
      in map_option
           (\<lambda>a. a\<lparr>gdata := Some ((cells a)[unat (glength a - 1) := Some v])\<rparr>)
           (array_ensure z a (glength a)))"

definition array_append_reuse :: "'a \<Rightarrow> 'a garray \<Rightarrow> ('a garray \<times> 'a option) option" where
  "array_append_reuse z a =
     (let a = a\<lparr>glength := glength a + 1\<rparr>
      in map_option (\<lambda>a. (a, cells a ! unat (glength a - 1)))
           (array_ensure0 z a (glength a)))"

section \<open>The doubling loop\<close>

lemma array_roundup_zero: "0 < new \<Longrightarrow> array_roundup 0 new = None"
proof -
  have "array_roundup old new = Some y \<Longrightarrow> old = 0 \<longrightarrow> \<not> 0 < new" for old y
    by (erule array_roundup.raw_induct [where P = "\<lambda>old new y. old = 0 \<longrightarrow> \<not> 0 < new", rotated])
      (auto split: if_splits)
  moreover assume "0 < new"
  ultimately show ?thesis by (cases "array_roundup 0 new") auto
qed

lemma array_roundup_doubles:
  assumes "0 < old" and "unat new \<le> 2 ^ 63"
  shows "\<exists>s k. array_roundup old new = Some s \<and> unat s = unat old * 2 ^ k \<and> new \<le> s
    \<and> (0 < k \<longrightarrow> unat s < 2 * unat new)"
  using assms
proof (induction "unat new - unat old" arbitrary: old rule: less_induct)
  case less
  show ?case
  proof (cases "old < new")
    case False
    then show ?thesis
      by (subst array_roundup.simps) (auto intro: exI [of _ 0])
  next
    case True
    then have lt: "unat old < unat new" by (simp add: word_less_nat_alt)
    have pos: "0 < unat old" using less.prems(1) by (simp add: word_less_nat_alt)
    have "2 * unat old < 2 ^ 64" using lt less.prems(2) by simp
    then have db: "unat (push_bit 1 old) = 2 * unat old"
      by (simp add: push_bit_eq_mult unat_word_ariths(2))
    have "0 < push_bit 1 old" using db pos by (simp add: word_less_nat_alt)
    moreover have "unat new - unat (push_bit 1 old) < unat new - unat old"
      using db pos lt by linarith
    ultimately obtain s k where s: "array_roundup (push_bit 1 old) new = Some s"
      "unat s = unat (push_bit 1 old) * 2 ^ k" "new \<le> s" "0 < k \<longrightarrow> unat s < 2 * unat new"
      using less.hyps [of "push_bit 1 old"] less.prems(2) by blast
    have "unat s < 2 * unat new" using s(2,4) db lt by (cases "k = 0") auto
    then show ?thesis
      using True s db by (subst array_roundup.simps) (auto intro!: exI [of _ "Suc k"])
  qed
qed

section \<open>The contract of a vector\<close>

locale vector =
  fixes inv_v :: "'v \<Rightarrow> bool"
    and contents :: "'v \<Rightarrow> 'a list"
    and room :: nat
    and empty_v :: 'v
    and clear_v :: "'v \<Rightarrow> 'v"
    and append_v :: "'v \<Rightarrow> 'a \<Rightarrow> 'v option"
  assumes empty: "inv_v empty_v" "contents empty_v = []"
    and clear: "inv_v v \<Longrightarrow> inv_v (clear_v v)" "inv_v v \<Longrightarrow> contents (clear_v v) = []"
    and append: "inv_v v \<Longrightarrow> length (contents v) < room \<Longrightarrow>
      \<exists>v'. append_v v x = Some v' \<and> inv_v v' \<and> contents v' = contents v @ [x]"
begin

fun append_all :: "'v \<Rightarrow> 'a list \<Rightarrow> 'v option" where
  "append_all v [] = Some v"
| "append_all v (x # xs) = (case append_v v x of None \<Rightarrow> None | Some v' \<Rightarrow> append_all v' xs)"

lemma append_all:
  "inv_v v \<Longrightarrow> length (contents v) + length xs \<le> room \<Longrightarrow>
   \<exists>v'. append_all v xs = Some v' \<and> inv_v v' \<and> contents v' = contents v @ xs"
proof (induction xs arbitrary: v)
  case (Cons x xs)
  from append [OF Cons.prems(1), of x] Cons.prems(2) obtain v'
    where v': "append_v v x = Some v'" "inv_v v'" "contents v' = contents v @ [x]" by auto
  from Cons.IH [OF v'(2)] v' Cons.prems(2) show ?case by auto
qed simp

lemma refill:
  "inv_v v \<Longrightarrow> length xs \<le> room \<Longrightarrow>
   \<exists>v'. append_all (clear_v v) xs = Some v' \<and> inv_v v' \<and> contents v' = xs"
  using append_all [of "clear_v v" xs] clear by simp

end

definition garray_inv :: "'a garray \<Rightarrow> bool" where
  "garray_inv a \<longleftrightarrow>
     (case gdata a of
        None \<Rightarrow> glength a = 0 \<and> gsize a = 0
      | Some cs \<Rightarrow> length cs = unat (gsize a) \<and> 0 < gsize a \<and> glength a \<le> gsize a
          \<and> list_all (\<lambda>c. c \<noteq> None) (take (unat (glength a)) cs))"

definition garray_contents :: "'a garray \<Rightarrow> 'a list" where
  "garray_contents a = map the (take (unat (glength a)) (cells a))"

lemma length_garray_contents:
  "garray_inv a \<Longrightarrow> length (garray_contents a) = unat (glength a)"
  by (auto simp: garray_inv_def garray_contents_def cells_def word_le_nat_alt split: option.splits)

text \<open>What \<open>ARRAY_ENSURE\<close> guarantees: enough cells, and the old cells unchanged.\<close>

lemma first_alloc_inv:
  "garray_inv a \<Longrightarrow> garray_inv (first_alloc z a) \<and> gdata (first_alloc z a) \<noteq> None
    \<and> glength (first_alloc z a) = glength a
    \<and> garray_contents (first_alloc z a) = garray_contents a"
  by (auto simp: garray_inv_def first_alloc_def garray_contents_def cells_def
      split: option.splits)

lemma take_c_realloc:
  "k \<le> length cs \<Longrightarrow> k \<le> unat s \<Longrightarrow> take k (c_realloc cs s) = take k cs"
  by (simp add: c_realloc_def)

lemma length_c_realloc [simp]: "length (c_realloc cs s) = unat s"
  by (simp add: c_realloc_def)

lemma array_ensure_spec:
  assumes a: "garray_inv a" and n: "unat n \<le> 2 ^ 63"
  obtains a' where "array_ensure z a n = Some a'" "glength a' = glength a" "n \<le> gsize a'"
    "garray_inv a'" "gdata a' \<noteq> None" "garray_contents a' = garray_contents a"
proof -
  define b where "b = first_alloc z a"
  have b: "garray_inv b" "gdata b \<noteq> None" "glength b = glength a"
    "garray_contents b = garray_contents a"
    using first_alloc_inv [OF a] by (auto simp: b_def)
  then obtain cs where cs: "gdata b = Some cs" "length cs = unat (gsize b)" "0 < gsize b"
    "glength b \<le> gsize b" "list_all (\<lambda>c. c \<noteq> None) (take (unat (glength b)) cs)"
    by (auto simp: garray_inv_def)
  show ?thesis
  proof (cases "gsize b < n")
    case False
    then show ?thesis
      by (intro that [of b]) (use b in \<open>auto simp: array_ensure_def Let_def simp flip: b_def\<close>)
  next
    case True
    obtain s where s: "array_roundup (gsize b) n = Some s" "n \<le> s"
      using array_roundup_doubles [OF cs(3) n] by auto
    have le: "unat (glength b) \<le> unat s" "unat (glength b) \<le> length cs" "glength b \<le> s"
      using cs(2,4) True s(2) by (simp_all add: word_le_nat_alt word_less_nat_alt)
    have "0 < s" using cs(3) True s(2) by (simp add: word_le_nat_alt word_less_nat_alt)
    with le show ?thesis
      by (intro that [of "b\<lparr>gsize := s, gdata := Some (c_realloc cs s)\<rparr>"])
        (use b cs s True in \<open>auto simp: array_ensure_def Let_def garray_inv_def garray_contents_def
          cells_def take_c_realloc simp flip: b_def\<close>)
  qed
qed

lemma take_set_nth: "n < length cs \<Longrightarrow> take (Suc n) (cs[n := x]) = take n cs @ [x]"
  by (simp add: take_Suc_conv_app_nth)

lemma array_append_spec:
  assumes a: "garray_inv a" and n: "length (garray_contents a) < 2 ^ 63"
  shows "\<exists>a'. array_append z a v = Some a' \<and> garray_inv a'
    \<and> garray_contents a' = garray_contents a @ [v]"
proof -
  define n where "n = unat (glength a)"
  have n63: "n < 2 ^ 63" using n by (simp add: n_def length_garray_contents [OF a])
  then have sn: "unat (glength a + 1) = Suc n"
    by (simp add: n_def unat_word_ariths)
  obtain b where b: "array_ensure z a (glength a + 1) = Some b" "glength b = glength a"
    "glength a + 1 \<le> gsize b" "garray_inv b" "gdata b \<noteq> None"
    "garray_contents b = garray_contents a"
    using array_ensure_spec [OF a, of "glength a + 1" z] sn n63 by (metis Suc_leI)
  have len: "array_ensure z (a\<lparr>glength := l\<rparr>) m = map_option (\<lambda>b. b\<lparr>glength := l\<rparr>) (array_ensure z a m)"
    for l m
    by (auto simp: array_ensure_def first_alloc_def cells_def Let_def split: option.splits)
  from b obtain cs where cs: "gdata b = Some cs" "length cs = unat (gsize b)" "0 < gsize b"
    "list_all (\<lambda>c. c \<noteq> None) (take n cs)"
    by (auto simp: garray_inv_def n_def)
  have lt: "n < length cs" using b(3) sn cs(2) by (simp add: word_le_nat_alt)
  have "unat (glength a + 1 - 1) = n" by (simp add: n_def)
  then show ?thesis
    using b cs lt sn
    by (auto simp: array_append_def Let_def len garray_inv_def garray_contents_def cells_def
        take_set_nth n_def)
qed

interpretation garray: vector garray_inv garray_contents "2 ^ 63" array_define array_clear
  "array_append z" for z
proof unfold_locales
  show "garray_inv v \<Longrightarrow> length (garray_contents v) < 2 ^ 63 \<Longrightarrow>
      \<exists>v'. array_append z v x = Some v' \<and> garray_inv v' \<and> garray_contents v' = garray_contents v @ [x]"
    for v x
    by (rule array_append_spec)
qed (auto simp: garray_inv_def garray_contents_def array_define_def array_clear_def cells_def
    split: option.splits)

section \<open>Properties\<close>

text \<open>
  C6. \<open>__array_roundup__\<close> returns for every request up to \<open>2 ^ 63\<close> elements: the smallest
  doubling of the old capacity that reaches the request (below twice the request when anything
  was doubled). From capacity zero it never returns.
\<close>

theorem array_roundup_least:
  assumes "0 < old" and "unat new \<le> 2 ^ 63"
  shows "(\<exists>s k. array_roundup old new = Some s \<and> unat s = unat old * 2 ^ k \<and> new \<le> s
      \<and> (0 < k \<longrightarrow> unat s < 2 * unat new))
    \<and> (0 < new \<longrightarrow> array_roundup 0 new = None)"
  using array_roundup_doubles [OF assms] array_roundup_zero by simp

theorem array_roundup_least_witness:
  "(\<exists>s k. array_roundup 128 1000 = Some s \<and> unat s = unat (128 :: 64 word) * 2 ^ k \<and> 1000 \<le> s)
    \<and> array_roundup 0 1000 = None"
  using array_roundup_least [of 128 1000] by auto

text \<open>
  C7. \<open>ARRAY_APPEND\<close> never fails and appends: whatever was in the array stays, the value
  comes last, the capacity covers the length and no cell below the length is indeterminate.
  \<open>ARRAY_CLEAR\<close> and \<open>ARRAY_FREE\<close> leave an empty array.
\<close>

theorem array_append_appends:
  assumes "garray_inv a" and "length (garray_contents a) < 2 ^ 63"
  shows "(\<exists>a'. array_append z a v = Some a' \<and> garray_inv a'
      \<and> garray_contents a' = garray_contents a @ [v])
    \<and> garray_contents (array_clear a) = [] \<and> garray_inv (array_clear a)
    \<and> garray_contents (array_free a) = [] \<and> garray_inv (array_free a)"
  using garray.append [OF assms] garray.clear [OF assms(1)]
  by (simp add: array_free_def garray_inv_def garray_contents_def cells_def)

theorem array_append_appends_witness:
  "(\<exists>a'. array_append 0 (array_define :: nat garray) 7 = Some a' \<and> garray_inv a'
      \<and> garray_contents a' = garray_contents array_define @ [7])
    \<and> garray_contents (array_clear (array_define :: nat garray)) = []
    \<and> garray_inv (array_clear (array_define :: nat garray))
    \<and> garray_contents (array_free (array_define :: nat garray)) = []
    \<and> garray_inv (array_free (array_define :: nat garray))"
  by (rule array_append_appends) (simp_all add: garray.empty)

end
