(* ===== verification/Sorting_Arrays.thy ===== *)
theory Sorting_Arrays
  imports Prelude
begin

text \<open>
  The generic array algorithms of \<open>src/support/array.h\<close>: binary search (\<open>searchsorted\<close>), the
  bottom-up merge sort of an index array (\<open>argsort\<close>), the in-place permutation by cycle leaders
  (\<open>argpermute\<close>) and the extremes (\<open>argmaxmin\<close>, \<open>maxmin\<close>).

  An array is the list of its elements; \<open>h\<close> is the \<open>hash\<close> callback that extracts the key of an
  element (the identity stands for a null pointer), \<open>cmp\<close> the comparison callback. The
  pointer arithmetic \<open>array + mid * bsize\<close> of the recursive calls is \<open>drop mid\<close>.

  The locale \<open>key_order\<close> is the contract of a comparison callback (a total preorder given by
  signs); the correctness of the algorithms is proved inside it. It is interpreted on
  the comparison that all callbacks of the program are written with.
\<close>

section \<open>Comparison callbacks\<close>

text \<open>\<open>(d1 > d2) - (d2 > d1)\<close>\<close>

definition three_way :: "'a::linorder \<Rightarrow> 'a \<Rightarrow> int" where
  "three_way d1 d2 = of_bool (d2 < d1) - of_bool (d1 < d2)"

lemma three_way_simps [simp]:
  "three_way a b < 0 \<longleftrightarrow> a < b" "0 < three_way a b \<longleftrightarrow> b < a"
  "three_way a b \<le> 0 \<longleftrightarrow> a \<le> b" "0 \<le> three_way a b \<longleftrightarrow> b \<le> a" "three_way a b = 0 \<longleftrightarrow> a = b"
  by (auto simp: three_way_def)

section \<open>searchsorted\<close>

definition SEARCH_DIR_LEFT :: int where "SEARCH_DIR_LEFT = -1"
definition SEARCH_DIR_RIGHT :: int where "SEARCH_DIR_RIGHT = 1"

text \<open>The two tests the function repeats: \<open>c\<close> is the result of the comparison callback.\<close>

definition goes_left :: "int \<Rightarrow> int \<Rightarrow> bool" where
  "goes_left flag c \<longleftrightarrow> c < 0 \<or> (flag = SEARCH_DIR_LEFT \<and> c = 0)"

definition goes_right :: "int \<Rightarrow> int \<Rightarrow> bool" where
  "goes_right flag c \<longleftrightarrow> 0 < c \<or> (flag = SEARCH_DIR_RIGHT \<and> c = 0)"

function searchsorted ::
    "('k \<Rightarrow> 'k \<Rightarrow> int) \<Rightarrow> ('e \<Rightarrow> 'k) \<Rightarrow> int \<Rightarrow> 'k \<Rightarrow> 'e list \<Rightarrow> nat res" where
  "searchsorted cmp h flag key xs =
     (let nmemb = length xs; mid = nmemb div 2 in
      if nmemb = 0 then Inl Out_of_bounds
      else if goes_left flag (cmp key (h (xs ! 0))) then Inr 0
      else if goes_right flag (cmp key (h (xs ! (nmemb - 1)))) then Inr nmemb
      else if goes_right flag (cmp key (h (xs ! mid)))
      then rbind (searchsorted cmp h flag key (drop mid xs)) (\<lambda>r. Inr (r + mid))
      else if goes_left flag (cmp key (h (xs ! mid)))
      then searchsorted cmp h flag key (take mid xs)
      else Inl Abort)"
  by pat_completeness auto
termination
proof (relation "measure (\<lambda>(cmp, h, flag, key, xs). length xs)", goal_cases)
  case (2 cmp h flag key xs nmemb mid)
  have "length xs \<noteq> 1" using 2 by auto
  moreover have "length xs \<noteq> 0" using 2 by auto
  ultimately have "0 < length xs div 2" by linarith
  with 2 show ?case by simp
next
  case (3 cmp h flag key xs nmemb mid)
  then show ?case by simp
qed simp

section \<open>argmaxmin and maxmin\<close>

text \<open>
  The loop of \<open>argmaxmin\<close> keeps, for each result pointer that is not null, the index and the
  key of the extreme element so far. The outer \<open>None\<close> stands for a null result pointer.
\<close>

definition maxmin_step ::
    "('k \<Rightarrow> 'k \<Rightarrow> int) \<Rightarrow> nat \<times> 'k \<Rightarrow> (nat \<times> 'k) option \<times> (nat \<times> 'k) option
      \<Rightarrow> (nat \<times> 'k) option \<times> (nat \<times> 'k) option" where
  "maxmin_step cmp = (\<lambda>(i, key) (mx, mn).
     (map_option (\<lambda>(a, k). if 0 < cmp key k then (i, key) else (a, k)) mx,
      map_option (\<lambda>(a, k). if cmp key k < 0 then (i, key) else (a, k)) mn))"

definition argmaxmin ::
    "('k \<Rightarrow> 'k \<Rightarrow> int) \<Rightarrow> ('e \<Rightarrow> 'k) \<Rightarrow> 'e list \<Rightarrow> bool \<Rightarrow> bool \<Rightarrow> int option \<times> int option" where
  "argmaxmin cmp h xs want_max want_min =
     (if length xs = 0 then
        (if want_max then Some (-1) else None, if want_min then Some (-1) else None)
      else
        let first = (\<lambda>want. if want then Some (0, h (xs ! 0)) else None);
            (mx, mn) = fold (maxmin_step cmp) (map (\<lambda>i. (i, h (xs ! i))) [1..<length xs])
              (first want_max, first want_min)
        in (map_option (\<lambda>(a, k). int a) mx, map_option (\<lambda>(a, k). int a) mn))"

definition maxmin ::
    "('k \<Rightarrow> 'k \<Rightarrow> int) \<Rightarrow> ('e \<Rightarrow> 'k) \<Rightarrow> 'e list \<Rightarrow> 'k option \<Rightarrow> 'k option \<Rightarrow> 'k option \<times> 'k option" where
  "maxmin cmp h xs mx mn =
     (if length xs = 0 then (mx, mn)
      else case argmaxmin cmp h xs True True of
        (Some argmax, Some argmin) \<Rightarrow>
          (map_option (\<lambda>_. h (xs ! nat argmax)) mx, map_option (\<lambda>_. h (xs ! nat argmin)) mn)
      | _ \<Rightarrow> (mx, mn))"

section \<open>argsort\<close>

text \<open>
  \<open>le a b\<close> is \<open>keycmp(k0, k1) <= 0\<close> for the elements with the indices \<open>a\<close> and \<open>b\<close>. The pointers
  \<open>A\<close> and \<open>B\<close> alternate between the result array \<open>arg\<close> and the buffer \<open>argb\<close>; the flag says
  whether \<open>A\<close> points to \<open>arg\<close>. The loop guards \<open>0 < width\<close> always hold (\<open>width\<close> starts at 1).
\<close>

function presort_swaps :: "nat \<Rightarrow> nat \<Rightarrow> bool \<Rightarrow> bool" where
  "presort_swaps width n a_is_arg =
     (if width < n \<and> 0 < width then presort_swaps (2 * width) n (\<not> a_is_arg) else a_is_arg)"
  by pat_completeness auto
termination by (relation "measure (\<lambda>(width, n, f). n - width)") auto

function merge_run ::
    "(nat \<Rightarrow> nat \<Rightarrow> bool) \<Rightarrow> nat list \<Rightarrow> nat list \<Rightarrow> nat \<Rightarrow> nat \<Rightarrow> nat \<Rightarrow> nat \<Rightarrow> nat \<Rightarrow> nat list" where
  "merge_run le A B i0 pivot i1 en j =
     (if j < en then
        if i0 < pivot \<and> (en \<le> i1 \<or> le (A ! i0) (A ! i1))
        then merge_run le A (B[j := A ! i0]) (Suc i0) pivot i1 en (Suc j)
        else merge_run le A (B[j := A ! i1]) i0 pivot (Suc i1) en (Suc j)
      else B)"
  by pat_completeness auto
termination by (relation "measure (\<lambda>(le, A, B, i0, pivot, i1, en, j). en - j)") auto

function merge_blocks ::
    "(nat \<Rightarrow> nat \<Rightarrow> bool) \<Rightarrow> nat list \<Rightarrow> nat list \<Rightarrow> nat \<Rightarrow> nat \<Rightarrow> nat \<Rightarrow> nat list" where
  "merge_blocks le A B width n i =
     (if i < n \<and> 0 < width then
        let pivot = (if i + width < n then i + width else n);
            en = (if i + 2 * width < n then i + 2 * width else n)
        in merge_blocks le A (merge_run le A B i pivot pivot en i) width n (i + 2 * width)
      else B)"
  by pat_completeness auto
termination by (relation "measure (\<lambda>(le, A, B, width, n, i). n - i)") auto

function sort_passes ::
    "(nat \<Rightarrow> nat \<Rightarrow> bool) \<Rightarrow> nat \<Rightarrow> nat \<Rightarrow> nat list \<times> nat list \<times> bool
      \<Rightarrow> nat list \<times> nat list \<times> bool" where
  "sort_passes le width n (A, B, a_is_arg) =
     (if width < n \<and> 0 < width then
        sort_passes le (2 * width) n (merge_blocks le A B width n 0, A, \<not> a_is_arg)
      else (A, B, a_is_arg))"
  by pat_completeness auto
termination by (relation "measure (\<lambda>(le, width, n, s). n - width)") auto

definition argsort ::
    "('k \<Rightarrow> 'k \<Rightarrow> int) \<Rightarrow> ('e \<Rightarrow> 'k) \<Rightarrow> 'e list \<Rightarrow> nat list \<Rightarrow> nat list \<Rightarrow> nat list" where
  "argsort cmp h xs arg argb =
     (let n = length xs;
          a_is_arg = presort_swaps 1 n True;
          (A, B) = (if a_is_arg then (arg, argb) else (argb, arg));
          A = fold (\<lambda>i A. A[i := i]) [0..<n] A;
          (A, B, a_is_arg) =
            sort_passes (\<lambda>a b. cmp (h (xs ! a)) (h (xs ! b)) \<le> 0) 1 n (A, B, a_is_arg)
      in if a_is_arg then A else B)"

section \<open>argpermute\<close>

text \<open>
  Both \<open>while\<close> loops follow \<open>p\<close>; they need not end when \<open>p\<close> is not a permutation, so they are
  partial. \<open>target\<close> is \<open>None\<close> for a null pointer or the array itself.
\<close>

partial_function (option) leader_walk :: "nat list \<Rightarrow> nat \<Rightarrow> nat \<Rightarrow> nat option" where
  "leader_walk p i k = (if i < k then leader_walk p i (p ! k) else Some k)"

partial_function (option) cycle_shift ::
    "nat list \<Rightarrow> nat \<Rightarrow> 'a list \<Rightarrow> nat \<Rightarrow> nat \<Rightarrow> ('a list \<times> nat) option" where
  "cycle_shift p i arr k pk =
     (if pk \<noteq> i then cycle_shift p i (arr[k := arr ! pk]) pk (p ! pk) else Some (arr, k))"

definition permute_at :: "nat list \<Rightarrow> 'a list \<Rightarrow> nat \<Rightarrow> 'a list option" where
  "permute_at p arr i =
     (case leader_walk p i (p ! i) of
        None \<Rightarrow> None
      | Some k \<Rightarrow>
          if k < i then Some arr
          else if p ! k = i then Some arr
          else let t = arr ! i in
            (case cycle_shift p i arr k (p ! k) of
               None \<Rightarrow> None
             | Some (arr, k) \<Rightarrow> Some (arr[k := t])))"

fun permute_loop :: "nat list \<Rightarrow> nat list \<Rightarrow> 'a list \<Rightarrow> 'a list option" where
  "permute_loop p [] arr = Some arr"
| "permute_loop p (i # is) arr =
     (case permute_at p arr i of None \<Rightarrow> None | Some arr' \<Rightarrow> permute_loop p is arr')"

definition argpermute ::
    "'a list \<Rightarrow> 'a list option \<Rightarrow> nat list \<Rightarrow> ('a list \<times> 'a list option) option" where
  "argpermute arr target p =
     (let n = length arr;
          target' = map_option (\<lambda>t. fold (\<lambda>i t. t[i := arr ! (p ! i)]) [0..<n] t) target
      in map_option (\<lambda>arr'. (arr', target')) (permute_loop p [0..<n] arr))"

declare searchsorted.simps [simp del] presort_swaps.simps [simp del] merge_run.simps [simp del]
  merge_blocks.simps [simp del] sort_passes.simps [simp del]

section \<open>The contract of a comparison callback\<close>

locale key_order =
  fixes cmp :: "'k \<Rightarrow> 'k \<Rightarrow> int"
  assumes swap: "0 < cmp a b \<longleftrightarrow> cmp b a < 0"
    and trans: "cmp a b \<le> 0 \<Longrightarrow> cmp b c \<le> 0 \<Longrightarrow> cmp a c \<le> 0"
begin

lemma refl [simp]: "cmp a a = 0"
  using swap [of a a] by linarith

lemma total: "cmp a b \<le> 0 \<or> cmp b a \<le> 0"
  using swap [of a b] by linarith

lemma zero_sym: "cmp a b = 0 \<longleftrightarrow> cmp b a = 0"
  using swap [of a b] swap [of b a] by linarith

lemma le_less_trans: "cmp a b \<le> 0 \<Longrightarrow> cmp b c < 0 \<Longrightarrow> cmp a c < 0"
  using trans [of c a b] swap [of c b] swap [of c a] swap [of a c] by linarith

lemma less_le_trans: "cmp a b < 0 \<Longrightarrow> cmp b c \<le> 0 \<Longrightarrow> cmp a c < 0"
  using trans [of b c a] swap [of b a] swap [of c a] swap [of a c] by linarith

definition sorted_keys :: "'k list \<Rightarrow> bool" where
  "sorted_keys ks \<longleftrightarrow> sorted_wrt (\<lambda>a b. cmp a b \<le> 0) ks"

lemma sorted_keysD: "sorted_keys ks \<Longrightarrow> i \<le> j \<Longrightarrow> j < length ks \<Longrightarrow> cmp (ks ! i) (ks ! j) \<le> 0"
  unfolding sorted_keys_def sorted_wrt_iff_nth_less by (cases "i = j") auto

text \<open>The position \<open>searchsorted\<close> has to find, for either direction.\<close>

definition cut :: "int \<Rightarrow> 'k \<Rightarrow> 'k list \<Rightarrow> nat \<Rightarrow> bool" where
  "cut flag key ks r \<longleftrightarrow> r \<le> length ks \<and>
     (if flag = SEARCH_DIR_LEFT
      then (\<forall>i < r. cmp (ks ! i) key < 0) \<and> (\<forall>i. r \<le> i \<and> i < length ks \<longrightarrow> cmp key (ks ! i) \<le> 0)
      else (\<forall>i < r. cmp (ks ! i) key \<le> 0) \<and> (\<forall>i. r \<le> i \<and> i < length ks \<longrightarrow> cmp key (ks ! i) < 0))"

lemma sorted_keys_drop: "sorted_keys ks \<Longrightarrow> sorted_keys (drop n ks)"
  by (simp add: sorted_keys_def sorted_wrt_drop)

lemma sorted_keys_take: "sorted_keys ks \<Longrightarrow> sorted_keys (take n ks)"
  by (simp add: sorted_keys_def sorted_wrt_take)

lemma cut_first:
  assumes "sorted_keys ks" and "ks \<noteq> []" and "flag = SEARCH_DIR_LEFT \<or> flag = SEARCH_DIR_RIGHT"
    and "cmp key (ks ! 0) < 0 \<or> (flag = SEARCH_DIR_LEFT \<and> cmp key (ks ! 0) = 0)"
  shows "cut flag key ks 0"
  using assms sorted_keysD [OF assms(1), of 0] trans [of key "ks ! 0"] less_le_trans [of key "ks ! 0"]
  by (auto simp: cut_def SEARCH_DIR_LEFT_def SEARCH_DIR_RIGHT_def)

lemma cut_last:
  assumes "sorted_keys ks" and "ks \<noteq> []" and "flag = SEARCH_DIR_LEFT \<or> flag = SEARCH_DIR_RIGHT"
    and "0 < cmp key (ks ! (length ks - 1)) \<or> (flag = SEARCH_DIR_RIGHT \<and> cmp key (ks ! (length ks - 1)) = 0)"
  shows "cut flag key ks (length ks)"
proof -
  let ?l = "ks ! (length ks - 1)"
  have "cmp (ks ! i) ?l \<le> 0" if "i < length ks" for i
    using sorted_keysD [OF assms(1), of i "length ks - 1"] that by simp
  moreover have "cmp ?l key < 0 \<or> (flag = SEARCH_DIR_RIGHT \<and> cmp ?l key = 0)"
    using assms(4) swap [of key ?l] zero_sym [of key ?l] by blast
  ultimately show ?thesis
    using assms(3) le_less_trans [of _ ?l key] trans [of _ ?l key]
    by (auto simp: cut_def SEARCH_DIR_LEFT_def SEARCH_DIR_RIGHT_def)
qed

lemma cut_drop:
  assumes s: "sorted_keys ks" and m: "m < length ks"
    and f: "flag = SEARCH_DIR_LEFT \<or> flag = SEARCH_DIR_RIGHT"
    and c: "0 < cmp key (ks ! m) \<or> (flag = SEARCH_DIR_RIGHT \<and> cmp key (ks ! m) = 0)"
    and r: "cut flag key (drop m ks) r"
  shows "cut flag key ks (r + m)"
proof -
  have lo: "cmp (ks ! i) (ks ! m) \<le> 0" if "i < m" for i
    using sorted_keysD [OF s, of i m] that m by simp
  have c': "cmp (ks ! m) key < 0 \<or> (flag = SEARCH_DIR_RIGHT \<and> cmp (ks ! m) key = 0)"
    using c swap [of key "ks ! m"] zero_sym [of key "ks ! m"] by blast
  have *: "if flag = SEARCH_DIR_LEFT then cmp (ks ! i) key < 0 else cmp (ks ! i) key \<le> 0" if "i < r + m" for i
  proof (cases "i < m")
    case True
    then show ?thesis
      using lo c' f le_less_trans [of "ks ! i" "ks ! m" key] trans [of "ks ! i" "ks ! m" key]
      by (auto simp: SEARCH_DIR_LEFT_def SEARCH_DIR_RIGHT_def)
  next
    case False
    then have "ks ! i = drop m ks ! (i - m)" "i - m < r" using that m by auto
    then show ?thesis using r by (auto simp: cut_def)
  qed
  have **: "if flag = SEARCH_DIR_LEFT then cmp key (ks ! i) \<le> 0 else cmp key (ks ! i) < 0"
    if "r + m \<le> i" "i < length ks" for i
  proof -
    have "ks ! i = drop m ks ! (i - m)" "r \<le> i - m" "i - m < length (drop m ks)" using that m by auto
    then show ?thesis using r by (auto simp: cut_def)
  qed
  show ?thesis using * ** r m by (auto simp: cut_def)
qed

lemma cut_take:
  assumes s: "sorted_keys ks" and m: "m < length ks"
    and f: "flag = SEARCH_DIR_LEFT \<or> flag = SEARCH_DIR_RIGHT"
    and c: "cmp key (ks ! m) < 0 \<or> (flag = SEARCH_DIR_LEFT \<and> cmp key (ks ! m) = 0)"
    and r: "cut flag key (take m ks) r"
  shows "cut flag key ks r"
proof -
  have hi: "cmp (ks ! m) (ks ! i) \<le> 0" if "m \<le> i" "i < length ks" for i
    using sorted_keysD [OF s that] .
  have "if flag = SEARCH_DIR_LEFT then cmp key (ks ! i) \<le> 0 else cmp key (ks ! i) < 0"
    if "r \<le> i" "i < length ks" for i
  proof (cases "i < m")
    case True
    then show ?thesis using r that m by (auto simp: cut_def)
  next
    case False
    then show ?thesis
      using hi [of i] that c f less_le_trans [of key "ks ! m" "ks ! i"] trans [of key "ks ! m" "ks ! i"]
      by (auto simp: SEARCH_DIR_LEFT_def SEARCH_DIR_RIGHT_def)
  qed
  then show ?thesis using r m by (auto simp: cut_def)
qed

lemma searchsorted_cut:
  "sorted_keys (map h xs) \<Longrightarrow> xs \<noteq> [] \<Longrightarrow> flag = SEARCH_DIR_LEFT \<or> flag = SEARCH_DIR_RIGHT \<Longrightarrow>
   \<exists>r. searchsorted cmp h flag key xs = Inr r \<and> cut flag key (map h xs) r"
proof (induction "length xs" arbitrary: xs rule: less_induct)
  case less
  define n where "n = length xs"
  define m where "m = n div 2"
  have n0: "n \<noteq> 0" using less.prems by (simp add: n_def)
  have map0: "map h xs ! i = h (xs ! i)" if "i < n" for i using that by (simp add: n_def)
  let ?c = "\<lambda>i. cmp key (h (xs ! i))"
  consider (first) "goes_left flag (?c 0)" | (last) "\<not> goes_left flag (?c 0)" "goes_right flag (?c (n - 1))"
  | (inner) "\<not> goes_left flag (?c 0)" "\<not> goes_right flag (?c (n - 1))"
    by blast
  then show ?case
  proof cases
    case first
    have "cut flag key (map h xs) 0"
      using less.prems first n0 by (intro cut_first) (simp_all add: map0 goes_left_def)
    moreover have "searchsorted cmp h flag key xs = Inr 0"
      using first n0 by (subst searchsorted.simps) (simp add: Let_def n_def)
    ultimately show ?thesis by blast
  next
    case last
    have "cut flag key (map h xs) (length (map h xs))"
      using less.prems last n0
      by (intro cut_last) (simp_all add: map0 goes_right_def flip: n_def)
    moreover have "searchsorted cmp h flag key xs = Inr n"
      using last n0 by (subst searchsorted.simps) (simp add: Let_def n_def)
    ultimately show ?thesis by (auto simp: n_def)
  next
    case inner
    have "n \<noteq> 1" using inner less.prems(3) by (auto simp: goes_left_def goes_right_def)
    with n0 have m: "0 < m" "m < n" by (auto simp: m_def)
    show ?thesis
    proof (cases "goes_right flag (?c m)")
      case True
      obtain r where r: "searchsorted cmp h flag key (drop m xs) = Inr r"
        "cut flag key (map h (drop m xs)) r"
        using less.hyps [of "drop m xs"] less.prems m
        by (auto simp: n_def drop_map [symmetric] sorted_keys_drop)
      have "cut flag key (map h xs) (r + m)"
        using less.prems True m r(2)
        by (intro cut_drop) (simp_all add: map0 drop_map goes_right_def flip: n_def)
      moreover have "searchsorted cmp h flag key xs = Inr (r + m)"
        using inner True n0 r(1)
        by (subst searchsorted.simps) (simp add: Let_def n_def m_def)
      ultimately show ?thesis by blast
    next
      case False
      then have left: "goes_left flag (?c m)"
        using less.prems(3) by (auto simp: goes_left_def goes_right_def)
      obtain r where r: "searchsorted cmp h flag key (take m xs) = Inr r"
        "cut flag key (map h (take m xs)) r"
        using less.hyps [of "take m xs"] less.prems m
        by (auto simp: n_def take_map [symmetric] sorted_keys_take)
      have "cut flag key (map h xs) r"
      proof (rule cut_take [OF less.prems(1) _ less.prems(3)])
        show "m < length (map h xs)" using m(2) by (simp add: n_def)
        show "cmp key (map h xs ! m) < 0 \<or> flag = SEARCH_DIR_LEFT \<and> cmp key (map h xs ! m) = 0"
          using left unfolding goes_left_def map0 [OF m(2)] .
        show "cut flag key (take m (map h xs)) r" using r(2) by (simp only: take_map)
      qed
      moreover have "searchsorted cmp h flag key xs = Inr r"
        using inner False left n0 r(1)
        by (subst searchsorted.simps) (simp add: Let_def n_def m_def)
      ultimately show ?thesis by blast
    qed
  qed
qed

end

context key_order
begin

text \<open>\<open>argmaxmin\<close> keeps the first of several equal extremes.\<close>

definition max_so_far :: "'k list \<Rightarrow> nat \<Rightarrow> nat \<times> 'k \<Rightarrow> bool" where
  "max_so_far ks n = (\<lambda>(a, k). a < n \<and> k = ks ! a \<and> (\<forall>i < n. cmp (ks ! i) k \<le> 0)
     \<and> (\<forall>i < a. cmp (ks ! i) k < 0))"

definition min_so_far :: "'k list \<Rightarrow> nat \<Rightarrow> nat \<times> 'k \<Rightarrow> bool" where
  "min_so_far ks n = (\<lambda>(a, k). a < n \<and> k = ks ! a \<and> (\<forall>i < n. cmp k (ks ! i) \<le> 0)
     \<and> (\<forall>i < a. cmp k (ks ! i) < 0))"

lemma so_farD:
  "max_so_far ks n (a, k) \<Longrightarrow> a < n" "max_so_far ks n (a, k) \<Longrightarrow> i < n \<Longrightarrow> cmp (ks ! i) k \<le> 0"
  "min_so_far ks n (a, k) \<Longrightarrow> a < n" "min_so_far ks n (a, k) \<Longrightarrow> i < n \<Longrightarrow> cmp k (ks ! i) \<le> 0"
  "max_so_far ks n (a, k) \<Longrightarrow> i < a \<Longrightarrow> cmp (ks ! i) k < 0"
  "min_so_far ks n (a, k) \<Longrightarrow> i < a \<Longrightarrow> cmp k (ks ! i) < 0"
  by (auto simp: max_so_far_def min_so_far_def)

lemma maxmin_step_so_far:
  assumes "pred_option (max_so_far ks n) mx" and "pred_option (min_so_far ks n) mn"
    and "maxmin_step cmp (n, ks ! n) (mx, mn) = (mx', mn')"
  shows "pred_option (max_so_far ks (Suc n)) mx' \<and> pred_option (min_so_far ks (Suc n)) mn'
    \<and> (mx' = None \<longleftrightarrow> mx = None) \<and> (mn' = None \<longleftrightarrow> mn = None)"
proof -
  have "max_so_far ks (Suc n) (if 0 < cmp (ks ! n) k then (n, ks ! n) else (a, k))"
    if "max_so_far ks n (a, k)" for a k
  proof (cases "0 < cmp (ks ! n) k")
    case True
    then have "cmp k (ks ! n) < 0" using swap by blast
    then show ?thesis
      using that True le_less_trans [of _ k "ks ! n"]
      by (auto simp: max_so_far_def less_Suc_eq less_imp_le)
  next
    case False
    then show ?thesis using that by (auto simp: max_so_far_def less_Suc_eq)
  qed
  moreover have "min_so_far ks (Suc n) (if cmp (ks ! n) k < 0 then (n, ks ! n) else (a, k))"
    if "min_so_far ks n (a, k)" for a k
  proof (cases "cmp (ks ! n) k < 0")
    case True
    then show ?thesis
      using that less_le_trans [of "ks ! n" k]
      by (auto simp: min_so_far_def less_Suc_eq less_imp_le)
  next
    case False
    then have "cmp k (ks ! n) \<le> 0" using swap [of k "ks ! n"] by linarith
    then show ?thesis using that False by (auto simp: min_so_far_def less_Suc_eq)
  qed
  ultimately show ?thesis
    using assms by (cases mx; cases mn) (auto simp: maxmin_step_def split: prod.splits)
qed

lemma maxmin_fold_so_far:
  assumes "0 < n" and "fold (maxmin_step cmp) (map (\<lambda>i. (i, ks ! i)) [1..<n]) (mx, mn) = (mx', mn')"
    and "pred_option (max_so_far ks 1) mx" and "pred_option (min_so_far ks 1) mn"
  shows "pred_option (max_so_far ks n) mx' \<and> pred_option (min_so_far ks n) mn'
    \<and> (mx' = None \<longleftrightarrow> mx = None) \<and> (mn' = None \<longleftrightarrow> mn = None)"
  using assms
proof (induction n arbitrary: mx' mn')
  case (Suc n)
  show ?case
  proof (cases "n = 0")
    case True
    with Suc.prems show ?thesis by simp
  next
    case False
    obtain a b where ab: "fold (maxmin_step cmp) (map (\<lambda>i. (i, ks ! i)) [1..<n]) (mx, mn) = (a, b)"
      by fastforce
    then have "maxmin_step cmp (n, ks ! n) (a, b) = (mx', mn')" using Suc.prems(2) False by simp
    with maxmin_step_so_far Suc.IH [OF _ ab] Suc.prems(3,4) False show ?thesis by blast
  qed
qed simp

lemma map_indexed_upt: "n \<le> length xs \<Longrightarrow>
    map (\<lambda>i. (i, h (xs ! i))) [m..<n] = map (\<lambda>i. (i, map h xs ! i)) [m..<n]"
  by auto

lemma argmaxmin_first_extremes:
  assumes "xs \<noteq> []"
  shows "\<exists>a b. argmaxmin cmp h xs True True = (Some (int a), Some (int b))
    \<and> max_so_far (map h xs) (length xs) (a, h (xs ! a))
    \<and> min_so_far (map h xs) (length xs) (b, h (xs ! b))"
proof -
  let ?ks = "map h xs" and ?f = "Some (0, h (xs ! 0))"
  obtain mx mn where f: "fold (maxmin_step cmp) (map (\<lambda>i. (i, h (xs ! i))) [1..<length xs]) (?f, ?f) = (mx, mn)"
    by fastforce
  have "pred_option (max_so_far ?ks 1) ?f" "pred_option (min_so_far ?ks 1) ?f"
    using assms by (auto simp: max_so_far_def min_so_far_def)
  with maxmin_fold_so_far [OF _ f [unfolded map_indexed_upt [OF order_refl]]] assms
  have *: "pred_option (max_so_far ?ks (length xs)) mx" "pred_option (min_so_far ?ks (length xs)) mn"
    "mx \<noteq> None" "mn \<noteq> None"
    by simp_all
  then obtain a k b l where "mx = Some (a, k)" "mn = Some (b, l)" by auto
  moreover from this * have "k = h (xs ! a)" "l = h (xs ! b)"
    by (auto simp: max_so_far_def min_so_far_def)
  ultimately show ?thesis
    using * f assms by (auto simp: argmaxmin_def Let_def)
qed

lemma maxmin_extremes:
  assumes "xs \<noteq> []" and "maxmin cmp h xs (Some u) (Some v) = (mx, mn)"
  shows "\<exists>a b. mx = Some a \<and> mn = Some b \<and> a \<in> h ` set xs \<and> b \<in> h ` set xs
    \<and> (\<forall>k \<in> h ` set xs. cmp k a \<le> 0 \<and> cmp b k \<le> 0)"
proof -
  obtain a b where ab: "argmaxmin cmp h xs True True = (Some (int a), Some (int b))"
    "max_so_far (map h xs) (length xs) (a, h (xs ! a))"
    "min_so_far (map h xs) (length xs) (b, h (xs ! b))"
    using argmaxmin_first_extremes [OF assms(1)] by blast
  then have eq: "mx = Some (h (xs ! a))" "mn = Some (h (xs ! b))"
    using assms by (simp_all add: maxmin_def)
  have "a < length xs" "b < length xs"
    "\<forall>i < length xs. cmp (h (xs ! i)) (h (xs ! a)) \<le> 0"
    "\<forall>i < length xs. cmp (h (xs ! b)) (h (xs ! i)) \<le> 0"
    using so_farD(1,2) [OF ab(2)] so_farD(3,4) [OF ab(3)] by (simp_all add: nth_map [symmetric] del: nth_map)
  then have "\<forall>x \<in> set xs. cmp (h x) (h (xs ! a)) \<le> 0 \<and> cmp (h (xs ! b)) (h x) \<le> 0"
    "xs ! a \<in> set xs" "xs ! b \<in> set xs"
    by (metis in_set_conv_nth, simp_all)
  then show ?thesis unfolding eq by blast
qed

end

section \<open>Merging\<close>

fun mrg :: "('a \<Rightarrow> 'a \<Rightarrow> bool) \<Rightarrow> 'a list \<Rightarrow> 'a list \<Rightarrow> 'a list" where
  "mrg le [] ys = ys"
| "mrg le (x # xs) [] = x # xs"
| "mrg le (x # xs) (y # ys) =
     (if le x y then x # mrg le xs (y # ys) else y # mrg le (x # xs) ys)"

definition seg :: "'a list \<Rightarrow> nat \<Rightarrow> nat \<Rightarrow> 'a list" where
  "seg xs a b = drop a (take b xs)"

lemma mrg_Nil2 [simp]: "mrg le xs [] = xs"
  by (cases xs) simp_all

lemma mset_mrg [simp]: "mset (mrg le xs ys) = mset xs + mset ys"
  by (induction le xs ys rule: mrg.induct) simp_all

lemma set_mrg [simp]: "set (mrg le xs ys) = set xs \<union> set ys"
  by (simp flip: set_mset_mset)

lemma length_mrg [simp]: "length (mrg le xs ys) = length xs + length ys"
  by (simp flip: size_mset)

lemma sorted_mrg:
  assumes "transp R" and "sorted_wrt R xs" and "sorted_wrt R ys"
    and "\<And>x y. x \<in> set xs \<Longrightarrow> y \<in> set ys \<Longrightarrow> if le x y then R x y else R y x"
  shows "sorted_wrt R (mrg le xs ys)"
  using assms(2-)
proof (induction le xs ys rule: mrg.induct)
  case (3 le x xs y ys)
  show ?case
  proof (cases "le x y")
    case True
    then have "R x y" using "3.prems"(3) [of x y] by simp
    then have "\<forall>z \<in> set ys. R x z" using "3.prems"(2) transpD [OF assms(1)] by auto
    with True \<open>R x y\<close> 3 show ?thesis by auto
  next
    case False
    then have "R y x" using "3.prems"(3) [of x y] by simp
    then have "\<forall>z \<in> set xs. R y z" using "3.prems"(1) transpD [OF assms(1)] by auto
    with False \<open>R y x\<close> 3 show ?thesis by auto
  qed
qed auto

lemma length_seg [simp]: "b \<le> length xs \<Longrightarrow> length (seg xs a b) = b - a"
  by (simp add: seg_def)

lemma seg_empty [simp]: "b \<le> a \<Longrightarrow> seg xs a b = []"
  by (simp add: seg_def)

lemma seg_Cons: "a < b \<Longrightarrow> b \<le> length xs \<Longrightarrow> seg xs a b = xs ! a # seg xs (Suc a) b"
  by (simp add: seg_def Cons_nth_drop_Suc [symmetric])

lemma seg_update [simp]: "j < a \<or> b \<le> j \<Longrightarrow> seg (xs[j := v]) a b = seg xs a b"
  by (auto simp: seg_def take_update_swap drop_update_cancel list_update_beyond)

lemma seg_cong: "take b xs = take b ys \<Longrightarrow> seg xs a b = seg ys a b"
  by (simp add: seg_def)

lemma seg_append: "a \<le> b \<Longrightarrow> b \<le> c \<Longrightarrow> c \<le> length xs \<Longrightarrow> seg xs a b @ seg xs b c = seg xs a c"
proof -
  assume *: "a \<le> b" "b \<le> c" "c \<le> length xs"
  have "take c xs = take b xs @ drop b (take c xs)"
    using * by (metis append_take_drop_id min.absorb1 take_take)
  then have "seg xs a c = drop a (take b xs @ drop b (take c xs))" by (simp add: seg_def)
  also have "\<dots> = drop a (take b xs) @ drop b (take c xs)" using * by (subst drop_append) simp
  finally show ?thesis by (simp add: seg_def)
qed

lemma seg_all: "seg xs 0 (length xs) = xs"
  by (simp add: seg_def)

lemma mset_seg_split:
  "a \<le> b \<Longrightarrow> b \<le> c \<Longrightarrow> c \<le> length xs \<Longrightarrow> mset (seg xs a b) + mset (seg xs b c) = mset (seg xs a c)"
  using seg_append [of a b c xs] by (metis mset_append)

lemma merge_run_writes:
  assumes "i0 \<le> pivot" "i1 \<le> en" "en \<le> length A" "length B = length A" "pivot \<le> length A"
    and "(pivot - i0) + (en - i1) = en - j" "j \<le> en"
  shows "merge_run le A B i0 pivot i1 en j =
    take j B @ mrg le (seg A i0 pivot) (seg A i1 en) @ drop en B"
  using assms
proof (induction "en - j" arbitrary: B i0 i1 j)
  case 0
  then show ?case by (subst merge_run.simps) simp
next
  case (Suc m)
  then have j: "j < en" by simp
  show ?case
  proof (cases "i0 < pivot \<and> (en \<le> i1 \<or> le (A ! i0) (A ! i1))")
    case True
    have "merge_run le A (B[j := A ! i0]) (Suc i0) pivot i1 en (Suc j) =
      take (Suc j) (B[j := A ! i0]) @ mrg le (seg A (Suc i0) pivot) (seg A i1 en) @ drop en (B[j := A ! i0])"
      using Suc True by (intro Suc.hyps(1)) auto
    moreover have "mrg le (seg A i0 pivot) (seg A i1 en) = A ! i0 # mrg le (seg A (Suc i0) pivot) (seg A i1 en)"
      using True Suc.prems by (cases "i1 < en") (auto simp: seg_Cons)
    ultimately show ?thesis
      using True j Suc.prems by (subst merge_run.simps) (simp add: take_Suc_conv_app_nth)
  next
    case False
    then have i1: "i1 < en" using Suc.prems j by auto
    have "merge_run le A (B[j := A ! i1]) i0 pivot (Suc i1) en (Suc j) =
      take (Suc j) (B[j := A ! i1]) @ mrg le (seg A i0 pivot) (seg A (Suc i1) en) @ drop en (B[j := A ! i1])"
      using Suc False i1 by (intro Suc.hyps(1)) auto
    moreover have "mrg le (seg A i0 pivot) (seg A i1 en) = A ! i1 # mrg le (seg A i0 pivot) (seg A (Suc i1) en)"
      using False Suc.prems i1 by (cases "i0 < pivot") (auto simp: seg_Cons)
    ultimately show ?thesis
      using False j Suc.prems by (subst merge_run.simps) (auto simp: take_Suc_conv_app_nth)
  qed
qed

text \<open>The passes: after a pass of width \<open>w\<close> every block of \<open>2 * w\<close> positions is merged.\<close>

lemma length_merge_run [simp]: "length (merge_run le A B i0 pivot i1 en j) = length B"
  by (induction le A B i0 pivot i1 en j rule: merge_run.induct) (subst merge_run.simps, auto)

abbreviation block_end :: "nat \<Rightarrow> nat \<Rightarrow> nat \<Rightarrow> nat" where
  "block_end w n k \<equiv> min n (Suc k * w)"

definition block :: "nat \<Rightarrow> nat list \<Rightarrow> nat \<Rightarrow> nat list" where
  "block w A k = seg A (k * w) (min (length A) (Suc k * w))"

lemma merge_blocks_beyond: "n \<le> i \<Longrightarrow> merge_blocks le A B w n i = B"
  by (subst merge_blocks.simps) simp

lemma merge_blocks_writes:
  assumes "0 < w" "length A = n" "length B = n" "i = 2 * w * k"
  shows "length (merge_blocks le A B w n i) = n \<and> take i (merge_blocks le A B w n i) = take i B
    \<and> (\<forall>m \<ge> k. block (2 * w) (merge_blocks le A B w n i) m
         = mrg le (block w A (2 * m)) (block w A (Suc (2 * m))))"
  using assms(3,4)
proof (induction "n - i" arbitrary: B i k rule: less_induct)
  case less
  show ?case
  proof (cases "i < n")
    case False
    have "block (2 * w) B m = mrg le (block w A (2 * m)) (block w A (Suc (2 * m)))" if "k \<le> m" for m
    proof -
      have "i \<le> 2 * w * m" unfolding less.prems(2) using that by simp
      then have "n \<le> 2 * w * m" using False by simp
      then have "n \<le> m * (2 * w)" "n \<le> 2 * m * w" "n \<le> Suc (2 * m) * w"
        by (simp_all add: algebra_simps)
      then show ?thesis using less.prems(1) assms(2) by (simp add: block_def)
    qed
    with False less.prems(1) show ?thesis by (simp add: merge_blocks_beyond)
  next
    case True
    define pivot where "pivot = min n (i + w)"
    define en where "en = min n (i + 2 * w)"
    define B' where "B' = merge_run le A B i pivot pivot en i"
    have B': "B' = take i B @ mrg le (seg A i pivot) (seg A pivot en) @ drop en B"
      unfolding B'_def
      by (rule merge_run_writes) (use True assms(2) less.prems in \<open>auto simp: pivot_def en_def\<close>)
    have unf: "merge_blocks le A B w n i = merge_blocks le A B' w n (i + 2 * w)"
      using True assms(1) by (subst merge_blocks.simps) (auto simp: Let_def B'_def pivot_def en_def min_def)
    have lB: "length B' = n" using less.prems(1) by (simp add: B'_def)
    have IH: "length (merge_blocks le A B' w n (i + 2 * w)) = n"
      "take (i + 2 * w) (merge_blocks le A B' w n (i + 2 * w)) = take (i + 2 * w) B'"
      "\<forall>m \<ge> Suc k. block (2 * w) (merge_blocks le A B' w n (i + 2 * w)) m
         = mrg le (block w A (2 * m)) (block w A (Suc (2 * m)))"
      using less.hyps [OF _ lB, of "i + 2 * w" "Suc k"] True assms(1) less.prems(2)
      by (auto simp: algebra_simps)
    let ?M = "merge_blocks le A B w n i"
    have M: "length ?M = n" "take (i + 2 * w) ?M = take (i + 2 * w) B'"
      using IH unf by simp_all
    have len: "length (mrg le (seg A i pivot) (seg A pivot en)) = en - i"
      using True assms(2) by (auto simp: pivot_def en_def)
    have "take i ?M = take i (take (i + 2 * w) ?M)" by simp
    also have "\<dots> = take i B'" unfolding M(2) by simp
    also have "\<dots> = take i B" using True less.prems(1) by (simp add: B')
    finally have 1: "take i ?M = take i B" .
    have "block (2 * w) ?M k = seg ?M i en"
      using M(1) by (simp add: block_def en_def less.prems(2) algebra_simps)
    also have "\<dots> = seg B' i en"
      using arg_cong [OF M(2), of "take en"] by (intro seg_cong) (simp add: en_def min_def split: if_splits)
    also have "\<dots> = mrg le (seg A i pivot) (seg A pivot en)"
      using True less.prems(1) len assms(1) unfolding seg_def B' by (simp add: en_def)
    also have "seg A i pivot = block w A (2 * k)"
      unfolding block_def assms(2) less.prems(2) pivot_def by (simp add: algebra_simps)
    also have "seg A pivot en = block w A (Suc (2 * k))"
    proof (cases "i + w < n")
      case True
      then show ?thesis
        unfolding block_def assms(2) less.prems(2) pivot_def en_def by (simp add: algebra_simps)
    next
      case False
      then show ?thesis
        using assms(2) less.prems(2) unfolding block_def pivot_def en_def by (simp add: algebra_simps)
    qed
    finally have 2: "block (2 * w) ?M k = mrg le (block w A (2 * k)) (block w A (Suc (2 * k)))" .
    have 3: "\<forall>m \<ge> k. block (2 * w) ?M m = mrg le (block w A (2 * m)) (block w A (Suc (2 * m)))"
      using IH(3) 2 unfolding unf [symmetric] by (metis Suc_leI le_eq_less_or_eq)
    show ?thesis using M(1) 1 3 by blast
  qed
qed

context key_order
begin

text \<open>The order \<open>argsort\<close> establishes: by key, and by position among equal keys.\<close>

definition before :: "(nat \<Rightarrow> 'k) \<Rightarrow> nat \<Rightarrow> nat \<Rightarrow> bool" where
  "before ks i j \<longleftrightarrow> cmp (ks i) (ks j) < 0 \<or> (cmp (ks i) (ks j) = 0 \<and> i < j)"

lemma transp_before: "transp (before ks)"
proof (rule transpI)
  fix i j k assume ij: "before ks i j" and jk: "before ks j k"
  from ij jk have "cmp (ks i) (ks j) \<le> 0" "cmp (ks j) (ks k) \<le> 0" by (auto simp: before_def)
  then show "before ks i k"
    using ij jk trans [of "ks i" "ks j" "ks k"] le_less_trans [of "ks i" "ks j" "ks k"]
      less_le_trans [of "ks i" "ks j" "ks k"]
    by (auto simp: before_def)
qed

definition blocks_sorted :: "(nat \<Rightarrow> 'k) \<Rightarrow> nat \<Rightarrow> nat \<Rightarrow> nat list \<Rightarrow> bool" where
  "blocks_sorted ks n w A \<longleftrightarrow> length A = n \<and>
     (\<forall>k. sorted_wrt (before ks) (block w A k)
        \<and> mset (block w A k) = mset [k * w..<min n (Suc k * w)])"

lemma blocks_sorted_init: "blocks_sorted ks n 1 [0..<n]"
proof -
  have "block 1 [0..<n] k = [k..<min n (Suc k)]" for k
    by (auto simp: block_def seg_def take_upt)
  moreover have "[k..<min n (Suc k)] = (if k < n then [k] else [])" for k
    by (cases "k < n") (simp_all add: min_absorb2)
  ultimately show ?thesis by (auto simp: blocks_sorted_def)
qed

lemma blocks_sorted_pass:
  assumes w: "0 < w" and A: "blocks_sorted ks n w A" and B: "length B = n"
  shows "blocks_sorted ks n (2 * w)
    (merge_blocks (\<lambda>a b. cmp (ks a) (ks b) \<le> 0) A B w n 0)"
    (is "blocks_sorted _ _ _ ?M")
proof -
  let ?le = "\<lambda>a b. cmp (ks a) (ks b) \<le> 0"
  have lA: "length A = n" using A by (simp add: blocks_sorted_def)
  have M: "length ?M = n" "block (2 * w) ?M k = mrg ?le (block w A (2 * k)) (block w A (Suc (2 * k)))" for k
    using merge_blocks_writes [OF w lA B, of 0 0 ?le] by simp_all
  have srt: "sorted_wrt (before ks) (block w A k)"
    and mst: "mset (block w A k) = mset [k * w..<min n (Suc k * w)]" for k
    using A by (simp_all add: blocks_sorted_def)
  have st: "set (block w A k) = {k * w..<min n (Suc k * w)}" for k
    using mst [of k] by (metis mset_eq_setD set_upt)
  have "sorted_wrt (before ks) (block (2 * w) ?M k)" for k
    unfolding M(2)
  proof (rule sorted_mrg [OF transp_before srt srt])
    fix x y assume "x \<in> set (block w A (2 * k))" "y \<in> set (block w A (Suc (2 * k)))"
    then have "x < y" unfolding st by auto
    then show "if ?le x y then before ks x y else before ks y x"
      using swap [of "ks x" "ks y"] by (auto simp: before_def)
  qed
  moreover have "mset (block (2 * w) ?M k) = mset [k * (2 * w)..<min n (Suc k * (2 * w))]" for k
  proof -
    have "mset [a..<min n b] + mset [b..<min n c] = mset [a..<min n c]" if "a \<le> b" "b \<le> c" for a b c
    proof (cases "b \<le> n")
      case True
      then have "[a..<min n c] = [a..<b] @ [b..<min n c]"
        using that upt_add_eq_append [of a b "min n c - b"] by (simp add: min_def split: if_splits)
      with True show ?thesis by (simp add: min_absorb2)
    qed (use that in simp)
    from this [of "2 * k * w" "Suc (2 * k) * w" "Suc (Suc (2 * k)) * w"] show ?thesis
      unfolding M(2) mset_mrg mst by (simp add: algebra_simps)
  qed
  ultimately show ?thesis using M(1) by (simp add: blocks_sorted_def)
qed

lemma sort_passes_sorted:
  assumes "0 < w" "blocks_sorted ks n w A" "length B = n"
    and "sort_passes (\<lambda>a b. cmp (ks a) (ks b) \<le> 0) w n (A, B, f) = (A', B', f')"
  shows "blocks_sorted ks n (max n 1) A' \<and> length B' = n \<and> f' = presort_swaps w n f"
  using assms
proof (induction "n - w" arbitrary: w A B f rule: less_induct)
  case less
  let ?le = "\<lambda>a b. cmp (ks a) (ks b) \<le> 0"
  show ?case
  proof (cases "w < n")
    case True
    have "sort_passes ?le (2 * w) n (merge_blocks ?le A B w n 0, A, \<not> f) = (A', B', f')"
      using less.prems True by (subst (asm) sort_passes.simps) simp
    moreover have "length A = n" using less.prems(2) by (simp add: blocks_sorted_def)
    ultimately have "blocks_sorted ks n (max n 1) A' \<and> length B' = n \<and> f' = presort_swaps (2 * w) n (\<not> f)"
      using True less.prems(1,3) blocks_sorted_pass [OF less.prems(1,2,3)]
      by (intro less.hyps [of "2 * w"]) auto
    then show ?thesis using True less.prems(1) by (subst presort_swaps.simps) simp
  next
    case False
    have "block w A k = block (max n 1) A k" for k
    proof (cases k)
      case 0
      then show ?thesis using False less.prems(1,2) by (simp add: block_def blocks_sorted_def)
    next
      case (Suc j)
      then have "n \<le> k * w" "n \<le> k * max n 1" using False less.prems(1) by (auto simp: trans_le_add1)
      then show ?thesis using less.prems(2) by (simp add: block_def blocks_sorted_def)
    qed
    moreover have "mset [k * w..<min n (Suc k * w)] = mset [k * max n 1..<min n (Suc k * max n 1)]" for k
    proof (cases k)
      case 0
      then show ?thesis using False less.prems(1) by simp
    next
      case (Suc j)
      then have "n \<le> k * w" "n \<le> k * max n 1" using False less.prems(1) by (auto simp: trans_le_add1)
      then show ?thesis by simp
    qed
    ultimately have "blocks_sorted ks n (max n 1) A"
      using less.prems(2) by (simp add: blocks_sorted_def)
    moreover have "sort_passes ?le w n (A, B, f) = (A, B, f)" "presort_swaps w n f = f"
      using False by (subst sort_passes.simps presort_swaps.simps; simp)+
    ultimately show ?thesis using less.prems(3,4) by simp
  qed
qed

lemma presort_swaps_not: "presort_swaps w n (\<not> f) = (\<not> presort_swaps w n f)"
proof (induction w n f rule: presort_swaps.induct)
  case (1 w n f)
  then show ?case
    by (subst presort_swaps.simps, subst (2) presort_swaps.simps) auto
qed

lemma presort_swaps_twice: "presort_swaps w n (presort_swaps w n True)"
  by (metis presort_swaps_not)

lemma fold_fill: "length A = n \<Longrightarrow> fold (\<lambda>i A. A[i := i]) [0..<n] A = [0..<n]"
proof -
  have "length (fold (\<lambda>i A. A[i := i]) [0..<m] A) = length A \<and>
      (\<forall>i < m. fold (\<lambda>i A. A[i := i]) [0..<m] A ! i = i)" if "m \<le> length A" for m
    using that by (induction m) (auto simp: nth_list_update less_Suc_eq)
  then show "length A = n \<Longrightarrow> ?thesis" by (intro nth_equalityI) auto
qed

lemma argsort_stable_permutation:
  assumes "length arg = length xs" and "length argb = length xs" and p_def: "p = argsort cmp h xs arg argb"
  shows "mset p = mset [0..<length xs]" and "sorted_wrt (before (\<lambda>i. h (xs ! i))) p"
proof -
  let ?n = "length xs" and ?ks = "\<lambda>i. h (xs ! i)"
  define f where "f = presort_swaps 1 ?n True"
  obtain A B where AB: "(if f then (arg, argb) else (argb, arg)) = (A, B)" by fastforce
  then have len: "length A = ?n" "length B = ?n" using assms(1,2) by (auto split: if_splits)
  obtain A' B' f' where
    s: "sort_passes (\<lambda>a b. cmp (?ks a) (?ks b) \<le> 0) 1 ?n ([0..<?n], B, f) = (A', B', f')"
    by (cases "sort_passes (\<lambda>a b. cmp (?ks a) (?ks b) \<le> 0) 1 ?n ([0..<?n], B, f)") auto
  have r: "blocks_sorted ?ks ?n (max ?n 1) A'" "f'"
    using sort_passes_sorted [OF _ blocks_sorted_init len(2) s] presort_swaps_twice by (auto simp: f_def)
  have p: "p = A'"
    using AB s r(2) len unfolding p_def argsort_def Let_def f_def [symmetric] by (simp add: fold_fill)
  have "block (max ?n 1) A' 0 = A'" using r(1) by (simp add: blocks_sorted_def block_def seg_def)
  then show "mset p = mset [0..<?n]" "sorted_wrt (before ?ks) p"
    using r(1) unfolding p blocks_sorted_def
    by (metis add_0 max.cobounded1 min.absorb1 mult_0 mult_Suc nat_arith.rule0, metis)
qed

end

section \<open>Permuting in place\<close>

text \<open>\<open>orb p i m\<close> is the position reached from \<open>i\<close> after \<open>m\<close> steps along the permutation.\<close>

definition orb :: "nat list \<Rightarrow> nat \<Rightarrow> nat \<Rightarrow> nat" where
  "orb p i m = ((\<lambda>k. p ! k) ^^ m) i"

lemma orb_simps [simp]: "orb p i 0 = i" "orb p i (Suc m) = p ! orb p i m"
  by (simp_all add: orb_def)

lemma orb_add: "orb p i (a + b) = orb p (orb p i a) b"
  by (simp add: orb_def funpow_add add.commute [of a b])

lemma orb_start: "orb p (p ! i) m = p ! orb p i m"
  using orb_add [of p i 1 m] by simp

locale index_permutation =
  fixes p :: "nat list" and n :: nat
  assumes perm: "mset p = mset [0..<n]"
begin

lemma length_p: "length p = n"
  using perm by (metis length_upt minus_nat.diff_0 size_mset)

lemma p_less: "k < n \<Longrightarrow> p ! k < n"
  using perm length_p by (metis atLeast0LessThan lessThan_iff mset_eq_setD nth_mem set_upt)

lemma p_inject: "k < n \<Longrightarrow> l < n \<Longrightarrow> p ! k = p ! l \<longleftrightarrow> k = l"
  using perm length_p by (metis distinct_upt mset_eq_imp_distinct_iff nth_eq_iff_index_eq)

lemma orb_less: "i < n \<Longrightarrow> orb p i m < n"
  by (induction m) (auto intro: p_less)

lemma orb_inject: "i < n \<Longrightarrow> j < n \<Longrightarrow> orb p i m = orb p j m \<longleftrightarrow> i = j"
  by (induction m) (auto simp: p_inject orb_less)

text \<open>The length of the cycle through \<open>i\<close>.\<close>

definition period :: "nat \<Rightarrow> nat" where
  "period i = (LEAST m. 0 < m \<and> orb p i m = i)"

lemma period: "i < n \<Longrightarrow> 0 < period i \<and> orb p i (period i) = i"
proof -
  assume i: "i < n"
  have "\<not> inj_on (orb p i) {..n}"
  proof
    assume "inj_on (orb p i) {..n}"
    moreover have "orb p i ` {..n} \<subseteq> {..<n}" using orb_less [OF i] by auto
    ultimately have "card {..n} \<le> card {..<n}" by (intro card_inj_on_le) auto
    then show False by simp
  qed
  then obtain a b where ab: "a < b" "orb p i a = orb p i b"
    unfolding inj_on_def by (metis linorder_neqE_nat)
  have "orb p i b = orb p (orb p i (b - a)) a"
    using ab(1) by (simp flip: orb_add)
  then have "orb p i (b - a) = i"
    using ab(2) orb_inject [OF i orb_less [OF i]] by metis
  with ab(1) have "0 < b - a \<and> orb p i (b - a) = i" by simp
  then show ?thesis unfolding period_def by (rule LeastI)
qed

lemma period_least: "0 < m \<Longrightarrow> m < period i \<Longrightarrow> orb p i m \<noteq> i"
  using not_less_Least unfolding period_def by blast

lemma orb_mod: "i < n \<Longrightarrow> orb p i (m mod period i) = orb p i m"
proof -
  assume i: "i < n"
  have "orb p i (k * period i) = i" for k
    by (induction k) (simp_all add: orb_add period [OF i] add.commute)
  then show ?thesis
    using orb_add [of p i "(m div period i) * period i" "m mod period i"]
    by (simp add: div_mult_mod_eq)
qed

definition cyc :: "nat \<Rightarrow> nat set" where
  "cyc i = range (orb p i)"

lemma cyc_eq: "i < n \<Longrightarrow> cyc i = orb p i ` {..<period i}"
proof -
  assume i: "i < n"
  have "orb p i m \<in> orb p i ` {..<period i}" for m
    using period [OF i] by (intro image_eqI [of _ _ "m mod period i"]) (simp_all add: orb_mod [OF i])
  then show ?thesis by (auto simp: cyc_def)
qed

lemma self_cyc [simp]: "i \<in> cyc i"
  unfolding cyc_def by (metis orb_simps(1) rangeI)

lemma finite_cyc: "i < n \<Longrightarrow> finite (cyc i)"
  by (simp add: cyc_eq)

lemma cyc_sym: "i < n \<Longrightarrow> j \<in> cyc i \<Longrightarrow> cyc j = cyc i"
proof -
  assume i: "i < n" and "j \<in> cyc i"
  then obtain a where a: "a < period i" "j = orb p i a" by (auto simp: cyc_eq)
  have "orb p j m \<in> cyc i" for m by (simp add: a(2) cyc_def flip: orb_add)
  moreover have "orb p i m \<in> cyc j" for m
  proof -
    have "orb p j (period i - a) = i" using a period [OF i] by (simp flip: orb_add)
    then have "orb p i m = orb p j (period i - a + m)" by (simp add: orb_add)
    then show ?thesis by (simp add: cyc_def)
  qed
  ultimately show ?thesis by (auto simp: cyc_def)
qed

text \<open>The first loop finds the first position up to \<open>i\<close> on the cycle of \<open>i\<close>.\<close>

lemma leader_walk_from:
  assumes "i < n" "0 < m" "m \<le> period i" "\<forall>a. 0 < a \<and> a < m \<longrightarrow> i < orb p i a"
  shows "\<exists>b. m \<le> b \<and> b \<le> period i \<and> leader_walk p i (orb p i m) = Some (orb p i b)
    \<and> orb p i b \<le> i \<and> (\<forall>a. 0 < a \<and> a < b \<longrightarrow> i < orb p i a)"
  using assms(2-)
proof (induction "period i - m" arbitrary: m rule: less_induct)
  case less
  show ?case
  proof (cases "i < orb p i m")
    case False
    then show ?thesis
      using less.prems by (subst leader_walk.simps) (auto intro: exI [of _ m])
  next
    case True
    then have "m \<noteq> period i" using period [OF assms(1)] by auto
    then have lt: "m < period i" using less.prems(2) by simp
    have "\<forall>a. 0 < a \<and> a < Suc m \<longrightarrow> i < orb p i a"
      using less.prems(3) True by (auto simp: less_Suc_eq)
    moreover have "period i - Suc m < period i - m" using lt by simp
    ultimately obtain b where
      "Suc m \<le> b" "b \<le> period i" "leader_walk p i (orb p i (Suc m)) = Some (orb p i b)"
      "orb p i b \<le> i" "\<forall>a. 0 < a \<and> a < b \<longrightarrow> i < orb p i a"
      using less.hyps [of "Suc m"] lt by (metis Suc_leI zero_less_Suc)
    then show ?thesis
      using True by (subst leader_walk.simps) (auto intro!: exI [of _ b])
  qed
qed

lemma leader_walk_ends:
  assumes i: "i < n"
  shows "\<exists>k. leader_walk p i (p ! i) = Some k \<and> k \<le> i \<and> (k = i \<longleftrightarrow> (\<forall>j \<in> cyc i. i \<le> j))"
proof -
  obtain b where b: "1 \<le> b" "b \<le> period i" "leader_walk p i (p ! i) = Some (orb p i b)"
    "orb p i b \<le> i" "\<forall>a. 0 < a \<and> a < b \<longrightarrow> i < orb p i a"
    using leader_walk_from [OF i, of 1] period [OF i] by auto
  have "orb p i b = i \<longleftrightarrow> (\<forall>j \<in> cyc i. i \<le> j)"
  proof
    assume e: "orb p i b = i"
    then have "b = period i" using period_least [of b i] b(1,2) by (cases "b = period i") auto
    then show "\<forall>j \<in> cyc i. i \<le> j"
      using b(5) by (auto simp: cyc_eq [OF i]) (metis eq_refl gr0I less_imp_le orb_simps(1))
  next
    assume "\<forall>j \<in> cyc i. i \<le> j"
    then show "orb p i b = i" using b(4) by (auto simp: cyc_def intro: antisym)
  qed
  then show ?thesis using b(3,4) by blast
qed

text \<open>The second loop moves the elements of a cycle, from \<open>i\<close> on.\<close>

lemma orb_distinct: "i < n \<Longrightarrow> a < period i \<Longrightarrow> b < period i \<Longrightarrow> orb p i a = orb p i b \<Longrightarrow> a = b"
proof (induction a b rule: linorder_wlog)
  case (le a b)
  have "orb p i b = orb p (orb p i (b - a)) a" using le.hyps by (simp flip: orb_add)
  then have "orb p i (b - a) = i"
    using le.prems orb_inject [OF le.prems(1) orb_less [OF le.prems(1)]] by metis
  then show ?case using period_least [of "b - a" i] le by fastforce
qed metis

lemma cycle_shift_from:
  assumes i: "i < n" and "m < period i" and "length arr = n"
    and "\<forall>k < n. arr ! k = (if \<exists>a < m. k = orb p i a then xs ! (p ! k) else xs ! k)"
  shows "\<exists>arr'. cycle_shift p i arr (orb p i m) (p ! orb p i m) = Some (arr', orb p i (period i - 1))
    \<and> length arr' = n
    \<and> (\<forall>k < n. arr' ! k = (if \<exists>a < period i - 1. k = orb p i a then xs ! (p ! k) else xs ! k))"
  using assms(2-)
proof (induction "period i - m" arbitrary: m arr rule: less_induct)
  case less
  show ?case
  proof (cases "p ! orb p i m = i")
    case True
    then have "Suc m = period i"
      using period_least [of "Suc m" i] less.prems(1) by (cases "Suc m = period i") auto
    then have "m = period i - 1" by simp
    with True less.prems show ?thesis by (subst cycle_shift.simps) auto
  next
    case False
    then have "Suc m \<noteq> period i" using period [OF i] by (metis orb_simps(2))
    then have m: "Suc m < period i" using less.prems(1) by simp
    let ?k = "orb p i m" and ?pk = "orb p i (Suc m)"
    have kn: "?k < n" "?pk < n" using orb_less [OF i] by blast+
    have "\<not> (\<exists>a < m. ?pk = orb p i a)"
      using orb_distinct [OF i m] m by (metis Suc_lessD less_trans nat_neq_iff less_SucI)
    then have pk: "arr ! ?pk = xs ! ?pk" using less.prems(3) kn by metis
    let ?arr = "arr[?k := arr ! ?pk]"
    have "\<forall>k < n. ?arr ! k = (if \<exists>a < Suc m. k = orb p i a then xs ! (p ! k) else xs ! k)"
    proof (intro allI impI)
      fix k assume k: "k < n"
      show "?arr ! k = (if \<exists>a < Suc m. k = orb p i a then xs ! (p ! k) else xs ! k)"
      proof (cases "k = ?k")
        case True
        then show ?thesis using kn less.prems(2) pk by auto
      next
        case False
        then have "(\<exists>a < Suc m. k = orb p i a) \<longleftrightarrow> (\<exists>a < m. k = orb p i a)"
          by (auto simp: less_Suc_eq)
        then show ?thesis using False k less.prems(3) by simp
      qed
    qed
    moreover have "period i - Suc m < period i - m" using m by simp
    moreover have "length ?arr = n" using less.prems(2) by simp
    ultimately obtain arr' where "cycle_shift p i ?arr ?pk (p ! ?pk) = Some (arr', orb p i (period i - 1))"
      "length arr' = n"
      "\<forall>k < n. arr' ! k = (if \<exists>a < period i - 1. k = orb p i a then xs ! (p ! k) else xs ! k)"
      using less.hyps [of "Suc m" ?arr] m by blast
    then show ?thesis using False by (subst cycle_shift.simps) auto
  qed
qed

text \<open>After position \<open>i\<close> the cycles whose least position is at most \<open>i\<close> are done.\<close>

definition done_upto :: "'a list \<Rightarrow> nat \<Rightarrow> 'a list \<Rightarrow> bool" where
  "done_upto xs i arr \<longleftrightarrow> length arr = n \<and>
     (\<forall>k < n. arr ! k = (if Min (cyc k) < i then xs ! (p ! k) else xs ! k))"

lemma Min_cyc_iff: "i < n \<Longrightarrow> k < n \<Longrightarrow> Min (cyc k) = i \<longleftrightarrow> k \<in> cyc i \<and> (\<forall>j \<in> cyc i. i \<le> j)"
proof
  assume *: "i < n" "k < n" "Min (cyc k) = i"
  have "Min (cyc k) \<in> cyc k"
    using Min_in [OF finite_cyc [OF *(2)]] self_cyc [of k] by (metis empty_iff)
  then have "i \<in> cyc k" using *(3) by simp
  then have ik: "cyc i = cyc k" by (rule cyc_sym [OF *(2)])
  then show "k \<in> cyc i \<and> (\<forall>j \<in> cyc i. i \<le> j)"
    unfolding ik using Min_le [OF finite_cyc [OF *(2)]] self_cyc [of k] *(3) by blast
next
  assume *: "i < n" "k < n" "k \<in> cyc i \<and> (\<forall>j \<in> cyc i. i \<le> j)"
  then have "cyc k = cyc i" using cyc_sym by blast
  then show "Min (cyc k) = i"
    using * by (intro Min_eqI) (simp_all add: finite_cyc)
qed

lemma permute_at_step:
  assumes i: "i < n" and arr: "done_upto xs i arr"
  shows "\<exists>arr'. permute_at p arr i = Some arr' \<and> done_upto xs (Suc i) arr'"
proof -
  obtain k where k: "leader_walk p i (p ! i) = Some k" "k \<le> i" "k = i \<longleftrightarrow> (\<forall>j \<in> cyc i. i \<le> j)"
    using leader_walk_ends [OF i] by blast
  show ?thesis
  proof (cases "k = i")
    case False
    then have "Min (cyc m) \<noteq> i" if "m < n" for m using Min_cyc_iff [OF i that] k(3) by simp
    then have "done_upto xs (Suc i) arr" using arr by (simp add: done_upto_def less_Suc_eq)
    moreover have "k < i" using False k(2) by simp
    ultimately show ?thesis using k(1) by (simp add: permute_at_def)
  next
    case True
    then have least: "\<forall>j \<in> cyc i. i \<le> j" using k(3) by blast
    have min: "Min (cyc m) = i \<longleftrightarrow> (\<exists>a < period i. m = orb p i a)" if "m < n" for m
      using Min_cyc_iff [OF i that] least by (auto simp: cyc_eq [OF i])
    define ys where "ys = arr"
    have on_cyc: "arr ! m = xs ! m" if "m < n" "Min (cyc m) = i" for m
      using arr that by (simp add: done_upto_def)
    show ?thesis
    proof (cases "p ! i = i")
      case fixed: True
      then have "period i = 1"
        using period_least [of 1 i] period [OF i] by (cases "period i = 1") (auto simp: not_less_eq)
      then have "Min (cyc m) = i \<longleftrightarrow> m = i" if "m < n" for m using min [OF that] by simp
      then have "done_upto xs (Suc i) arr"
        using arr fixed by (auto simp: done_upto_def less_Suc_eq)
      then show ?thesis using True fixed k by (simp add: permute_at_def)
    next
      case False
      obtain arr' where arr': "cycle_shift p i arr i (p ! i) = Some (arr', orb p i (period i - 1))"
        "length arr' = n"
        "\<forall>m < n. arr' ! m = (if \<exists>a < period i - 1. m = orb p i a then arr ! (p ! m) else arr ! m)"
        using cycle_shift_from [OF i, of 0 arr arr] period [OF i] arr by (auto simp: done_upto_def)
      let ?last = "orb p i (period i - 1)"
      have last: "p ! ?last = i"
        using period [OF i] orb_simps(2) [of p i "period i - 1"] by simp
      have "done_upto xs (Suc i) (arr'[?last := arr ! i])"
        unfolding done_upto_def
      proof (intro conjI allI impI)
        fix m assume m: "m < n"
        have cyc_p: "Min (cyc (p ! m)) = i" if *: "Min (cyc m) = i"
        proof -
          obtain a where "m = orb p i a" using min [OF m] * by blast
          then have "p ! m \<in> cyc i" unfolding cyc_def by (metis orb_simps(2) rangeI)
          then show ?thesis using Min_cyc_iff [OF i p_less [OF m]] least by blast
        qed
        show "arr'[?last := arr ! i] ! m = (if Min (cyc m) < Suc i then xs ! (p ! m) else xs ! m)"
        proof (cases "m = ?last")
          case True
          have "period i - 1 < period i" using period [OF i] by simp
          then have "Min (cyc m) = i" using min [OF m] True by blast
          moreover have "arr ! i = xs ! i" using on_cyc [OF i] Min_cyc_iff [OF i i] least by simp
          ultimately show ?thesis using True m arr'(2) last by simp
        next
          case False
          show ?thesis
          proof (cases "Min (cyc m) = i")
            case True
            then obtain a where "a < period i" "m = orb p i a" using min [OF m] by blast
            with False have "\<exists>a < period i - 1. m = orb p i a"
              by (metis Suc_pred' less_SucE less_trans gr0I not_less_zero)
            then show ?thesis
              using False True m arr'(2,3) on_cyc [OF p_less [OF m] cyc_p [OF True]] by auto
          next
            case no: False
            have "a < period i" if "a < period i - 1" for a using that by linarith
            then have "\<not> (\<exists>a < period i - 1. m = orb p i a)" using no min [OF m] by blast
            then show ?thesis
              using False no m arr'(2,3) arr by (auto simp: done_upto_def less_Suc_eq)
          qed
        qed
      qed (simp add: arr'(2))
      then show ?thesis using True False k arr'(1) by (simp add: permute_at_def)
    qed
  qed
qed

lemma permute_loop_from:
  "done_upto xs i arr \<Longrightarrow> i \<le> n \<Longrightarrow>
   \<exists>arr'. permute_loop p [i..<n] arr = Some arr' \<and> done_upto xs n arr'"
proof (induction "n - i" arbitrary: i arr)
  case (Suc m)
  then have i: "i < n" by simp
  obtain arr' where "permute_at p arr i = Some arr'" "done_upto xs (Suc i) arr'"
    using permute_at_step [OF i Suc.prems(1)] by blast
  with Suc i show ?case by (simp add: upt_conv_Cons)
qed auto

lemma permute_loop_permutes:
  assumes "length xs = n"
  shows "permute_loop p [0..<n] xs = Some (map (\<lambda>k. xs ! (p ! k)) [0..<n])"
proof -
  have "done_upto xs 0 xs" using assms by (simp add: done_upto_def)
  then obtain arr' where "permute_loop p [0..<n] xs = Some arr'" "done_upto xs n arr'"
    using permute_loop_from by blast
  moreover have "Min (cyc k) < n" if "k < n" for k
  proof -
    have "Min (cyc k) \<le> k" using finite_cyc [OF that] by simp
    then show ?thesis using that by simp
  qed
  ultimately show ?thesis by (auto simp: done_upto_def intro!: nth_equalityI)
qed

end

section \<open>The contracts on the callbacks of the program\<close>

interpretation three_way: key_order "three_way :: 'a::linorder \<Rightarrow> 'a \<Rightarrow> int"
  by unfold_locales auto

lemma sorted_keys_three_way: "three_way.sorted_keys ks \<longleftrightarrow> sorted ks"
  by (simp add: three_way.sorted_keys_def)

text \<open>Sorting a pool of elements: \<open>argsort\<close> into a fresh index array, then \<open>argpermute\<close>.\<close>

definition sort_pool :: "('e \<Rightarrow> 'k::linorder) \<Rightarrow> 'e list \<Rightarrow> nat list \<Rightarrow> nat list \<Rightarrow> 'e list option" where
  "sort_pool h xs arg argb =
     map_option fst (argpermute xs None (argsort three_way h xs arg argb))"

interpretation sorted_arg:
  index_permutation "argsort three_way h xs (replicate (length xs) a) (replicate (length xs) b)" "length xs"
  for h :: "'e \<Rightarrow> 'k::linorder" and xs a b
  by unfold_locales (rule three_way.argsort_stable_permutation(1), simp_all)

lemma argpermute_permutes:
  assumes "mset p = mset [0..<length xs]" and "pred_option (\<lambda>t. length t = length xs) target"
  shows "argpermute xs target p =
    Some (map (\<lambda>k. xs ! (p ! k)) [0..<length xs],
          map_option (\<lambda>_. map (\<lambda>k. xs ! (p ! k)) [0..<length xs]) target)"
proof -
  have "fold (\<lambda>i t. t[i := g i]) [0..<m] t = map g [0..<m] @ drop m t" if "m \<le> length t" for m t and g :: "nat \<Rightarrow> 'a"
    using that
  proof (induction m)
    case (Suc m)
    moreover have "drop m t = t ! m # drop (Suc m) t" using Suc.prems by (simp add: Cons_nth_drop_Suc)
    ultimately show ?case by (simp add: list_update_append del: Cons_nth_drop_Suc)
  qed simp
  then have "fold (\<lambda>i t. t[i := xs ! (p ! i)]) [0..<length xs] t = map (\<lambda>k. xs ! (p ! k)) [0..<length xs]"
    if "length t = length xs" for t
    using that by (metis append_Nil2 drop_all order_refl)
  moreover have "permute_loop p [0..<length xs] xs = Some (map (\<lambda>k. xs ! (p ! k)) [0..<length xs])"
    using index_permutation.permute_loop_permutes [OF index_permutation.intro [OF assms(1)] refl] .
  ultimately show ?thesis
    using assms(2) unfolding argpermute_def Let_def by (cases target) simp_all
qed

lemma stable_filter:
  assumes "mset p = mset [0..<length xs]" and "sorted_wrt (three_way.before (\<lambda>i. h (xs ! i))) p"
  shows "filter (\<lambda>x. h x = key) (map (\<lambda>k. xs ! k) p) = filter (\<lambda>x. h x = key) xs"
proof -
  let ?P = "\<lambda>i. h (xs ! i) = key"
  have "sorted_wrt (three_way.before (\<lambda>i. h (xs ! i))) (filter ?P p)"
    using assms(2) by (rule sorted_wrt_filter)
  then have "sorted_wrt (<) (filter ?P p)"
    by (rule sorted_wrt_mono_rel [rotated]) (auto simp: three_way.before_def)
  moreover have "sorted_wrt (<) (filter ?P [0..<length xs])"
    by (rule sorted_wrt_filter) simp
  moreover have "set (filter ?P p) = set (filter ?P [0..<length xs])"
    using mset_eq_setD [OF assms(1)] by simp
  ultimately have "filter ?P p = filter ?P [0..<length xs]"
    by (metis strict_sorted_equal)
  then have "map (\<lambda>k. xs ! k) (filter ?P p) = map (\<lambda>k. xs ! k) (filter ?P [0..<length xs])" by simp
  then have "filter (\<lambda>x. h x = key) (map (\<lambda>k. xs ! k) p)
      = filter (\<lambda>x. h x = key) (map (\<lambda>k. xs ! k) [0..<length xs])"
    by (simp only: filter_map comp_def)
  then show ?thesis by (simp only: map_nth)
qed

section \<open>Properties\<close>

text \<open>
  C8. \<open>searchsorted\<close> on a non-empty array sorted by key returns, and what it returns is the
  insertion point: with \<open>SEARCH_DIR_LEFT\<close> exactly the elements before it have a smaller
  key, with \<open>SEARCH_DIR_RIGHT\<close> exactly those before it have a key that is not larger.
\<close>

theorem searchsorted_insertion_point:
  fixes key :: "'k::linorder"
  assumes "xs \<noteq> []" and "sorted (map h xs)"
  shows "\<exists>l r. searchsorted three_way h SEARCH_DIR_LEFT key xs = Inr l
    \<and> searchsorted three_way h SEARCH_DIR_RIGHT key xs = Inr r
    \<and> {i. i < length xs \<and> h (xs ! i) < key} = {..<l}
    \<and> {i. i < length xs \<and> h (xs ! i) \<le> key} = {..<r}"
proof -
  have s: "three_way.sorted_keys (map h xs)" using assms(2) by (simp add: sorted_keys_three_way)
  have ne: "SEARCH_DIR_LEFT \<noteq> SEARCH_DIR_RIGHT" by (simp add: SEARCH_DIR_LEFT_def SEARCH_DIR_RIGHT_def)
  obtain l where l: "searchsorted three_way h SEARCH_DIR_LEFT key xs = Inr l"
    "three_way.cut SEARCH_DIR_LEFT key (map h xs) l"
    using three_way.searchsorted_cut [OF s assms(1), of SEARCH_DIR_LEFT] by blast
  obtain r where r: "searchsorted three_way h SEARCH_DIR_RIGHT key xs = Inr r"
    "three_way.cut SEARCH_DIR_RIGHT key (map h xs) r"
    using three_way.searchsorted_cut [OF s assms(1), of SEARCH_DIR_RIGHT] by blast
  have "{i. i < length xs \<and> h (xs ! i) < key} = {..<l}"
    using l(2) by (auto simp: three_way.cut_def) (metis leI leD)
  moreover have "{i. i < length xs \<and> h (xs ! i) \<le> key} = {..<r}"
    using r(2) ne by (auto simp: three_way.cut_def) (metis leI leD)
  ultimately show ?thesis using l(1) r(1) by blast
qed

theorem searchsorted_insertion_point_witness:
  "\<exists>l r. searchsorted three_way id SEARCH_DIR_LEFT 4 [1, 4, 4, 9 :: nat] = Inr l
    \<and> searchsorted three_way id SEARCH_DIR_RIGHT 4 [1, 4, 4, 9 :: nat] = Inr r
    \<and> {i. i < length [1, 4, 4, 9 :: nat] \<and> id ([1, 4, 4, 9] ! i) < (4 :: nat)} = {..<l}
    \<and> {i. i < length [1, 4, 4, 9 :: nat] \<and> id ([1, 4, 4, 9] ! i) \<le> (4 :: nat)} = {..<r}"
  by (rule searchsorted_insertion_point) simp_all

text \<open>
  C9. \<open>argsort\<close> followed by \<open>argpermute\<close> is the stable sort by key, whatever the index array
  and the buffer contained before; neither loop of \<open>argpermute\<close> runs forever.
\<close>

theorem sort_pool_is_stable_sort:
  assumes "length arg = length xs" and "length argb = length xs"
  shows "sort_pool h xs arg argb = Some (sort_key h xs)"
proof -
  let ?p = "argsort three_way h xs arg argb"
  have p: "mset ?p = mset [0..<length xs]" "sorted_wrt (three_way.before (\<lambda>i. h (xs ! i))) ?p"
    using three_way.argsort_stable_permutation [OF assms refl] by blast+
  have len: "length ?p = length xs" by (rule index_permutation.length_p [OF index_permutation.intro [OF p(1)]])
  have "map (\<lambda>k. xs ! (?p ! k)) [0..<length xs] = map (\<lambda>k. xs ! k) ?p"
    using len by (auto intro: nth_equalityI)
  also have "\<dots> = sort_key h xs"
  proof (rule properties_for_sort_key [symmetric])
    have "mset (map (\<lambda>k. xs ! k) ?p) = image_mset (\<lambda>k. xs ! k) (mset [0..<length xs])"
      unfolding mset_map p(1) ..
    also have "\<dots> = mset xs" by (metis map_nth mset_map)
    finally show "mset (map (\<lambda>k. xs ! k) ?p) = mset xs" .
    show "filter (\<lambda>x. h k = h x) (map (\<lambda>k. xs ! k) ?p) = filter (\<lambda>x. h k = h x) xs" for k
      using stable_filter [OF p, of "h k"] by (simp add: eq_commute [of "h k"])
    show "sorted (map h (map (\<lambda>k. xs ! k) ?p))"
      using p(2) unfolding sorted_map map_map
      by (rule sorted_wrt_mono_rel [rotated]) (auto simp: three_way.before_def less_imp_le)
  qed
  finally show ?thesis using argpermute_permutes [OF p(1), of None] by (simp add: sort_pool_def)
qed

theorem sort_pool_is_stable_sort_witness:
  "sort_pool fst [(3, 0), (1, 1), (3, 2), (2, 3 :: nat)] [7, 7, 7, 7] [9, 9, 9, 9] =
     Some (sort_key fst [(3 :: nat, 0), (1, 1), (3, 2), (2, 3 :: nat)])"
  by (rule sort_pool_is_stable_sort) simp_all

text \<open>
  C10. \<open>argmaxmin\<close> returns the first position of a largest and of a smallest key, and -1 for an
  empty array; \<open>maxmin\<close> returns the largest and the smallest key themselves and leaves the
  results alone for an empty array.
\<close>

theorem argmaxmin_extremes:
  fixes h :: "'e \<Rightarrow> 'k::linorder"
  shows "(xs \<noteq> [] \<longrightarrow> (\<exists>a b. argmaxmin three_way h xs True True = (Some (int a), Some (int b))
       \<and> a < length xs \<and> b < length xs
       \<and> h (xs ! a) = Max (h ` set xs) \<and> h (xs ! b) = Min (h ` set xs)
       \<and> (\<forall>i < a. h (xs ! i) < h (xs ! a)) \<and> (\<forall>i < b. h (xs ! b) < h (xs ! i))
       \<and> maxmin three_way h xs (Some u) (Some v) =
           (Some (Max (h ` set xs)), Some (Min (h ` set xs)))))
    \<and> argmaxmin three_way h [] True True = (Some (-1), Some (-1))
    \<and> maxmin three_way h [] (Some u) (Some v) = (Some u, Some v)"
proof (intro conjI impI)
  assume ne: "xs \<noteq> []"
  obtain a b where ab: "argmaxmin three_way h xs True True = (Some (int a), Some (int b))"
    "three_way.max_so_far (map h xs) (length xs) (a, h (xs ! a))"
    "three_way.min_so_far (map h xs) (length xs) (b, h (xs ! b))"
    using three_way.argmaxmin_first_extremes [OF ne] by blast
  have a: "a < length xs" "\<forall>i < length xs. h (xs ! i) \<le> h (xs ! a)" "\<forall>i < a. h (xs ! i) < h (xs ! a)"
    using three_way.so_farD(1,2,5) [OF ab(2)] by simp_all
  have b: "b < length xs" "\<forall>i < length xs. h (xs ! b) \<le> h (xs ! i)" "\<forall>i < b. h (xs ! b) < h (xs ! i)"
    using three_way.so_farD(3,4,6) [OF ab(3)] by simp_all
  have "h (xs ! a) = Max (h ` set xs)"
    using a by (intro Max_eqI [symmetric] image_eqI [of _ _ "xs ! a"]) (auto simp: in_set_conv_nth)
  moreover have "h (xs ! b) = Min (h ` set xs)"
    using b by (intro Min_eqI [symmetric] image_eqI [of _ _ "xs ! b"]) (auto simp: in_set_conv_nth)
  ultimately show "\<exists>a b. argmaxmin three_way h xs True True = (Some (int a), Some (int b))
       \<and> a < length xs \<and> b < length xs
       \<and> h (xs ! a) = Max (h ` set xs) \<and> h (xs ! b) = Min (h ` set xs)
       \<and> (\<forall>i < a. h (xs ! i) < h (xs ! a)) \<and> (\<forall>i < b. h (xs ! b) < h (xs ! i))
       \<and> maxmin three_way h xs (Some u) (Some v) =
           (Some (Max (h ` set xs)), Some (Min (h ` set xs)))"
    using ab(1) a b ne by (intro exI [of _ a] exI [of _ b]) (simp add: maxmin_def)
qed (simp_all add: argmaxmin_def maxmin_def)

theorem argmaxmin_extremes_witness:
  "\<exists>a b. argmaxmin three_way id [3, 8, 8, 1 :: nat] True True = (Some (int a), Some (int b))
     \<and> id ([3, 8, 8, 1] ! a) = Max (id ` set [3, 8, 8, 1 :: nat])
     \<and> id ([3, 8, 8, 1] ! b) = Min (id ` set [3, 8, 8, 1 :: nat])"
  using argmaxmin_extremes [of "[3, 8, 8, 1 :: nat]" id] by blast

end
