(* ===== verification/Bit_Mask.thy ===== *)
theory Bit_Mask
  imports Prelude
begin

text \<open>
  The bit mask of \<open>src/support/bitmask.h\<close> (with \<open>BITMASK_SHUFFLE\<close>, as \<open>loop.c\<close> includes it): an
  array of \<open>unsigned int\<close> blocks in which the low 16 bits of an index are reversed, so that
  neighbouring indices fall into different cache lines. The \<open>struct\<close> is a record; its flexible
  array member is a list of \<open>32 word\<close>. A \<open>__sync\<close> builtin is one step on the block; an access
  outside the blocks is the trap \<open>Out_of_bounds\<close>.

  The lemmas show that the shuffle is a permutation of every aligned range of \<open>2^16\<close> indices,
  that the allocation rounds up to whole ranges, and hence that the mask is a set of indices
  (the locale \<open>bitset\<close>, interpreted on the operations).
\<close>

section \<open>The operations\<close>

record bitmask =
  bm_bits :: "64 word"
  bm_bits_alloc :: "64 word"
  bm_bytes :: "64 word"
  bm_length :: "64 word"
  bm_data :: "32 word list"

text \<open>\<open>junk\<close> is what \<open>malloc\<close> leaves in the blocks.\<close>

definition bitmask_alloc :: "64 word \<Rightarrow> 32 word list \<Rightarrow> bitmask" where
  "bitmask_alloc bits junk =
     (let bits_alloc = (if bits AND 0xFFFF \<noteq> 0 then (bits + 0x10000) AND NOT 0xFFFF else bits);
          len = drop_bit 5 (bits_alloc + 31)
      in \<lparr>bm_bits = bits, bm_bits_alloc = len * 32, bm_bytes = len * 4, bm_length = len,
          bm_data = take (unat len) (junk @ replicate (unat len) 0)\<rparr>)"

definition bitmask_set_all :: "bitmask \<Rightarrow> bitmask" where
  "bitmask_set_all m = m\<lparr>bm_data := map (\<lambda>_. -1) (bm_data m)\<rparr>"

definition bitmask_clear_all :: "bitmask \<Rightarrow> bitmask" where
  "bitmask_clear_all m = m\<lparr>bm_data := map (\<lambda>_. 0) (bm_data m)\<rparr>"

text \<open>The four stages of the bit reversal; the promoted \<open>int\<close> values stay below \<open>2^16\<close>.\<close>

definition shuffle16 :: "16 word \<Rightarrow> 16 word" where
  "shuffle16 v =
     (let v = (drop_bit 1 v AND 0x5555) OR push_bit 1 (v AND 0x5555);
          v = (drop_bit 2 v AND 0x3333) OR push_bit 2 (v AND 0x3333);
          v = (drop_bit 4 v AND 0x0F0F) OR push_bit 4 (v AND 0x0F0F)
      in (drop_bit 8 v AND 0x00FF) OR push_bit 8 (v AND 0x00FF))"

definition bitmask_shuffle :: "64 word \<Rightarrow> 64 word" where
  "bitmask_shuffle idx = (idx AND NOT 0xFFFF) OR ucast (shuffle16 (ucast idx))"

text \<open>
  The block and the bit of an index (already shuffled). The index is signed; a negative one
  would address memory before the blocks.
\<close>

definition bit_at :: "64 word \<Rightarrow> 32 word" where
  "bit_at idx = push_bit (unat (idx AND 31)) 1"

definition block_at :: "bitmask \<Rightarrow> 64 word \<Rightarrow> nat res" where
  "block_at m idx =
     (let b = sint (signed_drop_bit 5 idx)
      in if 0 \<le> b \<and> b < int (length (bm_data m)) then Inr (nat b) else Inl Out_of_bounds)"

text \<open>A fetch-and-modify of the block of an index: the old block and the new mask.\<close>

definition fetch_and_modify ::
    "bitmask \<Rightarrow> 64 word \<Rightarrow> (32 word \<Rightarrow> 32 word \<Rightarrow> 32 word) \<Rightarrow> (32 word \<times> 32 word \<times> bitmask) res" where
  "fetch_and_modify m idx f =
     (let idx = bitmask_shuffle idx; b = bit_at idx
      in rbind (block_at m idx) (\<lambda>k.
           Inr (bm_data m ! k, b, m\<lparr>bm_data := (bm_data m)[k := f (bm_data m ! k) b]\<rparr>)))"

definition bitmask_set :: "bitmask \<Rightarrow> 64 word \<Rightarrow> bitmask res" where
  "bitmask_set m idx = rbind (fetch_and_modify m idx (\<lambda>v b. v OR b)) (\<lambda>(v, b, m'). Inr m')"

definition bitmask_set_unsafe :: "bitmask \<Rightarrow> 64 word \<Rightarrow> bitmask res" where
  "bitmask_set_unsafe m idx = rbind (fetch_and_modify m idx (\<lambda>v b. v OR b)) (\<lambda>(v, b, m'). Inr m')"

definition bitmask_clear :: "bitmask \<Rightarrow> 64 word \<Rightarrow> bitmask res" where
  "bitmask_clear m idx = rbind (fetch_and_modify m idx (\<lambda>v b. v AND NOT b)) (\<lambda>(v, b, m'). Inr m')"

definition bitmask_clear_unsafe :: "bitmask \<Rightarrow> 64 word \<Rightarrow> bitmask res" where
  "bitmask_clear_unsafe m idx =
     rbind (fetch_and_modify m idx (\<lambda>v b. v AND NOT b)) (\<lambda>(v, b, m'). Inr m')"

definition bitmask_test_and_clear :: "bitmask \<Rightarrow> 64 word \<Rightarrow> (bool \<times> bitmask) res" where
  "bitmask_test_and_clear m idx =
     rbind (fetch_and_modify m idx (\<lambda>v b. v AND NOT b)) (\<lambda>(v, b, m'). Inr (v AND b \<noteq> 0, m'))"

definition bitmask_test_and_set :: "bitmask \<Rightarrow> 64 word \<Rightarrow> (bool \<times> bitmask) res" where
  "bitmask_test_and_set m idx =
     rbind (fetch_and_modify m idx (\<lambda>v b. v OR b)) (\<lambda>(v, b, m'). Inr (v AND b \<noteq> 0, m'))"

definition bitmask_test :: "bitmask \<Rightarrow> 64 word \<Rightarrow> bool res" where
  "bitmask_test m idx = rbind (fetch_and_modify m idx (\<lambda>v b. v)) (\<lambda>(v, b, m'). Inr (v AND b \<noteq> 0))"

text \<open>
  \<open>bitmask_aquire\<close> spins on the block while other threads may change it: \<open>env k\<close> is the mask
  as this call finds it at its \<open>k\<close>-th access. The accesses from 0 on are the reads of the loop; when
  read \<open>c\<close> finds the bit clear, the next access, \<open>Suc c\<close>, is the atomic fetch, which may find that
  another thread was faster. The result is the return value and, when the fetch was reached, the
  mask after it.
\<close>

function aquire_spin :: "(nat \<Rightarrow> bool) \<Rightarrow> int \<Rightarrow> nat \<Rightarrow> nat option" where
  "aquire_spin busy timeout c =
     (if busy c then (if timeout \<le> int (Suc c) then None else aquire_spin busy timeout (Suc c))
      else Some c)"
  by pat_completeness auto
termination by (relation "measure (\<lambda>(busy, timeout, c). nat (timeout - int c))") auto

definition bitmask_aquire ::
    "(nat \<Rightarrow> bitmask) \<Rightarrow> 64 word \<Rightarrow> int \<Rightarrow> (bool \<times> bitmask option) res" where
  "bitmask_aquire env idx timeout =
     rbind (bitmask_test (env 0) idx) (\<lambda>_.
       case aquire_spin (\<lambda>c. bitmask_test (env c) idx = Inr True) timeout 0 of
         None \<Rightarrow> Inr (False, None)
       | Some c \<Rightarrow>
           rbind (bitmask_test_and_set (env (Suc c)) idx) (\<lambda>(was_set, m'). Inr (\<not> was_set, Some m')))"

definition popcount :: "32 word \<Rightarrow> nat" where
  "popcount v = length (filter (bit v) [0..<32])"

text \<open>\<open>bitmask_sum\<close> runs its index to \<open>bytes\<close>, not to \<open>length\<close>.\<close>

fun sum_blocks :: "bitmask \<Rightarrow> nat list \<Rightarrow> nat \<Rightarrow> nat res" where
  "sum_blocks m [] acc = Inr acc"
| "sum_blocks m (i # is) acc =
     (if i < length (bm_data m) then sum_blocks m is (acc + popcount (bm_data m ! i))
      else Inl Out_of_bounds)"

definition bitmask_sum :: "bitmask \<Rightarrow> nat res" where
  "bitmask_sum m = sum_blocks m [0..<unat (bm_bytes m)] 0"

declare aquire_spin.simps [simp del]

section \<open>The shuffle\<close>

lemma bit_times_two: "n \<noteq> 0 \<Longrightarrow> n < 16 \<Longrightarrow> bit (v * 2 :: 16 word) n \<longleftrightarrow> bit v (n - 1)"
  using bit_push_bit_iff [of 1 v n] by (simp add: push_bit_eq_mult)

lemma bit_shuffle16: "n < 16 \<Longrightarrow> bit (shuffle16 v) n \<longleftrightarrow> bit v (15 - n)"
proof -
  assume "n < 16"
  then have "n \<in> {0, 1, 2, 3, 4, 5, 6, 7, 8, 9, 10, 11, 12, 13, 14, 15}"
    by (auto simp: numeral_eq_Suc less_Suc_eq)
  then show ?thesis
    by (elim insertE emptyE) (simp_all add: shuffle16_def Let_def bit_simps bit_times_two)
qed

lemma shuffle16_twice: "shuffle16 (shuffle16 v) = v"
  by (rule bit_word_eqI) (simp add: bit_shuffle16)

lemma bit_bitmask_shuffle:
  "n < 64 \<Longrightarrow> bit (bitmask_shuffle idx) n \<longleftrightarrow> (if n < 16 then bit idx (15 - n) else bit idx n)"
proof -
  assume "n < 64"
  have m: "(0xFFFF :: 64 word) = mask 16" by (simp add: mask_eq_exp_minus_1)
  show ?thesis
    using \<open>n < 64\<close> unfolding bitmask_shuffle_def m
    by (auto simp: bit_simps bit_shuffle16 dest: bit_imp_le_length)
qed

lemma bitmask_shuffle_twice [simp]: "bitmask_shuffle (bitmask_shuffle idx) = idx"
  by (rule bit_word_eqI) (auto simp: bit_bitmask_shuffle)

lemma bitmask_shuffle_inject [simp]: "bitmask_shuffle i = bitmask_shuffle j \<longleftrightarrow> i = j"
  by (metis bitmask_shuffle_twice)

lemma drop_bit_shuffle: "drop_bit 16 (bitmask_shuffle idx) = drop_bit 16 idx"
proof (rule bit_word_eqI)
  fix n :: nat
  show "bit (drop_bit 16 (bitmask_shuffle idx)) n \<longleftrightarrow> bit (drop_bit 16 idx) n"
    by (cases "16 + n < 64") (auto simp: bit_simps bit_bitmask_shuffle dest: bit_imp_le_length)
qed

text \<open>An aligned bound on the index is a bound on the shuffled index.\<close>

lemma shuffle_less: "unat idx < k * 2 ^ 16 \<Longrightarrow> unat (bitmask_shuffle idx) < k * 2 ^ 16"
proof -
  have div: "unat (bitmask_shuffle idx) div 2 ^ 16 = unat idx div 2 ^ 16"
    using arg_cong [OF drop_bit_shuffle, of unat idx] by (simp only: unat_drop_bit_div)
  assume "unat idx < k * 2 ^ 16"
  then have "unat idx div 2 ^ 16 < k" by (simp add: div_less_iff_less_mult)
  then show ?thesis unfolding div [symmetric] by (simp add: div_less_iff_less_mult)
qed

section \<open>The mask as a set of indices\<close>

definition bm_test :: "bitmask \<Rightarrow> 64 word \<Rightarrow> bool" where
  "bm_test m idx \<longleftrightarrow>
     bit (bm_data m ! (unat (bitmask_shuffle idx) div 32)) (unat (bitmask_shuffle idx) mod 32)"

definition bm_set :: "bitmask \<Rightarrow> 64 word set" where
  "bm_set m = {idx. idx < bm_bits m \<and> bm_test m idx}"

text \<open>The blocks are whole ranges of \<open>2^16\<close> bits that cover every index.\<close>

definition bm_inv :: "bitmask \<Rightarrow> bool" where
  "bm_inv m \<longleftrightarrow> (\<exists>k. length (bm_data m) = k * 2 ^ 11 \<and> unat (bm_bits m) \<le> k * 2 ^ 16
     \<and> k * 2 ^ 16 \<le> 2 ^ 63)"

lemma bit_at_exp: "bit_at idx = 2 ^ (unat idx mod 32)"
proof -
  have m: "(31 :: 64 word) = mask 5" by (simp add: mask_eq_exp_minus_1)
  have "unat (idx AND 31) = unat idx mod 32"
    unfolding m unat_and_mask_mod by simp
  then show ?thesis by (simp add: bit_at_def push_bit_eq_mult)
qed

lemma bit_bit_at: "bit (bit_at idx) n \<longleftrightarrow> n = unat idx mod 32"
proof -
  have "unat idx mod 32 < 32" by simp
  then show ?thesis by (auto simp: bit_at_exp bit_simps)
qed

lemma and_bit_at: "v AND bit_at idx \<noteq> 0 \<longleftrightarrow> bit v (unat idx mod 32)"
  by (simp only: bit_at_exp bit_mask_test)

lemma block_at_shuffle:
  assumes "bm_inv m" and "idx < bm_bits m"
  shows "block_at m (bitmask_shuffle idx) = Inr (unat (bitmask_shuffle idx) div 32)"
    and "unat (bitmask_shuffle idx) div 32 < length (bm_data m)"
proof -
  let ?s = "bitmask_shuffle idx"
  obtain k where k: "length (bm_data m) = k * 2 ^ 11" "unat (bm_bits m) \<le> k * 2 ^ 16"
    "k * 2 ^ 16 \<le> 2 ^ 63"
    using assms(1) by (auto simp: bm_inv_def)
  have "unat idx < k * 2 ^ 16" using assms(2) k(2) by (simp add: word_less_nat_alt)
  then have s: "unat ?s < k * 2 ^ 16" by (rule shuffle_less)
  then show lt: "unat ?s div 32 < length (bm_data m)"
    unfolding k(1) by (simp add: div_less_iff_less_mult)
  have "unat ?s < 2 ^ 63" using s k(3) by (rule less_le_trans)
  then have "int (unat ?s) < 2 ^ 63" by (metis of_nat_less_iff of_nat_numeral of_nat_power)
  then have hi: "uint ?s < 2 ^ 63" by (simp only: uint_nat)
  have lo: "- (2 ^ 63) \<le> uint ?s" by (rule order_trans [of _ 0]) simp_all
  have "sint ?s = signed_take_bit 63 (uint ?s)" by (simp add: sint_uint)
  then have "sint ?s = uint ?s" using signed_take_bit_int_eq_self [OF lo hi] by (rule trans)
  then have "sint ?s = int (unat ?s)" by (simp only: uint_nat)
  then have "sint (signed_drop_bit 5 ?s) = int (unat ?s div 32)"
    by (simp add: sint_signed_drop_bit_eq drop_bit_eq_div zdiv_int)
  then show "block_at m ?s = Inr (unat ?s div 32)" using lt by (simp add: block_at_def)
qed

text \<open>What a fetch-and-modify does to every index below \<open>bits\<close>.\<close>

lemma fetch_and_modify_effect:
  assumes "bm_inv m" and "idx < bm_bits m"
    and "\<And>v n. bit (f v (bit_at (bitmask_shuffle idx))) n \<longleftrightarrow>
      (if n = unat (bitmask_shuffle idx) mod 32 then new (bit v n) else bit v n)"
  obtains v m' where
    "fetch_and_modify m idx f = Inr (v, bit_at (bitmask_shuffle idx), m')"
    "v AND bit_at (bitmask_shuffle idx) \<noteq> 0 \<longleftrightarrow> idx \<in> bm_set m"
    "bm_inv m'" "bm_bits m' = bm_bits m"
    "bm_set m' = (if new (idx \<in> bm_set m) then insert idx (bm_set m) else bm_set m - {idx})"
proof -
  let ?s = "bitmask_shuffle idx"
  let ?k = "unat ?s div 32"
  let ?m = "m\<lparr>bm_data := (bm_data m)[?k := f (bm_data m ! ?k) (bit_at ?s)]\<rparr>"
  note b = block_at_shuffle [OF assms(1,2)]
  have "bm_test ?m i \<longleftrightarrow> (if i = idx then new (bm_test m idx) else bm_test m i)"
    if i: "i < bm_bits m" for i
  proof -
    let ?t = "bitmask_shuffle i"
    have "?s = ?t \<longleftrightarrow> unat ?s div 32 = unat ?t div 32 \<and> unat ?s mod 32 = unat ?t mod 32"
      by (metis div_mult_mod_eq word_unat_eq_iff)
    then have "i = idx \<longleftrightarrow> unat ?t div 32 = ?k \<and> unat ?t mod 32 = unat ?s mod 32"
      by (metis bitmask_shuffle_inject)
    then show ?thesis
      using b(2) block_at_shuffle(2) [OF assms(1) i] by (auto simp: bm_test_def assms(3) nth_list_update)
  qed
  then have "bm_set ?m = (if new (idx \<in> bm_set m) then insert idx (bm_set m) else bm_set m - {idx})"
    using assms(2) by (auto simp: bm_set_def split: if_splits)
  then show ?thesis
    using b assms(1,2)
    by (intro that [of "bm_data m ! ?k" ?m])
      (simp_all add: fetch_and_modify_def Let_def and_bit_at bm_test_def bm_set_def bm_inv_def)
qed

lemma set_block_bit: "bit (v OR bit_at idx) n \<longleftrightarrow> (if n = unat idx mod 32 then True else bit v n)"
  by (auto simp: bit_simps bit_bit_at)

lemma clear_block_bit:
  "bit (v AND NOT (bit_at idx)) n \<longleftrightarrow> (if n = unat idx mod 32 then False else bit v n)"
  by (auto simp: bit_simps bit_bit_at dest: bit_imp_le_length)

section \<open>The contract of a set of indices\<close>

locale bitset =
  fixes inv_s :: "'m \<Rightarrow> bool"
    and universe :: "'m \<Rightarrow> 'i set"
    and elems :: "'m \<Rightarrow> 'i set"
    and test_s :: "'m \<Rightarrow> 'i \<Rightarrow> bool res"
    and set_s :: "'m \<Rightarrow> 'i \<Rightarrow> 'm res"
    and clear_s :: "'m \<Rightarrow> 'i \<Rightarrow> 'm res"
  assumes test: "inv_s m \<Longrightarrow> i \<in> universe m \<Longrightarrow> test_s m i = Inr (i \<in> elems m)"
    and set: "inv_s m \<Longrightarrow> i \<in> universe m \<Longrightarrow>
      \<exists>m'. set_s m i = Inr m' \<and> inv_s m' \<and> universe m' = universe m \<and> elems m' = insert i (elems m)"
    and clear: "inv_s m \<Longrightarrow> i \<in> universe m \<Longrightarrow>
      \<exists>m'. clear_s m i = Inr m' \<and> inv_s m' \<and> universe m' = universe m \<and> elems m' = elems m - {i}"

text \<open>
  The way the ray loop uses such a set (\<open>merge_pars\<close> of \<open>loop.c\<close>): mark all indices of a list, then
  walk the list again, keep an index that is still marked and unmark it.
\<close>

fun mark_all :: "('m \<Rightarrow> 'i \<Rightarrow> 'm res) \<Rightarrow> 'i list \<Rightarrow> 'm \<Rightarrow> 'm res" where
  "mark_all set_s [] m = Inr m"
| "mark_all set_s (i # is) m = rbind (set_s m i) (mark_all set_s is)"

fun collect_marked ::
    "('m \<Rightarrow> 'i \<Rightarrow> bool res) \<Rightarrow> ('m \<Rightarrow> 'i \<Rightarrow> 'm res) \<Rightarrow> 'i list \<Rightarrow> 'i list \<Rightarrow> 'm \<Rightarrow> ('i list \<times> 'm) res" where
  "collect_marked test_s clear_s [] acc m = Inr (acc, m)"
| "collect_marked test_s clear_s (i # is) acc m =
     rbind (test_s m i) (\<lambda>marked.
       if marked then rbind (clear_s m i) (collect_marked test_s clear_s is (acc @ [i]))
       else collect_marked test_s clear_s is acc m)"

text \<open>The first occurrences of a list, in order, of the indices in a set.\<close>

fun firsts :: "'i set \<Rightarrow> 'i list \<Rightarrow> 'i list" where
  "firsts S [] = []"
| "firsts S (i # is) = (if i \<in> S then i # firsts (S - {i}) is else firsts S is)"

lemma set_firsts [simp]: "set (firsts S is) = S \<inter> set is"
  by (induction S "is" rule: firsts.induct) auto

lemma distinct_firsts [simp]: "distinct (firsts S is)"
  by (induction S "is" rule: firsts.induct) auto

lemma firsts_append: "firsts S (is @ js) = firsts S is @ firsts (S - set is) js"
proof (induction S "is" rule: firsts.induct)
  case (2 S i "is")
  moreover have "S - insert i (set is) = S - {i} - set is" by auto
  moreover have "i \<notin> S \<Longrightarrow> S - insert i (set is) = S - set is" by auto
  ultimately show ?case by simp
qed simp

context bitset
begin

lemma mark_all_elems:
  "inv_s m \<Longrightarrow> List.set is \<subseteq> universe m \<Longrightarrow>
   \<exists>m'. mark_all set_s is m = Inr m' \<and> inv_s m' \<and> universe m' = universe m
     \<and> elems m' = elems m \<union> List.set is"
proof (induction "is" arbitrary: m)
  case (Cons i "is")
  obtain m1 where m1: "set_s m i = Inr m1" "inv_s m1" "universe m1 = universe m"
    "elems m1 = insert i (elems m)"
    using set [of m i] Cons.prems by auto
  with Cons.IH [OF m1(2)] Cons.prems show ?case by auto
qed simp

lemma collect_marked_firsts:
  "inv_s m \<Longrightarrow> List.set is \<subseteq> universe m \<Longrightarrow>
   \<exists>m'. collect_marked test_s clear_s is acc m = Inr (acc @ firsts (elems m) is, m')
     \<and> inv_s m' \<and> universe m' = universe m \<and> elems m' = elems m - List.set is"
proof (induction "is" arbitrary: m acc)
  case (Cons i "is")
  show ?case
  proof (cases "i \<in> elems m")
    case True
    obtain m1 where m1: "clear_s m i = Inr m1" "inv_s m1" "universe m1 = universe m"
      "elems m1 = elems m - {i}"
      using clear [of m i] Cons.prems by auto
    with Cons.IH [OF m1(2), of "acc @ [i]"] Cons.prems True test [of m i] show ?thesis by auto
  next
    case False
    then show ?thesis using Cons.IH [OF Cons.prems(1)] Cons.prems test [of m i] by auto
  qed
qed simp

end

text \<open>The bit mask keeps the contract.\<close>

lemma bitmask_test_spec: "bm_inv m \<Longrightarrow> idx < bm_bits m \<Longrightarrow> bitmask_test m idx = Inr (idx \<in> bm_set m)"
  by (rule fetch_and_modify_effect [of m idx "\<lambda>v b. v" "\<lambda>b. b"])
    (simp_all add: bitmask_test_def)

lemma bitmask_set_spec:
  assumes "bm_inv m" and "idx < bm_bits m"
  shows "\<exists>m'. bitmask_set m idx = Inr m' \<and> bm_inv m' \<and> bm_bits m' = bm_bits m
    \<and> bm_set m' = insert idx (bm_set m)"
  using assms
  by (rule fetch_and_modify_effect [of m idx "\<lambda>v b. v OR b" "\<lambda>_. True"])
    (auto simp: set_block_bit bitmask_set_def)

lemma bitmask_clear_spec:
  assumes "bm_inv m" and "idx < bm_bits m"
  shows "\<exists>m'. bitmask_clear m idx = Inr m' \<and> bm_inv m' \<and> bm_bits m' = bm_bits m
    \<and> bm_set m' = bm_set m - {idx}"
  using assms
  by (rule fetch_and_modify_effect [of m idx "\<lambda>v b. v AND NOT b" "\<lambda>_. False"])
    (auto simp: clear_block_bit bitmask_clear_def)

lemma bitmask_variants:
  "bitmask_set_unsafe = bitmask_set" "bitmask_clear_unsafe = bitmask_clear"
  "bitmask_test_and_set m idx = rbind (bitmask_test m idx) (\<lambda>t. rbind (bitmask_set m idx) (\<lambda>m'. Inr (t, m')))"
  "bitmask_test_and_clear m idx = rbind (bitmask_test m idx) (\<lambda>t. rbind (bitmask_clear m idx) (\<lambda>m'. Inr (t, m')))"
  by (auto simp: fun_eq_iff bitmask_set_unsafe_def bitmask_set_def bitmask_clear_unsafe_def
      bitmask_clear_def bitmask_test_and_set_def bitmask_test_and_clear_def bitmask_test_def
      fetch_and_modify_def Let_def rbind_def split: sum.splits)

interpretation bm: bitset bm_inv "\<lambda>m. {..<bm_bits m}" bm_set bitmask_test bitmask_set bitmask_clear
  by unfold_locales (use bitmask_test_spec bitmask_set_spec bitmask_clear_spec in fastforce)+

section \<open>Allocation\<close>

lemma round_up_64k:
  fixes bits :: "64 word"
  assumes "unat bits \<le> 2 ^ 62"
  defines "a \<equiv> (if bits AND 0xFFFF \<noteq> 0 then (bits + 0x10000) AND NOT 0xFFFF else bits)"
  shows "\<exists>k. unat a = k * 2 ^ 16 \<and> unat bits \<le> k * 2 ^ 16 \<and> k \<le> 2 ^ 47"
proof -
  have m: "(0xFFFF :: 64 word) = mask 16" by (simp add: mask_eq_exp_minus_1)
  have low: "unat (w AND 0xFFFF) = unat w mod 2 ^ 16" for w :: "64 word"
    unfolding m by (rule unat_and_mask_mod)
  have high: "unat (w AND NOT 0xFFFF) = unat w div 2 ^ 16 * 2 ^ 16" for w :: "64 word"
  proof -
    have "w AND 0xFFFF \<le> w" by (rule word_and_le2)
    moreover have "w AND NOT 0xFFFF = w - (w AND 0xFFFF)"
    proof -
      have "(w AND 0xFFFF) OR (w AND NOT 0xFFFF) = w" by (auto simp: bit_eq_iff bit_simps)
      moreover have "(w AND 0xFFFF) AND (w AND NOT 0xFFFF) = 0" by (auto simp: bit_eq_iff bit_simps)
      ultimately show ?thesis by (metis add_diff_cancel_left' disjunctive_add_eq_or)
    qed
    ultimately have "unat (w AND NOT 0xFFFF) = unat w - unat w mod 2 ^ 16"
      by (simp only: unat_sub low)
    then show ?thesis by (simp only: minus_mod_eq_div_mult)
  qed
  define n where "n = unat bits"
  have n: "n \<le> 2 ^ 62" using assms(1) by (simp only: n_def)
  show ?thesis
  proof (cases "bits AND 0xFFFF = 0")
    case True
    then have "n mod 2 ^ 16 = 0" using low [of bits] by (simp only: n_def unat_0)
    then have "unat a = n div 2 ^ 16 * 2 ^ 16" using True by (simp add: a_def n_def minus_mod_eq_div_mult [symmetric])
    moreover have "n div 2 ^ 16 \<le> 2 ^ 62 div 2 ^ 16" using n by (rule div_le_mono)
    ultimately show ?thesis
      using \<open>n mod 2 ^ 16 = 0\<close> unfolding n_def [symmetric]
      by (intro exI [of _ "n div 2 ^ 16"]) (simp add: minus_mod_eq_div_mult [symmetric])
  next
    case False
    have "unat (bits + 0x10000) = n + 2 ^ 16"
      using n by (simp add: n_def unat_word_ariths)
    then have "unat a = (n + 2 ^ 16) div 2 ^ 16 * 2 ^ 16" using False by (simp only: a_def high if_True not_False_eq_True)
    then have "unat a = Suc (n div 2 ^ 16) * 2 ^ 16" by simp
    moreover have "n div 2 ^ 16 \<le> 2 ^ 62 div 2 ^ 16" using n by (rule div_le_mono)
    then have "Suc (n div 2 ^ 16) \<le> 2 ^ 47" by simp
    moreover have "n \<le> Suc (n div 2 ^ 16) * 2 ^ 16"
      using div_mult_mod_eq [of n "2 ^ 16"] mod_less_divisor [of "2 ^ 16" n] by (simp add: less_imp_le)
    ultimately show ?thesis unfolding n_def by blast
  qed
qed

lemma bitmask_alloc_shape:
  assumes "unat bits \<le> 2 ^ 62"
  shows "bm_inv (bitmask_alloc bits junk)" and "bm_bits (bitmask_alloc bits junk) = bits"
    and "unat (bm_bytes (bitmask_alloc bits junk)) = 4 * length (bm_data (bitmask_alloc bits junk))"
proof -
  obtain k where k:
    "unat (if bits AND 0xFFFF \<noteq> 0 then (bits + 0x10000) AND NOT 0xFFFF else bits) = k * 2 ^ 16"
    "unat bits \<le> k * 2 ^ 16" "k \<le> 2 ^ 47"
    using round_up_64k [OF assms] by blast
  let ?a = "if bits AND 0xFFFF \<noteq> 0 then (bits + 0x10000) AND NOT 0xFFFF else bits"
  let ?m = "bitmask_alloc bits junk"
  have "k * 2 ^ 16 \<le> 2 ^ 47 * 2 ^ 16" using k(3) by (rule mult_le_mono1)
  then have k63: "k * 2 ^ 16 \<le> 2 ^ 63" by simp
  have "unat (?a + 31) = k * 2 ^ 16 + 31" using k63 unfolding unat_word_ariths k(1) by simp
  then have "unat (drop_bit 5 (?a + 31)) = (k * 2 ^ 16 + 31) div 2 ^ 5"
    by (simp only: unat_drop_bit_div)
  also have "\<dots> = k * 2 ^ 11" by simp
  finally have len: "unat (drop_bit 5 (?a + 31)) = k * 2 ^ 11" .
  have d: "length (bm_data ?m) = k * 2 ^ 11"
    by (simp only: bitmask_alloc_def Let_def bitmask.simps len length_take length_append length_replicate)
  then show "bm_inv ?m"
    using k(2) k63 unfolding bm_inv_def by (intro exI [of _ k]) (simp add: bitmask_alloc_def Let_def)
  have "unat (drop_bit 5 (?a + 31) * 4) = k * 2 ^ 11 * 4"
    unfolding unat_word_ariths len using k63 by simp
  then show "unat (bm_bytes ?m) = 4 * length (bm_data ?m)"
    unfolding d by (simp only: bitmask_alloc_def Let_def bitmask.simps mult.commute)
qed (simp add: bitmask_alloc_def Let_def)

text \<open>\<open>bitmask_sum\<close> runs over \<open>bytes\<close> blocks, four times as many as there are.\<close>

lemma sum_blocks_beyond: "length (bm_data m) < n \<Longrightarrow> sum_blocks m [k..<n] acc = Inl Out_of_bounds \<or> n \<le> k"
proof (induction "n - k" arbitrary: k acc)
  case (Suc d)
  then have "k < n" by simp
  with Suc.hyps(1) [of "Suc k"] Suc.hyps(2) Suc.prems show ?case
    by (cases "Suc k < n") (auto simp: upt_conv_Cons)
qed simp

lemma bitmask_sum_overruns:
  assumes "0 < bits" and "unat bits \<le> 2 ^ 62"
  shows "bitmask_sum (bitmask_alloc bits junk) = Inl Out_of_bounds"
proof -
  let ?m = "bitmask_alloc bits junk"
  have "0 < length (bm_data ?m)"
    using block_at_shuffle(2) [OF bitmask_alloc_shape(1) [OF assms(2)], of 0 junk] assms(1)
    by (auto simp: bitmask_alloc_shape(2) [OF assms(2)])
  then show ?thesis
    using sum_blocks_beyond [of ?m "unat (bm_bytes ?m)" 0 0] bitmask_alloc_shape(3) [OF assms(2)]
    by (auto simp: bitmask_sum_def)
qed

section \<open>Properties\<close>

text \<open>
  C11. The mask is a set of indices: after allocation and clearing it is empty, after setting all
  it holds every index below \<open>bits\<close>, and for every such index testing, setting, clearing (in
  all variants) act on exactly that index and never leave the allocated blocks.
\<close>

theorem bitmask_is_index_set:
  assumes "unat bits \<le> 2 ^ 62" and "m = bitmask_alloc bits junk" and "idx < bits"
    and "bm_inv n" and "bm_bits n = bits"
  shows "bm_inv (bitmask_clear_all m) \<and> bm_set (bitmask_clear_all m) = {}
    \<and> bm_inv (bitmask_set_all m) \<and> bm_set (bitmask_set_all m) = {..<bits}
    \<and> bitmask_test n idx = Inr (idx \<in> bm_set n)
    \<and> (\<exists>s. bitmask_set n idx = Inr s \<and> bitmask_set_unsafe n idx = Inr s
         \<and> bitmask_test_and_set n idx = Inr (idx \<in> bm_set n, s)
         \<and> bm_inv s \<and> bm_bits s = bits \<and> bm_set s = insert idx (bm_set n))
    \<and> (\<exists>c. bitmask_clear n idx = Inr c \<and> bitmask_clear_unsafe n idx = Inr c
         \<and> bitmask_test_and_clear n idx = Inr (idx \<in> bm_set n, c)
         \<and> bm_inv c \<and> bm_bits c = bits \<and> bm_set c = bm_set n - {idx})"
proof -
  have m: "bm_inv m" "bm_bits m = bits" using bitmask_alloc_shape [OF assms(1)] assms(2) by auto
  have "unat (bitmask_shuffle i) div 32 < length (bm_data m)" if "i < bits" for i
    using block_at_shuffle(2) [OF m(1)] that m(2) by simp
  then have "bm_set (bitmask_clear_all m) = {}" "bm_set (bitmask_set_all m) = {..<bits}"
    using m by (auto simp: bm_set_def bm_test_def bitmask_clear_all_def bitmask_set_all_def)
  moreover have "bm_inv (bitmask_clear_all m)" "bm_inv (bitmask_set_all m)"
    using m by (simp_all add: bm_inv_def bitmask_clear_all_def bitmask_set_all_def)
  ultimately show ?thesis
    using bitmask_test_spec [OF assms(4), of idx] bitmask_set_spec [OF assms(4), of idx]
      bitmask_clear_spec [OF assms(4), of idx] assms(3,5)
    by (auto simp: bitmask_variants)
qed

theorem bitmask_is_index_set_witness:
  "\<exists>s. bitmask_set (bitmask_alloc 100 []) 7 = Inr s
     \<and> bm_set s = insert 7 (bm_set (bitmask_alloc 100 []))"
  using bitmask_is_index_set [of 100 "bitmask_alloc 100 []" "[]" 7 "bitmask_alloc 100 []"]
    bitmask_alloc_shape [of 100 "[]"] by auto

lemma aquire_spin_result:
  "(\<exists>d \<ge> c. aquire_spin busy timeout c = Some d \<and> \<not> busy d \<and> (d = c \<or> int d < timeout)
      \<and> (\<forall>k. c \<le> k \<and> k < d \<longrightarrow> busy k))
   \<or> (aquire_spin busy timeout c = None \<and> busy c \<and> (\<forall>d. c \<le> d \<and> int d < timeout \<longrightarrow> busy d))"
proof (induction busy timeout c rule: aquire_spin.induct)
  case (1 busy timeout c)
  show ?case
  proof (cases "busy c \<and> \<not> timeout \<le> int (Suc c)")
    case True
    have "(\<forall>d. Suc c \<le> d \<and> int d < timeout \<longrightarrow> busy d) \<Longrightarrow> (\<forall>d. c \<le> d \<and> int d < timeout \<longrightarrow> busy d)"
      using True by (metis Suc_leI le_eq_less_or_eq)
    moreover have "(\<forall>k. Suc c \<le> k \<and> k < d \<longrightarrow> busy k) \<Longrightarrow> (\<forall>k. c \<le> k \<and> k < d \<longrightarrow> busy k)" for d
      using True by (metis Suc_leI le_eq_less_or_eq)
    moreover have "(\<exists>d \<ge> Suc c. aquire_spin busy timeout (Suc c) = Some d \<and> \<not> busy d
        \<and> (d = Suc c \<or> int d < timeout) \<and> (\<forall>k. Suc c \<le> k \<and> k < d \<longrightarrow> busy k))
      \<or> (aquire_spin busy timeout (Suc c) = None \<and> busy (Suc c) \<and> (\<forall>d. Suc c \<le> d \<and> int d < timeout \<longrightarrow> busy d))"
      using 1 True by blast
    moreover have "aquire_spin busy timeout c = aquire_spin busy timeout (Suc c)" and "int (Suc c) < timeout"
      using True by (simp_all add: aquire_spin.simps [of busy timeout c])
    ultimately show ?thesis using True by (metis Suc_leD)
  next
    case False
    have "\<forall>d. c \<le> d \<and> int d < timeout \<longrightarrow> busy d" if "busy c" "timeout \<le> int (Suc c)"
    proof (intro allI impI)
      fix d assume "c \<le> d \<and> int d < timeout"
      then have "d = c" using that(2) by linarith
      then show "busy d" using that(1) by simp
    qed
    with False show ?thesis by (subst (1 2) aquire_spin.simps) auto
  qed
qed

text \<open>
  C12. \<open>bitmask_aquire\<close> always returns, and it works as a lock whatever the other threads do. Either
  the bit was set at every read within the time-out, and it returns false and writes nothing; or it
  goes on to the atomic fetch after the first read that finds the bit clear. Then it returns true exactly when the
  fetch itself found the bit clear, so that it is this call that set it, and false when another thread
  had set it in between, and then the mask is as the fetch found it.
\<close>

theorem bitmask_aquire_locks:
  assumes "\<forall>c. bm_inv (env c) \<and> bm_bits (env c) = bits" and "idx < bits"
  shows "(\<exists>c m'. bitmask_aquire env idx timeout = Inr (idx \<notin> bm_set (env (Suc c)), Some m')
       \<and> (c = 0 \<or> int c < timeout) \<and> idx \<notin> bm_set (env c) \<and> (\<forall>k < c. idx \<in> bm_set (env k))
       \<and> bm_set m' = insert idx (bm_set (env (Suc c))))
    \<or> (bitmask_aquire env idx timeout = Inr (False, None) \<and> idx \<in> bm_set (env 0)
       \<and> (\<forall>c. int c < timeout \<longrightarrow> idx \<in> bm_set (env c)))"
proof -
  have t: "bitmask_test (env c) idx = Inr (idx \<in> bm_set (env c))" for c
    using bitmask_test_spec [of "env c" idx] assms by simp
  have s: "\<exists>m'. bitmask_test_and_set (env c) idx = Inr (idx \<in> bm_set (env c), m')
      \<and> bm_set m' = insert idx (bm_set (env c))" for c
    using bitmask_set_spec [of "env c" idx] assms t [of c] by (auto simp: bitmask_variants)
  consider d where "aquire_spin (\<lambda>c. idx \<in> bm_set (env c)) timeout 0 = Some d"
      "idx \<notin> bm_set (env d)" "d = 0 \<or> int d < timeout" "\<forall>k < d. idx \<in> bm_set (env k)"
    | "aquire_spin (\<lambda>c. idx \<in> bm_set (env c)) timeout 0 = None" "idx \<in> bm_set (env 0)"
      "\<forall>d. int d < timeout \<longrightarrow> idx \<in> bm_set (env d)"
    using aquire_spin_result [of 0 "\<lambda>c. idx \<in> bm_set (env c)" timeout] by auto
  then show ?thesis
  proof cases
    case (1 d)
    obtain m' where m': "bitmask_test_and_set (env (Suc d)) idx = Inr (idx \<in> bm_set (env (Suc d)), m')"
        "bm_set m' = insert idx (bm_set (env (Suc d)))"
      using s by blast
    have "bitmask_aquire env idx timeout = Inr (idx \<notin> bm_set (env (Suc d)), Some m')"
      by (simp add: bitmask_aquire_def t 1(1) m'(1))
    then show ?thesis using 1(2-4) m'(2) by blast
  next
    case 2
    then show ?thesis by (simp add: bitmask_aquire_def t)
  qed
qed

text \<open>At the witness another thread sets the bit between the read and the fetch; the call returns false.\<close>

theorem bitmask_aquire_locks_witness:
  "\<exists>m m' won lost. bitmask_set m 7 = Inr m'
    \<and> bitmask_aquire (\<lambda>k. m) 7 10 = Inr (True, Some won) \<and> 7 \<in> bm_set won
    \<and> bitmask_aquire (\<lambda>k. if k = 0 then m else m') 7 10 = Inr (False, Some lost) \<and> bm_set lost = bm_set m'"
proof -
  define m where "m = bitmask_clear_all (bitmask_alloc 100 [])"
  have m: "bm_inv m" "bm_bits m = 100"
    using bitmask_alloc_shape [of 100 "[]"] by (simp_all add: m_def bm_inv_def bitmask_clear_all_def)
  have clear: "7 \<notin> bm_set m"
    using m block_at_shuffle(2) [of m 7] by (auto simp: bm_set_def bm_test_def bitmask_clear_all_def m_def)
  obtain m' where m': "bitmask_set m 7 = Inr m'" "bm_inv m'" "bm_bits m' = 100" "bm_set m' = insert 7 (bm_set m)"
    using bitmask_set_spec [OF m(1), of 7] m(2) by auto
  obtain won where won: "bitmask_aquire (\<lambda>k. m) 7 10 = Inr (True, Some won)" "7 \<in> bm_set won"
    using bitmask_aquire_locks [of "\<lambda>k. m" 100 7 10] m clear by auto
  have "bm_inv (if k = 0 then m else m') \<and> bm_bits (if k = 0 then m else m') = 100" for k :: nat
    using m m' by simp
  then obtain lost where "bitmask_aquire (\<lambda>k. if k = 0 then m else m') 7 10 = Inr (False, Some lost)"
      "bm_set lost = bm_set m'"
    using bitmask_aquire_locks [of "\<lambda>k. if k = 0 then m else m'" 100 7 10] m'(4) clear by auto
  then show ?thesis using m'(1) won by blast
qed

end
