(* ===== verification/Peano_Keys.thy ===== *)
theory Peano_Keys
  imports Prelude
begin

text \<open>
  Space-filling-curve keys, \<open>src/src/peano.c\<close>: the table driven Peano-Hilbert key (Reinecke's
  rewrite), the Morton key, the routine that computes both, and the three older routines
  (\<open>*_old\<close>) that walk a table of 24 rotations with a sense.

  \<open>int\<close> is \<open>32 word\<close> (read with \<open>sint\<close>), \<open>intptr_t\<close> is \<open>64 word\<close>. The argument \<open>bits\<close> is the
  \<open>nat\<close> in the shift \<open>1 << (bits - 1)\<close>; the shift is defined in C for \<open>1 \<le> bits \<le> 31\<close>, the
  program calls the keys with 20. Table entries are \<open>unsigned char\<close> or \<open>int\<close> constants below
  48, modelled as \<open>nat\<close>.

  The lemmas show that the old and the new routines agree, that the key is a bijection between
  the grid and the interval of keys, and that consecutive keys are neighbouring cells.
\<close>

section \<open>The tables\<close>

definition rottable3 :: "nat list list" where
  "rottable3 = [
   [36, 28, 25, 27, 10, 10, 25, 27],
   [29, 11, 24, 24, 37, 11, 26, 26],
   [8, 8, 25, 27, 30, 38, 25, 27],
   [9, 39, 24, 24, 9, 31, 26, 26],
   [40, 24, 44, 32, 40, 6, 44, 6],
   [25, 7, 33, 7, 41, 41, 45, 45],
   [4, 42, 4, 46, 26, 42, 34, 46],
   [43, 43, 47, 47, 5, 27, 5, 35],
   [33, 35, 36, 28, 33, 35, 2, 2],
   [32, 32, 29, 3, 34, 34, 37, 3],
   [33, 35, 0, 0, 33, 35, 30, 38],
   [32, 32, 1, 39, 34, 34, 1, 31],
   [24, 42, 32, 46, 14, 42, 14, 46],
   [43, 43, 47, 47, 25, 15, 33, 15],
   [40, 12, 44, 12, 40, 26, 44, 34],
   [13, 27, 13, 35, 41, 41, 45, 45],
   [28, 41, 28, 22, 38, 43, 38, 22],
   [42, 40, 23, 23, 29, 39, 29, 39],
   [41, 36, 20, 36, 43, 30, 20, 30],
   [37, 31, 37, 31, 42, 40, 21, 21],
   [28, 18, 28, 45, 38, 18, 38, 47],
   [19, 19, 46, 44, 29, 39, 29, 39],
   [16, 36, 45, 36, 16, 30, 47, 30],
   [37, 31, 37, 31, 17, 17, 46, 44],
   [12, 4, 1, 3, 34, 34, 1, 3],
   [5, 35, 0, 0, 13, 35, 2, 2],
   [32, 32, 1, 3, 6, 14, 1, 3],
   [33, 15, 0, 0, 33, 7, 2, 2],
   [16, 0, 20, 8, 16, 30, 20, 30],
   [1, 31, 9, 31, 17, 17, 21, 21],
   [28, 18, 28, 22, 2, 18, 10, 22],
   [19, 19, 23, 23, 29, 3, 29, 11],
   [9, 11, 12, 4, 9, 11, 26, 26],
   [8, 8, 5, 27, 10, 10, 13, 27],
   [9, 11, 24, 24, 9, 11, 6, 14],
   [8, 8, 25, 15, 10, 10, 25, 7],
   [0, 18, 8, 22, 38, 18, 38, 22],
   [19, 19, 23, 23, 1, 39, 9, 39],
   [16, 36, 20, 36, 16, 2, 20, 10],
   [37, 3, 37, 11, 17, 17, 21, 21],
   [4, 17, 4, 46, 14, 19, 14, 46],
   [18, 16, 47, 47, 5, 15, 5, 15],
   [17, 12, 44, 12, 19, 6, 44, 6],
   [13, 7, 13, 7, 18, 16, 45, 45],
   [4, 42, 4, 21, 14, 42, 14, 23],
   [43, 43, 22, 20, 5, 15, 5, 15],
   [40, 12, 21, 12, 40, 6, 23, 6],
   [13, 7, 13, 7, 41, 41, 22, 20]]"

definition subpix3 :: "nat list list" where
  "subpix3 = [
   [0, 7, 1, 6, 3, 4, 2, 5],
   [7, 4, 6, 5, 0, 3, 1, 2],
   [4, 3, 5, 2, 7, 0, 6, 1],
   [3, 0, 2, 1, 4, 7, 5, 6],
   [1, 0, 6, 7, 2, 3, 5, 4],
   [0, 3, 7, 4, 1, 2, 6, 5],
   [3, 2, 4, 5, 0, 1, 7, 6],
   [2, 1, 5, 6, 3, 0, 4, 7],
   [6, 1, 7, 0, 5, 2, 4, 3],
   [1, 2, 0, 3, 6, 5, 7, 4],
   [2, 5, 3, 4, 1, 6, 0, 7],
   [5, 6, 4, 7, 2, 1, 3, 0],
   [7, 6, 0, 1, 4, 5, 3, 2],
   [6, 5, 1, 2, 7, 4, 0, 3],
   [5, 4, 2, 3, 6, 7, 1, 0],
   [4, 7, 3, 0, 5, 6, 2, 1],
   [6, 7, 5, 4, 1, 0, 2, 3],
   [7, 0, 4, 3, 6, 1, 5, 2],
   [0, 1, 3, 2, 7, 6, 4, 5],
   [1, 6, 2, 5, 0, 7, 3, 4],
   [2, 3, 1, 0, 5, 4, 6, 7],
   [3, 4, 0, 7, 2, 5, 1, 6],
   [4, 5, 7, 6, 3, 2, 0, 1],
   [5, 2, 6, 1, 4, 3, 7, 0],
   [7, 0, 6, 1, 4, 3, 5, 2],
   [0, 3, 1, 2, 7, 4, 6, 5],
   [3, 4, 2, 5, 0, 7, 1, 6],
   [4, 7, 5, 6, 3, 0, 2, 1],
   [6, 7, 1, 0, 5, 4, 2, 3],
   [7, 4, 0, 3, 6, 5, 1, 2],
   [4, 5, 3, 2, 7, 6, 0, 1],
   [5, 6, 2, 1, 4, 7, 3, 0],
   [1, 6, 0, 7, 2, 5, 3, 4],
   [6, 5, 7, 4, 1, 2, 0, 3],
   [5, 2, 4, 3, 6, 1, 7, 0],
   [2, 1, 3, 0, 5, 6, 4, 7],
   [0, 1, 7, 6, 3, 2, 4, 5],
   [1, 2, 6, 5, 0, 3, 7, 4],
   [2, 3, 5, 4, 1, 0, 6, 7],
   [3, 0, 4, 7, 2, 1, 5, 6],
   [1, 0, 2, 3, 6, 7, 5, 4],
   [0, 7, 3, 4, 1, 6, 2, 5],
   [7, 6, 4, 5, 0, 1, 3, 2],
   [6, 1, 5, 2, 7, 0, 4, 3],
   [5, 4, 6, 7, 2, 3, 1, 0],
   [4, 3, 7, 0, 5, 2, 6, 1],
   [3, 2, 0, 1, 4, 5, 7, 6],
   [2, 5, 1, 6, 3, 4, 0, 7]]"

definition quadrants :: "nat list list list list" where
  "quadrants = [
   [[[0, 7], [1, 6]], [[3, 4], [2, 5]]],
   [[[7, 4], [6, 5]], [[0, 3], [1, 2]]],
   [[[4, 3], [5, 2]], [[7, 0], [6, 1]]],
   [[[3, 0], [2, 1]], [[4, 7], [5, 6]]],
   [[[1, 0], [6, 7]], [[2, 3], [5, 4]]],
   [[[0, 3], [7, 4]], [[1, 2], [6, 5]]],
   [[[3, 2], [4, 5]], [[0, 1], [7, 6]]],
   [[[2, 1], [5, 6]], [[3, 0], [4, 7]]],
   [[[6, 1], [7, 0]], [[5, 2], [4, 3]]],
   [[[1, 2], [0, 3]], [[6, 5], [7, 4]]],
   [[[2, 5], [3, 4]], [[1, 6], [0, 7]]],
   [[[5, 6], [4, 7]], [[2, 1], [3, 0]]],
   [[[7, 6], [0, 1]], [[4, 5], [3, 2]]],
   [[[6, 5], [1, 2]], [[7, 4], [0, 3]]],
   [[[5, 4], [2, 3]], [[6, 7], [1, 0]]],
   [[[4, 7], [3, 0]], [[5, 6], [2, 1]]],
   [[[6, 7], [5, 4]], [[1, 0], [2, 3]]],
   [[[7, 0], [4, 3]], [[6, 1], [5, 2]]],
   [[[0, 1], [3, 2]], [[7, 6], [4, 5]]],
   [[[1, 6], [2, 5]], [[0, 7], [3, 4]]],
   [[[2, 3], [1, 0]], [[5, 4], [6, 7]]],
   [[[3, 4], [0, 7]], [[2, 5], [1, 6]]],
   [[[4, 5], [7, 6]], [[3, 2], [0, 1]]],
   [[[5, 2], [6, 1]], [[4, 3], [7, 0]]]]"

definition rotxmap_table :: "nat list" where
  "rotxmap_table = [4, 5, 6, 7, 8, 9, 10, 11, 12, 13, 14, 15, 0, 1, 2, 3, 17, 18, 19, 16, 23, 20, 21, 22]"

definition rotymap_table :: "nat list" where
  "rotymap_table = [1, 2, 3, 0, 16, 17, 18, 19, 11, 8, 9, 10, 22, 23, 20, 21, 14, 15, 12, 13, 4, 5, 6, 7]"

definition rotx_table :: "nat list" where
  "rotx_table = [3, 0, 0, 2, 2, 0, 0, 1]"

definition roty_table :: "nat list" where
  "roty_table = [0, 1, 1, 2, 2, 3, 3, 0]"

definition sense_table :: "int list" where
  "sense_table = [-1, -1, -1, 1, 1, -1, -1, -1]"

section \<open>The routines\<close>

text \<open>
  \<open>unsigned char pix = ((x & mask) ? 4 : 0) | ((y & mask) ? 2 : 0) | ((z & mask) ? 1 : 0)\<close>,
  and the digit of the Morton key, where \<open>z\<close> is the most significant axis.
\<close>

definition pix :: "32 word \<Rightarrow> 32 word \<Rightarrow> 32 word \<Rightarrow> 32 word \<Rightarrow> nat" where
  "pix x y z msk =
     (if x AND msk \<noteq> 0 then 4 else 0) OR (if y AND msk \<noteq> 0 then 2 else 0)
     OR (if z AND msk \<noteq> 0 then 1 else 0)"

definition morton_digit :: "32 word \<Rightarrow> 32 word \<Rightarrow> 32 word \<Rightarrow> 32 word \<Rightarrow> nat" where
  "morton_digit x y z msk =
     (if z AND msk \<noteq> 0 then 4 else 0) + (if y AND msk \<noteq> 0 then 2 else 0)
     + (if x AND msk \<noteq> 0 then 1 else 0)"

lemma mask_decreases:
  fixes msk :: "32 word"
  shows "0 < sint msk \<Longrightarrow> sint (signed_drop_bit (Suc 0) msk) < sint msk"
  by (simp add: sint_signed_drop_bit_eq drop_bit_eq_div)

function peano_loop ::
    "32 word \<Rightarrow> 32 word \<Rightarrow> 32 word \<Rightarrow> 32 word \<Rightarrow> nat \<Rightarrow> 64 word \<Rightarrow> 64 word" where
  "peano_loop x y z msk rotation key =
     (if 0 < sint msk then
        let p = pix x y z msk
        in peano_loop x y z (signed_drop_bit 1 msk) (rottable3 ! rotation ! p)
             (push_bit 3 key OR of_nat (subpix3 ! rotation ! p))
      else key)"
  by pat_completeness auto
termination
  by (relation "measure (\<lambda>(x, y, z, msk, rotation, key). nat (sint msk))")
    (auto intro: mask_decreases)

definition peano_hilbert_key :: "32 word \<Rightarrow> 32 word \<Rightarrow> 32 word \<Rightarrow> nat \<Rightarrow> 64 word" where
  "peano_hilbert_key x y z bits = peano_loop x y z (push_bit (bits - 1) 1) 0 0"

function morton_loop ::
    "32 word \<Rightarrow> 32 word \<Rightarrow> 32 word \<Rightarrow> 32 word \<Rightarrow> 64 word \<Rightarrow> 64 word" where
  "morton_loop x y z msk morton =
     (if 0 < sint msk then
        morton_loop x y z (signed_drop_bit 1 msk)
          (push_bit 3 morton + of_nat (morton_digit x y z msk))
      else morton)"
  by pat_completeness auto
termination
  by (relation "measure (\<lambda>(x, y, z, msk, morton). nat (sint msk))")
    (auto intro: mask_decreases)

definition morton_key :: "32 word \<Rightarrow> 32 word \<Rightarrow> 32 word \<Rightarrow> nat \<Rightarrow> 64 word" where
  "morton_key x y z bits = morton_loop x y z (push_bit (bits - 1) 1) 0"

text \<open>The routine that returns the Peano-Hilbert key and stores the Morton key.\<close>

function both_loop ::
    "32 word \<Rightarrow> 32 word \<Rightarrow> 32 word \<Rightarrow> 32 word \<Rightarrow> nat \<Rightarrow> 64 word \<Rightarrow> 64 word \<Rightarrow> 64 word \<times> 64 word" where
  "both_loop x y z msk rotation key morton =
     (if 0 < sint msk then
        let p = pix x y z msk
        in both_loop x y z (signed_drop_bit 1 msk) (rottable3 ! rotation ! p)
             (push_bit 3 key OR of_nat (subpix3 ! rotation ! p))
             (push_bit 3 morton + of_nat (morton_digit x y z msk))
      else (key, morton))"
  by pat_completeness auto
termination
  by (relation "measure (\<lambda>(x, y, z, msk, rotation, key, morton). nat (sint msk))")
    (auto intro: mask_decreases)

definition peano_and_morton_key ::
    "32 word \<Rightarrow> 32 word \<Rightarrow> 32 word \<Rightarrow> nat \<Rightarrow> 64 word \<times> 64 word" where
  "peano_and_morton_key x y z bits = both_loop x y z (push_bit (bits - 1) 1) 0 0 0"

text \<open>
  The older routines. The two inner loops (\<open>while(rotx > 0)\<close>, \<open>while(roty > 0)\<close>) apply a map
  to the rotation; \<open>n\<close> is the number of iterations \<open>bits - i\<close> that remain.
\<close>

fun rot_times :: "nat list \<Rightarrow> nat \<Rightarrow> nat \<Rightarrow> nat" where
  "rot_times tab 0 rotation = rotation"
| "rot_times tab (Suc k) rotation = rot_times tab k (tab ! rotation)"

definition bit_of :: "32 word \<Rightarrow> 32 word \<Rightarrow> nat" where
  "bit_of x msk = (if x AND msk \<noteq> 0 then 1 else 0)"

definition old_quad :: "nat \<Rightarrow> 32 word \<Rightarrow> 32 word \<Rightarrow> 32 word \<Rightarrow> 32 word \<Rightarrow> nat" where
  "old_quad rotation x y z msk =
     quadrants ! rotation ! bit_of x msk ! bit_of y msk ! bit_of z msk"

definition old_rotation :: "nat \<Rightarrow> nat \<Rightarrow> nat" where
  "old_rotation rotation quad =
     rot_times rotymap_table (roty_table ! quad)
       (rot_times rotxmap_table (rotx_table ! quad) rotation)"

fun peano_old_loop ::
    "nat \<Rightarrow> 32 word \<Rightarrow> 32 word \<Rightarrow> 32 word \<Rightarrow> 32 word \<Rightarrow> nat \<Rightarrow> int \<Rightarrow> 64 word \<Rightarrow> 64 word" where
  "peano_old_loop 0 x y z msk rotation sense key = key"
| "peano_old_loop (Suc n) x y z msk rotation sense key =
     (let quad = old_quad rotation x y z msk
      in peano_old_loop n x y z (signed_drop_bit 1 msk) (old_rotation rotation quad)
           (sense * sense_table ! quad)
           (push_bit 3 key + of_nat (if sense = 1 then quad else 7 - quad)))"

definition peano_hilbert_key_old :: "32 word \<Rightarrow> 32 word \<Rightarrow> 32 word \<Rightarrow> nat \<Rightarrow> 64 word" where
  "peano_hilbert_key_old x y z bits = peano_old_loop bits x y z (push_bit (bits - 1) 1) 0 1 0"

text \<open>\<open>morton += (bitz << 2) + (bity << 1) + bitx\<close>\<close>

definition old_morton_digit :: "32 word \<Rightarrow> 32 word \<Rightarrow> 32 word \<Rightarrow> 32 word \<Rightarrow> nat" where
  "old_morton_digit x y z msk =
     push_bit 2 (bit_of z msk) + push_bit 1 (bit_of y msk) + bit_of x msk"

fun both_old_loop ::
    "nat \<Rightarrow> 32 word \<Rightarrow> 32 word \<Rightarrow> 32 word \<Rightarrow> 32 word \<Rightarrow> nat \<Rightarrow> int \<Rightarrow> 64 word \<Rightarrow> 64 word
      \<Rightarrow> 64 word \<times> 64 word" where
  "both_old_loop 0 x y z msk rotation sense key morton = (key, morton)"
| "both_old_loop (Suc n) x y z msk rotation sense key morton =
     (let quad = old_quad rotation x y z msk
      in both_old_loop n x y z (signed_drop_bit 1 msk) (old_rotation rotation quad)
           (sense * sense_table ! quad)
           (push_bit 3 key + of_nat (if sense = 1 then quad else 7 - quad))
           (push_bit 3 morton + of_nat (old_morton_digit x y z msk)))"

definition peano_and_morton_key_old ::
    "32 word \<Rightarrow> 32 word \<Rightarrow> 32 word \<Rightarrow> nat \<Rightarrow> 64 word \<times> 64 word" where
  "peano_and_morton_key_old x y z bits =
     both_old_loop bits x y z (push_bit (bits - 1) 1) 0 1 0 0"

fun morton_old_loop ::
    "nat \<Rightarrow> 32 word \<Rightarrow> 32 word \<Rightarrow> 32 word \<Rightarrow> 32 word \<Rightarrow> 64 word \<Rightarrow> 64 word" where
  "morton_old_loop 0 x y z msk morton = morton"
| "morton_old_loop (Suc n) x y z msk morton =
     morton_old_loop n x y z (signed_drop_bit 1 msk)
       (push_bit 3 morton + of_nat (old_morton_digit x y z msk))"

definition morton_key_old :: "32 word \<Rightarrow> 32 word \<Rightarrow> 32 word \<Rightarrow> nat \<Rightarrow> 64 word" where
  "morton_key_old x y z bits = morton_old_loop bits x y z (push_bit (bits - 1) 1) 0"

declare peano_loop.simps [simp del] morton_loop.simps [simp del] both_loop.simps [simp del]

section \<open>Keys as lists of digits\<close>

text \<open>
  The loops, unrolled: the octants of the point from the most significant bit down, the
  digits the table automaton gives them, and the word the digits are shifted into.
\<close>

definition octant :: "32 word \<Rightarrow> 32 word \<Rightarrow> 32 word \<Rightarrow> nat \<Rightarrow> nat" where
  "octant x y z n =
     (if bit x n then 4 else 0) + (if bit y n then 2 else 0) + (if bit z n then 1 else 0)"

definition mdigit :: "32 word \<Rightarrow> 32 word \<Rightarrow> 32 word \<Rightarrow> nat \<Rightarrow> nat" where
  "mdigit x y z n = octant z y x n"

fun hdigits :: "nat \<Rightarrow> nat list \<Rightarrow> nat list" where
  "hdigits r [] = []"
| "hdigits r (p # ps) = subpix3 ! r ! p # hdigits (rottable3 ! r ! p) ps"

fun dkey :: "64 word \<Rightarrow> nat list \<Rightarrow> 64 word" where
  "dkey k [] = k"
| "dkey k (d # ds) = dkey (push_bit 3 k + of_nat d) ds"

definition lmask :: "nat \<Rightarrow> 32 word" where
  "lmask n = (case n of 0 \<Rightarrow> 0 | Suc m \<Rightarrow> 2 ^ m)"

lemma lmask_simps [simp]: "lmask 0 = 0" "lmask (Suc n) = 2 ^ n"
  by (simp_all add: lmask_def)

abbreviation downto0 :: "nat \<Rightarrow> nat list" where
  "downto0 n \<equiv> rev [0..<n]"

lemma octant_less [simp]: "octant x y z n < 8"
  by (simp add: octant_def)

lemma pix_octant: "pix x y z (2 ^ n) = octant x y z n"
  by (simp add: pix_def octant_def bit_mask_test)

lemma morton_digit_mdigit: "morton_digit x y z (2 ^ n) = mdigit x y z n"
  by (simp add: morton_digit_def mdigit_def octant_def bit_mask_test)

lemma old_morton_digit_mdigit: "old_morton_digit x y z (2 ^ n) = mdigit x y z n"
  by (simp add: old_morton_digit_def mdigit_def octant_def bit_of_def bit_mask_test)

lemma sint_mask: "m < 31 \<Longrightarrow> sint (2 ^ m :: 32 word) = 2 ^ m"
proof -
  assume "m < 31"
  then have "(2 :: int) ^ m < 2 ^ 31"
    by (intro power_strict_increasing) auto
  then have "sint (word_of_int (2 ^ m) :: 32 word) = 2 ^ m"
    by (subst sint_sbintrunc')
      (auto simp: signed_take_bit_int_eq_self_iff intro: order_trans [of _ 0])
  then show ?thesis by simp
qed

lemma signed_drop_mask: "m < 31 \<Longrightarrow> signed_drop_bit (Suc 0) (2 ^ m :: 32 word) = lmask m"
proof (rule signed_word_eqI)
  assume "m < 31"
  then show "sint (signed_drop_bit (Suc 0) (2 ^ m :: 32 word)) = sint (lmask m)"
    by (cases m)
      (simp_all add: lmask_def sint_signed_drop_bit_eq sint_mask drop_bit_eq_div del: power_Suc,
        simp)
qed

lemma hdigits_length [simp]: "length (hdigits r ps) = length ps"
  by (induction r ps rule: hdigits.induct) auto

lemma downto0_Suc: "map f (downto0 (Suc n)) = f n # map f (downto0 n)"
  by simp

text \<open>Table facts, by evaluation.\<close>

lemma table_shape:
  "length rottable3 = 48" "length subpix3 = 48"
  "list_all (\<lambda>row. length row = 8 \<and> list_all (\<lambda>v. v < 48) row) rottable3"
  "list_all (\<lambda>row. length row = 8 \<and> list_all (\<lambda>v. v < 8) row) subpix3"
  by code_simp+

lemma table_bounds:
  assumes "r < 48" and "p < 8"
  shows "rottable3 ! r ! p < 48" and "subpix3 ! r ! p < 8"
  using table_shape assms by (simp_all add: list_all_length)

lemma hdigits_less: "r < 48 \<Longrightarrow> list_all (\<lambda>p. p < 8) ps \<Longrightarrow> list_all (\<lambda>d. d < 8) (hdigits r ps)"
  by (induction r ps rule: hdigits.induct) (auto simp: table_bounds)

lemma shift_or_digit:
  fixes k :: "64 word"
  shows "d < 8 \<Longrightarrow> push_bit 3 k OR of_nat d = push_bit 3 k + of_nat d"
  using push_bit_or_eq_add [of d 3 k] by simp

lemma octants_less: "list_all (\<lambda>p. p < 8) (map (octant x y z) ns)"
  by (simp add: list_all_iff)

abbreviation octants :: "32 word \<Rightarrow> 32 word \<Rightarrow> 32 word \<Rightarrow> nat \<Rightarrow> nat list" where
  "octants x y z n \<equiv> map (octant x y z) (downto0 n)"

lemma peano_loop_lmask:
  "n \<le> 31 \<Longrightarrow> r < 48 \<Longrightarrow> peano_loop x y z (lmask n) r key = dkey key (hdigits r (octants x y z n))"
proof (induction n arbitrary: r key)
  case 0
  then show ?case by (simp add: peano_loop.simps [of _ _ _ 0])
next
  case (Suc n)
  then show ?case
    by (simp add: peano_loop.simps [of _ _ _ "2 ^ n"] Let_def pix_octant sint_mask
        signed_drop_mask table_bounds shift_or_digit)
qed

lemma morton_loop_lmask:
  "n \<le> 31 \<Longrightarrow> morton_loop x y z (lmask n) m = dkey m (map (mdigit x y z) (downto0 n))"
proof (induction n arbitrary: m)
  case 0
  then show ?case by (simp add: morton_loop.simps [of _ _ _ 0])
next
  case (Suc n)
  then show ?case
    by (simp add: morton_loop.simps [of _ _ _ "2 ^ n"] morton_digit_mdigit sint_mask
        signed_drop_mask)
qed

lemma both_loop_pair:
  "both_loop x y z msk r key m = (peano_loop x y z msk r key, morton_loop x y z msk m)"
proof (induction x y z msk r key m rule: both_loop.induct)
  case (1 x y z msk r key m)
  show ?case
    using 1 [OF _ refl]
    by (subst both_loop.simps, subst peano_loop.simps, subst morton_loop.simps)
      (simp add: Let_def)
qed

lemma lmask_start: "0 < bits \<Longrightarrow> push_bit (bits - 1) 1 = lmask bits"
  by (cases bits) (simp_all add: lmask_def)

lemma peano_hilbert_key_digits:
  "0 < bits \<Longrightarrow> bits \<le> 31 \<Longrightarrow>
   peano_hilbert_key x y z bits = dkey 0 (hdigits 0 (octants x y z bits))"
  by (simp only: peano_hilbert_key_def lmask_start peano_loop_lmask)

lemma morton_key_digits:
  "0 < bits \<Longrightarrow> bits \<le> 31 \<Longrightarrow>
   morton_key x y z bits = dkey 0 (map (mdigit x y z) (downto0 bits))"
  by (simp only: morton_key_def lmask_start morton_loop_lmask)

section \<open>The older routines compute the same keys\<close>

text \<open>
  The 48 states of the table automaton are the 24 rotations of the old one, with the
  sense: state \<open>r\<close> is rotation \<open>r\<close> with sense 1, state \<open>r + 24\<close> is rotation \<open>r\<close> with sense -1.
\<close>

definition old_state :: "nat \<Rightarrow> int \<Rightarrow> nat" where
  "old_state rotation sense = (if sense = 1 then rotation else rotation + 24)"

abbreviation qrow :: "nat \<Rightarrow> nat list" where
  "qrow r \<equiv> concat (concat (quadrants ! r))"

lemma quadrants_shape:
  "length quadrants = 24"
  "list_all (\<lambda>t. length t = 2 \<and> list_all (\<lambda>u. length u = 2 \<and>
     list_all (\<lambda>v. length v = 2 \<and> list_all (\<lambda>q. q < 8) v) u) t) quadrants"
  by code_simp+

lemma old_rotation_less_all:
  "list_all (\<lambda>r. list_all (\<lambda>q. old_rotation r q < 24) [0..<8]) [0..<24]"
  by code_simp

lemma subpix3_quadrants:
  "take 24 subpix3 = map (\<lambda>t. concat (concat t)) quadrants"
  "drop 24 subpix3 = map (\<lambda>t. map (\<lambda>q. 7 - q) (concat (concat t))) quadrants"
  by code_simp+

lemma rottable3_quadrants_plus:
  "take 24 rottable3 = map2 (\<lambda>r t. map (\<lambda>q. old_state (old_rotation r q) (sense_table ! q))
     (concat (concat t))) [0..<24] quadrants"
  by code_simp

lemma rottable3_quadrants_minus:
  "drop 24 rottable3 = map2 (\<lambda>r t. map (\<lambda>q. old_state (old_rotation r q) (- sense_table ! q))
     (concat (concat t))) [0..<24] quadrants"
  by code_simp

lemma nth_take_drop_24:
  assumes "length xs = 48" and "r < 24"
  shows "xs ! r = take 24 xs ! r" and "xs ! (r + 24) = drop 24 xs ! r"
  using assms by (simp_all add: add.commute)

lemma qrow_nth:
  assumes "r < 24" and "bx < 2" and "by' < 2" and "bz < 2"
  shows "qrow r ! (4 * bx + 2 * by' + bz) = quadrants ! r ! bx ! by' ! bz"
    and "quadrants ! r ! bx ! by' ! bz < 8" and "length (qrow r) = 8"
proof -
  obtain a b c d e f g h where t: "quadrants ! r = [[[a, b], [c, d]], [[e, f], [g, h]]]"
    and less: "list_all (\<lambda>q. q < 8) [a, b, c, d, e, f, g, h]"
  proof -
    have "quadrants ! r \<in> set quadrants"
      using assms(1) quadrants_shape(1) by simp
    with quadrants_shape(2) have "length (quadrants ! r) = Suc (Suc 0) \<and>
        list_all (\<lambda>u. length u = Suc (Suc 0) \<and>
          list_all (\<lambda>v. length v = Suc (Suc 0) \<and> list_all (\<lambda>q. q < 8) v) u) (quadrants ! r)"
      by (auto simp: list_all_iff numeral_2_eq_2)
    then show thesis
      by (auto simp: length_Suc_conv) (rule that, assumption, simp)
  qed
  have "bx = 0 \<or> bx = 1" "by' = 0 \<or> by' = 1" "bz = 0 \<or> bz = 1"
    using assms by auto
  then show "qrow r ! (4 * bx + 2 * by' + bz) = quadrants ! r ! bx ! by' ! bz"
    and "quadrants ! r ! bx ! by' ! bz < 8" and "length (qrow r) = 8"
    using less by (auto simp: t)
qed

lemma old_step:
  assumes r: "r < 24" and s: "s = 1 \<or> s = -1"
    and b: "bx < 2" "by' < 2" "bz < 2"
  defines "p \<equiv> 4 * bx + 2 * by' + bz" and "q \<equiv> quadrants ! r ! bx ! by' ! bz"
  shows "old_rotation r q < 24"
    and "subpix3 ! old_state r s ! p = (if s = 1 then q else 7 - q)"
    and "rottable3 ! old_state r s ! p = old_state (old_rotation r q) (s * sense_table ! q)"
proof -
  have pq: "qrow r ! p = q" and q: "q < 8" and len: "length (qrow r) = 8" and p: "p < 8"
    using qrow_nth [OF r b] b by (simp_all add: p_def q_def)
  show "old_rotation r q < 24"
    using old_rotation_less_all r q by (simp add: list_all_iff)
  note tables = nth_take_drop_24 [OF table_shape(1) r] nth_take_drop_24 [OF table_shape(2) r]
    subpix3_quadrants rottable3_quadrants_plus rottable3_quadrants_minus
  show "subpix3 ! old_state r s ! p = (if s = 1 then q else 7 - q)"
    using s r p len pq quadrants_shape(1) by (auto simp: old_state_def tables)
  show "rottable3 ! old_state r s ! p = old_state (old_rotation r q) (s * sense_table ! q)"
    using s r p len pq quadrants_shape(1) by (auto simp: old_state_def [of r] tables)
qed

lemma sense_table_unit: "q < 8 \<Longrightarrow> sense_table ! q = 1 \<or> sense_table ! q = -1"
proof -
  have "list_all (\<lambda>q. sense_table ! q = 1 \<or> sense_table ! q = -1) [0..<8]"
    by code_simp
  then show "q < 8 \<Longrightarrow> sense_table ! q = 1 \<or> sense_table ! q = -1"
    by (simp add: list_all_iff)
qed

lemma bit_of_less: "bit_of w m < 2"
  by (simp add: bit_of_def)

lemma octant_bit_of:
  "octant x y z n = 4 * bit_of x (2 ^ n) + 2 * bit_of y (2 ^ n) + bit_of z (2 ^ n)"
  by (simp add: octant_def bit_of_def bit_mask_test)

lemma peano_old_loop_lmask:
  "n \<le> 31 \<Longrightarrow> r < 24 \<Longrightarrow> s = 1 \<or> s = -1 \<Longrightarrow>
   peano_old_loop n x y z (lmask n) r s key
     = dkey key (hdigits (old_state r s) (octants x y z n))"
proof (induction n arbitrary: r s key)
  case 0
  then show ?case by simp
next
  case (Suc n)
  let ?q = "old_quad r x y z (2 ^ n)"
  note step = old_step [OF Suc.prems(2,3) bit_of_less [of x "2 ^ n"] bit_of_less [of y "2 ^ n"]
      bit_of_less [of z "2 ^ n"], folded octant_bit_of old_quad_def]
  have "?q < 8"
    using qrow_nth(2) [OF Suc.prems(2)] by (simp add: old_quad_def bit_of_less)
  then have "s * sense_table ! ?q = 1 \<or> s * sense_table ! ?q = -1"
    using sense_table_unit [of ?q] Suc.prems(3) by auto
  note ih = Suc.IH [OF _ step(1) this]
  show ?case
    using Suc.prems(1) by (simp add: Let_def signed_drop_mask ih step(2,3) del: of_nat_diff)
qed

lemma morton_old_loop_lmask:
  "n \<le> 31 \<Longrightarrow> morton_old_loop n x y z (lmask n) m = dkey m (map (mdigit x y z) (downto0 n))"
  by (induction n arbitrary: m) (simp_all add: signed_drop_mask old_morton_digit_mdigit)

lemma both_old_loop_pair:
  "both_old_loop n x y z msk r s key m =
     (peano_old_loop n x y z msk r s key, morton_old_loop n x y z msk m)"
  by (induction n arbitrary: msk r s key m) (simp_all add: Let_def)

lemma peano_hilbert_key_old_digits:
  "0 < bits \<Longrightarrow> bits \<le> 31 \<Longrightarrow>
   peano_hilbert_key_old x y z bits = dkey 0 (hdigits 0 (octants x y z bits))"
  by (simp only: peano_hilbert_key_old_def lmask_start)
    (simp add: peano_old_loop_lmask old_state_def)

lemma morton_key_old_digits:
  "0 < bits \<Longrightarrow> bits \<le> 31 \<Longrightarrow>
   morton_key_old x y z bits = dkey 0 (map (mdigit x y z) (downto0 bits))"
  by (simp only: morton_key_old_def lmask_start morton_old_loop_lmask)

section \<open>The key is a bijection, and consecutive keys are neighbours\<close>

text \<open>
  The rest works with natural numbers: \<open>dval\<close> is the number the octal digits spell, \<open>axis a\<close>
  the coordinate that bit \<open>a\<close> of the octants spells (\<open>a = 2\<close> for x, 1 for y, 0 for z).
\<close>

fun dval :: "nat list \<Rightarrow> nat" where
  "dval [] = 0"
| "dval (d # ds) = d * 8 ^ length ds + dval ds"

fun axis :: "nat \<Rightarrow> nat list \<Rightarrow> nat" where
  "axis a [] = 0"
| "axis a (p # ps) = of_bool (bit p a) * 2 ^ length ps + axis a ps"

lemma dval_less: "list_all (\<lambda>d. d < 8) ds \<Longrightarrow> dval ds < 8 ^ length ds"
proof (induction ds)
  case (Cons d ds)
  then have "d \<le> 7" "dval ds < 8 ^ length ds" by auto
  then have "d * 8 ^ length ds + dval ds < 7 * 8 ^ length ds + 8 ^ length ds"
    by (intro add_le_less_mono mult_right_mono) auto
  then show ?case by simp
qed simp

lemma axis_less: "axis a ps < 2 ^ length ps"
proof (induction ps)
  case (Cons p ps)
  then show ?case by (cases "bit p a") simp_all
qed simp

lemma dval_inject:
  assumes "list_all (\<lambda>d. d < 8) ds" and "list_all (\<lambda>d. d < 8) es"
    and "length ds = length es" and "dval ds = dval es"
  shows "ds = es"
  using assms(3,1,2,4)
proof (induction ds es rule: list_induct2)
  case (Cons d ds e es)
  have less: "dval ds < 8 ^ length ds" "dval es < 8 ^ length ds"
    using Cons.prems dval_less [of ds] dval_less [of es] Cons.hyps by simp_all
  have "(d * 8 ^ length ds + dval ds) div 8 ^ length ds = d"
    and "(e * 8 ^ length ds + dval es) div 8 ^ length ds = e"
    using less by simp_all
  moreover have "d * 8 ^ length ds + dval ds = e * 8 ^ length ds + dval es"
    using Cons.prems(3) Cons.hyps by simp
  ultimately have "d = e" by metis
  with Cons show ?case by simp
qed simp

lemma unat_dkey:
  "list_all (\<lambda>d. d < 8) ds \<Longrightarrow> unat k * 8 ^ length ds + dval ds < 2 ^ 64 \<Longrightarrow>
   unat (dkey k ds) = unat k * 8 ^ length ds + dval ds"
proof (induction ds arbitrary: k)
  case (Cons d ds)
  let ?k = "push_bit 3 k + of_nat d"
  have bound: "(unat k * 8 + d) * 8 ^ length ds + dval ds < 2 ^ 64"
    using Cons.prems(2) by (simp add: algebra_simps)
  have "unat k * 8 + d \<le> (unat k * 8 + d) * 8 ^ length ds + dval ds"
    by (metis le_add1 mult.right_neutral mult_le_mono2 one_le_numeral one_le_power order_trans)
  with bound have small: "unat k * 8 + d < 2 ^ 64" by linarith
  then have "unat ?k = unat k * 8 + d"
    using Cons.prems(1)
    by (simp add: push_bit_eq_mult unat_word_ariths unat_of_nat mult.commute)
  with Cons.IH [of ?k] Cons.prems(1) bound show ?case
    by (simp add: algebra_simps)
qed simp

lemma unat_dkey_0:
  assumes "list_all (\<lambda>d. d < 8) ds" and "length ds \<le> 21"
  shows "unat (dkey 0 ds) = dval ds"
proof -
  have "dval ds < 8 ^ length ds" by (rule dval_less [OF assms(1)])
  also have "\<dots> \<le> 8 ^ 21" by (rule power_increasing [OF assms(2)]) simp
  finally have "dval ds < 2 ^ 64" by simp
  then show ?thesis using unat_dkey [OF assms(1), of 0] by simp
qed

lemma axis_octants:
  "axis 2 (octants x y z n) = unat x mod 2 ^ n"
  "axis 1 (octants x y z n) = unat y mod 2 ^ n"
  "axis 0 (octants x y z n) = unat z mod 2 ^ n"
proof (induction n)
  case (Suc n)
  have bits: "bit (octant x y z n) 2 = bit x n" "bit (octant x y z n) 1 = bit y n"
    "bit (octant x y z n) 0 = bit z n"
    by (auto simp: octant_def bit_nat_def)
  have "unat w mod 2 ^ Suc n = of_bool (bit w n) * 2 ^ n + unat w mod 2 ^ n" for w :: "32 word"
    using take_bit_Suc_from_most [of n "unat w"]
    by (simp add: take_bit_eq_mod bit_unsigned_iff mult.commute)
  with Suc show "axis 2 (octants x y z (Suc n)) = unat x mod 2 ^ Suc n"
    "axis 1 (octants x y z (Suc n)) = unat y mod 2 ^ Suc n"
    "axis 0 (octants x y z (Suc n)) = unat z mod 2 ^ Suc n"
    by (simp_all only: downto0_Suc axis.simps bits) (simp_all add: bits)
qed (simp_all)

subsection \<open>The curve\<close>

text \<open>
  \<open>inverses ! r\<close> lists the octants of state \<open>r\<close> in the order the curve visits them. The curve
  stays in its entry corner at every depth (first clause), likewise in its exit corner
  (second), and where it passes from an octant to the next the two octants share a face and
  the exit corner of the one lies against the entry corner of the other (third).
\<close>

definition inverses :: "nat list list" where
  "inverses = map (\<lambda>row. map (\<lambda>d. length (takeWhile (\<lambda>e. e \<noteq> d) row)) [0..<8]) subpix3"

definition upper :: "nat \<Rightarrow> nat list" where  \<comment> \<open>the octants on the upper side of an axis\<close>
  "upper a = (if a = 2 then [4, 5, 6, 7] else if a = 1 then [2, 3, 6, 7] else [1, 3, 5, 7])"

definition same_side :: "nat \<Rightarrow> nat \<Rightarrow> nat \<Rightarrow> bool" where
  "same_side a p q \<longleftrightarrow> (p \<in> set (upper a) \<longleftrightarrow> q \<in> set (upper a))"

definition abutting :: "nat \<Rightarrow> nat \<Rightarrow> nat \<Rightarrow> nat \<Rightarrow> nat \<Rightarrow> nat \<Rightarrow> nat \<Rightarrow> bool" where
  "abutting a b c p q e s \<longleftrightarrow>
     \<not> same_side a p q \<and> same_side a e q \<and> same_side a s p
     \<and> same_side b p q \<and> same_side b e s \<and> same_side c p q \<and> same_side c e s"

definition curve_ok :: "nat list \<Rightarrow> nat list \<Rightarrow> nat list list \<Rightarrow> bool" where
  "curve_ok iv rot ivs \<longleftrightarrow>
     ivs ! (rot ! (iv ! 0)) ! 0 = iv ! 0
     \<and> ivs ! (rot ! (iv ! 7)) ! 7 = iv ! 7
     \<and> list_all (\<lambda>(p, q).
          let e = ivs ! (rot ! p) ! 7; s = ivs ! (rot ! q) ! 0
          in abutting 0 1 2 p q e s \<or> abutting 1 0 2 p q e s \<or> abutting 2 0 1 p q e s)
          (zip iv (tl iv))"

lemma curve_ok_all:
  "list_all (\<lambda>(iv, rot). curve_ok iv rot inverses) (zip inverses rottable3)"
  by code_simp

lemma inverses_shape:
  "length inverses = 48"
  "list_all (\<lambda>iv. length iv = 8 \<and> list_all (\<lambda>p. p < 8) iv) inverses"
  by code_simp+

lemma subpix3_perm_all:
  "list_all (\<lambda>(row, iv). map (\<lambda>p. row ! p) iv = [0..<8] \<and> map (\<lambda>d. iv ! d) row = [0..<8])
     (zip subpix3 inverses)"
  by code_simp

lemma octants_in_order:
  assumes "r < 48"
  shows "d < 8 \<Longrightarrow> subpix3 ! r ! (inverses ! r ! d) = d"
    and "p < 8 \<Longrightarrow> inverses ! r ! (subpix3 ! r ! p) = p"
    and "d < 8 \<Longrightarrow> inverses ! r ! d < 8"
proof -
  have "(subpix3 ! r, inverses ! r) \<in> set (zip subpix3 inverses)"
    using assms table_shape(2) inverses_shape(1) by (auto simp: in_set_zip)
  with subpix3_perm_all have perm: "map (\<lambda>p. subpix3 ! r ! p) (inverses ! r) = [0..<8]"
    "map (\<lambda>d. inverses ! r ! d) (subpix3 ! r) = [0..<8]"
    by (auto simp: list_all_iff)
  have len: "length (inverses ! r) = 8" "length (subpix3 ! r) = 8"
    and less: "list_all (\<lambda>p. p < 8) (inverses ! r)"
    using assms table_shape(2,4) inverses_shape by (simp_all add: list_all_length)
  show "d < 8 \<Longrightarrow> subpix3 ! r ! (inverses ! r ! d) = d"
    using len arg_cong [OF perm(1), of "\<lambda>xs. xs ! d"] by simp
  show "p < 8 \<Longrightarrow> inverses ! r ! (subpix3 ! r ! p) = p"
    using len arg_cong [OF perm(2), of "\<lambda>xs. xs ! p"] by simp
  show "d < 8 \<Longrightarrow> inverses ! r ! d < 8"
    using len less by (simp add: list_all_length)
qed

lemma curve_ok:
  assumes "r < 48"
  shows "curve_ok (inverses ! r) (rottable3 ! r) inverses"
proof -
  have "(inverses ! r, rottable3 ! r) \<in> set (zip inverses rottable3)"
    using assms table_shape(1) inverses_shape(1) by (auto simp: in_set_zip)
  with curve_ok_all show ?thesis by (auto simp: list_all_iff)
qed

lemma curve_ends:
  assumes "r < 48" and "d = 0 \<or> d = 7"
  shows "inverses ! (rottable3 ! r ! (inverses ! r ! d)) ! d = inverses ! r ! d"
  using curve_ok [OF assms(1)] assms(2) by (auto simp: curve_ok_def)

lemma curve_passes:
  assumes r: "r < 48" and d: "d < 7"
  defines "p \<equiv> inverses ! r ! d" and "q \<equiv> inverses ! r ! Suc d"
  defines "e \<equiv> inverses ! (rottable3 ! r ! p) ! 7" and "s \<equiv> inverses ! (rottable3 ! r ! q) ! 0"
  shows "abutting 0 1 2 p q e s \<or> abutting 1 0 2 p q e s \<or> abutting 2 0 1 p q e s"
proof -
  have len: "length (inverses ! r) = 8"
    using r inverses_shape by (simp add: list_all_length)
  have "(p, q) \<in> set (zip (inverses ! r) (tl (inverses ! r)))"
    unfolding in_set_zip using d len by (intro exI [of _ d]) (simp add: p_def q_def nth_tl)
  with curve_ok [OF r] show ?thesis
    unfolding curve_ok_def list_all_iff Let_def e_def s_def by blast
qed

lemma constant_digits:
  assumes "d = 0 \<or> d = 7"
  shows "r < 48 \<Longrightarrow> list_all (\<lambda>p. p < 8) ps \<Longrightarrow> hdigits r ps = replicate (length ps) d \<Longrightarrow>
    ps = replicate (length ps) (inverses ! r ! d)"
proof (induction ps arbitrary: r)
  case (Cons p ps)
  then have p: "p = inverses ! r ! d"
    using octants_in_order(2) [of r p] by auto
  with Cons.prems have "ps = replicate (length ps) (inverses ! (rottable3 ! r ! p) ! d)"
    by (intro Cons.IH) (auto simp: table_bounds)
  also have "inverses ! (rottable3 ! r ! p) ! d = p"
    using curve_ends [OF Cons.prems(1) assms] p by simp
  finally show ?case using p by (metis length_Cons replicate_Suc)
qed simp

lemma dval_zero: "dval ds = 0 \<Longrightarrow> ds = replicate (length ds) 0"
  by (induction ds) auto

lemma dval_full:
  "list_all (\<lambda>d. d < 8) ds \<Longrightarrow> Suc (dval ds) = 8 ^ length ds \<Longrightarrow> ds = replicate (length ds) 7"
proof (rule dval_inject)
  have "Suc (dval (replicate n 7)) = 8 ^ n" for n
    by (induction n) auto
  then show "Suc (dval ds) = 8 ^ length ds \<Longrightarrow> dval ds = dval (replicate (length ds) 7)"
    by (metis Suc_inject)
qed (auto simp: list_all_iff)

lemma digit_carry:
  fixes u v b d e :: nat
  assumes "u < b" "v < b" "e * b + v = Suc (d * b + u)"
  shows "(e = d \<and> v = Suc u) \<or> (e = Suc d \<and> v = 0 \<and> Suc u = b)"
proof (cases "Suc u = b")
  case True
  then have "e * b + v = Suc d * b" using assms(3) by simp
  with assms(2) have "e = Suc d \<and> v = 0"
    by (metis add_cancel_right_right bot_nat_0.not_eq_extremum div_mult_self3 div_mult_self_is_m
        add.right_neutral div_less less_zeroE)
  with True show ?thesis by simp
next
  case False
  then have "Suc u < b" using assms(1) by simp
  moreover have "e * b + v = d * b + Suc u" using assms(3) by simp
  ultimately have "e = d" using assms(2)
    by (metis add.commute add.right_neutral div_less div_mult_self3 less_nat_zero_code)
  with assms(3) show ?thesis by simp
qed

lemma axis_replicate: "axis a (replicate n p) = of_bool (bit p a) * (2 ^ n - 1)"
proof (induction n)
  case (Suc n)
  have "(2::nat) ^ n + (2 ^ n - 1) = 2 * 2 ^ n - 1"
    by (simp add: mult_2)
  with Suc show ?case by simp
qed simp

lemma upper_bit:
  assumes "p < 8"
  shows "p \<in> set (upper 0) \<longleftrightarrow> bit p 0" "p \<in> set (upper 1) \<longleftrightarrow> bit p 1"
    "p \<in> set (upper 2) \<longleftrightarrow> bit p 2"
proof -
  have "p \<in> {0, 1, 2, 3, 4, 5, 6, 7}" using assms by auto
  then show "p \<in> set (upper 0) \<longleftrightarrow> bit p 0" "p \<in> set (upper 1) \<longleftrightarrow> bit p 1"
    "p \<in> set (upper 2) \<longleftrightarrow> bit p 2"
    by (auto simp: upper_def bit_nat_def)
qed

definition step_length :: "nat list \<Rightarrow> nat list \<Rightarrow> int" where
  "step_length ps qs =
     \<bar>int (axis 2 qs) - int (axis 2 ps)\<bar> + \<bar>int (axis 1 qs) - int (axis 1 ps)\<bar>
     + \<bar>int (axis 0 qs) - int (axis 0 ps)\<bar>"

lemma abutting_step:
  assumes "p < 8" "q < 8" "e < 8" "s < 8"
    and "abutting 0 1 2 p q e s \<or> abutting 1 0 2 p q e s \<or> abutting 2 0 1 p q e s"
  shows "step_length (p # replicate n e) (q # replicate n s) = 1"
proof -
  define D where "D a = \<bar>int (axis a (q # replicate n s)) - int (axis a (p # replicate n e))\<bar>" for a
  have D: "D a = \<bar>int (of_bool (bit q a) * 2 ^ n + of_bool (bit s a) * (2 ^ n - 1))
      - int (of_bool (bit p a) * 2 ^ n + of_bool (bit e a) * (2 ^ n - 1))\<bar>" for a
    by (simp only: D_def axis.simps axis_replicate length_replicate)
  have move: "D a = 1" if "bit p a \<noteq> bit q a" "bit e a = bit q a" "bit s a = bit p a" for a
    using that unfolding D by (cases "bit p a") (simp_all add: of_nat_diff)
  have stay: "D a = 0" if "bit p a = bit q a" "bit e a = bit s a" for a
    using that unfolding D by simp
  have side: "same_side a u v \<longleftrightarrow> (bit u a \<longleftrightarrow> bit v a)"
    if "u < 8" "v < 8" "a = 0 \<or> a = 1 \<or> a = 2" for a u v
    using that(3) upper_bit [OF that(1)] upper_bit [OF that(2)] unfolding same_side_def by blast
  have one: "D a = 1 \<and> D b = 0 \<and> D c = 0"
    if "abutting a b c p q e s" "a = 0 \<or> a = 1 \<or> a = 2" "b = 0 \<or> b = 1 \<or> b = 2"
      "c = 0 \<or> c = 1 \<or> c = 2" for a b c
    using that(1) unfolding abutting_def
    by (simp only: side [OF _ _ that(2)] side [OF _ _ that(3)] side [OF _ _ that(4)] assms(1-4))
      (simp add: move stay)
  from assms(5) have "D 0 + D 1 + D 2 = 1"
    using one [of 0 1 2] one [of 1 0 2] one [of 2 0 1] by (elim disjE) simp_all
  then show ?thesis
    unfolding step_length_def D_def by linarith
qed

lemma consecutive_octants:
  "length ps = length qs \<Longrightarrow> r < 48 \<Longrightarrow> list_all (\<lambda>p. p < 8) ps \<Longrightarrow> list_all (\<lambda>p. p < 8) qs \<Longrightarrow>
   dval (hdigits r qs) = Suc (dval (hdigits r ps)) \<Longrightarrow> step_length ps qs = 1"
proof (induction ps qs arbitrary: r rule: list_induct2)
  case (Cons p ps q qs)
  let ?d = "subpix3 ! r ! p" and ?e = "subpix3 ! r ! q"
  let ?rp = "rottable3 ! r ! p" and ?rq = "rottable3 ! r ! q"
  have r: "r < 48" and p: "p < 8" and q: "q < 8"
    and ps: "list_all (\<lambda>p. p < 8) ps" and qs: "list_all (\<lambda>p. p < 8) qs"
    using Cons.prems by simp_all
  note rp = table_bounds(1) [OF r p] and rq = table_bounds(1) [OF r q]
  have bounds: "dval (hdigits ?rp ps) < 8 ^ length ps" "dval (hdigits ?rq qs) < 8 ^ length ps"
    using dval_less [OF hdigits_less [OF rp ps]] dval_less [OF hdigits_less [OF rq qs]] Cons.hyps
    by simp_all
  consider "?e = ?d" "dval (hdigits ?rq qs) = Suc (dval (hdigits ?rp ps))"
    | "?e = Suc ?d" "dval (hdigits ?rq qs) = 0" "Suc (dval (hdigits ?rp ps)) = 8 ^ length ps"
    using digit_carry [OF bounds, of ?e ?d] Cons.prems(4) Cons.hyps by auto
  then show ?case
  proof cases
    case 1
    then have "p = q"
      using octants_in_order(2) [OF r] p q by metis
    with 1 Cons.IH [OF rp ps qs] Cons.hyps show ?thesis
      by (simp add: step_length_def)
  next
    case 2
    have d: "?d < 7"
      using 2(1) table_bounds(2) [OF r q] by simp
    have pq: "inverses ! r ! ?d = p" "inverses ! r ! Suc ?d = q"
      using octants_in_order(2) [OF r] p q 2(1) by metis+
    have "ps = replicate (length ps) (inverses ! ?rp ! 7)"
      using constant_digits [OF _ rp ps, of 7] dval_full [OF hdigits_less [OF rp ps]] 2(3)
      by simp
    moreover have "qs = replicate (length ps) (inverses ! ?rq ! 0)"
      using constant_digits [OF _ rq qs, of 0] dval_zero [OF 2(2)] Cons.hyps by simp
    moreover have "step_length (p # replicate (length ps) (inverses ! ?rp ! 7))
        (q # replicate (length ps) (inverses ! ?rq ! 0)) = 1"
      using curve_passes [OF r d] unfolding pq
      by (intro abutting_step p q) (simp_all add: octants_in_order rp rq)
    ultimately show ?thesis by metis
  qed
qed simp

section \<open>Properties\<close>

lemma unat_peano_key:
  assumes "0 < bits" and "bits \<le> 21"
  shows "unat (peano_hilbert_key x y z bits) = dval (hdigits 0 (octants x y z bits))"
  using assms
  by (simp add: peano_hilbert_key_digits unat_dkey_0 hdigits_less octants_less)

text \<open>
  C1. The table driven Peano-Hilbert key and the older routine with 24 rotations and a sense
  return the same key, for all coordinates and every depth for which the shift is defined
  (beyond 21 bits both wrap in the same way).
\<close>

theorem peano_old_new_equal:
  assumes "0 < bits" and "bits \<le> 31"
  shows "peano_hilbert_key_old x y z bits = peano_hilbert_key x y z bits"
  using assms by (simp only: peano_hilbert_key_old_digits peano_hilbert_key_digits)

theorem peano_old_new_equal_witness: "peano_hilbert_key_old 5 3 6 3 = peano_hilbert_key 5 3 6 3"
  by (rule peano_old_new_equal) simp_all

text \<open>The coordinates with at most \<open>bits\<close> bits.\<close>

definition grid :: "nat \<Rightarrow> 32 word set" where
  "grid bits = {w. unat w < 2 ^ bits}"

lemma card_grid: "bits \<le> 32 \<Longrightarrow> card (grid bits) = 2 ^ bits"
proof -
  assume b: "bits \<le> 32"
  have "bij_betw unat {w :: 32 word. unat w < 2 ^ bits} {..<2 ^ bits}"
  proof (rule bij_betw_byWitness [where f' = of_nat])
    have "(2::nat) ^ bits \<le> 2 ^ 32" using b by (intro power_increasing) auto
    then show "(of_nat :: nat \<Rightarrow> 32 word) ` {..<2 ^ bits} \<subseteq> {w. unat w < 2 ^ bits}"
      "\<forall>y \<in> {..<2 ^ bits}. unat (of_nat y :: 32 word) = y"
      by (auto simp: unat_of_nat)
  qed auto
  then show ?thesis by (simp add: grid_def bij_betw_same_card)
qed

lemma hdigits_inject:
  "length ps = length qs \<Longrightarrow> r < 48 \<Longrightarrow> list_all (\<lambda>p. p < 8) ps \<Longrightarrow> list_all (\<lambda>p. p < 8) qs \<Longrightarrow>
   hdigits r ps = hdigits r qs \<Longrightarrow> ps = qs"
proof (induction ps qs arbitrary: r rule: list_induct2)
  case (Cons p ps q qs)
  have "inverses ! r ! (subpix3 ! r ! p) = p" "inverses ! r ! (subpix3 ! r ! q) = q"
    using Cons.prems(1,2,3) octants_in_order(2) [of r] by simp_all
  with Cons.prems(4) have "p = q" by (metis hdigits.simps(2) list.inject)
  with Cons.IH [of "rottable3 ! r ! q"] Cons.prems show ?case
    by (simp add: table_bounds(1))
qed simp

lemma peano_key_inject:
  assumes b: "0 < bits" "bits \<le> 21"
    and "unat x < 2 ^ bits" "unat y < 2 ^ bits" "unat z < 2 ^ bits"
    and "unat x' < 2 ^ bits" "unat y' < 2 ^ bits" "unat z' < 2 ^ bits"
    and "unat (peano_hilbert_key x y z bits) = unat (peano_hilbert_key x' y' z' bits)"
  shows "x = x' \<and> y = y' \<and> z = z'"
proof -
  have "hdigits 0 (octants x y z bits) = hdigits 0 (octants x' y' z' bits)"
    using assms(9) by (intro dval_inject)
      (simp_all add: unat_peano_key b hdigits_less octants_less)
  then have "octants x y z bits = octants x' y' z' bits"
    using hdigits_inject [of "octants x y z bits" "octants x' y' z' bits" 0] octants_less by simp
  with axis_octants [of x y z bits] axis_octants [of x' y' z' bits]
  have "unat x mod 2 ^ bits = unat x' mod 2 ^ bits" "unat y mod 2 ^ bits = unat y' mod 2 ^ bits"
    "unat z mod 2 ^ bits = unat z' mod 2 ^ bits"
    by metis+
  with assms(3-8) show ?thesis
    by (simp add: word_unat_eq_iff)
qed

lemma dval_octants_less: "dval (hdigits 0 (octants x y z n)) < 8 ^ n"
  using dval_less [OF hdigits_less [OF _ octants_less], of 0 x y z "downto0 n"] by simp

text \<open>
  C2. Up to 21 bits the Peano-Hilbert key maps the grid of points whose coordinates have
  at most \<open>bits\<close> bits one-to-one onto the keys below \<open>8 ^ bits\<close>.
\<close>

theorem peano_key_bijection:
  assumes b: "0 < bits" "bits \<le> 21"
  shows "bij_betw (\<lambda>(x, y, z). unat (peano_hilbert_key x y z bits))
    (grid bits \<times> grid bits \<times> grid bits) {..<8 ^ bits}"
proof -
  let ?f = "\<lambda>(x, y, z). unat (peano_hilbert_key x y z bits)"
  have inj: "inj_on ?f (grid bits \<times> grid bits \<times> grid bits)"
  proof (rule inj_onI)
    fix u v assume "u \<in> grid bits \<times> grid bits \<times> grid bits" "v \<in> grid bits \<times> grid bits \<times> grid bits" "?f u = ?f v"
    then show "u = v"
      using peano_key_inject [OF b, of "fst u" "fst (snd u)" "snd (snd u)"
          "fst v" "fst (snd v)" "snd (snd v)"]
      by (cases u; cases v) (simp add: grid_def)
  qed
  have sub: "?f ` (grid bits \<times> grid bits \<times> grid bits) \<subseteq> {..<8 ^ bits}"
    by (auto simp: unat_peano_key b dval_octants_less)
  have "card (?f ` (grid bits \<times> grid bits \<times> grid bits)) = 2 ^ bits * (2 ^ bits * 2 ^ bits)"
    unfolding card_image [OF inj] card_cartesian_product
    using b by (simp add: card_grid)
  also have "\<dots> = card {..<(8::nat) ^ bits}"
    by (simp flip: power_mult_distrib)
  finally have "?f ` (grid bits \<times> grid bits \<times> grid bits) = {..<8 ^ bits}"
    by (intro card_subset_eq sub) simp_all
  with inj show ?thesis by (simp add: bij_betw_def)
qed

theorem peano_key_bijection_witness:
  "bij_betw (\<lambda>(x, y, z). unat (peano_hilbert_key x y z 20))
    (grid 20 \<times> grid 20 \<times> grid 20) {..<8 ^ 20}"
  using peano_key_bijection [of 20] by simp

text \<open>
  C3. Points with consecutive Peano-Hilbert keys are neighbours: they differ by one in
  exactly one coordinate. This is what the reordering of the particles relies on.
\<close>

theorem peano_key_neighbours:
  assumes b: "0 < bits" "bits \<le> 21"
    and "unat x < 2 ^ bits" "unat y < 2 ^ bits" "unat z < 2 ^ bits"
    and "unat x' < 2 ^ bits" "unat y' < 2 ^ bits" "unat z' < 2 ^ bits"
    and "unat (peano_hilbert_key x' y' z' bits) = Suc (unat (peano_hilbert_key x y z bits))"
  shows "\<bar>int (unat x') - int (unat x)\<bar> + \<bar>int (unat y') - int (unat y)\<bar>
    + \<bar>int (unat z') - int (unat z)\<bar> = 1"
proof -
  have "step_length (octants x y z bits) (octants x' y' z' bits) = 1"
    using assms(9) by (intro consecutive_octants [where r = 0])
      (simp_all add: unat_peano_key b octants_less)
  then show ?thesis
    unfolding step_length_def axis_octants using assms(3-8) by simp
qed

theorem peano_key_neighbours_witness:
  "\<bar>int (unat (0 :: 32 word)) - int (unat (0 :: 32 word))\<bar>
    + \<bar>int (unat (0 :: 32 word)) - int (unat (0 :: 32 word))\<bar>
    + \<bar>int (unat (1 :: 32 word)) - int (unat (0 :: 32 word))\<bar> = 1"
proof (rule peano_key_neighbours [of 20])
  show "unat (peano_hilbert_key 0 0 1 20) = Suc (unat (peano_hilbert_key 0 0 0 20))"
    by code_simp
qed simp_all

text \<open>
  C4. The combined routines return exactly the two keys that the separate routines return.
\<close>

theorem peano_and_morton_key_pair:
  "peano_and_morton_key x y z bits = (peano_hilbert_key x y z bits, morton_key x y z bits)
   \<and> peano_and_morton_key_old x y z bits =
       (peano_hilbert_key_old x y z bits, morton_key_old x y z bits)"
  by (simp add: peano_and_morton_key_def peano_hilbert_key_def morton_key_def both_loop_pair
      peano_and_morton_key_old_def peano_hilbert_key_old_def morton_key_old_def both_old_loop_pair)

lemma bit_dval_step:
  fixes d v :: nat
  assumes "v < 8 ^ n"
  shows "bit (d * 8 ^ n + v) m \<longleftrightarrow> (if m < 3 * n then bit v m else bit d (m - 3 * n))"
proof -
  have p: "(8 :: nat) ^ n = 2 ^ (3 * n)" by (simp add: power_mult)
  have v: "\<not> bit v k" if "3 * n \<le> k" for k
    using bit_less_exp [of v "3 * n" k] assms that unfolding p by auto
  have "d * 8 ^ n + v = push_bit (3 * n) d + v"
    by (simp add: push_bit_eq_mult p)
  also have "\<dots> = push_bit (3 * n) d OR v"
    using v by (intro disjunctive_add_eq_or) (auto simp: bit_eq_iff bit_simps)
  finally show ?thesis
    using v by (auto simp: bit_simps)
qed

lemma bit_morton_digits:
  "bit (dval (map (mdigit x y z) (downto0 n))) m \<longleftrightarrow>
     m < 3 * n \<and> bit ([x, y, z] ! (m mod 3)) (m div 3)"
proof (induction n)
  case (Suc n)
  have less: "dval (map (mdigit x y z) (downto0 n)) < 8 ^ n"
    using dval_less [of "map (mdigit x y z) (downto0 n)"] by (simp add: list_all_iff mdigit_def)
  have digit: "bit (mdigit x y z n) k \<longleftrightarrow> k < 3 \<and> bit ([x, y, z] ! k) n" for k
  proof -
    have "bit (octant z y x n) k \<Longrightarrow> k < 3"
      using bit_less_exp [of "octant z y x n" 3 k] by simp
    moreover have "k < 3 \<Longrightarrow> k = 0 \<or> k = 1 \<or> k = 2" by auto
    ultimately show ?thesis
      by (auto simp: mdigit_def octant_def bit_nat_def)
  qed
  show ?case
  proof (cases "m < 3 * n")
    case True
    then show ?thesis
      by (simp add: downto0_Suc bit_dval_step less Suc.IH)
  next
    case False
    then have m: "m = 3 * n + (m - 3 * n)" by simp
    have "m - 3 * n < 3 \<Longrightarrow> m mod 3 = m - 3 * n \<and> m div 3 = n"
      by (subst (1 2) m) simp
    with False show ?thesis
      by (auto simp: downto0_Suc bit_dval_step less digit)
  qed
qed simp

lemma bit_morton_key:
  assumes "0 < bits" and "bits \<le> 21"
  shows "bit (morton_key x y z bits) m \<longleftrightarrow> m < 3 * bits \<and> bit ([x, y, z] ! (m mod 3)) (m div 3)"
proof -
  have "unat (morton_key x y z bits) = dval (map (mdigit x y z) (downto0 bits))"
    using assms by (simp add: morton_key_digits unat_dkey_0 list_all_iff mdigit_def)
  moreover have "bit (morton_key x y z bits) m \<longleftrightarrow> bit (unat (morton_key x y z bits)) m"
    by (simp add: bit_unsigned_iff)
  ultimately show ?thesis by (simp add: bit_morton_digits)
qed

text \<open>
  C5. The Morton key interleaves the coordinates: bit \<open>m\<close> of the key is bit \<open>m div 3\<close> of x, y
  or z as \<open>m mod 3\<close> is 0, 1 or 2; the older routine computes the same key.
\<close>

theorem morton_key_interleaves:
  assumes "0 < bits" and "bits \<le> 21"
  shows "(bit (morton_key x y z bits) m \<longleftrightarrow>
           m < 3 * bits \<and> bit ([x, y, z] ! (m mod 3)) (m div 3))
         \<and> morton_key_old x y z bits = morton_key x y z bits"
  using bit_morton_key [OF assms] assms by (simp add: morton_key_old_digits morton_key_digits)

theorem morton_key_interleaves_witness:
  "(bit (morton_key 3 0 0 20) 3 \<longleftrightarrow> (3::nat) < 60 \<and> bit ([3, 0, 0 :: 32 word] ! (3 mod 3)) (3 div 3))
   \<and> morton_key_old 3 0 0 20 = morton_key 3 0 0 20"
  using morton_key_interleaves [of 20 3 0 0 3] by simp

end
