(* ===== verification/Morton_Key.thy ===== *)
theory Morton_Key
  imports Peano_Keys Float_Model Sorting_Arrays
begin

text \<open>
  The Morton key of a position, \<open>src/src/mortonkey.h\<close> and \<open>mortonkey.c\<close>: the key of the cell of
  a grid with \<open>2 ^ morton_key_bits\<close> cells per axis on the unit cube, the comparison callback and
  the two reductions over arrays of keys that are registered with MPI. The loop over the mask is
  the one of \<open>peano.c\<close>, so its model is shared. The registration itself (\<open>MPI_Type_commit\<close>,
  \<open>MPI_Op_create\<close>) is not modelled.
\<close>

text \<open>\<open>ix = pos[0] * (1 << morton_key_bits)\<close>: a product of \<open>float\<close>s, converted to \<open>int\<close>.\<close>

definition grid_index :: "nat \<Rightarrow> real \<Rightarrow> 32 word" where
  "grid_index bits x = of_int (trunc (fl (x * fl (of_int (sint (push_bit bits 1 :: 32 word))))))"

definition morton_key_pos :: "nat \<Rightarrow> real \<times> real \<times> real \<Rightarrow> 64 word" where
  "morton_key_pos bits = (\<lambda>(x, y, z).
     let ix = grid_index bits x; iy = grid_index bits y; iz = grid_index bits z
     in morton_loop ix iy iz (push_bit (bits - 1) 1) 0)"

definition morton_key_t_compare :: "64 word \<Rightarrow> 64 word \<Rightarrow> int" where
  "morton_key_t_compare k1 k2 = of_bool (k2 < k1) - of_bool (k1 < k2)"

fun morton_key_mpi_min :: "64 word list \<Rightarrow> 64 word list \<Rightarrow> 64 word list" where
  "morton_key_mpi_min (a # invec) (b # inoutvec) =
     (if morton_key_t_compare a b < 0 then a else b) # morton_key_mpi_min invec inoutvec"
| "morton_key_mpi_min _ inoutvec = inoutvec"

fun morton_key_mpi_max :: "64 word list \<Rightarrow> 64 word list \<Rightarrow> 64 word list" where
  "morton_key_mpi_max (a # invec) (b # inoutvec) =
     (if 0 < morton_key_t_compare a b then a else b) # morton_key_mpi_max invec inoutvec"
| "morton_key_mpi_max _ inoutvec = inoutvec"

section \<open>The comparison and the reductions\<close>

lemma morton_key_t_compare_three_way: "morton_key_t_compare = three_way"
  by (simp add: fun_eq_iff morton_key_t_compare_def three_way_def)

interpretation morton_order: key_order morton_key_t_compare
  unfolding morton_key_t_compare_three_way by (rule three_way.key_order_axioms)

lemma morton_key_mpi_min_map2:
  "length invec = length inoutvec \<Longrightarrow> morton_key_mpi_min invec inoutvec = map2 min invec inoutvec"
  by (induction invec inoutvec rule: list_induct2)
    (auto simp: morton_key_t_compare_three_way min_def)

lemma morton_key_mpi_max_map2:
  "length invec = length inoutvec \<Longrightarrow> morton_key_mpi_max invec inoutvec = map2 max invec inoutvec"
  by (induction invec inoutvec rule: list_induct2)
    (auto simp: morton_key_t_compare_three_way max_def)

section \<open>The cell of a position\<close>

lemma grid_index_floor:
  assumes "fl x = x" and "0 \<le> x" and "x < 1" and "bits < 31"
  shows "unat (grid_index bits x) = nat \<lfloor>x * 2 ^ bits\<rfloor>" and "unat (grid_index bits x) < 2 ^ bits"
proof -
  have "sint (push_bit bits 1 :: 32 word) = 2 ^ bits"
    using assms(4) sint_mask [of bits] by (simp add: push_bit_eq_mult)
  moreover have "fl (2 ^ bits) = 2 ^ bits" using fl_scale [of 1 bits] by simp
  ultimately have g: "grid_index bits x = of_int \<lfloor>x * 2 ^ bits\<rfloor>"
    using assms by (simp add: grid_index_def fl_scale trunc_def)
  have "x * 2 ^ bits < 2 ^ bits" using assms(3) by simp
  then have lt: "\<lfloor>x * 2 ^ bits\<rfloor> < 2 ^ bits" by (simp add: floor_less_iff)
  have "(2 :: int) ^ bits \<le> 2 ^ 31" using assms(4) by (intro power_increasing) auto
  with lt have b: "nat \<lfloor>x * 2 ^ bits\<rfloor> < 2 ^ 32" by simp
  have "0 \<le> \<lfloor>x * 2 ^ bits\<rfloor>" using assms(2) by simp
  then have "grid_index bits x = of_nat (nat \<lfloor>x * 2 ^ bits\<rfloor>)" unfolding g by simp
  with b show *: "unat (grid_index bits x) = nat \<lfloor>x * 2 ^ bits\<rfloor>"
    by (simp add: unat_of_nat)
  show "unat (grid_index bits x) < 2 ^ bits"
    unfolding * using lt by (simp add: nat_less_iff)
qed

section \<open>Properties\<close>

text \<open>
  C13. The Morton key of a position in the unit cube interleaves the cell numbers
  \<open>\<lfloor>x * 2 ^ bits\<rfloor>\<close> of the three coordinates, without rounding error, and is below \<open>8 ^ bits\<close>;
  the reductions are the componentwise minimum and maximum of the keys.
\<close>

theorem morton_key_of_cell:
  assumes "0 < bits" "bits \<le> 21"
    and "list_all (\<lambda>u. fl u = u \<and> 0 \<le> u \<and> u < 1) [x, y, z]"
    and "length ks = length ls"
  shows "(bit (morton_key_pos bits (x, y, z)) m \<longleftrightarrow>
      m < 3 * bits \<and> bit (nat \<lfloor>[x, y, z] ! (m mod 3) * 2 ^ bits\<rfloor>) (m div 3))
    \<and> morton_key_mpi_min ks ls = map2 min ks ls \<and> morton_key_mpi_max ks ls = map2 max ks ls"
proof -
  let ?c = "grid_index bits"
  have k: "morton_key_pos bits (x, y, z) = morton_key (?c x) (?c y) (?c z) bits"
    by (simp add: morton_key_pos_def morton_key_def Let_def)
  have "bit (morton_key_pos bits (x, y, z)) m \<longleftrightarrow>
      m < 3 * bits \<and> bit ([?c x, ?c y, ?c z] ! (m mod 3)) (m div 3)"
    unfolding k by (rule bit_morton_key [OF assms(1,2)])
  moreover have "bit ([?c x, ?c y, ?c z] ! (m mod 3)) (m div 3) =
      bit (nat \<lfloor>[x, y, z] ! (m mod 3) * 2 ^ bits\<rfloor>) (m div 3)"
  proof -
    have "u \<in> {x, y, z} \<Longrightarrow> bit (?c u) n = bit (nat \<lfloor>u * 2 ^ bits\<rfloor>) n" for u n
    proof -
      assume "u \<in> {x, y, z}"
      then have "unat (?c u) = nat \<lfloor>u * 2 ^ bits\<rfloor>"
        using assms(2,3) by (intro grid_index_floor) auto
      then show ?thesis by (metis bit_unsigned_iff possible_bit_nat)
    qed
    moreover have "m mod 3 = 0 \<or> m mod 3 = 1 \<or> m mod 3 = 2" by auto
    ultimately show ?thesis by auto
  qed
  ultimately show ?thesis
    using morton_key_mpi_min_map2 [OF assms(4)] morton_key_mpi_max_map2 [OF assms(4)] by simp
qed

theorem morton_key_of_cell_witness:
  "bit (morton_key_pos 20 (1 / 2, 0, 1 / 4)) 57 \<longleftrightarrow>
     (57::nat) < 3 * 20 \<and> bit (nat \<lfloor>[1 / 2, 0, 1 / 4 :: real] ! (57 mod 3) * 2 ^ 20\<rfloor>) (57 div 3)"
proof -
  have "rep 24 (1 / 2)" "rep 24 (1 / 4)"
    unfolding rep_def
    by (intro exI [of _ 1] exI [of _ "-1"] conjI, simp_all add: power_int_minus,
        intro exI [of _ 1] exI [of _ "-2"] conjI, simp_all add: power_int_minus)
  then have "fl (1 / 2) = 1 / 2" "fl (1 / 4) = 1 / 4" by (simp_all add: fl_def rnd_rep)
  then show ?thesis using morton_key_of_cell [of 20 "1 / 2" 0 "1 / 4" "[]" "[]" 57] by simp
qed

end
