(* ===== verification/Pluecker.thy ===== *)
theory Pluecker
  imports Float_Model
begin

text \<open>
  The test whether a ray segment meets an axis-aligned box, \<open>src/src/pluecker-sse.c\<close>. The
  segment starts at the origin and has direction \<open>dir\<close> and length \<open>dist\<close>; \<open>s2b\<close> and \<open>s2t\<close> are
  the bottom and the top corner of the box relative to the start. The function classifies the
  direction by its signs and compares products of coordinates pairwise (Pluecker coordinates);
  the SSE vector product is four rounded \<open>float\<close> products.

  The lemmas reduce the eight cases to one symmetric test (\<open>axis_test\<close>, \<open>pair_test\<close>) and show
  that, in spite of the rounding, a segment that meets the box is never rejected; when no
  rounding occurs, the answer is exact.
\<close>

definition prodsub ::
    "real \<Rightarrow> real \<Rightarrow> real \<Rightarrow> real \<Rightarrow> real \<Rightarrow> real \<Rightarrow> real \<Rightarrow> real \<Rightarrow> real \<times> real \<times> real \<times> real" where
  "prodsub f1 f2 f3 f4 g1 g2 g3 g4 = (fl (f1 * g1), fl (f2 * g2), fl (f3 * g3), fl (f4 * g4))"

text \<open>\<open>r.a[0] < r.a[1] || r.a[2] > r.a[3]\<close>\<close>

definition sse_less :: "real \<times> real \<times> real \<times> real \<Rightarrow> bool" where
  "sse_less = (\<lambda>(r0, r1, r2, r3). r0 < r1 \<or> r2 > r3)"

definition pluecker :: "vec3 \<Rightarrow> real \<Rightarrow> vec3 \<Rightarrow> vec3 \<Rightarrow> bool" where
  "pluecker = (\<lambda>(dir0, dir1, dir2) dist (s2b0, s2b1, s2b2) (s2t0, s2t1, s2t2).
     let class = (if dir0 > 0 then 1 else 0) + (if dir1 > 0 then 2 else 0)
                   + (if dir2 > 0 then 4 else 0) :: nat;
         e2t0 = fl (s2t0 - fl (dist * dir0));
         e2t1 = fl (s2t1 - fl (dist * dir1));
         e2t2 = fl (s2t2 - fl (dist * dir2));
         e2b0 = fl (s2b0 - fl (dist * dir0));
         e2b1 = fl (s2b1 - fl (dist * dir1));
         e2b2 = fl (s2b2 - fl (dist * dir2))
     in
      if class = 0 then
        (if s2b0 > 0 \<or> s2b1 > 0 \<or> s2b2 > 0 then False
         else if e2t0 < 0 \<or> e2t1 < 0 \<or> e2t2 < 0 then False
         else if sse_less (prodsub dir0 dir1 dir0 dir1 s2b1 s2t0 s2t1 s2b0) then False
         else if sse_less (prodsub dir0 dir2 dir0 dir2 s2b2 s2t0 s2t2 s2b0) then False
         else if sse_less (prodsub dir1 dir2 dir1 dir2 s2b2 s2t1 s2t2 s2b1) then False
         else True)
      else if class = 1 then
        (if s2t0 < 0 \<or> s2b1 > 0 \<or> s2b2 > 0 then False
         else if e2b0 > 0 \<or> e2t1 < 0 \<or> e2t2 < 0 then False
         else if sse_less (prodsub dir0 dir1 dir0 dir1 s2t1 s2t0 s2b1 s2b0) then False
         else if sse_less (prodsub dir0 dir2 dir0 dir2 s2t2 s2t0 s2b2 s2b0) then False
         else if sse_less (prodsub dir1 dir2 dir1 dir2 s2b2 s2t1 s2t2 s2b1) then False
         else True)
      else if class = 2 then
        (if s2b0 > 0 \<or> s2t1 < 0 \<or> s2b2 > 0 then False
         else if e2t0 < 0 \<or> e2b1 > 0 \<or> e2t2 < 0 then False
         else if sse_less (prodsub dir0 dir1 dir0 dir1 s2b1 s2b0 s2t1 s2t0) then False
         else if sse_less (prodsub dir0 dir2 dir0 dir2 s2b2 s2t0 s2t2 s2b0) then False
         else if sse_less (prodsub dir1 dir2 dir1 dir2 s2t2 s2t1 s2b2 s2b1) then False
         else True)
      else if class = 3 then
        (if s2t0 < 0 \<or> s2t1 < 0 \<or> s2b2 > 0 then False
         else if e2b0 > 0 \<or> e2b1 > 0 \<or> e2t2 < 0 then False
         else if sse_less (prodsub dir0 dir1 dir0 dir1 s2t1 s2b0 s2b1 s2t0) then False
         else if sse_less (prodsub dir0 dir2 dir0 dir2 s2t2 s2t0 s2b2 s2b0) then False
         else if sse_less (prodsub dir1 dir2 dir1 dir2 s2t2 s2t1 s2b2 s2b1) then False
         else True)
      else if class = 4 then
        (if s2b0 > 0 \<or> s2b1 > 0 \<or> s2t2 < 0 then False
         else if e2t0 < 0 \<or> e2t1 < 0 \<or> e2b2 > 0 then False
         else if sse_less (prodsub dir0 dir1 dir0 dir1 s2b1 s2t0 s2t1 s2b0) then False
         else if sse_less (prodsub dir0 dir2 dir0 dir2 s2b2 s2b0 s2t2 s2t0) then False
         else if sse_less (prodsub dir1 dir2 dir1 dir2 s2b2 s2b1 s2t2 s2t1) then False
         else True)
      else if class = 5 then
        (if s2t0 < 0 \<or> s2b1 > 0 \<or> s2t2 < 0 then False
         else if e2b0 > 0 \<or> e2t1 < 0 \<or> e2b2 > 0 then False
         else if sse_less (prodsub dir0 dir1 dir0 dir1 s2t1 s2t0 s2b1 s2b0) then False
         else if sse_less (prodsub dir0 dir2 dir0 dir2 s2t2 s2b0 s2b2 s2t0) then False
         else if sse_less (prodsub dir1 dir2 dir1 dir2 s2b2 s2b1 s2t2 s2t1) then False
         else True)
      else if class = 6 then
        (if s2b0 > 0 \<or> s2t1 < 0 \<or> s2t2 < 0 then False
         else if e2t0 < 0 \<or> e2b1 > 0 \<or> e2b2 > 0 then False
         else if sse_less (prodsub dir0 dir1 dir0 dir1 s2b1 s2b0 s2t1 s2t0) then False
         else if sse_less (prodsub dir0 dir2 dir0 dir2 s2b2 s2b0 s2t2 s2t0) then False
         else if sse_less (prodsub dir1 dir2 dir1 dir2 s2t2 s2b1 s2b2 s2t1) then False
         else True)
      else if class = 7 then
        (if s2t0 < 0 \<or> s2t1 < 0 \<or> s2t2 < 0 then False
         else if e2b0 > 0 \<or> e2b1 > 0 \<or> e2b2 > 0 then False
         else if sse_less (prodsub dir0 dir1 dir0 dir1 s2t1 s2b0 s2b1 s2t0) then False
         else if sse_less (prodsub dir0 dir2 dir0 dir2 s2t2 s2b0 s2b2 s2t0) then False
         else if sse_less (prodsub dir1 dir2 dir1 dir2 s2t2 s2b1 s2b2 s2t1) then False
         else True)
      else True)"

section \<open>One test for the eight cases\<close>

text \<open>The largest and the smallest product of a direction component with a side of the box.\<close>

definition hi_prod :: "real \<Rightarrow> real \<Rightarrow> real \<Rightarrow> real" where
  "hi_prod d b t = (if d > 0 then d * t else d * b)"

definition lo_prod :: "real \<Rightarrow> real \<Rightarrow> real \<Rightarrow> real" where
  "lo_prod d b t = (if d > 0 then d * b else d * t)"

definition axis_test :: "real \<Rightarrow> real \<Rightarrow> real \<Rightarrow> real \<Rightarrow> bool" where
  "axis_test len d b t \<longleftrightarrow>
     (if d > 0 then 0 \<le> t \<and> fl (b - fl (len * d)) \<le> 0
      else b \<le> 0 \<and> 0 \<le> fl (t - fl (len * d)))"

definition pair_test :: "real \<Rightarrow> real \<Rightarrow> real \<Rightarrow> real \<Rightarrow> real \<Rightarrow> real \<Rightarrow> bool" where
  "pair_test di bi ti dj bj tj \<longleftrightarrow>
     fl (lo_prod dj bi ti) \<le> fl (hi_prod di bj tj) \<and> fl (lo_prod di bj tj) \<le> fl (hi_prod dj bi ti)"

lemma pluecker_tests:
  "pluecker (d0, d1, d2) len (b0, b1, b2) (t0, t1, t2) \<longleftrightarrow>
     axis_test len d0 b0 t0 \<and> axis_test len d1 b1 t1 \<and> axis_test len d2 b2 t2
     \<and> pair_test d0 b0 t0 d1 b1 t1 \<and> pair_test d0 b0 t0 d2 b2 t2 \<and> pair_test d1 b1 t1 d2 b2 t2"
  by (cases "d0 > 0"; cases "d1 > 0"; cases "d2 > 0")
    (simp add: pluecker_def Let_def sse_less_def prodsub_def axis_test_def pair_test_def
      hi_prod_def lo_prod_def not_less not_le conj_ac; argo?)+

section \<open>Segments that meet the box\<close>

definition meets :: "vec3 \<Rightarrow> real \<Rightarrow> vec3 \<Rightarrow> vec3 \<Rightarrow> bool" where
  "meets = (\<lambda>(d0, d1, d2) len (b0, b1, b2) (t0, t1, t2).
     \<exists>\<tau>. 0 \<le> \<tau> \<and> \<tau> \<le> len \<and> b0 \<le> \<tau> * d0 \<and> \<tau> * d0 \<le> t0 \<and> b1 \<le> \<tau> * d1 \<and> \<tau> * d1 \<le> t1
       \<and> b2 \<le> \<tau> * d2 \<and> \<tau> * d2 \<le> t2)"

lemma axis_test_sound:
  assumes "0 \<le> \<tau>" "\<tau> \<le> len" "b \<le> \<tau> * d" "\<tau> * d \<le> t" "fl b = b" "fl t = t"
  shows "axis_test len d b t"
proof (cases "d > 0")
  case True
  then have "\<tau> * d \<le> len * d" "0 \<le> \<tau> * d" using assms(1,2) by (simp_all add: mult_right_mono)
  then have "b \<le> fl (len * d)" using assms(3) by (intro fl.ge_exact [OF assms(5)]) simp
  then show ?thesis using True \<open>0 \<le> \<tau> * d\<close> assms(4) by (simp add: axis_test_def fl.nonpos)
next
  case False
  then have "len * d \<le> \<tau> * d" "\<tau> * d \<le> 0"
    using assms(1,2) by (simp_all add: mult_right_mono_neg mult_nonneg_nonpos)
  then have "fl (len * d) \<le> t" using assms(4) by (intro fl.le_exact [OF assms(6)]) simp
  then show ?thesis using False \<open>\<tau> * d \<le> 0\<close> assms(3) by (simp add: axis_test_def fl.nonneg)
qed

lemma prod_bounds:
  assumes "b \<le> x" "x \<le> t"
  shows "lo_prod d b t \<le> d * x" and "d * x \<le> hi_prod d b t"
  using assms by (simp_all add: lo_prod_def hi_prod_def mult_left_mono mult_left_mono_neg)

lemma pair_test_sound:
  assumes "bi \<le> \<tau> * di" "\<tau> * di \<le> ti" "bj \<le> \<tau> * dj" "\<tau> * dj \<le> tj"
  shows "pair_test di bi ti dj bj tj"
proof -
  have "dj * (\<tau> * di) = di * (\<tau> * dj)" by simp
  then have "lo_prod dj bi ti \<le> hi_prod di bj tj" "lo_prod di bj tj \<le> hi_prod dj bi ti"
    using prod_bounds [OF assms(1,2), of dj] prod_bounds [OF assms(3,4), of di] by linarith+
  then show ?thesis unfolding pair_test_def by (intro conjI fl.mono)
qed

section \<open>The converse without rounding\<close>

definition enter :: "real \<Rightarrow> real \<Rightarrow> real \<Rightarrow> real" where
  "enter d b t = (if d > 0 then b / d else if d < 0 then t / d else 0)"

definition leave :: "real \<Rightarrow> real \<Rightarrow> real \<Rightarrow> real \<Rightarrow> real" where
  "leave len d b t = (if d > 0 then t / d else if d < 0 then b / d else len)"

definition axis_exact :: "real \<Rightarrow> real \<Rightarrow> real \<Rightarrow> real \<Rightarrow> bool" where
  "axis_exact len d b t \<longleftrightarrow> list_all (\<lambda>x. fl x = x)
     [b, t, len * d, b - len * d, t - len * d]"

definition pair_exact :: "real \<Rightarrow> real \<Rightarrow> real \<Rightarrow> real \<Rightarrow> real \<Rightarrow> real \<Rightarrow> bool" where
  "pair_exact di bi ti dj bj tj \<longleftrightarrow> list_all (\<lambda>x. fl x = x) [di * bj, di * tj, dj * bi, dj * ti]"

lemma axis_test_exact:
  assumes "axis_exact len d b t" "axis_test len d b t" "0 \<le> len" "b \<le> t"
  shows "enter d b t \<le> leave len d b t" "0 \<le> leave len d b t" "enter d b t \<le> len"
    "\<tau> \<in> {enter d b t..leave len d b t} \<Longrightarrow> 0 \<le> \<tau> \<Longrightarrow> b \<le> \<tau> * d \<and> \<tau> * d \<le> t"
  using assms
  by (auto simp: axis_exact_def axis_test_def enter_def leave_def field_simps zero_le_divide_iff
      divide_le_eq le_divide_eq split: if_splits)

lemma pair_test_exact:
  assumes "pair_exact di bi ti dj bj tj" "pair_test di bi ti dj bj tj"
    and "axis_exact len di bi ti" "axis_test len di bi ti"
    and "axis_exact len dj bj tj" "axis_test len dj bj tj" "0 \<le> len"
  shows "enter di bi ti \<le> leave len dj bj tj" "enter dj bj tj \<le> leave len di bi ti"
  using assms
  by (auto simp: pair_exact_def pair_test_def axis_exact_def axis_test_def enter_def leave_def
      hi_prod_def lo_prod_def field_simps zero_le_divide_iff divide_le_eq le_divide_eq
      split: if_splits)

lemma exact_meets:
  assumes "axis_exact len d0 b0 t0" "axis_exact len d1 b1 t1" "axis_exact len d2 b2 t2"
    and "pair_exact d0 b0 t0 d1 b1 t1" "pair_exact d0 b0 t0 d2 b2 t2" "pair_exact d1 b1 t1 d2 b2 t2"
    and "0 \<le> len" "b0 \<le> t0" "b1 \<le> t1" "b2 \<le> t2"
    and "pluecker (d0, d1, d2) len (b0, b1, b2) (t0, t1, t2)"
  shows "meets (d0, d1, d2) len (b0, b1, b2) (t0, t1, t2)"
proof -
  have t: "axis_test len d0 b0 t0" "axis_test len d1 b1 t1" "axis_test len d2 b2 t2"
    "pair_test d0 b0 t0 d1 b1 t1" "pair_test d0 b0 t0 d2 b2 t2" "pair_test d1 b1 t1 d2 b2 t2"
    using assms(11) by (simp_all add: pluecker_tests)
  define \<tau> where "\<tau> = max 0 (max (enter d0 b0 t0) (max (enter d1 b1 t1) (enter d2 b2 t2)))"
  note a0 = axis_test_exact [OF assms(1) t(1) assms(7,8)]
  note a1 = axis_test_exact [OF assms(2) t(2) assms(7,9)]
  note a2 = axis_test_exact [OF assms(3) t(3) assms(7,10)]
  note p01 = pair_test_exact [OF assms(4) t(4) assms(1) t(1) assms(2) t(2) assms(7)]
  note p02 = pair_test_exact [OF assms(5) t(5) assms(1) t(1) assms(3) t(3) assms(7)]
  note p12 = pair_test_exact [OF assms(6) t(6) assms(2) t(2) assms(3) t(3) assms(7)]
  have "0 \<le> \<tau>" "\<tau> \<le> len" using assms(7) a0(3) a1(3) a2(3) by (simp_all add: \<tau>_def)
  moreover have "\<tau> \<in> {enter d0 b0 t0..leave len d0 b0 t0}" "\<tau> \<in> {enter d1 b1 t1..leave len d1 b1 t1}"
    "\<tau> \<in> {enter d2 b2 t2..leave len d2 b2 t2}"
    using a0(1,2) a1(1,2) a2(1,2) p01 p02 p12 by (simp_all add: \<tau>_def)
  ultimately show ?thesis
    using a0(4) [of \<tau>] a1(4) [of \<tau>] a2(4) [of \<tau>] unfolding meets_def by auto
qed

lemma pluecker_no_false_negative:
  assumes "meets (d0, d1, d2) len (b0, b1, b2) (t0, t1, t2)"
    and "fl b0 = b0" "fl b1 = b1" "fl b2 = b2" "fl t0 = t0" "fl t1 = t1" "fl t2 = t2"
  shows "pluecker (d0, d1, d2) len (b0, b1, b2) (t0, t1, t2)"
  using assms unfolding meets_def pluecker_tests
  by (auto intro: axis_test_sound pair_test_sound)

section \<open>Properties\<close>

text \<open>
  C20. The box test never rejects a box that the ray segment meets, whatever the rounding of the
  products and differences does; and if none of the intermediate results is rounded (the
  lists \<open>axis_exact\<close>, \<open>pair_exact\<close>), it accepts exactly the boxes that the segment meets.
\<close>

theorem pluecker_box_test:
  assumes "fl b0 = b0" "fl b1 = b1" "fl b2 = b2" "fl t0 = t0" "fl t1 = t1" "fl t2 = t2"
    and "0 \<le> len" "b0 \<le> t0" "b1 \<le> t1" "b2 \<le> t2"
  shows "(meets (d0, d1, d2) len (b0, b1, b2) (t0, t1, t2) \<longrightarrow>
      pluecker (d0, d1, d2) len (b0, b1, b2) (t0, t1, t2))
    \<and> (axis_exact len d0 b0 t0 \<and> axis_exact len d1 b1 t1 \<and> axis_exact len d2 b2 t2
       \<and> pair_exact d0 b0 t0 d1 b1 t1 \<and> pair_exact d0 b0 t0 d2 b2 t2 \<and> pair_exact d1 b1 t1 d2 b2 t2
       \<longrightarrow> (pluecker (d0, d1, d2) len (b0, b1, b2) (t0, t1, t2) \<longleftrightarrow>
            meets (d0, d1, d2) len (b0, b1, b2) (t0, t1, t2)))"
  using pluecker_no_false_negative [OF _ assms(1-6)] exact_meets assms(7-10) by blast

theorem pluecker_box_test_witness:
  "pluecker (1, -1, 2) 4 (1, -3, 2) (3, -1, 5) \<and> meets (1, -1, 2) 4 (1, -3, 2) (3, -1, 5)"
proof -
  have m: "meets (1, -1, 2) 4 (1, -3, 2) (3, -1, 5)"
    unfolding meets_def by (simp, intro exI [of _ 1]) simp
  show ?thesis
    using pluecker_box_test [of 1 "-3" 2 3 "-1" 5 4 1 "-1" 2] m by simp
qed

end
