(* ===== verification/Config_Units.thy ===== *)
theory Config_Units
  imports Float_Model
begin

text \<open>
  The global configuration variables of \<open>src/src/config.c\<close> and the units of \<open>src/src/units.c\<close>.

  The \<open>CFG_*\<close> and \<open>C_*\<close> variables are a record \<open>config\<close>, the \<open>U_*\<close> variables and the constants
  derived from them a record \<open>units\<close>, filled by \<open>units_init\<close>. Formulas take the rounding of
  the arithmetic as their first argument: the program is the instance \<open>db\<close> (every operation
  rounded to double), and the instance \<open>\<lambda>x. x\<close> is the formula over the reals, for which the
  exact laws are stated. The functions of \<open>libm\<close> are the rounded real functions.

  \<open>units_parse\<close> evaluates strings like \<open>mproton / cm cm cm\<close>; the pointer \<open>token\<close> is modelled by
  the text between it and the current character.
\<close>

section \<open>Configuration\<close>

record config =
  cfg_write_init :: bool
  cfg_isothermal :: bool
  cfg_adiabatic :: bool
  cfg_on_the_spot :: bool
  cfg_comoving :: bool
  cfg_dump_hotspots :: bool
  cfg_h_only :: bool
  cfg_trace_only :: bool
  cfg_no_photon :: bool
  cfg_secondary_ionization :: bool
  cfg_octtree_ppc :: nat
  cfg_disable_lte :: bool
  cfg_print_rays :: bool
  cfg_enable_eos :: bool
  cfg_eos_cloud_temperature :: real
  cfg_recombine_threshold :: real
  cfg_boost_source_factor :: real
  cfg_fake_temperature :: real
  c_1_cmh :: real
  c_1_gramh :: real
  c_1_sech :: real
  c_omega_l :: real
  c_omega_m :: real
  c_omega_b :: real
  c_h :: real
  c_hmf :: real
  c_hemf :: real

text \<open>The initial values of the variables in \<open>config.c\<close>.\<close>

definition config_defaults :: config where
  "config_defaults =
     \<lparr>cfg_write_init = True, cfg_isothermal = True, cfg_adiabatic = False, cfg_on_the_spot = False,
      cfg_comoving = True, cfg_dump_hotspots = False, cfg_h_only = False, cfg_trace_only = False,
      cfg_no_photon = False, cfg_secondary_ionization = True, cfg_octtree_ppc = 8,
      cfg_disable_lte = False, cfg_print_rays = False, cfg_enable_eos = False,
      cfg_eos_cloud_temperature = 1000, cfg_recombine_threshold = db (1 / 10),
      cfg_boost_source_factor = 1, cfg_fake_temperature = -1,
      c_1_cmh = db (30835455558318480 * 10 ^ 5), c_1_gramh = db (19847005219450705 * 10 ^ 27),
      c_1_sech = db (308568025 * 10 ^ 8), c_omega_l = db (74 / 100), c_omega_m = db (26 / 100),
      c_omega_b = db (44 / 1000), c_h = db (72 / 100), c_hmf = db (76 / 100), c_hemf = db (24 / 100)\<rparr>"

section \<open>Units\<close>

record units =
  u_cm :: real
  u_gram :: real
  u_sec :: real
  u_hz :: real
  u_m :: real
  u_km :: real
  u_kpc :: real
  u_yr :: real
  u_kg :: real
  u_myr :: real
  u_msun :: real
  u_mproton :: real
  u_kelvin :: real
  c_boltzmann :: real
  c_planck :: real
  c_gravity :: real
  c_hubble :: real
  u_j :: real
  u_ev :: real
  u_kev :: real
  u_erg :: real
  u_ry_eng :: real
  c_h_per_mass :: real
  c_he_per_mass :: real
  c_speed_light :: real
  c_hi_energy :: real
  c_hei_energy :: real
  c_heii_energy :: real
  c_solar_lum :: real
  u_mproton_over_c_boltzmann :: real
  c_boltzmann_over_u_mproton :: real

definition units_init :: "(real \<Rightarrow> real) \<Rightarrow> config \<Rightarrow> units" where
  "units_init rd c =
     (let mul = (\<lambda>x y. rd (x * y)); quo = (\<lambda>x y. rd (x / y));
          cm = quo (c_h c) (c_1_cmh c);
          gram = quo (c_h c) (c_1_gramh c);
          sec = quo (c_h c) (c_1_sech c);
          hz = quo 1 sec;
          meter = mul cm 100;
          km = mul meter 1000;
          kpc = mul meter (rd (308568025 * 10 ^ 11));
          yr = mul sec 31556926;
          kg = mul gram 1000;
          myr = mul yr 1000000;
          msun = mul kg (rd (198892 * 10 ^ 25));
          mproton = mul kg (rd (167262158 / 10 ^ 35));
          kelvin = 1;
          boltzmann = quo (quo (mul (mul (mul (rd (13806503 / 10 ^ 30)) meter) meter) kg) sec) sec;
          planck = quo (mul (mul (mul (rd (6626068 / 10 ^ 40)) meter) meter) kg) sec;
          gravity = quo (quo (quo (mul (mul (mul (rd (6674 / 10 ^ 14)) meter) meter) meter) kg) sec) sec;
          hubble = quo (quo (mul (mul (mul (c_h c) 100) 1000) meter) sec) (mul 1000 kpc);
          j = quo (mul (mul kg meter) meter) (mul sec sec);
          ev = mul (rd (1602176487 / 10 ^ 28)) j;
          kev = mul ev 1000;
          erg = mul (rd (1 / 10 ^ 7)) j;
          ry = mul (rd (1360569253 / 10 ^ 8)) ev
      in \<lparr>u_cm = cm, u_gram = gram, u_sec = sec, u_hz = hz, u_m = meter, u_km = km, u_kpc = kpc,
          u_yr = yr, u_kg = kg, u_myr = myr, u_msun = msun, u_mproton = mproton, u_kelvin = kelvin,
          c_boltzmann = boltzmann, c_planck = planck, c_gravity = gravity, c_hubble = hubble,
          u_j = j, u_ev = ev, u_kev = kev, u_erg = erg, u_ry_eng = ry,
          c_h_per_mass = quo (c_hmf c) mproton,
          c_he_per_mass = quo (c_hemf c) (mul 4 mproton),
          c_speed_light = quo (mul 300000000 meter) sec,
          c_hi_energy = mul (rd (1360569253 / 10 ^ 8)) ev,
          c_hei_energy = mul (rd (24587 / 1000)) ev,
          c_heii_energy = mul (rd (54416 / 1000)) ev,
          c_solar_lum = quo (mul (rd (3899 * 10 ^ 30)) erg) sec,
          u_mproton_over_c_boltzmann = quo mproton boltzmann,
          c_boltzmann_over_u_mproton = quo 1 (quo mproton boltzmann)\<rparr>)"

text \<open>\<open>strcasecmp\<close> in the C locale, and the table \<open>u_list\<close> without its closing null entry.\<close>

definition to_lower :: "char \<Rightarrow> char" where
  "to_lower c =
     (let n = (of_char c :: nat) in if 65 \<le> n \<and> n \<le> 90 then char_of (n + 32) else c)"

definition strcase_eq :: "string \<Rightarrow> string \<Rightarrow> bool" where
  "strcase_eq s t \<longleftrightarrow> map to_lower s = map to_lower t"

definition u_list :: "config \<Rightarrow> units \<Rightarrow> (string \<times> real) list" where
  "u_list c u =
     [(''h'', c_h c), (''hp'', c_planck u), (''kb'', c_boltzmann u), (''cm'', u_cm u),
      (''m'', u_m u), (''km'', u_km u), (''kpc'', u_kpc u), (''g'', u_gram u), (''kg'', u_kg u),
      (''yr'', u_yr u), (''myr'', u_myr u), (''msun'', u_msun u), (''mproton'', u_mproton u),
      (''kelvin'', u_kelvin u), (''ev'', u_ev u), (''kev'', u_kev u)]"

text \<open>
  The loop of \<open>units_simple\<close> also visits the closing entry and passes its null name to
  \<open>strcasecmp\<close>, so an unknown unit ends there and not in the \<open>ERROR\<close> after the loop.
\<close>

fun lookup_unit :: "string \<Rightarrow> (string \<times> real) list \<Rightarrow> real res" where
  "lookup_unit s [] = Inl Out_of_bounds"
| "lookup_unit s ((name, v) # us) = (if strcase_eq s name then Inr v else lookup_unit s us)"

definition units_simple :: "config \<Rightarrow> units \<Rightarrow> string \<Rightarrow> real res" where
  "units_simple c u s = lookup_unit s (u_list c u)"

record parse_state =
  ps_op :: char
  ps_unit :: real
  ps_section :: real
  ps_token :: string
  ps_skip_blank :: bool

definition apply_op :: "(real \<Rightarrow> real) \<Rightarrow> char \<Rightarrow> real \<Rightarrow> real \<Rightarrow> real" where
  "apply_op rd op un sec =
     (if op = CHR ''/'' then rd (un / sec)
      else if op = CHR ''*'' then rd (un * sec) else un)"

text \<open>One turn of the loop: \<open>simple\<close> stands for \<open>units_simple\<close>.\<close>

definition parse_char ::
    "(real \<Rightarrow> real) \<Rightarrow> (string \<Rightarrow> real res) \<Rightarrow> char \<Rightarrow> parse_state \<Rightarrow> parse_state res" where
  "parse_char rd simple ch st =
     (if ch = CHR '' '' then
        (if ps_skip_blank st then Inr (st\<lparr>ps_token := ps_token st @ [ch]\<rparr>)
         else rbind (simple (ps_token st)) (\<lambda>v.
           Inr (st\<lparr>ps_section := rd (ps_section st * v), ps_skip_blank := True,
                   ps_token := ps_token st @ [ch]\<rparr>)))
      else if ch = CHR ''/'' \<or> ch = CHR ''*'' then
        Inr (st\<lparr>ps_unit := apply_op rd (ps_op st) (ps_unit st) (ps_section st), ps_section := 1,
                ps_op := ch, ps_skip_blank := True, ps_token := ps_token st @ [ch]\<rparr>)
      else if ps_skip_blank st then Inr (st\<lparr>ps_token := [ch], ps_skip_blank := False\<rparr>)
      else Inr (st\<lparr>ps_token := ps_token st @ [ch]\<rparr>))"

fun parse_chars ::
    "(real \<Rightarrow> real) \<Rightarrow> (string \<Rightarrow> real res) \<Rightarrow> string \<Rightarrow> parse_state \<Rightarrow> parse_state res" where
  "parse_chars rd simple [] st = Inr st"
| "parse_chars rd simple (ch # cs) st =
     rbind (parse_char rd simple ch st) (parse_chars rd simple cs)"

definition parse_init :: parse_state where
  "parse_init = \<lparr>ps_op = CHR ''*'', ps_unit = 1, ps_section = 1, ps_token = [], ps_skip_blank = True\<rparr>"

definition units_parse_with :: "(real \<Rightarrow> real) \<Rightarrow> (string \<Rightarrow> real res) \<Rightarrow> string \<Rightarrow> real res" where
  "units_parse_with rd simple s =
     rbind (parse_chars rd simple s parse_init) (\<lambda>st.
       rbind (simple (ps_token st)) (\<lambda>v.
         Inr (apply_op rd (ps_op st) (ps_unit st) (rd (ps_section st * v)))))"

definition units_parse :: "config \<Rightarrow> units \<Rightarrow> string \<Rightarrow> real res" where
  "units_parse c u = units_parse_with db (units_simple c u)"

definition units_format :: "config \<Rightarrow> units \<Rightarrow> real \<Rightarrow> string \<Rightarrow> real res" where
  "units_format c u value units = rbind (units_parse c u units) (\<lambda>v. Inr (db (value / v)))"

section \<open>Redshift and time, temperature and energy\<close>

definition z2t :: "(real \<Rightarrow> real) \<Rightarrow> config \<Rightarrow> real \<Rightarrow> real" where
  "z2t rd c z =
     (let a = rd (1 / rd (z + 1));
          H0 = rd (1 / 10);
          aeq = rd (rd (c_omega_m c / c_omega_l c) powr rd (1 / 3));
          pre = rd (2 / rd (3 * rd (sqrt (c_omega_l c))));
          arg = rd (rd (rd (a / aeq) powr rd (3 / 2))
                    + rd (sqrt (rd (1 + rd (rd (a / aeq) powr 3)))))
      in rd (rd (pre * rd (ln arg)) / H0))"

definition t2z :: "(real \<Rightarrow> real) \<Rightarrow> config \<Rightarrow> real \<Rightarrow> real" where
  "t2z rd c t =
     (let H0 = rd (1 / 10);
          aeq = rd (rd (c_omega_m c / c_omega_l c) powr rd (1 / 3));
          pre = rd (2 / rd (3 * rd (sqrt (c_omega_l c))));
          a = rd (rd (rd (sinh (rd (rd (H0 * t) / pre))) powr rd (2 / 3)) * aeq)
      in rd (rd (1 / a) - 1))"

definition ieye2T :: "(real \<Rightarrow> real) \<Rightarrow> config \<Rightarrow> units \<Rightarrow> real \<Rightarrow> real \<Rightarrow> real" where
  "ieye2T rd c u ie ye =
     rd (rd (rd (rd (u_mproton_over_c_boltzmann u * ie)
       / rd (rd (rd (c_hemf c * (1 / 4)) + c_hmf c) + rd (c_hmf c * ye))) * 2) / 3)"

definition Tye2ie :: "(real \<Rightarrow> real) \<Rightarrow> config \<Rightarrow> units \<Rightarrow> real \<Rightarrow> real \<Rightarrow> real" where
  "Tye2ie rd c u T ye =
     rd (rd (rd (rd (T * c_boltzmann_over_u_mproton u)
       * rd (rd (rd (c_hemf c * (1 / 4)) + c_hmf c) + rd (c_hmf c * ye))) / 2) * 3)"

section \<open>Expressions\<close>

text \<open>
  A unit expression: sections of unit names, each section after the first introduced by an operator,
  \<open>*\<close> or \<open>/\<close>. In the text every name but the last is followed by a blank, and preceded by any
  number of further blanks; so is an operator. The meaning of the operators is given here, without
  the code's \<open>switch\<close>.
\<close>

datatype unit_op = Times | Over

fun op_char :: "unit_op \<Rightarrow> char" where
  "op_char Times = CHR ''*''"
| "op_char Over = CHR ''/''"

fun combine :: "(real \<Rightarrow> real) \<Rightarrow> unit_op \<Rightarrow> real \<Rightarrow> real \<Rightarrow> real" where
  "combine rd Times x y = rd (x * y)"
| "combine rd Over x y = rd (x / y)"

definition is_word :: "string \<Rightarrow> bool" where
  "is_word s \<longleftrightarrow> s \<noteq> [] \<and> list_all (\<lambda>c. c \<noteq> CHR '' '' \<and> c \<noteq> CHR ''/'' \<and> c \<noteq> CHR ''*'') s"

fun show_names :: "(nat \<times> string) list \<Rightarrow> string" where
  "show_names [] = []"
| "show_names ((k, s) # ns) = replicate k (CHR '' '') @ s @ CHR '' '' # show_names ns"

fun show_sections :: "(unit_op \<times> (nat \<times> string) list) list \<Rightarrow> string" where
  "show_sections [] = []"
| "show_sections ((op, ns) # ss) = op_char op # show_names ns @ show_sections ss"

definition section_value :: "(real \<Rightarrow> real) \<Rightarrow> (string \<Rightarrow> real) \<Rightarrow> (nat \<times> string) list \<Rightarrow> real" where
  "section_value rd val ns = foldl (\<lambda>acc (k, s). rd (acc * val s)) 1 ns"

text \<open>
  The value of an expression from the operator, the product of the sections and the running
  section at hand, the sections that follow and the value of the very last name.
\<close>

fun eval_expr ::
    "(real \<Rightarrow> real) \<Rightarrow> (string \<Rightarrow> real) \<Rightarrow> unit_op \<Rightarrow> real \<Rightarrow> real
      \<Rightarrow> (unit_op \<times> (nat \<times> string) list) list \<Rightarrow> real \<Rightarrow> real" where
  "eval_expr rd val op u sec [] v = combine rd op u (rd (sec * v))"
| "eval_expr rd val op u sec ((op', ns) # ss) v =
     eval_expr rd val op' (combine rd op u sec) (section_value rd val ns) ss v"

definition words_ok :: "(string \<Rightarrow> real res) \<Rightarrow> (string \<Rightarrow> real) \<Rightarrow> (nat \<times> string) list \<Rightarrow> bool" where
  "words_ok simple val ns \<longleftrightarrow> list_all (\<lambda>(k, s). is_word s \<and> simple s = Inr (val s)) ns"

lemma apply_op_char: "apply_op rd (op_char op) = combine rd op"
  by (cases op) (simp_all add: apply_op_def fun_eq_iff)

lemma op_char_iff: "c = CHR ''/'' \<or> c = CHR ''*'' \<longleftrightarrow> (\<exists>op. c = op_char op)"
  by (metis op_char.simps unit_op.exhaust)

lemma parse_blanks:
  "ps_skip_blank st \<Longrightarrow> \<exists>tok. parse_chars rd simple (replicate k (CHR '' '') @ cs) st
    = parse_chars rd simple cs (st\<lparr>ps_token := tok\<rparr>)"
proof (induction k arbitrary: st)
  case 0
  then show ?case by (intro exI [of _ "ps_token st"]) simp
next
  case (Suc k)
  then show ?case
    using Suc.IH [of "st\<lparr>ps_token := ps_token st @ '' ''\<rparr>"] by (simp add: parse_char_def)
qed

lemma parse_word_rest:
  "list_all (\<lambda>c. c \<noteq> CHR '' '' \<and> c \<noteq> CHR ''/'' \<and> c \<noteq> CHR ''*'') s \<Longrightarrow> \<not> ps_skip_blank st \<Longrightarrow>
   parse_chars rd simple (s @ cs) st
     = parse_chars rd simple cs (st\<lparr>ps_token := ps_token st @ s\<rparr>)"
  by (induction s arbitrary: st) (simp_all add: parse_char_def)

lemma parse_word:
  assumes "is_word s" and "ps_skip_blank st"
  shows "parse_chars rd simple (s @ cs) st
    = parse_chars rd simple cs (st\<lparr>ps_token := s, ps_skip_blank := False\<rparr>)"
proof (cases s)
  case (Cons c r)
  then show ?thesis
    using assms parse_word_rest [of r "st\<lparr>ps_token := [c], ps_skip_blank := False\<rparr>" rd simple cs]
    by (cases st) (simp add: is_word_def parse_char_def)
qed (use assms in \<open>simp add: is_word_def\<close>)

lemma parse_names:
  "words_ok simple val ns \<Longrightarrow> ps_skip_blank st \<Longrightarrow>
   \<exists>tok. parse_chars rd simple (show_names ns @ cs) st = parse_chars rd simple cs
     (st\<lparr>ps_section := foldl (\<lambda>acc (k, s). rd (acc * val s)) (ps_section st) ns, ps_token := tok\<rparr>)"
proof (induction ns arbitrary: st)
  case Nil
  then show ?case by (intro exI [of _ "ps_token st"]) simp
next
  case (Cons n ns)
  obtain k s where n: "n = (k, s)" by fastforce
  have ok: "is_word s" "simple s = Inr (val s)" "words_ok simple val ns"
    using Cons.prems(1) by (simp_all add: n words_ok_def)
  let ?rest = "CHR '' '' # show_names ns @ cs"
  obtain t1 where 1: "parse_chars rd simple (replicate k (CHR '' '') @ s @ ?rest) st
      = parse_chars rd simple (s @ ?rest) (st\<lparr>ps_token := t1\<rparr>)"
    using parse_blanks [OF Cons.prems(2)] by blast
  let ?st = "st\<lparr>ps_section := rd (ps_section st * val s), ps_token := s @ '' ''\<rparr>"
  have 2: "parse_chars rd simple (s @ ?rest) (st\<lparr>ps_token := t1\<rparr>)
      = parse_chars rd simple (show_names ns @ cs) ?st"
    using parse_word [OF ok(1), of "st\<lparr>ps_token := t1\<rparr>" rd simple ?rest] Cons.prems(2) ok(2)
    by (cases st) (simp add: parse_char_def)
  show ?case
    using Cons.IH [OF ok(3), of ?st] Cons.prems(2) 1 2 by (simp add: n)
qed

lemma parse_sections:
  "list_all (\<lambda>(op, ns). words_ok simple val ns) ss \<Longrightarrow> ps_skip_blank st \<Longrightarrow> ps_op st = op_char op0 \<Longrightarrow>
   \<exists>st'. parse_chars rd simple (show_sections ss @ cs) st = parse_chars rd simple cs st'
     \<and> ps_skip_blank st'
     \<and> (\<forall>v. apply_op rd (ps_op st') (ps_unit st') (rd (ps_section st' * v))
          = eval_expr rd val op0 (ps_unit st) (ps_section st) ss v)"
proof (induction ss arbitrary: st op0)
  case Nil
  then show ?case by (intro exI [of _ st]) (simp add: apply_op_char)
next
  case (Cons x ss)
  obtain op ns where x: "x = (op, ns)" by fastforce
  have ok: "words_ok simple val ns" using Cons.prems(1) by (auto simp: x)
  let ?st = "st\<lparr>ps_unit := apply_op rd (ps_op st) (ps_unit st) (ps_section st), ps_section := 1,
      ps_op := op_char op, ps_token := ps_token st @ [op_char op]\<rparr>"
  have 1: "parse_chars rd simple (show_sections (x # ss) @ cs) st
      = parse_chars rd simple (show_names ns @ show_sections ss @ cs) ?st"
    using Cons.prems(2) by (cases st; cases op) (auto simp: x parse_char_def)
  obtain tok where 2: "parse_chars rd simple (show_names ns @ show_sections ss @ cs) ?st
      = parse_chars rd simple (show_sections ss @ cs)
          (?st\<lparr>ps_section := section_value rd val ns, ps_token := tok\<rparr>)"
    using parse_names [OF ok, of ?st rd "show_sections ss @ cs"] Cons.prems(2)
    by (auto simp: section_value_def)
  show ?case
    using Cons.IH [of "?st\<lparr>ps_section := section_value rd val ns, ps_token := tok\<rparr>" op] Cons.prems
    unfolding 1 2 by (simp add: x apply_op_char)
qed

lemma units_parse_text:
  assumes "words_ok simple val ms"
    and "list_all (\<lambda>(op, ns). words_ok simple val ns) ss"
    and "is_word s" and "simple s = Inr (val s)"
  shows "units_parse_with rd simple (show_names ms @ show_sections ss @ replicate k (CHR '' '') @ s)
    = Inr (eval_expr rd val Times 1 (section_value rd val ms) ss (val s))"
proof -
  let ?final = "replicate k (CHR '' '') @ s"
  obtain t1 where 1: "parse_chars rd simple (show_names ms @ show_sections ss @ ?final) parse_init
      = parse_chars rd simple (show_sections ss @ ?final)
          (parse_init\<lparr>ps_section := section_value rd val ms, ps_token := t1\<rparr>)"
    using parse_names [OF assms(1), of parse_init rd "show_sections ss @ ?final"]
    by (auto simp: section_value_def parse_init_def)
  obtain st where 2: "parse_chars rd simple (show_sections ss @ ?final)
        (parse_init\<lparr>ps_section := section_value rd val ms, ps_token := t1\<rparr>)
      = parse_chars rd simple ?final st" "ps_skip_blank st"
    "\<And>v. apply_op rd (ps_op st) (ps_unit st) (rd (ps_section st * v))
      = eval_expr rd val Times 1 (section_value rd val ms) ss v"
    using parse_sections [OF assms(2), of "parse_init\<lparr>ps_section := section_value rd val ms, ps_token := t1\<rparr>" Times rd ?final]
    by (auto simp: parse_init_def)
  obtain t2 where 3: "parse_chars rd simple ?final st = parse_chars rd simple s (st\<lparr>ps_token := t2\<rparr>)"
    using parse_blanks [OF 2(2)] by blast
  have 4: "parse_chars rd simple s (st\<lparr>ps_token := t2\<rparr>) = Inr (st\<lparr>ps_token := s, ps_skip_blank := False\<rparr>)"
    using parse_word [OF assms(3), of "st\<lparr>ps_token := t2\<rparr>" rd simple "[]"] 2(2) by simp
  show ?thesis
    using 1 2(1) 3 4 assms(4) by (simp add: units_parse_with_def 2(3))
qed

text \<open>
  Without a blank before the operator the name in front of it is lost: \<open>kpc/h\<close> is read as \<open>1 / h\<close>.
\<close>

lemma units_parse_needs_blank:
  "simple ''h'' = Inr v \<Longrightarrow> units_parse_with rd simple ''kpc/h'' = Inr (rd (rd (1 * 1) / rd (1 * v)))"
  by (simp add: units_parse_with_def parse_char_def parse_init_def apply_op_def)

section \<open>The formulas over the reals\<close>

lemma asinh_arg:
  fixes y :: real
  assumes "0 < y"
  shows "sinh (ln (y powr (3 / 2) + sqrt (1 + y powr 3))) = y powr (3 / 2)"
proof -
  have "y powr 3 = (y powr (3 / 2))\<^sup>2"
    using assms by (simp add: power2_eq_square flip: powr_add)
  then have "ln (y powr (3 / 2) + sqrt (1 + y powr 3)) = arsinh (y powr (3 / 2))"
    by (simp add: arsinh_real_def add.commute)
  then show ?thesis by simp
qed

lemma t2z_z2t_exact:
  assumes "-1 < z" and "0 < c_omega_l c" and "0 < c_omega_m c"
  shows "t2z (\<lambda>x. x) c (z2t (\<lambda>x. x) c z) = z"
proof -
  let ?aeq = "(c_omega_m c / c_omega_l c) powr (1 / 3)"
  let ?y = "1 / (z + 1) / ?aeq"
  have aeq: "0 < ?aeq" using assms by simp
  then have y: "0 < ?y" using assms(1) by simp
  have pre: "2 / (3 * sqrt (c_omega_l c)) \<noteq> 0" using assms(2) by simp
  have "(?y powr (3 / 2)) powr (2 / 3) = ?y" using y by (simp add: powr_powr)
  then have "t2z (\<lambda>x. x) c (z2t (\<lambda>x. x) c z) = 1 / (?y * ?aeq) - 1"
    using pre asinh_arg [OF y] unfolding t2z_def z2t_def Let_def by simp
  also have "\<dots> = z" using aeq assms(1) by simp
  finally show ?thesis .
qed

lemma z2t_t2z_exact:
  assumes "0 < t" and "0 < c_omega_l c" and "0 < c_omega_m c"
  shows "z2t (\<lambda>x. x) c (t2z (\<lambda>x. x) c t) = t"
proof -
  let ?aeq = "(c_omega_m c / c_omega_l c) powr (1 / 3)"
  let ?pre = "2 / (3 * sqrt (c_omega_l c))"
  define w where "w = 1 / 10 * t / ?pre"
  define y where "y = sinh w powr (2 / 3)"
  have aeq: "0 < ?aeq" using assms by simp
  have pre: "0 < ?pre" using assms(2) by simp
  have "0 < w" unfolding w_def using assms(1) by (intro divide_pos_pos [OF _ pre]) simp
  then have x: "0 < sinh w" by simp
  then have y: "0 < y" by (simp add: y_def)
  have "t2z (\<lambda>x. x) c t = 1 / (y * ?aeq) - 1" unfolding t2z_def Let_def w_def y_def ..
  then have "1 / (t2z (\<lambda>x. x) c t + 1) / ?aeq = y" using aeq by simp
  then have "z2t (\<lambda>x. x) c (t2z (\<lambda>x. x) c t) = ?pre * ln (y powr (3 / 2) + sqrt (1 + y powr 3)) / (1 / 10)"
    unfolding z2t_def Let_def by simp
  also have "ln (y powr (3 / 2) + sqrt (1 + y powr 3)) = w"
  proof -
    have "sinh (ln (y powr (3 / 2) + sqrt (1 + y powr 3))) = sinh w"
      using asinh_arg [OF y] x by (simp add: y_def powr_powr)
    then show ?thesis by (simp only: sinh_real_eq_iff)
  qed
  also have "?pre * w / (1 / 10) = t" using pre by (simp add: w_def)
  finally show ?thesis .
qed

lemma ieye2T_Tye2ie_exact:
  assumes "0 < c_h c" "0 < c_1_cmh c" "0 < c_1_gramh c" "0 < c_1_sech c"
    and "0 < c_hmf c" "0 \<le> c_hemf c" "0 \<le> ye"
  defines "u \<equiv> units_init (\<lambda>x. x) c"
  shows "ieye2T (\<lambda>x. x) c u (Tye2ie (\<lambda>x. x) c u T ye) ye = T"
proof -
  have pos: "0 < u_mproton_over_c_boltzmann u"
    using assms(1-4) by (simp add: u_def units_init_def Let_def)
  have inv: "c_boltzmann_over_u_mproton u = 1 / u_mproton_over_c_boltzmann u"
    by (simp add: u_def units_init_def Let_def)
  define d where "d = c_hemf c * (1 / 4) + c_hmf c + c_hmf c * ye"
  have "0 < d" using assms(5-7) by (simp add: d_def add_nonneg_pos add_pos_nonneg)
  moreover have "ieye2T (\<lambda>x. x) c u (Tye2ie (\<lambda>x. x) c u T ye) ye
      = u_mproton_over_c_boltzmann u * (T * (1 / u_mproton_over_c_boltzmann u) * d / 2 * 3) / d * 2 / 3"
    by (simp only: Tye2ie_def ieye2T_def inv d_def)
  ultimately show ?thesis using pos by simp
qed

lemma Tye2ie_ieye2T_exact:
  assumes "0 < c_h c" "0 < c_1_cmh c" "0 < c_1_gramh c" "0 < c_1_sech c"
    and "0 < c_hmf c" "0 \<le> c_hemf c" "0 \<le> ye"
  defines "u \<equiv> units_init (\<lambda>x. x) c"
  shows "Tye2ie (\<lambda>x. x) c u (ieye2T (\<lambda>x. x) c u ie ye) ye = ie"
proof -
  have pos: "0 < u_mproton_over_c_boltzmann u"
    using assms(1-4) by (simp add: u_def units_init_def Let_def)
  have inv: "c_boltzmann_over_u_mproton u = 1 / u_mproton_over_c_boltzmann u"
    by (simp add: u_def units_init_def Let_def)
  have "0 < c_hemf c * (1 / 4) + c_hmf c + c_hmf c * ye"
    using assms(5-7) by (simp add: add_nonneg_pos add_pos_nonneg)
  then show ?thesis using pos by (simp add: Tye2ie_def ieye2T_def inv field_simps)
qed

section \<open>Properties\<close>

text \<open>
  C14. \<open>units_parse\<close> evaluates a unit expression from left to right: the names of a section are
  multiplied, the sections are combined with the operators in front of them. Any number of
  blanks may separate names, but every name except the last must be followed by one.
\<close>

theorem units_parse_evaluates:
  assumes "words_ok (units_simple c u) val ms"
    and "list_all (\<lambda>(op, ns). words_ok (units_simple c u) val ns) ss"
    and "is_word s" and "units_simple c u s = Inr (val s)"
  shows "units_parse c u (show_names ms @ show_sections ss @ replicate k (CHR '' '') @ s)
    = Inr (eval_expr db val Times 1 (section_value db val ms) ss (val s))"
  unfolding units_parse_def by (rule units_parse_text [OF assms])

theorem units_parse_evaluates_witness:
  "units_parse config_defaults (units_init db config_defaults) '' mproton / cm cm cm''
    = Inr (eval_expr db
        (\<lambda>s. case units_simple config_defaults (units_init db config_defaults) s of Inl _ \<Rightarrow> 0 | Inr v \<Rightarrow> v)
        Times 1
        (section_value db
          (\<lambda>s. case units_simple config_defaults (units_init db config_defaults) s of Inl _ \<Rightarrow> 0 | Inr v \<Rightarrow> v)
          [(1, ''mproton'')])
        [(Over, [(1, ''cm''), (0, ''cm'')])] (u_cm (units_init db config_defaults)))"
proof -
  let ?u = "units_init db config_defaults"
  let ?simple = "units_simple config_defaults ?u"
  let ?val = "\<lambda>s. case ?simple s of Inl _ \<Rightarrow> 0 | Inr v \<Rightarrow> v"
  have cm: "?simple ''cm'' = Inr (u_cm ?u)"
    by (simp add: units_simple_def u_list_def strcase_eq_def to_lower_def)
  have mp: "?simple ''mproton'' = Inr (u_mproton ?u)"
    by (simp add: units_simple_def u_list_def strcase_eq_def to_lower_def)
  show ?thesis
    using units_parse_evaluates [of config_defaults ?u ?val "[(1, ''mproton'')]"
        "[(Over, [(1, ''cm''), (0, ''cm'')])]" "''cm''" 0]
    by (simp add: words_ok_def is_word_def cm mp)
qed

text \<open>
  C15. Over the reals, without rounding, the conversions are inverse to each other: \<open>z2t\<close> and \<open>t2z\<close>
  in both orders, for redshifts above -1 and positive times, and \<open>ieye2T\<close> and \<open>Tye2ie\<close> in both
  orders, with the constants that \<open>units_init\<close> computes.
\<close>

theorem conversions_invert:
  assumes "-1 < z" and "0 < t" and "0 < c_omega_l c" and "0 < c_omega_m c"
    and "list_all (\<lambda>x. 0 < x) [c_h c, c_1_cmh c, c_1_gramh c, c_1_sech c, c_hmf c]"
    and "0 \<le> c_hemf c" and "0 \<le> ye" and "u = units_init (\<lambda>x. x) c"
  shows "t2z (\<lambda>x. x) c (z2t (\<lambda>x. x) c z) = z \<and> z2t (\<lambda>x. x) c (t2z (\<lambda>x. x) c t) = t
    \<and> Tye2ie (\<lambda>x. x) c u (ieye2T (\<lambda>x. x) c u ie ye) ye = ie
    \<and> ieye2T (\<lambda>x. x) c u (Tye2ie (\<lambda>x. x) c u T ye) ye = T"
  using t2z_z2t_exact [OF assms(1,3,4)] z2t_t2z_exact [OF assms(2,3,4)]
    Tye2ie_ieye2T_exact [of c ye ie] ieye2T_Tye2ie_exact [of c ye T] assms(5-8) by simp

theorem conversions_invert_witness:
  "let c = config_defaults\<lparr>c_omega_l := 1 / 2, c_omega_m := 1 / 2, c_h := 1, c_1_cmh := 1,
      c_1_gramh := 1, c_1_sech := 1, c_hmf := 1 / 2, c_hemf := 1 / 2\<rparr>;
     u = units_init (\<lambda>x. x) c
   in t2z (\<lambda>x. x) c (z2t (\<lambda>x. x) c 6) = 6 \<and> z2t (\<lambda>x. x) c (t2z (\<lambda>x. x) c 5) = 5
    \<and> Tye2ie (\<lambda>x. x) c u (ieye2T (\<lambda>x. x) c u 3 1) 1 = 3
    \<and> ieye2T (\<lambda>x. x) c u (Tye2ie (\<lambda>x. x) c u 10000 1) 1 = 10000"
  unfolding Let_def by (rule conversions_invert) simp_all

end
