(* ===== verification/Particle_System.thy ===== *)
theory Particle_System
  imports Config_Units Peano_Keys Sorting_Arrays
begin

text \<open>
  The particle system of \<open>src/src/psystem.h\<close> and the operations of \<open>src/src/psystem.c\<close> that
  rearrange it: exchanging two particles (\<open>psys_swap\<close>), squeezing out the invalid ones
  (\<open>compress\<close>), permuting all arrays (\<open>permute\<close>, \<open>hilbert_reorder\<close>) and marking hot spots.

  \<open>PSystem\<close> is a structure of arrays; each array is a list of length \<open>npar_max\<close>. The two
  unions of named pointers and pointer arrays (\<open>yGdep[3]\<close>, \<open>yGrec[3]\<close>) are read through
  \<open>psys_yGdep\<close> and \<open>psys_yGrec\<close>. The hash heads, \<open>2 ^ 28\<close> entries, are a function.
  The record \<open>particle\<close> and \<open>par s i\<close> are the view of one particle across all arrays; the
  theorems about rearrangements are stated over this view, so that an array forgotten by an
  operation shows. \<open>fresh\<close> stands for the indeterminate contents of memory from \<open>malloc\<close>,
  \<open>heapsort_index\<close> for \<open>gsl_heapsort_index\<close>.
\<close>

section \<open>The data\<close>

record epoch =
  ep_redshift :: real
  ep_age :: real
  ep_duration :: real
  ep_packet_size :: real
  ep_ngas :: nat
  ep_nticks :: nat
  ep_nray :: nat
  ep_nrec :: int
  ep_sources :: "string option list"
  ep_snapshot :: string
  ep_format :: string
  ep_output_steps :: "int list"
  ep_output_nfiles :: nat
  ep_output_filename :: "string option"

record source =
  src_pos :: vec3
  src_dir :: vec3
  src_lastemit :: int
  src_specid :: int
  src_type :: int
  src_ray_length_hint :: real
  src_radius :: real
  src_a :: vec3
  src_b :: vec3
  src_ticks :: "int list"
  src_Ngamma_dots :: "real list"
  src_cursor :: nat

definition PSYS_SRC_PLANE :: int where "PSYS_SRC_PLANE = 0"
definition PSYS_SRC_POINT :: int where "PSYS_SRC_POINT = 1"

definition PF_NORMAL :: "8 word" where "PF_NORMAL = 0"
definition PF_INVALID :: "8 word" where "PF_INVALID = 1"
definition PF_HOTSPOT :: "8 word" where "PF_HOTSPOT = 8"

record particle =
  par_pos :: "vec3"
  par_lambdaH :: "real"
  par_lambdaHeI :: "real"
  par_lambdaHeII :: "real"
  par_yeMET :: "real"
  par_mass :: "real"
  par_sml :: "real"
  par_rho :: "real"
  par_ie :: "real"
  par_flag :: "8 word"
  par_yGdepHI :: "real"
  par_yGdepHeI :: "real"
  par_yGdepHeII :: "real"
  par_yGrecHII :: "real"
  par_yGrecHeII :: "real"
  par_yGrecHeIII :: "real"
  par_heat :: "real"
  par_lasthit :: "int"
  par_hits :: "int"
  par_id :: "64 word"

record psystem =
  psys_pos :: "vec3 list"
  psys_lambdaH :: "real list"
  psys_lambdaHeI :: "real list"
  psys_lambdaHeII :: "real list"
  psys_yeMET :: "real list"
  psys_mass :: "real list"
  psys_sml :: "real list"
  psys_rho :: "real list"
  psys_ie :: "real list"
  psys_flag :: "(8 word) list"
  psys_npar :: nat
  psys_npar_max :: nat
  psys_yGdepHI :: "real list"
  psys_yGdepHeI :: "real list"
  psys_yGdepHeII :: "real list"
  psys_yGrecHII :: "real list"
  psys_yGrecHeII :: "real list"
  psys_yGrecHeIII :: "real list"
  psys_heat :: "real list"
  psys_lasthit :: "int list"
  psys_hits :: "int list"
  psys_id :: "64 word list"
  psys_idhash_head :: "(nat \<Rightarrow> int) option"
  psys_idhash_next :: "int list"
  psys_boxsize :: real
  psys_periodic :: bool
  psys_srcs :: "source list"
  psys_tick :: int
  psys_tick_time :: real
  psys_epoch :: epoch

text \<open>One particle: the \<open>i\<close>-th entries of all arrays.\<close>

definition par :: "psystem \<Rightarrow> nat \<Rightarrow> particle" where
  "par s i =
     \<lparr>par_pos = psys_pos s ! i,
      par_lambdaH = psys_lambdaH s ! i,
      par_lambdaHeI = psys_lambdaHeI s ! i,
      par_lambdaHeII = psys_lambdaHeII s ! i,
      par_yeMET = psys_yeMET s ! i,
      par_mass = psys_mass s ! i,
      par_sml = psys_sml s ! i,
      par_rho = psys_rho s ! i,
      par_ie = psys_ie s ! i,
      par_flag = psys_flag s ! i,
      par_yGdepHI = psys_yGdepHI s ! i,
      par_yGdepHeI = psys_yGdepHeI s ! i,
      par_yGdepHeII = psys_yGdepHeII s ! i,
      par_yGrecHII = psys_yGrecHII s ! i,
      par_yGrecHeII = psys_yGrecHeII s ! i,
      par_yGrecHeIII = psys_yGrecHeIII s ! i,
      par_heat = psys_heat s ! i,
      par_lasthit = psys_lasthit s ! i,
      par_hits = psys_hits s ! i,
      par_id = psys_id s ! i\<rparr>"

definition arrays_length :: "psystem \<Rightarrow> nat \<Rightarrow> bool" where
  "arrays_length s n \<longleftrightarrow>
     length (psys_pos s) = n \<and>
     length (psys_lambdaH s) = n \<and>
     length (psys_lambdaHeI s) = n \<and>
     length (psys_lambdaHeII s) = n \<and>
     length (psys_yeMET s) = n \<and>
     length (psys_mass s) = n \<and>
     length (psys_sml s) = n \<and>
     length (psys_rho s) = n \<and>
     length (psys_ie s) = n \<and>
     length (psys_flag s) = n \<and>
     length (psys_yGdepHI s) = n \<and>
     length (psys_yGdepHeI s) = n \<and>
     length (psys_yGdepHeII s) = n \<and>
     length (psys_yGrecHII s) = n \<and>
     length (psys_yGrecHeII s) = n \<and>
     length (psys_yGrecHeIII s) = n \<and>
     length (psys_heat s) = n \<and>
     length (psys_lasthit s) = n \<and>
     length (psys_hits s) = n \<and>
     length (psys_id s) = n"

definition particles :: "psystem \<Rightarrow> particle list" where
  "particles s = map (par s) [0..<psys_npar s]"

definition psys_yGdep :: "psystem \<Rightarrow> nat \<Rightarrow> real list" where
  "psys_yGdep s species = [psys_yGdepHI s, psys_yGdepHeI s, psys_yGdepHeII s] ! species"

definition psys_yGrec :: "psystem \<Rightarrow> nat \<Rightarrow> real list" where
  "psys_yGrec s species = [psys_yGrecHII s, psys_yGrecHeII s, psys_yGrecHeIII s] ! species"

section \<open>Ionization state\<close>

definition lambdaH_to_xHI :: "real \<Rightarrow> real" where
  "lambdaH_to_xHI lambdaH = lambdaH"

definition lambdaH_to_xHII :: "(real \<Rightarrow> real) \<Rightarrow> real \<Rightarrow> real" where
  "lambdaH_to_xHII rd lambdaH = rd (1 - lambdaH)"

definition lambdaHe_to_xHeI :: "real \<Rightarrow> real \<Rightarrow> real" where
  "lambdaHe_to_xHeI lambdaHeI lambdaHeII = lambdaHeI"

definition lambdaHe_to_xHeII :: "real \<Rightarrow> real \<Rightarrow> real" where
  "lambdaHe_to_xHeII lambdaHeI lambdaHeII = lambdaHeII"

definition lambdaHe_to_xHeIII :: "(real \<Rightarrow> real) \<Rightarrow> real \<Rightarrow> real \<Rightarrow> real" where
  "lambdaHe_to_xHeIII rd lambdaHeI lambdaHeII = rd (rd (1 - lambdaHeII) - lambdaHeI)"

definition lambda_to_ye :: "(real \<Rightarrow> real) \<Rightarrow> config \<Rightarrow> real \<Rightarrow> real \<Rightarrow> real \<Rightarrow> real" where
  "lambda_to_ye rd c lambdaH lambdaHeI lambdaHeII =
     rd (lambdaH_to_xHII rd lambdaH
       + rd (rd (rd (c_hemf c / c_hmf c) * (1 / 4))
           * rd (lambdaHe_to_xHeII lambdaHeI lambdaHeII
               + rd (2 * lambdaHe_to_xHeIII rd lambdaHeI lambdaHeII))))"

definition psys_xHI :: "psystem \<Rightarrow> nat \<Rightarrow> real" where
  "psys_xHI s i = lambdaH_to_xHI (psys_lambdaH s ! i)"

definition psys_xHII :: "psystem \<Rightarrow> nat \<Rightarrow> real" where
  "psys_xHII s i = lambdaH_to_xHII db (psys_lambdaH s ! i)"

definition psys_xHeI :: "psystem \<Rightarrow> nat \<Rightarrow> real" where
  "psys_xHeI s i = lambdaHe_to_xHeI (psys_lambdaHeI s ! i) (psys_lambdaHeII s ! i)"

definition psys_xHeII :: "psystem \<Rightarrow> nat \<Rightarrow> real" where
  "psys_xHeII s i = lambdaHe_to_xHeII (psys_lambdaHeI s ! i) (psys_lambdaHeII s ! i)"

definition psys_xHeIII :: "psystem \<Rightarrow> nat \<Rightarrow> real" where
  "psys_xHeIII s i = lambdaHe_to_xHeIII db (psys_lambdaHeI s ! i) (psys_lambdaHeII s ! i)"

definition psys_set_lambdaH :: "nat \<Rightarrow> real \<Rightarrow> real \<Rightarrow> psystem \<Rightarrow> psystem" where
  "psys_set_lambdaH i xHI xHII s =
     s\<lparr>psys_lambdaH := (psys_lambdaH s)[i :=
        (if xHI \<ge> 1 \<or> xHII \<le> 0 then 1 else if xHI \<le> 0 \<or> xHII \<ge> 1 then 0 else xHI)]\<rparr>"

definition psys_set_lambdaHe :: "nat \<Rightarrow> real \<Rightarrow> real \<Rightarrow> real \<Rightarrow> psystem \<Rightarrow> psystem" where
  "psys_set_lambdaHe i xHeI xHeII xHeIII s =
     s\<lparr>psys_lambdaHeI := (psys_lambdaHeI s)[i :=
        (if xHeI \<ge> 1 \<or> db (xHeII + xHeIII) \<le> 0 then 1
         else if xHeI \<le> 0 \<or> db (xHeII + xHeIII) \<ge> 1 then 0 else xHeI)],
      psys_lambdaHeII := (psys_lambdaHeII s)[i :=
        (if xHeII \<ge> 1 \<or> db (xHeI + xHeIII) \<le> 0 then 1
         else if xHeII \<le> 0 \<or> db (xHeIII + xHeI) \<ge> 1 then 0 else xHeII)]\<rparr>"

definition psys_NH :: "units \<Rightarrow> psystem \<Rightarrow> nat \<Rightarrow> real" where
  "psys_NH u s i = db (psys_mass s ! i * c_h_per_mass u)"

definition psys_NHe :: "units \<Rightarrow> psystem \<Rightarrow> nat \<Rightarrow> real" where
  "psys_NHe u s i = db (psys_mass s ! i * c_he_per_mass u)"

definition psys_ye :: "config \<Rightarrow> psystem \<Rightarrow> nat \<Rightarrow> real" where
  "psys_ye c s i = lambda_to_ye db c (psys_lambdaH s ! i) (psys_lambdaHeI s ! i) (psys_lambdaHeII s ! i)"

definition psys_T :: "config \<Rightarrow> units \<Rightarrow> psystem \<Rightarrow> nat \<Rightarrow> real" where
  "psys_T c u s i = ieye2T db c u (psys_ie s ! i) (psys_ye c s i)"

definition psys_Ngamma_dot :: "psystem \<Rightarrow> nat \<Rightarrow> real" where
  "psys_Ngamma_dot s i = src_Ngamma_dots (psys_srcs s ! i) ! src_cursor (psys_srcs s ! i)"

section \<open>Rearranging the particles\<close>

definition psys_swap :: "nat \<Rightarrow> nat \<Rightarrow> psystem \<Rightarrow> psystem" where
  "psys_swap i j s = s\<lparr>
     psys_pos := swap_at (psys_pos s) i j,
     psys_lambdaH := swap_at (psys_lambdaH s) i j,
     psys_lambdaHeI := swap_at (psys_lambdaHeI s) i j,
     psys_lambdaHeII := swap_at (psys_lambdaHeII s) i j,
     psys_yeMET := swap_at (psys_yeMET s) i j,
     psys_mass := swap_at (psys_mass s) i j,
     psys_sml := swap_at (psys_sml s) i j,
     psys_rho := swap_at (psys_rho s) i j,
     psys_ie := swap_at (psys_ie s) i j,
     psys_flag := swap_at (psys_flag s) i j,
     psys_yGdepHI := swap_at (psys_yGdepHI s) i j,
     psys_yGdepHeI := swap_at (psys_yGdepHeI s) i j,
     psys_yGdepHeII := swap_at (psys_yGdepHeII s) i j,
     psys_yGrecHII := swap_at (psys_yGrecHII s) i j,
     psys_yGrecHeII := swap_at (psys_yGrecHeII s) i j,
     psys_yGrecHeIII := swap_at (psys_yGrecHeIII s) i j,
     psys_heat := swap_at (psys_heat s) i j,
     psys_lasthit := swap_at (psys_lasthit s) i j,
     psys_hits := swap_at (psys_hits s) i j,
     psys_id := swap_at (psys_id s) i j\<rparr>"

definition invalid :: "psystem \<Rightarrow> nat \<Rightarrow> bool" where
  "invalid s i \<longleftrightarrow> psys_flag s ! i AND PF_INVALID \<noteq> 0"

text \<open>\<open>while((PSYS(flag, j) & PF_INVALID) && j > lo) j--;\<close>\<close>

fun last_valid :: "psystem \<Rightarrow> nat \<Rightarrow> nat \<Rightarrow> nat" where
  "last_valid s lo 0 = 0"
| "last_valid s lo (Suc j) = (if invalid s (Suc j) \<and> lo < Suc j then last_valid s lo j else Suc j)"

text \<open>\<open>for(i = 0; i < j; i++)\<close> with the exchange of an invalid particle with the last valid one.\<close>

function compress_loop :: "nat \<Rightarrow> nat \<Rightarrow> psystem \<Rightarrow> nat \<times> psystem" where
  "compress_loop i j s =
     (if i < j then
        if invalid s i then
          let s' = psys_swap i j s in compress_loop (Suc i) (last_valid s' i j) s'
        else compress_loop (Suc i) j s
      else (j, s))"
  by pat_completeness auto

text \<open>The check of the particles that are cut off; \<open>total_invalid\<close> is unsigned, 64 bits wide.\<close>

fun check_removed :: "psystem \<Rightarrow> nat list \<Rightarrow> 64 word \<Rightarrow> 64 word res" where
  "check_removed s [] total_invalid = Inr total_invalid"
| "check_removed s (i # is) total_invalid =
     (if \<not> invalid s i then Inl (Trap ''valid particle removed'')
      else check_removed s is (total_invalid - 1))"

lemma last_valid_le: "last_valid s lo j \<le> j"
  by (induction j) auto

termination compress_loop
proof (relation "measure (\<lambda>(i, j, s). j - i)", goal_cases)
  case (2 i j s s')
  then show ?case using last_valid_le [of s' i j] by simp
qed auto

definition compress :: "psystem \<Rightarrow> psystem res" where
  "compress s =
     (if psys_npar s = 0 then Inl Out_of_bounds
      else
        let total_invalid = of_nat (length (filter (invalid s) [0..<psys_npar s]));
            (j, s') = compress_loop 0 (last_valid s 0 (psys_npar s - 1)) s
        in rbind (check_removed s' (rev [Suc j..<psys_npar s]) total_invalid) (\<lambda>t.
             if t \<noteq> 0 then Inl (Trap ''total_invalid check failed'')
             else Inr (s'\<lparr>psys_npar := j + 1\<rparr>)))"

text \<open>
  \<open>permute\<close>: the copy of \<open>n\<close> elements through \<open>p\<close> into a fresh block of \<open>n_max\<close> elements. The
  range check lets \<open>p[i] = n\<close> pass.
\<close>

definition permute :: "nat list \<Rightarrow> 'a list \<Rightarrow> nat \<Rightarrow> nat \<Rightarrow> (nat \<Rightarrow> 'a) \<Rightarrow> 'a list res" where
  "permute p data n n_max fresh =
     (if list_ex (\<lambda>i. n < p ! i) [0..<n] then Inl (Trap ''p[i] out of range check peano key'')
      else if list_ex (\<lambda>i. length data \<le> p ! i) [0..<n] then Inl Out_of_bounds
      else Inr (map (\<lambda>i. data ! (p ! i)) [0..<n] @ map fresh [n..<n_max]))"

definition permute_all :: "nat list \<Rightarrow> (nat \<Rightarrow> particle) \<Rightarrow> psystem \<Rightarrow> psystem res" where
  "permute_all perm fresh s =
     (let n = psys_npar s; n_max = psys_npar_max s in
       rbind (permute perm (psys_pos s) n n_max (\<lambda>k. par_pos (fresh k))) (\<lambda>a_pos.
       rbind (permute perm (psys_lambdaH s) n n_max (\<lambda>k. par_lambdaH (fresh k))) (\<lambda>a_lambdaH.
       rbind (permute perm (psys_lambdaHeI s) n n_max (\<lambda>k. par_lambdaHeI (fresh k))) (\<lambda>a_lambdaHeI.
       rbind (permute perm (psys_lambdaHeII s) n n_max (\<lambda>k. par_lambdaHeII (fresh k))) (\<lambda>a_lambdaHeII.
       rbind (permute perm (psys_yeMET s) n n_max (\<lambda>k. par_yeMET (fresh k))) (\<lambda>a_yeMET.
       rbind (permute perm (psys_mass s) n n_max (\<lambda>k. par_mass (fresh k))) (\<lambda>a_mass.
       rbind (permute perm (psys_sml s) n n_max (\<lambda>k. par_sml (fresh k))) (\<lambda>a_sml.
       rbind (permute perm (psys_rho s) n n_max (\<lambda>k. par_rho (fresh k))) (\<lambda>a_rho.
       rbind (permute perm (psys_ie s) n n_max (\<lambda>k. par_ie (fresh k))) (\<lambda>a_ie.
       rbind (permute perm (psys_flag s) n n_max (\<lambda>k. par_flag (fresh k))) (\<lambda>a_flag.
       rbind (permute perm (psys_yGrecHII s) n n_max (\<lambda>k. par_yGrecHII (fresh k))) (\<lambda>a_yGrecHII.
       rbind (permute perm (psys_yGdepHI s) n n_max (\<lambda>k. par_yGdepHI (fresh k))) (\<lambda>a_yGdepHI.
       rbind (permute perm (psys_yGrecHeII s) n n_max (\<lambda>k. par_yGrecHeII (fresh k))) (\<lambda>a_yGrecHeII.
       rbind (permute perm (psys_yGdepHeI s) n n_max (\<lambda>k. par_yGdepHeI (fresh k))) (\<lambda>a_yGdepHeI.
       rbind (permute perm (psys_yGrecHeIII s) n n_max (\<lambda>k. par_yGrecHeIII (fresh k))) (\<lambda>a_yGrecHeIII.
       rbind (permute perm (psys_yGdepHeII s) n n_max (\<lambda>k. par_yGdepHeII (fresh k))) (\<lambda>a_yGdepHeII.
       rbind (permute perm (psys_heat s) n n_max (\<lambda>k. par_heat (fresh k))) (\<lambda>a_heat.
       rbind (permute perm (psys_lasthit s) n n_max (\<lambda>k. par_lasthit (fresh k))) (\<lambda>a_lasthit.
       rbind (permute perm (psys_hits s) n n_max (\<lambda>k. par_hits (fresh k))) (\<lambda>a_hits.
       rbind (permute perm (psys_id s) n n_max (\<lambda>k. par_id (fresh k))) (\<lambda>a_id.
         Inr (s\<lparr>psys_pos := a_pos,
           psys_lambdaH := a_lambdaH,
           psys_lambdaHeI := a_lambdaHeI,
           psys_lambdaHeII := a_lambdaHeII,
           psys_yeMET := a_yeMET,
           psys_mass := a_mass,
           psys_sml := a_sml,
           psys_rho := a_rho,
           psys_ie := a_ie,
           psys_flag := a_flag,
           psys_yGdepHI := a_yGdepHI,
           psys_yGdepHeI := a_yGdepHeI,
           psys_yGdepHeII := a_yGdepHeII,
           psys_yGrecHII := a_yGrecHII,
           psys_yGrecHeII := a_yGrecHeII,
           psys_yGrecHeIII := a_yGrecHeIII,
           psys_heat := a_heat,
           psys_lasthit := a_lasthit,
           psys_hits := a_hits,
           psys_id := a_id\<rparr>))))))))))))))))))))))"

text \<open>
  The key of a particle: \<open>fac\<close> is the \<open>float\<close> \<open>1 / (boxsize * (1L << 20))\<close>, the coordinates are
  multiplied with it and converted to \<open>int\<close>.
\<close>

definition reorder_fac :: "psystem \<Rightarrow> real" where
  "reorder_fac s = fl (db (1 / db (psys_boxsize s * 2 ^ 20)))"

definition reorder_key :: "real \<Rightarrow> vec3 \<Rightarrow> 64 word" where
  "reorder_key fac = (\<lambda>(x, y, z).
     let cell = (\<lambda>t. of_int (trunc (fl (t * fac))) :: 32 word)
     in peano_hilbert_key (cell x) (cell y) (cell z) 20)"

definition hilbert_reorder :: "(int list \<Rightarrow> nat list) \<Rightarrow> (nat \<Rightarrow> particle) \<Rightarrow> psystem \<Rightarrow> psystem res" where
  "hilbert_reorder heapsort_index fresh s =
     permute_all
       (heapsort_index (map (\<lambda>i. sint (reorder_key (reorder_fac s) (psys_pos s ! i))) [0..<psys_npar s]))
       fresh s"

text \<open>
  \<open>setup_hotspots\<close>: every configured hot spot is a centre and a radius (the values that
  \<open>config_setting_parse_units\<close> returns).
\<close>

definition near_hotspot :: "vec3 \<Rightarrow> vec3 \<Rightarrow> real \<Rightarrow> bool" where
  "near_hotspot = (\<lambda>(x, y, z) (c0, c1, c2) r.
     let sq = (\<lambda>p c. db (db (p - c) * db (p - c)))
     in db (db (db (0 + sq x c0) + sq y c1) + sq z c2) < db (r * r))"

definition mark_hotspot :: "vec3 \<times> real \<Rightarrow> psystem \<Rightarrow> psystem" where
  "mark_hotspot = (\<lambda>(c, r) s. s\<lparr>psys_flag :=
     map (\<lambda>i. if i < psys_npar s \<and> near_hotspot (psys_pos s ! i) c r
              then psys_flag s ! i OR PF_HOTSPOT else psys_flag s ! i)
       [0..<length (psys_flag s)]\<rparr>)"

definition setup_hotspots :: "(vec3 \<times> real) list \<Rightarrow> psystem \<Rightarrow> psystem" where
  "setup_hotspots hotspots s =
     fold mark_hotspot hotspots
       (s\<lparr>psys_flag := map (\<lambda>i. if i < psys_npar s then psys_flag s ! i AND NOT PF_HOTSPOT
                              else psys_flag s ! i) [0..<length (psys_flag s)]\<rparr>)"

declare compress_loop.simps [simp del]

section \<open>The view of one particle\<close>

definition psys_ok :: "psystem \<Rightarrow> bool" where
  "psys_ok s \<longleftrightarrow> arrays_length s (psys_npar_max s) \<and> psys_npar s \<le> psys_npar_max s"

definition valid_par :: "particle \<Rightarrow> bool" where
  "valid_par p \<longleftrightarrow> par_flag p AND PF_INVALID = 0"

lemma invalid_par: "invalid s i \<longleftrightarrow> \<not> valid_par (par s i)"
  by (simp add: invalid_def valid_par_def par_def)

lemma length_particles [simp]: "length (particles s) = psys_npar s"
  by (simp add: particles_def)

lemma nth_particles [simp]: "i < psys_npar s \<Longrightarrow> particles s ! i = par s i"
  by (simp add: particles_def)

lemma psys_swap_fields [simp]:
  "psys_npar (psys_swap i j s) = psys_npar s" "psys_npar_max (psys_swap i j s) = psys_npar_max s"
  by (simp_all add: psys_swap_def)

lemma nth_swap_if:
  "i < n \<Longrightarrow> j < n \<Longrightarrow> k < n \<Longrightarrow> length xs = n \<Longrightarrow>
   swap_at xs i j ! k = xs ! (if k = j then i else if k = i then j else k)"
  by (simp add: nth_swap_at)

lemma psys_swap_ok: "psys_ok s \<Longrightarrow> psys_ok (psys_swap i j s)"
  unfolding psys_ok_def arrays_length_def psys_swap_def by simp

lemma par_psys_swap:
  assumes "psys_ok s" and "i < psys_npar s" "j < psys_npar s" "k < psys_npar s"
  shows "par (psys_swap i j s) k = (if k = j then par s i else if k = i then par s j else par s k)"
proof -
  let ?n = "psys_npar_max s"
  have len: "arrays_length s ?n" and lt: "i < ?n" "j < ?n" "k < ?n"
    using assms by (simp_all add: psys_ok_def)
  have "par (psys_swap i j s) k = par s (if k = j then i else if k = i then j else k)"
    using len unfolding arrays_length_def par_def psys_swap_def by (simp add: nth_swap_if [OF lt])
  then show ?thesis by simp
qed

lemma particles_psys_swap:
  assumes "psys_ok s" and "i < psys_npar s" "j < psys_npar s"
  shows "particles (psys_swap i j s) = swap_at (particles s) i j"
  using assms by (intro nth_equalityI) (simp_all add: par_psys_swap nth_swap_at)

section \<open>Squeezing out invalid particles\<close>

lemma last_valid_spec:
  assumes "lo \<le> j"
  shows "lo \<le> last_valid s lo j \<and> (\<forall>k. last_valid s lo j < k \<and> k \<le> j \<longrightarrow> invalid s k)
    \<and> (last_valid s lo j = lo \<or> \<not> invalid s (last_valid s lo j))"
  using assms by (induction j) (auto simp: le_Suc_eq)

definition squeezed :: "nat \<Rightarrow> nat \<Rightarrow> psystem \<Rightarrow> bool" where
  "squeezed i j s \<longleftrightarrow> psys_ok s \<and> j < psys_npar s \<and> i \<le> Suc j
     \<and> (\<forall>k < i. \<not> invalid s k) \<and> \<not> invalid s j
     \<and> (\<forall>k. j < k \<and> k < psys_npar s \<longrightarrow> invalid s k)"

lemma compress_loop_squeezes:
  "squeezed i j s \<Longrightarrow> compress_loop i j s = (j', s') \<Longrightarrow>
   squeezed (Suc j') j' s' \<and> psys_npar s' = psys_npar s \<and> mset (particles s') = mset (particles s)
     \<and> psys_npar_max s' = psys_npar_max s"
proof (induction i j s rule: compress_loop.induct)
  case (1 i j s)
  show ?case
  proof (cases "i < j")
    case False
    then have "j' = j" "s' = s" using "1.prems"(2) by (subst (asm) compress_loop.simps; simp)+
    moreover have "squeezed (Suc j) j s"
      using "1.prems"(1) False unfolding squeezed_def by (auto simp: less_Suc_eq)
    ultimately show ?thesis by simp
  next
    case True
    show ?thesis
    proof (cases "invalid s i")
      case False
      then have "squeezed (Suc i) j s" using "1.prems"(1) True by (auto simp: squeezed_def less_Suc_eq)
      moreover have "compress_loop (Suc i) j s = (j', s')" using "1.prems"(2) True False
        by (subst (asm) compress_loop.simps) simp
      ultimately show ?thesis using "1.IH"(2) [OF True False] by blast
    next
      case inv: True
      let ?s = "psys_swap i j s"
      let ?j = "last_valid ?s i j"
      have ok: "psys_ok s" "j < psys_npar s" "i < psys_npar s" using "1.prems"(1) True by (auto simp: squeezed_def)
      have inv_swap: "invalid ?s k \<longleftrightarrow> (if k = j then True else if k = i then False else invalid s k)"
        if "k < psys_npar s" for k
        using par_psys_swap [OF ok(1,3,2) that] inv "1.prems"(1) by (auto simp: invalid_par squeezed_def)
      have lv: "i \<le> ?j" "?j \<le> j" "\<forall>k. ?j < k \<and> k \<le> j \<longrightarrow> invalid ?s k" "?j = i \<or> \<not> invalid ?s ?j"
        using last_valid_spec [of i j ?s] True last_valid_le [of ?s i j] by auto
      have "squeezed (Suc i) ?j ?s"
        unfolding squeezed_def
      proof (intro conjI allI impI)
        show "\<not> invalid ?s k" if "k < Suc i" for k
        proof -
          have "k < psys_npar s" "k \<noteq> j" using that True ok(3) by auto
          then show ?thesis using inv_swap [of k] that "1.prems"(1) by (auto simp: squeezed_def less_Suc_eq)
        qed
        show "\<not> invalid ?s ?j" using lv(4) inv_swap [OF ok(3)] True by auto
        show "invalid ?s k" if k: "?j < k \<and> k < psys_npar ?s" for k
        proof (cases "k \<le> j")
          case False
          then have "j < k" "k < psys_npar s" using k by auto
          then show ?thesis using True inv_swap [of k] "1.prems"(1) by (auto simp: squeezed_def)
        qed (use lv(3) k in blast)
      qed (use lv ok psys_swap_ok in auto)
      moreover have "compress_loop (Suc i) ?j ?s = (j', s')"
        using "1.prems"(2) True inv by (subst (asm) compress_loop.simps) (simp add: Let_def)
      ultimately have "squeezed (Suc j') j' s' \<and> psys_npar s' = psys_npar ?s \<and> mset (particles s') = mset (particles ?s)
          \<and> psys_npar_max s' = psys_npar_max ?s"
        using "1.IH"(1) [OF True inv refl] by blast
      then show ?thesis using ok by (simp add: particles_psys_swap mset_swap_at)
    qed
  qed
qed

lemma check_removed_all:
  "list_all (invalid s) is \<Longrightarrow> check_removed s is t = Inr (t - of_nat (length is))"
  by (induction "is" arbitrary: t) (simp_all add: algebra_simps)

lemma particles_split:
  assumes "squeezed (Suc j) j s"
  shows "filter valid_par (particles s) = map (par s) [0..<Suc j]"
    and "length (filter (invalid s) [0..<psys_npar s]) = psys_npar s - Suc j"
proof -
  have u: "[0..<psys_npar s] = [0..<Suc j] @ [Suc j..<psys_npar s]"
    using assms upt_add_eq_append [of 0 "Suc j" "psys_npar s - Suc j"] unfolding squeezed_def by simp
  have v: "\<forall>k \<in> set [0..<Suc j]. \<not> invalid s k" "\<forall>k \<in> set [Suc j..<psys_npar s]. invalid s k"
    using assms by (auto simp: squeezed_def)
  have "filter (\<lambda>k. \<not> invalid s k) [0..<psys_npar s] = [0..<Suc j]"
    using v unfolding u filter_append by (simp del: upt_Suc add: filter_True filter_False)
  then show "filter valid_par (particles s) = map (par s) [0..<Suc j]"
    by (simp add: particles_def filter_map comp_def invalid_par del: upt_Suc)
  have "filter (invalid s) [0..<psys_npar s] = [Suc j..<psys_npar s]"
    using v unfolding u filter_append by (simp del: upt_Suc add: filter_True filter_False)
  then show "length (filter (invalid s) [0..<psys_npar s]) = psys_npar s - Suc j" by simp
qed

lemma count_invalid:
  "length (filter (invalid s) [0..<psys_npar s]) = size (filter_mset (\<lambda>p. \<not> valid_par p) (mset (particles s)))"
proof -
  have "invalid s = (\<lambda>i. \<not> valid_par (par s i))" by (simp add: fun_eq_iff invalid_par)
  then show ?thesis by (simp add: particles_def filter_map comp_def flip: mset_filter mset_map)
qed

lemma squeezed_start:
  assumes ok: "psys_ok s" and v: "i < psys_npar s" "\<not> invalid s i"
  shows "squeezed 0 (last_valid s 0 (psys_npar s - 1)) s"
proof -
  let ?n = "psys_npar s" and ?j = "last_valid s 0 (psys_npar s - 1)"
  have lv: "\<forall>k. ?j < k \<and> k \<le> ?n - 1 \<longrightarrow> invalid s k" "?j = 0 \<or> \<not> invalid s ?j" "?j \<le> ?n - 1"
    using last_valid_spec [of 0 "?n - 1" s] last_valid_le [of s 0 "?n - 1"] by auto
  have le: "i \<le> ?j" using lv(1) v by (metis Suc_diff_1 less_Suc_eq_le gr_zeroI not_less_zero not_le)
  have nj: "\<not> invalid s ?j"
  proof (cases "?j = 0")
    case True
    then show ?thesis using le v(2) by simp
  qed (use lv(2) in simp)
  moreover have "?j < ?n" using lv(3) v(1) by linarith
  moreover have "invalid s k" if "?j < k \<and> k < ?n" for k using that lv(1) by auto
  ultimately show ?thesis using ok nj unfolding squeezed_def by blast
qed

lemma psys_ok_npar [simp]: "psys_ok (s\<lparr>psys_npar := n\<rparr>) \<longleftrightarrow> arrays_length s (psys_npar_max s) \<and> n \<le> psys_npar_max s"
  by (simp add: psys_ok_def arrays_length_def)

lemma compress_result:
  assumes ok: "psys_ok s" and v: "i < psys_npar s" "\<not> invalid s i"
  shows "\<exists>s'. compress s = Inr s' \<and> psys_ok s' \<and> psys_npar_max s' = psys_npar_max s
    \<and> mset (particles s') = filter_mset valid_par (mset (particles s))"
proof -
  let ?n = "psys_npar s"
  obtain j s' where loop: "compress_loop 0 (last_valid s 0 (?n - 1)) s = (j, s')" by fastforce
  have q: "squeezed (Suc j) j s'" "psys_npar s' = ?n" "mset (particles s') = mset (particles s)"
    "psys_npar_max s' = psys_npar_max s"
    using compress_loop_squeezes [OF squeezed_start [OF ok v] loop] by blast+
  let ?t = "s'\<lparr>psys_npar := j + 1\<rparr>"
  have cnt: "length (filter (invalid s) [0..<?n]) = ?n - Suc j"
    using particles_split(2) [OF q(1)] q(2,3) count_invalid [of s] count_invalid [of s'] by simp
  have "list_all (invalid s') (rev [Suc j..<?n])"
    using q(1,2) by (auto simp: squeezed_def list_all_iff)
  then have chk: "check_removed s' (rev [Suc j..<?n]) (of_nat (?n - Suc j)) = Inr 0"
    by (simp add: check_removed_all)
  have n0: "?n \<noteq> 0" using v(1) by simp
  have c: "compress s = Inr ?t"
    unfolding compress_def Let_def cnt loop case_prod_conv chk rbind_simps if_not_P [OF n0] by (simp only: if_False simp_thms)
  have p: "particles ?t = map (par s') [0..<Suc j]"
    unfolding particles_def par_def by (simp del: upt_Suc)
  have m: "mset (particles ?t) = filter_mset valid_par (mset (particles s))"
    unfolding p particles_split(1) [OF q(1), symmetric] mset_filter q(3) by (rule refl)
  have ok: "psys_ok ?t"
    using q(1) unfolding psys_ok_npar squeezed_def by (auto simp: psys_ok_def)
  have mx: "psys_npar_max ?t = psys_npar_max s" using q(4) by simp
  show ?thesis by (rule exI [of _ ?t], intro conjI) (rule c ok mx m)+
qed

lemma last_valid_none: "(\<And>k. k \<le> j \<Longrightarrow> invalid s k) \<Longrightarrow> last_valid s 0 j = 0"
  by (induction j) auto

lemma compress_none_valid:
  assumes "0 < psys_npar s" and "\<And>i. i < psys_npar s \<Longrightarrow> invalid s i"
  shows "compress s = Inl (Trap ''total_invalid check failed'')"
proof -
  let ?n = "psys_npar s"
  have lv: "last_valid s 0 (?n - 1) = 0" using assms by (intro last_valid_none) simp
  have loop: "compress_loop 0 0 s = (0, s)" by (subst compress_loop.simps) simp
  have cnt: "filter (invalid s) [0..<?n] = [0..<?n]" using assms(2) by (simp add: filter_True)
  have "list_all (invalid s) (rev [Suc 0..<?n])" using assms(2) by (simp add: list_all_iff)
  then have chk: "check_removed s (rev [Suc 0..<?n]) (of_nat ?n) = Inr (of_nat ?n - of_nat (?n - 1))"
    by (simp add: check_removed_all)
  have "(of_nat ?n :: 64 word) - of_nat (?n - 1) = 1"
    using assms(1) by (simp flip: of_nat_diff)
  then show ?thesis
    unfolding compress_def Let_def lv loop case_prod_conv cnt length_upt diff_zero chk rbind_simps
    using assms(1) by simp
qed

section \<open>Permuting the particles\<close>

lemma permute_ok:
  assumes "\<And>i. i < n \<Longrightarrow> p ! i < n" and "n \<le> length data"
  shows "permute p data n n_max f = Inr (map (\<lambda>i. data ! (p ! i)) [0..<n] @ map f [n..<n_max])"
proof -
  have "\<not> list_ex (\<lambda>i. n < p ! i) [0..<n]" "\<not> list_ex (\<lambda>i. length data \<le> p ! i) [0..<n]"
    using assms by (force simp: list_ex_iff)+
  then show ?thesis by (simp add: permute_def)
qed

lemma permute_all_result:
  assumes ok: "psys_ok s" and p: "\<And>i. i < psys_npar s \<Longrightarrow> perm ! i < psys_npar s"
  shows "\<exists>s'. permute_all perm f s = Inr s' \<and> psys_ok s' \<and> psys_npar s' = psys_npar s
    \<and> particles s' = map (\<lambda>i. particles s ! (perm ! i)) [0..<psys_npar s]"
proof -
  let ?n = "psys_npar s" and ?m = "psys_npar_max s"
  have len: "arrays_length s ?m" and nm: "?n \<le> ?m" using ok by (simp_all add: psys_ok_def)
  have run: "permute perm data ?n ?m g = Inr (map (\<lambda>i. data ! (perm ! i)) [0..<?n] @ map g [?n..<?m])"
    if "length data = ?m" for data :: "'a list" and g
    using permute_ok [of ?n perm data ?m g] p nm that by simp
  obtain s' where s': "permute_all perm f s = Inr s'" "arrays_length s' ?m" "psys_npar s' = ?n"
     "psys_npar_max s' = ?m" "\<And>i. i < ?n \<Longrightarrow> par s' i = par s (perm ! i)"
    using len nm unfolding permute_all_def Let_def arrays_length_def
    by (simp add: permute_ok [OF p] par_def nth_append)
  have "particles s' = map (\<lambda>i. particles s ! (perm ! i)) [0..<?n]"
    using s'(3,5) p by (intro nth_equalityI) simp_all
  then show ?thesis using s' nm by (auto simp: psys_ok_def)
qed

section \<open>The contract of the index sort\<close>

locale index_sorter =
  fixes sort_index :: "int list \<Rightarrow> nat list"
  assumes permutes: "mset (sort_index ks) = mset [0..<length ks]"
    and sorts: "sorted (map ((!) ks) (sort_index ks))"
begin

lemma index_less: "i < length ks \<Longrightarrow> sort_index ks ! i < length ks"
  using index_permutation.p_less [OF index_permutation.intro [OF permutes]] .

lemma length_sort_index: "length (sort_index ks) = length ks"
  using index_permutation.length_p [OF index_permutation.intro [OF permutes]] .

definition keys_of :: "psystem \<Rightarrow> int list" where
  "keys_of s = map (\<lambda>i. sint (reorder_key (reorder_fac s) (psys_pos s ! i))) [0..<psys_npar s]"

lemma reorders:
  assumes ok: "psys_ok s"
  shows "\<exists>s'. hilbert_reorder sort_index f s = Inr s' \<and> psys_ok s' \<and> mset (particles s') = mset (particles s)
    \<and> sorted (map (\<lambda>p. sint (reorder_key (reorder_fac s) (par_pos p))) (particles s'))"
proof -
  let ?n = "psys_npar s" and ?p = "sort_index (keys_of s)"
  have lk: "length (keys_of s) = ?n" by (simp add: keys_of_def)
  obtain s' where s': "permute_all ?p f s = Inr s'" "psys_ok s'"
      "particles s' = map (\<lambda>i. particles s ! (?p ! i)) [0..<?n]"
    using permute_all_result [OF ok, of ?p f] index_less [of _ "keys_of s"] lk by auto
  have "map (\<lambda>i. particles s ! (?p ! i)) [0..<?n] = map ((!) (particles s)) ?p"
    by (rule nth_equalityI) (simp_all add: length_sort_index lk)
  then have v: "particles s' = map ((!) (particles s)) ?p" using s'(3) by simp
  have "mset (particles s') = image_mset ((!) (particles s)) (mset [0..<?n])"
    unfolding v mset_map permutes lk ..
  also have "\<dots> = mset (particles s)" by (metis length_particles map_nth mset_map)
  finally have m: "mset (particles s') = mset (particles s)" .
  have "\<And>i. i \<in> set ?p \<Longrightarrow> i < ?n"
    using permutes [of "keys_of s"] lk by (metis atLeast0LessThan lessThan_iff mset_eq_setD set_upt)
  then have "map (\<lambda>p. sint (reorder_key (reorder_fac s) (par_pos p))) (particles s') = map ((!) (keys_of s)) ?p"
    unfolding v by (simp add: keys_of_def par_def)
  then show ?thesis using s' m sorts [of "keys_of s"] by (auto simp: hilbert_reorder_def keys_of_def)
qed

end

text \<open>The merge sort of \<open>array.h\<close> keeps the contract (\<open>hilbert_reorder\<close> itself calls the GSL).\<close>

definition argsort_ints :: "int list \<Rightarrow> nat list" where
  "argsort_ints ks = argsort three_way (\<lambda>k. k) ks (replicate (length ks) 0) (replicate (length ks) 0)"

interpretation argsort_ints: index_sorter argsort_ints
proof unfold_locales
  fix ks :: "int list"
  note p = three_way.argsort_stable_permutation [of "replicate (length ks) 0" ks "replicate (length ks) 0"
      "argsort_ints ks" "\<lambda>k. k", OF _ _ argsort_ints_def]
  show "mset (argsort_ints ks) = mset [0..<length ks]" by (rule p(1)) simp_all
  have "sorted_wrt (three_way.before (\<lambda>i. ks ! i)) (argsort_ints ks)" by (rule p(2)) simp_all
  then show "sorted (map ((!) ks) (argsort_ints ks))"
    unfolding sorted_map by (rule sorted_wrt_mono_rel [rotated]) (auto simp: three_way.before_def not_less [symmetric])
qed

text \<open>The factor is the wrong way round: the cell index of every particle of the box is 0.\<close>

lemma reorder_fac_bounds:
  assumes "0 < psys_boxsize s"
  shows "0 \<le> reorder_fac s" "reorder_fac s * psys_boxsize s \<le> 1 / 2 ^ 10"
proof -
  let ?b = "psys_boxsize s * 2 ^ 20"
  have b: "0 < ?b" using assms by simp
  have d: "?b / 2 \<le> db ?b" using db_twice [of ?b] b by simp
  have dp: "0 < db ?b" using d b by linarith
  have e: "db (1 / db ?b) \<le> 2 * (1 / db ?b)" using db_twice [of "1 / db ?b"] dp by simp
  have f: "fl x \<le> 2 * x" if "0 \<le> x" for x using fl_twice [of x] that by simp
  have "0 \<le> db (1 / db ?b)" using dp by (intro db.nonneg) simp
  then have "reorder_fac s \<le> 2 * db (1 / db ?b)" unfolding reorder_fac_def by (rule f)
  also have "\<dots> \<le> 4 / db ?b" using e by simp
  also have "\<dots> \<le> 4 / (?b / 2)" using d b by (intro divide_left_mono) simp_all
  finally have "reorder_fac s * psys_boxsize s \<le> 4 / (?b / 2) * psys_boxsize s"
    using assms by (intro mult_right_mono) simp_all
  also have "\<dots> \<le> 1 / 2 ^ 10" using assms by (simp add: field_simps)
  finally show "reorder_fac s * psys_boxsize s \<le> 1 / 2 ^ 10" .
  show "0 \<le> reorder_fac s" unfolding reorder_fac_def using dp by (intro fl.nonneg db.nonneg) simp
qed

lemma reorder_cell_zero:
  assumes "0 < psys_boxsize s" and "0 \<le> x" "x \<le> psys_boxsize s"
  shows "trunc (fl (x * reorder_fac s)) = 0"
proof (rule trunc_less_one)
  note r = reorder_fac_bounds [OF assms(1)]
  have "x * reorder_fac s \<le> psys_boxsize s * reorder_fac s" using assms r by (intro mult_right_mono) simp_all
  also have "\<dots> \<le> 1 / 2 ^ 10" using r(2) by (simp add: mult.commute)
  finally have u: "x * reorder_fac s \<le> 1 / 2 ^ 10" .
  have n: "0 \<le> x * reorder_fac s" using assms r by simp
  have "fl (x * reorder_fac s) \<le> 2 * (x * reorder_fac s)"
    using fl_twice [OF n] by simp
  moreover have "0 \<le> fl (x * reorder_fac s)" using n by (rule fl.nonneg)
  ultimately show "\<bar>fl (x * reorder_fac s)\<bar> < 1" using u by simp
qed

section \<open>Example systems\<close>

definition particle_at :: "vec3 \<Rightarrow> 8 word \<Rightarrow> particle" where
  "particle_at p f =
     \<lparr>par_pos = p, par_lambdaH = 1, par_lambdaHeI = 1, par_lambdaHeII = 0, par_yeMET = 0, par_mass = 1,
      par_sml = 1, par_rho = 1, par_ie = 1, par_flag = f, par_yGdepHI = 0, par_yGdepHeI = 0,
      par_yGdepHeII = 0, par_yGrecHII = 0, par_yGrecHeII = 0, par_yGrecHeIII = 0, par_heat = 0,
      par_lasthit = 0, par_hits = 0, par_id = 0\<rparr>"

definition psys_of :: "particle list \<Rightarrow> real \<Rightarrow> psystem" where
  "psys_of ps box =
     \<lparr>psys_pos = map par_pos ps, psys_lambdaH = map par_lambdaH ps, psys_lambdaHeI = map par_lambdaHeI ps,
      psys_lambdaHeII = map par_lambdaHeII ps, psys_yeMET = map par_yeMET ps, psys_mass = map par_mass ps,
      psys_sml = map par_sml ps, psys_rho = map par_rho ps, psys_ie = map par_ie ps,
      psys_flag = map par_flag ps, psys_npar = length ps, psys_npar_max = length ps,
      psys_yGdepHI = map par_yGdepHI ps, psys_yGdepHeI = map par_yGdepHeI ps,
      psys_yGdepHeII = map par_yGdepHeII ps, psys_yGrecHII = map par_yGrecHII ps,
      psys_yGrecHeII = map par_yGrecHeII ps, psys_yGrecHeIII = map par_yGrecHeIII ps,
      psys_heat = map par_heat ps, psys_lasthit = map par_lasthit ps, psys_hits = map par_hits ps,
      psys_id = map par_id ps, psys_idhash_head = Some (\<lambda>_. - 1), psys_idhash_next = map (\<lambda>_. - 1) ps,
      psys_boxsize = box, psys_periodic = False, psys_srcs = [], psys_tick = 0, psys_tick_time = 1,
      psys_epoch = \<lparr>ep_redshift = 0, ep_age = 0, ep_duration = 1, ep_packet_size = 0, ep_ngas = length ps,
        ep_nticks = 1, ep_nray = 1, ep_nrec = 0, ep_sources = [], ep_snapshot = [], ep_format = [],
        ep_output_steps = [], ep_output_nfiles = 1, ep_output_filename = None\<rparr>\<rparr>"

lemma psys_of_ok [simp]: "psys_ok (psys_of ps box)"
  by (simp add: psys_of_def psys_ok_def arrays_length_def)

lemma psys_of_npar [simp]: "psys_npar (psys_of ps box) = length ps" "psys_boxsize (psys_of ps box) = box"
  by (simp_all add: psys_of_def)

lemma par_psys_of [simp]: "i < length ps \<Longrightarrow> par (psys_of ps box) i = ps ! i"
  by (rule particle.equality) (simp_all add: psys_of_def par_def)

lemma particles_psys_of [simp]: "particles (psys_of ps box) = ps"
  by (rule nth_equalityI) simp_all

section \<open>Properties\<close>

text \<open>C16. Compressing keeps exactly the valid particles: with consistent arrays and at least one
  valid particle, \<open>compress\<close> returns, the arrays stay consistent, no array is reallocated, and the
  particles (every field of them, seen across all arrays) are the valid ones from before, each as often
  as before; none of the slots that are cut off held a valid particle.\<close>

theorem compress_keeps_valid:
  assumes "psys_ok s" and "i < psys_npar s" and "\<not> invalid s i"
  shows "\<exists>s'. compress s = Inr s' \<and> psys_ok s' \<and> psys_npar_max s' = psys_npar_max s
    \<and> mset (particles s') = filter_mset valid_par (mset (particles s))"
  using assms by (rule compress_result)

lemma compress_keeps_valid_witness:
  "\<exists>s'. compress (psys_of [particle_at (1, 2, 3) PF_INVALID, particle_at (4, 5, 6) PF_NORMAL] 10) = Inr s'
    \<and> mset (particles s') = {#particle_at (4, 5, 6) PF_NORMAL#}"
  using compress_keeps_valid [of "psys_of [particle_at (1, 2, 3) PF_INVALID, particle_at (4, 5, 6) PF_NORMAL] 10" 1]
  by (simp add: invalid_par valid_par_def particle_at_def PF_INVALID_def PF_NORMAL_def) blast

text \<open>C17. When no particle is valid, \<open>compress\<close> does not return an empty system: the loop keeps slot 0,
  and the check of the number of removed particles stops the run.\<close>

theorem compress_all_invalid:
  assumes "0 < psys_npar s" and "\<And>i. i < psys_npar s \<Longrightarrow> invalid s i"
  shows "compress s = Inl (Trap ''total_invalid check failed'')"
  using assms by (rule compress_none_valid)

lemma compress_all_invalid_witness:
  "compress (psys_of [particle_at (1, 2, 3) PF_INVALID] 10) = Inl (Trap ''total_invalid check failed'')"
  by (rule compress_all_invalid) (simp_all add: invalid_par valid_par_def particle_at_def PF_INVALID_def)

text \<open>C18. Reordering moves whole particles: given that the index sort returns a permutation of the
  indices that sorts the keys, \<open>hilbert_reorder\<close> returns, every array is permuted the same way (the
  multiset of particles is unchanged), and the particles stand in the order of their keys.\<close>

theorem hilbert_reorder_sorts:
  assumes "psys_ok s"
    and "\<And>ks. mset (heapsort_index ks) = mset [0..<length ks]"
    and "\<And>ks. sorted (map ((!) ks) (heapsort_index ks))"
  shows "\<exists>s'. hilbert_reorder heapsort_index fresh s = Inr s' \<and> psys_ok s'
    \<and> mset (particles s') = mset (particles s)
    \<and> sorted (map (\<lambda>p. sint (reorder_key (reorder_fac s) (par_pos p))) (particles s'))"
  using index_sorter.reorders [OF index_sorter.intro [OF assms(2,3)] assms(1)] by simp

lemma hilbert_reorder_sorts_witness:
  "\<exists>s'. hilbert_reorder argsort_ints (\<lambda>_. particle_at (0, 0, 0) 0)
      (psys_of [particle_at (4, 5, 6) 0, particle_at (1, 2, 3) 0] 10) = Inr s'
    \<and> mset (particles s') = {#particle_at (1, 2, 3) 0, particle_at (4, 5, 6) 0#}"
  using hilbert_reorder_sorts [OF psys_of_ok [of "[particle_at (4, 5, 6) 0, particle_at (1, 2, 3) 0]" 10]
      argsort_ints.permutes argsort_ints.sorts, of "\<lambda>_. particle_at (0, 0, 0) 0"]
  by (auto simp: add_mset_commute)

text \<open>C19. The factor that maps a position to its cell divides by the number of cells instead of
  multiplying with it: every position of the box gets the key of the cell at the origin, so the
  reordering of \<open>hilbert_reorder\<close> sorts equal keys.\<close>

theorem hilbert_reorder_keys_equal:
  assumes "0 < psys_boxsize s" and "0 \<le> x" "x \<le> psys_boxsize s" and "0 \<le> y" "y \<le> psys_boxsize s"
    and "0 \<le> z" "z \<le> psys_boxsize s"
  shows "reorder_key (reorder_fac s) (x, y, z) = peano_hilbert_key 0 0 0 20"
  using reorder_cell_zero [OF assms(1)] assms(2-7) by (simp add: reorder_key_def Let_def)

lemma hilbert_reorder_keys_equal_witness:
  "reorder_key (reorder_fac (psys_of [] 10)) (1, 2, 3) = reorder_key (reorder_fac (psys_of [] 10)) (9, 8, 7)"
  using hilbert_reorder_keys_equal [of "psys_of [] 10" 1 2 3]
    hilbert_reorder_keys_equal [of "psys_of [] 10" 9 8 7] by simp


end
