(* ===== verification/Octree.thy ===== *)
theory Octree
  imports Particle_System
begin

text \<open>
  The octree of \<open>src/src/raytrace.c\<close>: the pool of cells, finding the leaf of a position,
  splitting a full leaf, adding a particle, and the loop of \<open>rt_switch_epoch\<close> that builds the
  tree and starts again with a larger pool when the pool is full.

  Indices are \<open>intptr_t\<close> with -1 for "none"; here they are \<open>nat\<close>, and a variable that may be -1
  is a \<open>nat option\<close>. \<open>rt_pool\<close> holds the cells below \<open>pool_used\<close> (its length), \<open>rt_pool_size\<close> is
  the number of cells asked for; \<open>rt_room\<close> is not in the source: it is the number of bytes that
  \<open>malloc\<close> can give to the pool, for which the environment decides. A pool that does not fit is a
  null pointer, and writing its root cell the trap \<open>Out_of_bounds\<close>. The particles of a leaf are a linked list through \<open>rt_next\<close>;
  the walk along it has the number of slots as fuel, which is enough for a list without
  repetition (\<open>chain\<close>). \<open>find\<close> and the climb to the parents have the number of cells as fuel;
  the invariant \<open>tree_ok\<close> shows that they stop before it is used up.
\<close>

section \<open>State\<close>

record cell =
  cell_head_par :: "nat option"
  cell_first_child :: "nat option"
  cell_parent :: "nat option"
  cell_bot :: vec3
  cell_top :: vec3
  cell_npar :: nat

record raytrace =
  rt_next :: "nat option list"
  rt_pool :: "cell list"
  rt_pool_size :: nat
  rt_room :: nat

definition cell_at :: "raytrace \<Rightarrow> nat \<Rightarrow> cell res" where
  "cell_at rt i = (if i < length (rt_pool rt) then Inr (rt_pool rt ! i) else Inl Out_of_bounds)"

definition pos_at :: "psystem \<Rightarrow> nat \<Rightarrow> vec3 res" where
  "pos_at s i = (if i < length (psys_pos s) then Inr (psys_pos s ! i) else Inl Out_of_bounds)"

section \<open>Cells\<close>

definition in_box :: "vec3 \<Rightarrow> vec3 \<Rightarrow> vec3 \<Rightarrow> bool" where
  "in_box = (\<lambda>(p0, p1, p2) (b0, b1, b2) (t0, t1, t2).
     \<not> (p0 \<ge> t0 \<or> p0 < b0) \<and> \<not> (p1 \<ge> t1 \<or> p1 < b1) \<and> \<not> (p2 \<ge> t2 \<or> p2 < b2))"

definition inside :: "raytrace \<Rightarrow> vec3 \<Rightarrow> nat \<Rightarrow> bool res" where
  "inside rt pos icell =
     (if icell \<ge> length (rt_pool rt) then Inl (Trap ''icell over range'')
      else Inr (in_box pos (cell_bot (rt_pool rt ! icell)) (cell_top (rt_pool rt ! icell))))"

definition full :: "nat \<Rightarrow> raytrace \<Rightarrow> nat \<Rightarrow> bool res" where
  "full ppc rt icell =
     (if icell \<ge> length (rt_pool rt) then Inl (Trap ''icell over range'')
      else Inr (cell_npar (rt_pool rt ! icell) \<ge> ppc))"

definition parent :: "raytrace \<Rightarrow> nat \<Rightarrow> nat option res" where
  "parent rt icell = rbind (cell_at rt icell) (\<lambda>c. Inr (cell_parent c))"

text \<open>The children are tried in order; the first one that holds the position is searched.\<close>

fun find_child :: "raytrace \<Rightarrow> vec3 \<Rightarrow> nat \<Rightarrow> nat list \<Rightarrow> nat option res" where
  "find_child rt pos c [] = Inr None"
| "find_child rt pos c (i # is) =
     rbind (inside rt pos (c + i)) (\<lambda>b. if b then Inr (Some (c + i)) else find_child rt pos c is)"

fun find_cell :: "nat \<Rightarrow> raytrace \<Rightarrow> vec3 \<Rightarrow> nat \<Rightarrow> nat res" where
  "find_cell 0 rt pos icell = Inl Hang"
| "find_cell (Suc fuel) rt pos icell =
     (if icell \<ge> length (rt_pool rt) then Inl (Trap ''icell out of range'')
      else case cell_first_child (rt_pool rt ! icell) of
        None \<Rightarrow> Inr icell
      | Some c \<Rightarrow> rbind (find_child rt pos c [0..<8]) (\<lambda>o1. case o1 of
            None \<Rightarrow> Inl (Trap ''never reach here makesure inside() is ensured before find()'')
          | Some i \<Rightarrow> rbind (find_cell fuel rt pos i) (\<lambda>j.
              if j \<ge> length (rt_pool rt) then Inl (Trap ''jcell out of range'') else Inr j)))"

definition find_leaf :: "raytrace \<Rightarrow> vec3 \<Rightarrow> nat \<Rightarrow> nat res" where
  "find_leaf rt pos icell = find_cell (Suc (length (rt_pool rt))) rt pos icell"

definition add :: "nat \<Rightarrow> nat \<Rightarrow> raytrace \<Rightarrow> raytrace res" where
  "add ipar icell rt =
     rbind (cell_at rt icell) (\<lambda>c.
       if cell_first_child c \<noteq> None then Inl (Trap ''never shall reach here, adding to a none leaf'')
       else if ipar \<ge> length (rt_next rt) then Inl Out_of_bounds
       else Inr (rt\<lparr>rt_next := (rt_next rt)[ipar := cell_head_par c],
                    rt_pool := (rt_pool rt)[icell :=
                      c\<lparr>cell_head_par := Some ipar, cell_npar := cell_npar c + 1\<rparr>]\<rparr>))"

section \<open>Splitting\<close>

definition center :: "real \<Rightarrow> real \<Rightarrow> real" where
  "center b t = fl (db (1 / 2 * fl (t + b)))"

definition child_cell :: "nat \<Rightarrow> cell \<Rightarrow> nat \<Rightarrow> cell" where
  "child_cell icell c i =
     (let (b0, b1, b2) = cell_bot c; (t0, t1, t2) = cell_top c;
          lo = (\<lambda>d b t. if bit i d then center b t else b);
          hi = (\<lambda>d b t. if bit i d then t else center b t)
      in \<lparr>cell_head_par = None, cell_first_child = None, cell_parent = Some icell,
          cell_bot = (lo 0 b0 t0, lo 1 b1 t1, lo 2 b2 t2),
          cell_top = (hi 0 b0 t0, hi 1 b1 t1, hi 2 b2 t2), cell_npar = 0\<rparr>)"

fun distribute :: "vec3 \<Rightarrow> nat \<Rightarrow> nat \<Rightarrow> nat list \<Rightarrow> raytrace \<Rightarrow> raytrace res" where
  "distribute pos c ipar [] rt = Inr rt"
| "distribute pos c ipar (i # is) rt =
     rbind (inside rt pos (i + c)) (\<lambda>b.
       rbind (if b then add ipar (i + c) rt else Inr rt) (distribute pos c ipar is))"

fun split_loop :: "nat \<Rightarrow> psystem \<Rightarrow> nat \<Rightarrow> nat option \<Rightarrow> raytrace \<Rightarrow> raytrace res" where
  "split_loop fuel s c None rt = Inr rt"
| "split_loop 0 s c (Some ipar) rt = Inl Hang"
| "split_loop (Suc fuel) s c (Some ipar) rt =
     (if ipar \<ge> length (rt_next rt) then Inl Out_of_bounds
      else rbind (pos_at s ipar) (\<lambda>pos.
        rbind (distribute pos c ipar [0..<8] rt) (split_loop fuel s c (rt_next rt ! ipar))))"

definition split_cell :: "psystem \<Rightarrow> nat \<Rightarrow> raytrace \<Rightarrow> raytrace option res" where
  "split_cell s icell rt =
     (let used = length (rt_pool rt) in
      if used + 8 \<ge> rt_pool_size rt then Inr None
      else rbind (cell_at rt icell) (\<lambda>cl.
        let fc = map (child_cell icell cl) [0..<8];
            cl' = cl\<lparr>cell_first_child := Some used, cell_npar := 0\<rparr>;
            rt' = rt\<lparr>rt_pool := (rt_pool rt)[icell := cl'] @ fc\<rparr>
        in rbind (split_loop (length (rt_next rt)) s used (cell_head_par cl) rt') (\<lambda>rt''.
             Inr (Some (rt''\<lparr>rt_pool := (rt_pool rt'')[icell :=
               (rt_pool rt'' ! icell)\<lparr>cell_head_par := None\<rparr>]\<rparr>)))))"

section \<open>Building\<close>

text \<open>\<open>while(!inside(pos, icell)) { icell = parent(icell); if(icell == -1) break; }\<close>\<close>

fun climb :: "nat \<Rightarrow> raytrace \<Rightarrow> vec3 \<Rightarrow> nat \<Rightarrow> nat option res" where
  "climb 0 rt pos icell = Inl Hang"
| "climb (Suc fuel) rt pos icell =
     rbind (inside rt pos icell) (\<lambda>b.
       if b then Inr (Some icell)
       else rbind (parent rt icell) (\<lambda>p. case p of
           None \<Rightarrow> Inr None
         | Some i \<Rightarrow> climb fuel rt pos i))"

text \<open>Shapes of the state after a step: needed for the termination of the split loop.\<close>

lemma add_shape:
  "add ipar icell rt = Inr rt' \<Longrightarrow>
   length (rt_pool rt') = length (rt_pool rt) \<and> rt_pool_size rt' = rt_pool_size rt
     \<and> length (rt_next rt') = length (rt_next rt)"
  by (auto simp: add_def rbind_Inr_iff cell_at_def split: if_splits)

lemma distribute_shape:
  "distribute pos c ipar is rt = Inr rt' \<Longrightarrow>
   length (rt_pool rt') = length (rt_pool rt) \<and> rt_pool_size rt' = rt_pool_size rt
     \<and> length (rt_next rt') = length (rt_next rt)"
  by (induction "is" arbitrary: rt) (auto simp: rbind_Inr_iff dest!: add_shape split: if_splits)

lemma split_loop_shape:
  "split_loop fuel s c p rt = Inr rt' \<Longrightarrow>
   length (rt_pool rt') = length (rt_pool rt) \<and> rt_pool_size rt' = rt_pool_size rt
     \<and> length (rt_next rt') = length (rt_next rt)"
  by (induction fuel s c p rt rule: split_loop.induct)
    (auto simp: rbind_Inr_iff dest!: distribute_shape split: if_splits)

lemma split_cell_shape:
  "split_cell s icell rt = Inr (Some rt') \<Longrightarrow>
   length (rt_pool rt') = length (rt_pool rt) + 8 \<and> rt_pool_size rt' = rt_pool_size rt
     \<and> length (rt_next rt') = length (rt_next rt) \<and> length (rt_pool rt) + 8 < rt_pool_size rt"
  by (auto simp: split_cell_def Let_def rbind_Inr_iff cell_at_def dest!: split_loop_shape split: if_splits)

text \<open>
  \<open>while(full(icell)) { if(!split(icell)) ... icell = find(pos, icell); }\<close>; \<open>None\<close> when the pool
  is full.
\<close>

function settle :: "nat \<Rightarrow> psystem \<Rightarrow> vec3 \<Rightarrow> nat \<Rightarrow> raytrace \<Rightarrow> (nat \<times> raytrace) option res" where
  "settle ppc s pos icell rt =
     (case full ppc rt icell of
        Inl e \<Rightarrow> Inl e
      | Inr f \<Rightarrow>
          if \<not> f then Inr (Some (icell, rt))
          else case split_cell s icell rt of
              Inl e \<Rightarrow> Inl e
            | Inr None \<Rightarrow> Inr None
            | Inr (Some rt') \<Rightarrow>
                (case find_leaf rt' pos icell of
                   Inl e \<Rightarrow> Inl e
                 | Inr j \<Rightarrow> settle ppc s pos j rt'))"
  by pat_completeness auto
termination
  by (relation "measure (\<lambda>(ppc, s, pos, icell, rt). rt_pool_size rt - length (rt_pool rt))")
    (auto dest: split_cell_shape)

declare settle.simps [simp del]

datatype attempt = Built raytrace nat | Pool_full nat

fun insert_all :: "nat \<Rightarrow> psystem \<Rightarrow> nat list \<Rightarrow> nat \<Rightarrow> nat \<Rightarrow> raytrace \<Rightarrow> attempt res" where
  "insert_all ppc s [] icell skipped rt = Inr (Built rt skipped)"
| "insert_all ppc s (ipar # ps) icell skipped rt =
     rbind (pos_at s ipar) (\<lambda>pos.
     rbind (climb (Suc (length (rt_pool rt))) rt pos icell) (\<lambda>a. case a of
       None \<Rightarrow> insert_all ppc s ps 0 (Suc skipped) rt
     | Some i \<Rightarrow>
         rbind (find_leaf rt pos i) (\<lambda>j.
         rbind (settle ppc s pos j rt) (\<lambda>r. case r of
           None \<Rightarrow> Inr (Pool_full ipar)
         | Some (k, rt') \<Rightarrow> rbind (add ipar k rt') (insert_all ppc s ps k skipped)))))"

text \<open>
  \<open>malloc(sizeof(Cell) * rt.pool_size)\<close> succeeds when the pool fits into the room there is, and the
  room is never more than the \<open>2 ^ 56\<close> bytes a process of a 64-bit machine can address. A cell
  has three 64-bit indices, six floats, an \<open>unsigned int\<close> and four bytes of padding.
\<close>

definition sizeof_Cell :: nat where
  "sizeof_Cell = 3 * 8 + 6 * 4 + 4 + 4"

definition pool_fits :: "raytrace \<Rightarrow> bool" where
  "pool_fits rt \<longleftrightarrow> sizeof_Cell * rt_pool_size rt \<le> min (rt_room rt) (2 ^ 56)"

text \<open>The tree of one cell with which every try begins; a pool of size 0 has no root cell.\<close>

definition root_cell :: "psystem \<Rightarrow> cell" where
  "root_cell s =
     \<lparr>cell_head_par = None, cell_first_child = None, cell_parent = None, cell_bot = (0, 0, 0),
      cell_top = (fl (psys_boxsize s), fl (psys_boxsize s), fl (psys_boxsize s)), cell_npar = 0\<rparr>"

definition start_tree :: "psystem \<Rightarrow> raytrace \<Rightarrow> raytrace res" where
  "start_tree s rt =
     (if length (rt_next rt) < psys_npar s \<or> rt_pool_size rt = 0 \<or> \<not> pool_fits rt then Inl Out_of_bounds
      else Inr (rt\<lparr>rt_next := replicate (psys_npar s) None @ drop (psys_npar s) (rt_next rt),
                   rt_pool := [root_cell s]\<rparr>))"

text \<open>
  The size of the next pool. \<open>ipar / pool_size\<close> is the mean occupation so far; \<open>ipar\<close> is not 0
  here (the root is full only after a particle was added) unless \<open>CFG_OCTTREE_PPC\<close> is 0.
  The sizes are \<open>size_t\<close>, here without a wrap: a retry only follows a pool that fitted, and
  \<open>next_pool_size_no_wrap\<close> shows that then no product of the code reaches \<open>2 ^ 64\<close>.
\<close>

definition next_pool_size :: "psystem \<Rightarrow> nat \<Rightarrow> nat \<Rightarrow> nat" where
  "next_pool_size s ipar pool_size =
     (let trysize = nat (trunc (db (real (psys_npar s) / db (real ipar / real pool_size))))
      in if pool_size < trysize \<and> 8 * pool_size > trysize then trysize else pool_size * 2)"

lemma next_pool_size_grows: "0 < m \<Longrightarrow> m < next_pool_size s p m"
  by (simp add: next_pool_size_def Let_def)

lemma next_pool_size_le: "next_pool_size s p m \<le> 8 * m"
  unfolding next_pool_size_def Let_def by (simp split: if_split)

lemma next_pool_size_no_wrap:
  assumes "pool_fits rt"
  shows "8 * rt_pool_size rt < 2 ^ 64" "next_pool_size s p (rt_pool_size rt) < 2 ^ 64"
    "sizeof_Cell * next_pool_size s p (rt_pool_size rt) < 2 ^ 64"
proof -
  have m: "56 * rt_pool_size rt \<le> 2 ^ 56" using assms by (simp add: pool_fits_def sizeof_Cell_def)
  note n = next_pool_size_le [of s p "rt_pool_size rt"]
  show "8 * rt_pool_size rt < 2 ^ 64" "next_pool_size s p (rt_pool_size rt) < 2 ^ 64"
    "sizeof_Cell * next_pool_size s p (rt_pool_size rt) < 2 ^ 64"
    unfolding sizeof_Cell_def using m n by auto
qed

definition build_try :: "nat \<Rightarrow> psystem \<Rightarrow> raytrace \<Rightarrow> attempt res" where
  "build_try ppc s rt = rbind (start_tree s rt) (insert_all ppc s [0..<psys_npar s] 0 0)"

partial_function (option) build_tree :: "nat \<Rightarrow> psystem \<Rightarrow> raytrace \<Rightarrow> (raytrace \<times> nat) res option" where
  "build_tree ppc s rt =
     (case build_try ppc s rt of
        Inl e \<Rightarrow> Some (Inl e)
      | Inr (Built rt' skipped) \<Rightarrow> Some (Inr (rt', skipped))
      | Inr (Pool_full ipar) \<Rightarrow>
          build_tree ppc s (rt\<lparr>rt_pool_size := next_pool_size s ipar (rt_pool_size rt)\<rparr>))"

section \<open>Boxes\<close>

definition octant :: "vec3 \<Rightarrow> cell \<Rightarrow> nat" where
  "octant pos c =
     (let (p0, p1, p2) = pos; (b0, b1, b2) = cell_bot c; (t0, t1, t2) = cell_top c
      in of_bool (center b0 t0 \<le> p0) + 2 * of_bool (center b1 t1 \<le> p1) + 4 * of_bool (center b2 t2 \<le> p2))"

definition in_cell :: "vec3 \<Rightarrow> cell \<Rightarrow> bool" where
  "in_cell pos c \<longleftrightarrow> in_box pos (cell_bot c) (cell_top c)"

definition box_ok :: "cell \<Rightarrow> bool" where
  "box_ok c \<longleftrightarrow> (case (cell_bot c, cell_top c) of ((b0, b1, b2), (t0, t1, t2)) \<Rightarrow>
     fl b0 = b0 \<and> fl b1 = b1 \<and> fl b2 = b2 \<and> fl t0 = t0 \<and> fl t1 = t1 \<and> fl t2 = t2 \<and> b0 \<le> t0 \<and> b1 \<le> t1 \<and> b2 \<le> t2)"

lemma child_octant_less: "octant pos c < 8"
  by (auto simp: octant_def of_bool_def split: prod.splits)

lemma less_8_cases: "(k::nat) < 8 \<longleftrightarrow> k = 0 \<or> k = 1 \<or> k = 2 \<or> k = 3 \<or> k = 4 \<or> k = 5 \<or> k = 6 \<or> k = 7"
  by auto

lemma bits_less_8: "bit (1::nat) 0" "bit (3::nat) 0" "bit (5::nat) 0" "bit (7::nat) 0" "\<not> bit (0::nat) 0"
  "\<not> bit (2::nat) 0" "\<not> bit (4::nat) 0" "\<not> bit (6::nat) 0"
  "bit (2::nat) 1" "bit (3::nat) 1" "bit (6::nat) 1" "bit (7::nat) 1" "\<not> bit (0::nat) 1"
  "\<not> bit (1::nat) 1" "\<not> bit (4::nat) 1" "\<not> bit (5::nat) 1"
  "bit (4::nat) 2" "bit (5::nat) 2" "bit (6::nat) 2" "bit (7::nat) 2" "\<not> bit (0::nat) 2"
  "\<not> bit (1::nat) 2" "\<not> bit (2::nat) 2" "\<not> bit (3::nat) 2"
  by (simp_all add: bit_iff_odd)

text \<open>The eight children partition the box of their parent, whatever the rounding of the centre.\<close>

lemma in_child_iff:
  assumes "in_cell pos c" and "k < 8"
  shows "in_cell pos (child_cell i c k) \<longleftrightarrow> k = octant pos c"
proof -
  obtain p0 p1 p2 b0 b1 b2 t0 t1 t2 where v: "pos = (p0, p1, p2)" "cell_bot c = (b0, b1, b2)" "cell_top c = (t0, t1, t2)"
    by (metis prod_cases3)
  have "in_cell pos (child_cell i c k) \<longleftrightarrow>
    (bit k 0 \<longleftrightarrow> center b0 t0 \<le> p0) \<and> (bit k 1 \<longleftrightarrow> center b1 t1 \<le> p1) \<and> (bit k 2 \<longleftrightarrow> center b2 t2 \<le> p2)"
    using assms(1) by (auto simp: in_cell_def child_cell_def in_box_def v Let_def)
  also have "\<dots> \<longleftrightarrow> k = octant pos c"
    using assms(2) unfolding less_8_cases octant_def v Let_def case_prod_conv
    by (elim disjE; simp only: bits_less_8; simp add: of_bool_def)
  finally show ?thesis .
qed

lemma fl_between: "fl b = b \<Longrightarrow> fl t = t \<Longrightarrow> b \<le> x \<Longrightarrow> x \<le> t \<Longrightarrow> b \<le> fl x \<and> fl x \<le> t"
  using fl.ge_exact [of b x] fl.le_exact [of t x] by simp

lemma db_between: "fl b = b \<Longrightarrow> fl t = t \<Longrightarrow> b \<le> x \<Longrightarrow> x \<le> t \<Longrightarrow> b \<le> db x \<and> db x \<le> t"
  using db.ge_exact [of b x] db.le_exact [of t x] fl_exact_db by simp

lemma center_between:
  assumes "fl b = b" "fl t = t" "b \<le> t"
  shows "b \<le> center b t \<and> center b t \<le> t \<and> fl (center b t) = center b t"
proof -
  have "fl (b * 2) = b * 2" "fl (t * 2) = t * 2"
    using fl_scale [of b 1] fl_scale [of t 1] assms by simp_all
  then have "b * 2 \<le> fl (t + b) \<and> fl (t + b) \<le> t * 2" using assms by (intro fl_between) auto
  then have "b \<le> db (1 / 2 * fl (t + b)) \<and> db (1 / 2 * fl (t + b)) \<le> t" using assms by (intro db_between) auto
  then show ?thesis using assms fl_between unfolding center_def by simp
qed

lemma box_ok_child: "box_ok c \<Longrightarrow> box_ok (child_cell i c k)"
  using center_between by (auto simp: box_ok_def child_cell_def Let_def split: prod.splits)

lemma in_child_in_parent:
  assumes "box_ok c" and "in_cell pos (child_cell i c k)"
  shows "in_cell pos c"
proof -
  obtain p0 p1 p2 b0 b1 b2 t0 t1 t2 where v: "pos = (p0, p1, p2)" "cell_bot c = (b0, b1, b2)" "cell_top c = (t0, t1, t2)"
    by (metis prod_cases3)
  have "b0 \<le> center b0 t0 \<and> center b0 t0 \<le> t0" "b1 \<le> center b1 t1 \<and> center b1 t1 \<le> t1"
    "b2 \<le> center b2 t2 \<and> center b2 t2 \<le> t2"
    using assms(1) center_between by (auto simp: box_ok_def v)
  then show ?thesis
    using assms(2) by (auto simp: in_cell_def child_cell_def in_box_def v Let_def split: if_splits)
qed

section \<open>The shape of the tree\<close>

definition same_box :: "cell \<Rightarrow> cell \<Rightarrow> bool" where
  "same_box c d \<longleftrightarrow> cell_bot c = cell_bot d \<and> cell_top c = cell_top d"

definition children_ok :: "cell list \<Rightarrow> nat \<Rightarrow> nat \<Rightarrow> bool" where
  "children_ok pool i c \<longleftrightarrow> i < c \<and> c + 8 \<le> length pool
     \<and> (\<forall>k < 8. cell_parent (pool ! (c + k)) = Some i \<and> same_box (pool ! (c + k)) (child_cell i (pool ! i) k))"

definition skel_ok :: "cell list \<Rightarrow> bool" where
  "skel_ok pool \<longleftrightarrow> pool \<noteq> [] \<and> cell_parent (pool ! 0) = None \<and> (\<forall>i < length pool. box_ok (pool ! i))
     \<and> (\<forall>i < length pool. \<forall>c. cell_first_child (pool ! i) = Some c \<longrightarrow> children_ok pool i c)
     \<and> (\<forall>i < length pool. 0 < i \<longrightarrow> (\<exists>p c. p < i \<and> cell_parent (pool ! i) = Some p
          \<and> cell_first_child (pool ! p) = Some c \<and> c \<le> i \<and> i < c + 8))"

lemma skel_okD:
  assumes "skel_ok pool"
  shows "0 < length pool" "cell_parent (pool ! 0) = None"
    and "i < length pool \<Longrightarrow> box_ok (pool ! i)"
    and "i < length pool \<Longrightarrow> cell_first_child (pool ! i) = Some c \<Longrightarrow> children_ok pool i c"
    and "i < length pool \<Longrightarrow> 0 < i \<Longrightarrow> \<exists>p c. p < i \<and> cell_parent (pool ! i) = Some p
          \<and> cell_first_child (pool ! p) = Some c \<and> c \<le> i \<and> i < c + 8"
  using assms by (simp_all add: skel_ok_def)

lemma in_cell_same_box: "same_box c d \<Longrightarrow> in_cell pos c \<longleftrightarrow> in_cell pos d"
  by (simp add: same_box_def in_cell_def)

lemma child_in_cell_iff:
  assumes "children_ok pool i c" and "in_cell pos (pool ! i)" and "k < 8"
  shows "in_cell pos (pool ! (c + k)) \<longleftrightarrow> k = octant pos (pool ! i)"
proof -
  have "same_box (pool ! (c + k)) (child_cell i (pool ! i) k)" using assms(1,3) by (simp add: children_ok_def)
  then show ?thesis using in_cell_same_box in_child_iff [OF assms(2,3)] by simp
qed

lemma cell_in_parent:
  assumes "skel_ok pool" and "i < length pool" "cell_first_child (pool ! i) = Some c" and "k < 8"
    and "in_cell pos (pool ! (c + k))"
  shows "in_cell pos (pool ! i)"
proof -
  have "children_ok pool i c" using skel_okD(4) [OF assms(1-3)] .
  then have "same_box (pool ! (c + k)) (child_cell i (pool ! i) k)" using assms(4) by (simp add: children_ok_def)
  then have "in_cell pos (child_cell i (pool ! i) k)" using assms(5) in_cell_same_box by blast
  then show ?thesis using in_child_in_parent [OF skel_okD(3) [OF assms(1,2)]] by blast
qed

lemma in_root:
  "skel_ok pool \<Longrightarrow> i < length pool \<Longrightarrow> in_cell pos (pool ! i) \<Longrightarrow> in_cell pos (pool ! 0)"
proof (induction i rule: less_induct)
  case (less i)
  show ?case
  proof (cases "i = 0")
    case False
    then obtain p c where p: "p < i" "cell_parent (pool ! i) = Some p"
        "cell_first_child (pool ! p) = Some c" "c \<le> i" "i < c + 8"
      using skel_okD(5) [OF less.prems(1,2)] by blast
    have "in_cell pos (pool ! p)"
      using cell_in_parent [OF less.prems(1) _ p(3), of "i - c" pos] p less.prems by simp
    then show ?thesis using less.IH [OF p(1) less.prems(1)] p(1) less.prems(2) by simp
  qed (use less.prems in simp)
qed

section \<open>Finding\<close>

lemma inside_in_cell [simp]:
  "icell < length (rt_pool rt) \<Longrightarrow> inside rt pos icell = Inr (in_cell pos (rt_pool rt ! icell))"
  by (simp add: inside_def in_cell_def)

lemma find_child_first:
  "k \<in> set is \<Longrightarrow> (\<And>i. i \<in> set is \<Longrightarrow> inside rt pos (c + i) = Inr (i = k)) \<Longrightarrow>
   find_child rt pos c is = Inr (Some (c + k))"
  by (induction "is") auto

lemma find_child_octant:
  assumes "children_ok (rt_pool rt) i c" and "in_cell pos (rt_pool rt ! i)"
  shows "find_child rt pos c [0..<8] = Inr (Some (c + octant pos (rt_pool rt ! i)))"
proof (rule find_child_first)
  show "octant pos (rt_pool rt ! i) \<in> set [0..<8]" by (simp add: child_octant_less)
  fix k :: nat assume "k \<in> set [0..<8]"
  then have k: "k < 8" by simp
  then have "c + k < length (rt_pool rt)" using assms(1) by (simp add: children_ok_def)
  then show "inside rt pos (c + k) = Inr (k = octant pos (rt_pool rt ! i))"
    using child_in_cell_iff [OF assms k] by simp
qed

lemma find_cell_leaf:
  assumes "skel_ok (rt_pool rt)"
  shows "i < length (rt_pool rt) \<Longrightarrow> in_cell pos (rt_pool rt ! i) \<Longrightarrow> length (rt_pool rt) - i < fuel \<Longrightarrow>
   \<exists>j < length (rt_pool rt). find_cell fuel rt pos i = Inr j \<and> in_cell pos (rt_pool rt ! j)
     \<and> cell_first_child (rt_pool rt ! j) = None"
proof (induction fuel arbitrary: i)
  case (Suc fuel)
  show ?case
  proof (cases "cell_first_child (rt_pool rt ! i)")
    case None
    then show ?thesis using Suc.prems by auto
  next
    case (Some c)
    let ?k = "octant pos (rt_pool rt ! i)"
    have ok: "children_ok (rt_pool rt) i c" using skel_okD(4) [OF assms Suc.prems(1) Some] .
    then have lt: "i < c + ?k" "c + ?k < length (rt_pool rt)"
      using child_octant_less [of pos "rt_pool rt ! i"] by (auto simp: children_ok_def)
    have "in_cell pos (rt_pool rt ! (c + ?k))"
      using child_in_cell_iff [OF ok Suc.prems(2) child_octant_less] by blast
    then obtain j where "j < length (rt_pool rt)" "find_cell fuel rt pos (c + ?k) = Inr j"
        "in_cell pos (rt_pool rt ! j)" "cell_first_child (rt_pool rt ! j) = None"
      using Suc.IH [of "c + ?k"] lt Suc.prems(3) by force
    then show ?thesis using Suc.prems(1) Some find_child_octant [OF ok Suc.prems(2)] by auto
  qed
qed simp

lemma find_leaf_result:
  assumes "skel_ok (rt_pool rt)" and "i < length (rt_pool rt)" and "in_cell pos (rt_pool rt ! i)"
  shows "\<exists>j < length (rt_pool rt). find_leaf rt pos i = Inr j \<and> in_cell pos (rt_pool rt ! j)
     \<and> cell_first_child (rt_pool rt ! j) = None"
  using find_cell_leaf [OF assms, of "Suc (length (rt_pool rt))"] unfolding find_leaf_def by simp

lemma climb_result:
  assumes "skel_ok (rt_pool rt)"
  shows "i < length (rt_pool rt) \<Longrightarrow> i < fuel \<Longrightarrow>
    (\<exists>j < length (rt_pool rt). climb fuel rt pos i = Inr (Some j) \<and> in_cell pos (rt_pool rt ! j)
        \<and> in_cell pos (rt_pool rt ! 0))
    \<or> (climb fuel rt pos i = Inr None \<and> \<not> in_cell pos (rt_pool rt ! 0))"
proof (induction fuel arbitrary: i)
  case (Suc fuel)
  show ?case
  proof (cases "in_cell pos (rt_pool rt ! i)")
    case True
    then show ?thesis using Suc.prems in_root [OF assms Suc.prems(1) True] by auto
  next
    case False
    show ?thesis
    proof (cases "i = 0")
      case True
      then show ?thesis using Suc.prems False skel_okD(2) [OF assms] by (simp add: parent_def cell_at_def)
    next
      case i: False
      then obtain p where p: "p < i" "cell_parent (rt_pool rt ! i) = Some p"
        using skel_okD(5) [OF assms Suc.prems(1)] by blast
      then have "climb (Suc fuel) rt pos i = climb fuel rt pos p"
        using Suc.prems False by (simp add: parent_def cell_at_def)
      then show ?thesis using Suc.IH [of p] p(1) Suc.prems by simp
    qed
  qed
qed simp

section \<open>The lists of particles\<close>

fun chain :: "nat option list \<Rightarrow> nat option \<Rightarrow> nat list \<Rightarrow> bool" where
  "chain nx h [] \<longleftrightarrow> h = None"
| "chain nx h (x # xs) \<longleftrightarrow> h = Some x \<and> x < length nx \<and> chain nx (nx ! x) xs"

lemma chain_update [simp]: "x \<notin> set xs \<Longrightarrow> chain (nx[x := v]) h xs \<longleftrightarrow> chain nx h xs"
  by (induction xs arbitrary: h) auto

lemma chain_less: "chain nx h xs \<Longrightarrow> x \<in> set xs \<Longrightarrow> x < length nx"
  by (induction xs arbitrary: h) auto

lemma chain_length: "chain nx h xs \<Longrightarrow> distinct xs \<Longrightarrow> length xs \<le> length nx"
  using chain_less [of nx h xs] card_mono [of "{..<length nx}" "set xs"] by (auto simp: distinct_card)

text \<open>
  \<open>lists_ok s rt I L\<close>: the list of every cell of \<open>I\<close> is \<open>L\<close> of it, counted in \<open>npar\<close>, without
  repetition and disjoint from the others, and holds particles inside the box of the cell.
\<close>

definition list_ok :: "psystem \<Rightarrow> raytrace \<Rightarrow> nat \<Rightarrow> nat list \<Rightarrow> bool" where
  "list_ok s rt i xs \<longleftrightarrow> chain (rt_next rt) (cell_head_par (rt_pool rt ! i)) xs
     \<and> cell_npar (rt_pool rt ! i) = length xs \<and> distinct xs
     \<and> (\<forall>p \<in> set xs. p < length (psys_pos s) \<and> in_cell (psys_pos s ! p) (rt_pool rt ! i))
     \<and> (cell_first_child (rt_pool rt ! i) \<noteq> None \<longrightarrow> xs = [])"

definition lists_ok :: "psystem \<Rightarrow> raytrace \<Rightarrow> nat set \<Rightarrow> (nat \<Rightarrow> nat list) \<Rightarrow> bool" where
  "lists_ok s rt I L \<longleftrightarrow> (\<forall>i \<in> I. i < length (rt_pool rt) \<and> list_ok s rt i (L i))
     \<and> (\<forall>i \<in> I. \<forall>j \<in> I. i \<noteq> j \<longrightarrow> set (L i) \<inter> set (L j) = {})"

definition same_skel :: "raytrace \<Rightarrow> raytrace \<Rightarrow> bool" where
  "same_skel rt rt' \<longleftrightarrow> length (rt_pool rt') = length (rt_pool rt) \<and> rt_pool_size rt' = rt_pool_size rt
     \<and> length (rt_next rt') = length (rt_next rt)
     \<and> (\<forall>i < length (rt_pool rt). same_box (rt_pool rt' ! i) (rt_pool rt ! i)
          \<and> cell_first_child (rt_pool rt' ! i) = cell_first_child (rt_pool rt ! i)
          \<and> cell_parent (rt_pool rt' ! i) = cell_parent (rt_pool rt ! i))"

lemma same_skel_refl [simp]: "same_skel rt rt"
  by (simp add: same_skel_def same_box_def)

lemma same_skel_trans: "same_skel a b \<Longrightarrow> same_skel b c \<Longrightarrow> same_skel a c"
  by (auto simp: same_skel_def same_box_def)

lemma same_skel_in_cell:
  "same_skel rt rt' \<Longrightarrow> i < length (rt_pool rt) \<Longrightarrow> in_cell pos (rt_pool rt' ! i) = in_cell pos (rt_pool rt ! i)"
  by (rule in_cell_same_box) (simp add: same_skel_def)

lemma same_skel_skel_ok:
  assumes "same_skel rt rt'" and "skel_ok (rt_pool rt)"
  shows "skel_ok (rt_pool rt')"
proof -
  have s: "length (rt_pool rt') = length (rt_pool rt)"
    "\<And>i. i < length (rt_pool rt) \<Longrightarrow> same_box (rt_pool rt' ! i) (rt_pool rt ! i)
        \<and> cell_first_child (rt_pool rt' ! i) = cell_first_child (rt_pool rt ! i)
        \<and> cell_parent (rt_pool rt' ! i) = cell_parent (rt_pool rt ! i)"
    using assms(1) by (auto simp: same_skel_def)
  have b: "box_ok (rt_pool rt' ! i) = box_ok (rt_pool rt ! i)" if "i < length (rt_pool rt)" for i
    using s(2) [OF that] by (simp add: box_ok_def same_box_def)
  have c: "children_ok (rt_pool rt') i c = children_ok (rt_pool rt) i c" if "i < length (rt_pool rt)" for i c
  proof -
    have "child_cell i (rt_pool rt' ! i) = child_cell i (rt_pool rt ! i)"
      using s(2) [OF that] by (simp add: child_cell_def same_box_def fun_eq_iff)
    then show ?thesis using s unfolding children_ok_def by (auto simp: same_box_def)
  qed
  note ok = skel_okD [OF assms(2)]
  show ?thesis
    unfolding skel_ok_def
  proof (intro conjI allI impI)
    show "rt_pool rt' \<noteq> []" using s(1) ok(1) by auto
    show "cell_parent (rt_pool rt' ! 0) = None" using s(2) [OF ok(1)] ok(2) by simp
    fix i assume "i < length (rt_pool rt')"
    then have i: "i < length (rt_pool rt)" using s(1) by simp
    show "box_ok (rt_pool rt' ! i)" using b [OF i] ok(3) [OF i] by simp
    show "children_ok (rt_pool rt') i d" if "cell_first_child (rt_pool rt' ! i) = Some d" for d
      using that s(2) [OF i] c [OF i] ok(4) [OF i] by simp
    assume "0 < i"
    then obtain p d where p: "p < i" "cell_parent (rt_pool rt ! i) = Some p"
        "cell_first_child (rt_pool rt ! p) = Some d" "d \<le> i" "i < d + 8"
      using ok(5) [OF i] by blast
    have "p < length (rt_pool rt)" using p(1) i by simp
    then show "\<exists>p d. p < i \<and> cell_parent (rt_pool rt' ! i) = Some p
        \<and> cell_first_child (rt_pool rt' ! p) = Some d \<and> d \<le> i \<and> i < d + 8"
      using p s(2) [OF i] s(2) [of p] by (intro exI [of _ p] exI [of _ d]) simp
  qed
qed

lemma list_ok_frame:
  assumes "list_ok s rt i xs" and "rt_pool rt' ! i = rt_pool rt ! i"
    and "\<And>h. chain (rt_next rt) h xs \<Longrightarrow> chain (rt_next rt') h xs"
  shows "list_ok s rt' i xs"
  using assms by (simp add: list_ok_def)

lemma add_result:
  assumes "lists_ok s rt I L" and "i \<in> I" and "cell_first_child (rt_pool rt ! i) = None"
    and "x < length (rt_next rt)" "x < length (psys_pos s)" "in_cell (psys_pos s ! x) (rt_pool rt ! i)"
    and "\<And>j. j \<in> I \<Longrightarrow> x \<notin> set (L j)"
  shows "\<exists>rt'. add x i rt = Inr rt' \<and> same_skel rt rt' \<and> lists_ok s rt' I (L(i := x # L i))
    \<and> rt_next rt' = (rt_next rt)[x := cell_head_par (rt_pool rt ! i)]
    \<and> (\<forall>j. j \<noteq> i \<longrightarrow> rt_pool rt' ! j = rt_pool rt ! j)"
proof -
  let ?c = "rt_pool rt ! i"
  have i: "i < length (rt_pool rt)" "list_ok s rt i (L i)" using assms(1,2) by (auto simp: lists_ok_def)
  define rt' where "rt' = rt\<lparr>rt_next := (rt_next rt)[x := cell_head_par ?c],
       rt_pool := (rt_pool rt)[i := ?c\<lparr>cell_head_par := Some x, cell_npar := cell_npar ?c + 1\<rparr>]\<rparr>"
  have run: "add x i rt = Inr rt'" using i(1) assms(3,4) by (simp add: add_def cell_at_def rt'_def)
  have skel: "same_skel rt rt'" using i(1) by (auto simp: same_skel_def same_box_def rt'_def nth_list_update)
  have ch: "chain (rt_next rt') h (L j) = chain (rt_next rt) h (L j)" if "j \<in> I" for h j
    using assms(7) [OF that] by (simp add: rt'_def)
  have "list_ok s rt' j ((L(i := x # L i)) j)" if j: "j \<in> I" for j
  proof (cases "j = i")
    case True
    then show ?thesis
      using i assms(3-6) assms(7) [OF assms(2)] ch [OF assms(2)]
      by (simp add: list_ok_def rt'_def in_cell_def)
  next
    case False
    have "list_ok s rt j (L j)" using assms(1) j by (simp add: lists_ok_def)
    moreover have "rt_pool rt' ! j = rt_pool rt ! j" using False by (simp add: rt'_def)
    ultimately have "list_ok s rt' j (L j)" by (rule list_ok_frame) (simp only: ch [OF j])
    then show ?thesis using False by simp
  qed
  moreover have "j < length (rt_pool rt')" if "j \<in> I" for j
    using assms(1) that by (simp add: lists_ok_def rt'_def)
  moreover have "set ((L(i := x # L i)) j) \<inter> set ((L(i := x # L i)) l) = {}" if "j \<in> I" "l \<in> I" "j \<noteq> l" for j l
  proof -
    have "set (L j) \<inter> set (L l) = {}" using assms(1) that by (simp add: lists_ok_def)
    then show ?thesis using assms(7) [OF that(1)] assms(7) [OF that(2)] that(3) by (cases "j = i"; cases "l = i") simp_all
  qed
  ultimately have l: "lists_ok s rt' I (L(i := x # L i))" unfolding lists_ok_def by blast
  have p: "\<forall>j. j \<noteq> i \<longrightarrow> rt_pool rt' ! j = rt_pool rt ! j" by (simp add: rt'_def)
  have n: "rt_next rt' = (rt_next rt)[x := cell_head_par (rt_pool rt ! i)]" by (simp add: rt'_def)
  show ?thesis by (intro exI [of _ rt'] conjI run skel l n p)
qed

section \<open>Splitting a leaf\<close>

lemma inside_same_skel: "same_skel rt rt' \<Longrightarrow> inside rt' pos i = inside rt pos i"
  using same_skel_in_cell [of rt rt' i pos] by (auto simp: inside_def in_cell_def same_skel_def)

lemma distribute_none:
  "(\<And>i. i \<in> set is \<Longrightarrow> inside rt pos (i + c) = Inr False) \<Longrightarrow> distribute pos c x is rt = Inr rt"
  by (induction "is") auto

lemma distribute_add:
  assumes "distinct is" and "k \<in> set is" and "\<And>i. i \<in> set is \<Longrightarrow> inside rt pos (i + c) = Inr (i = k)"
    and "add x (k + c) rt = Inr rt'" "same_skel rt rt'"
  shows "distribute pos c x is rt = Inr rt'"
  using assms(1-3)
proof (induction "is")
  case (Cons i "is")
  show ?case
  proof (cases "i = k")
    case True
    have "distribute pos c x is rt' = Inr rt'"
      using Cons.prems True inside_same_skel [OF assms(5)] by (intro distribute_none) auto
    then show ?thesis using True Cons.prems(3) [of i] assms(4) by simp
  next
    case False
    then show ?thesis using Cons by simp
  qed
qed simp

definition shares :: "psystem \<Rightarrow> cell \<Rightarrow> nat \<Rightarrow> nat list \<Rightarrow> nat list" where
  "shares s cl k xs = rev (filter (\<lambda>p. octant (psys_pos s ! p) cl = k) xs)"

definition with_shares :: "psystem \<Rightarrow> cell \<Rightarrow> nat \<Rightarrow> nat list \<Rightarrow> (nat \<Rightarrow> nat list) \<Rightarrow> nat \<Rightarrow> nat list" where
  "with_shares s cl c xs L j = (if c \<le> j \<and> j < c + 8 then shares s cl (j - c) xs @ L j else L j)"

lemma split_loop_result:
  assumes cl: "children_ok (rt_pool rt) i c" "\<And>k. k < 8 \<Longrightarrow> cell_first_child (rt_pool rt ! (c + k)) = None"
    and I: "{c..<c + 8} \<subseteq> I" "i \<notin> I"
  shows "lists_ok s rt I L \<Longrightarrow> chain (rt_next rt) h xs \<Longrightarrow> distinct xs \<Longrightarrow> length xs \<le> fuel \<Longrightarrow>
    (\<And>x. x \<in> set xs \<Longrightarrow> x < length (psys_pos s) \<and> in_cell (psys_pos s ! x) (rt_pool rt ! i)) \<Longrightarrow>
    (\<And>x j. x \<in> set xs \<Longrightarrow> j \<in> I \<Longrightarrow> x \<notin> set (L j)) \<Longrightarrow>
    \<exists>rt'. split_loop fuel s c h rt = Inr rt' \<and> same_skel rt rt' \<and> rt_pool rt' ! i = rt_pool rt ! i
      \<and> lists_ok s rt' I (with_shares s (rt_pool rt ! i) c xs L)"
  using cl
proof (induction xs arbitrary: fuel h rt L)
  case Nil
  then show ?case by (simp add: with_shares_def shares_def [abs_def] cong: if_cong)
next
  case (Cons x xs)
  let ?pos = "psys_pos s ! x" and ?cl = "rt_pool rt ! i"
  let ?k = "octant ?pos ?cl"
  have x: "x < length (psys_pos s)" "in_cell ?pos ?cl" "x < length (rt_next rt)" "h = Some x"
    "chain (rt_next rt) (rt_next rt ! x) xs"
    using Cons.prems(2,5) by auto
  obtain f where f: "fuel = Suc f" using Cons.prems(4) by (cases fuel) auto
  have k: "?k < 8" by (rule child_octant_less)
  have ci: "in_cell ?pos (rt_pool rt ! (c + j)) \<longleftrightarrow> j = ?k" if "j < 8" for j
    using child_in_cell_iff [OF Cons.prems(7) x(2) that] .
  have kI: "c + ?k \<in> I" using I(1) k by auto
  have new: "x \<notin> set (L j)" if "j \<in> I" for j using Cons.prems(6) [of x j] that by simp
  have ink: "in_cell ?pos (rt_pool rt ! (c + ?k))" using ci [OF k] by simp
  obtain rt' where rt': "add x (c + ?k) rt = Inr rt'" "same_skel rt rt'" "lists_ok s rt' I (L(c + ?k := x # L (c + ?k)))"
      "rt_next rt' = (rt_next rt)[x := cell_head_par (rt_pool rt ! (c + ?k))]"
      "\<And>j. j \<noteq> c + ?k \<Longrightarrow> rt_pool rt' ! j = rt_pool rt ! j"
    using add_result [OF Cons.prems(1) kI Cons.prems(8) [OF k] x(3,1) ink new] by blast
  have len: "c + 8 \<le> length (rt_pool rt)" using Cons.prems(7) by (simp add: children_ok_def)
  have d: "distribute ?pos c x [0..<8] rt = Inr rt'"
    by (rule distribute_add [of _ ?k]) (use rt' k ci len in \<open>auto simp: add.commute\<close>)
  have ieq: "rt_pool rt' ! i = ?cl" using rt'(5) kI I(2) by metis
  have ok': "children_ok (rt_pool rt') i c"
    using Cons.prems(7) rt'(2) len unfolding children_ok_def ieq by (auto simp: same_skel_def same_box_def)
  have leaf': "cell_first_child (rt_pool rt' ! (c + j)) = None" if "j < 8" for j
    using Cons.prems(8) [OF that] rt'(2) len that by (simp add: same_skel_def)
  have ch': "chain (rt_next rt') (rt_next rt ! x) xs" using x(5) Cons.prems(3) by (simp add: rt'(4))
  have new': "y \<notin> set ((L(c + ?k := x # L (c + ?k))) j)" if "y \<in> set xs" "j \<in> I" for y j
    using Cons.prems(3) Cons.prems(6) [of y j] that by auto
  have old': "y < length (psys_pos s) \<and> in_cell (psys_pos s ! y) (rt_pool rt' ! i)" if "y \<in> set xs" for y
    using Cons.prems(5) [of y] that unfolding ieq by simp
  have "distinct xs" "length xs \<le> f" using Cons.prems(3,4) f by simp_all
  from Cons.IH [OF rt'(3) ch' this old' new' ok' leaf']
  obtain rt2 where rt2: "split_loop f s c (rt_next rt ! x) rt' = Inr rt2" "same_skel rt' rt2"
      "rt_pool rt2 ! i = ?cl" "lists_ok s rt2 I (with_shares s ?cl c xs (L(c + ?k := x # L (c + ?k))))"
    unfolding ieq by blast
  have "with_shares s ?cl c xs (L(c + ?k := x # L (c + ?k))) = with_shares s ?cl c (x # xs) L"
    using k by (auto simp: with_shares_def shares_def fun_eq_iff)
  moreover have "split_loop fuel s c h rt = Inr rt2"
    using x(1,3,4) d rt2(1) by (simp add: f pos_at_def)
  ultimately show ?case
    using rt2(3,4) same_skel_trans [OF rt'(2) rt2(2)] by auto
qed

lemma child_cell_same_box: "same_box c d \<Longrightarrow> child_cell i c = child_cell i d"
  by (simp add: child_cell_def same_box_def fun_eq_iff)

lemma child_cell_fields [simp]:
  "cell_head_par (child_cell i c k) = None" "cell_first_child (child_cell i c k) = None"
  "cell_parent (child_cell i c k) = Some i" "cell_npar (child_cell i c k) = 0"
  by (simp_all add: child_cell_def Let_def split: prod.splits)

definition split_pool :: "cell list \<Rightarrow> nat \<Rightarrow> cell list" where
  "split_pool pool i = pool[i := (pool ! i)\<lparr>cell_first_child := Some (length pool), cell_npar := 0\<rparr>]
     @ map (child_cell i (pool ! i)) [0..<8]"

lemma split_pool_nth:
  assumes "i < length pool"
  shows "length (split_pool pool i) = length pool + 8"
    and "j < length pool \<Longrightarrow> j \<noteq> i \<Longrightarrow> split_pool pool i ! j = pool ! j"
    and "split_pool pool i ! i = (pool ! i)\<lparr>cell_first_child := Some (length pool), cell_npar := 0\<rparr>"
    and "k < 8 \<Longrightarrow> split_pool pool i ! (length pool + k) = child_cell i (pool ! i) k"
  using assms by (simp_all add: split_pool_def nth_append del: upt_Suc)

lemma split_pool_old:
  assumes "i < length pool" "j < length pool"
  shows "same_box (split_pool pool i ! j) (pool ! j)" "cell_parent (split_pool pool i ! j) = cell_parent (pool ! j)"
    "j \<noteq> i \<Longrightarrow> cell_first_child (split_pool pool i ! j) = cell_first_child (pool ! j)"
  using split_pool_nth(2,3) [OF assms(1)] assms(2) by (cases "j = i"; simp add: same_box_def)+

lemma children_ok_split_pool:
  assumes "children_ok pool j c" and "i < length pool" and "j < length pool"
  shows "children_ok (split_pool pool i) j c"
proof -
  have "child_cell j (split_pool pool i ! j) = child_cell j (pool ! j)"
    by (rule child_cell_same_box [OF split_pool_old(1) [OF assms(2,3)]])
  moreover have "same_box (split_pool pool i ! (c + k)) (pool ! (c + k))"
    "cell_parent (split_pool pool i ! (c + k)) = cell_parent (pool ! (c + k))" if "k < 8" for k
    using split_pool_old(1,2) [OF assms(2), of "c + k"] assms(1) that by (simp_all add: children_ok_def)
  ultimately show ?thesis
    using assms(1) split_pool_nth(1) [OF assms(2)] unfolding children_ok_def by (auto simp: same_box_def)
qed

lemma children_ok_new:
  assumes "i < length pool"
  shows "children_ok (split_pool pool i) i (length pool)"
proof -
  have "child_cell i (split_pool pool i ! i) = child_cell i (pool ! i)"
    by (rule child_cell_same_box [OF split_pool_old(1) [OF assms assms]])
  then show ?thesis
    using assms split_pool_nth(1,4) [OF assms] by (simp add: children_ok_def same_box_def)
qed

lemma skel_ok_split_pool:
  assumes "skel_ok pool" and i: "i < length pool" and leaf: "cell_first_child (pool ! i) = None"
  shows "skel_ok (split_pool pool i)"
proof -
  let ?p = "split_pool pool i" and ?n = "length pool"
  note ok = skel_okD [OF assms(1)] and n = split_pool_nth [OF i] and old = split_pool_old [OF i]
  have new: "\<exists>k < 8. j = ?n + k" if "j < length ?p" "\<not> j < ?n" for j
    using that n(1) by (intro exI [of _ "j - ?n"]) auto
  show ?thesis
    unfolding skel_ok_def
  proof (intro conjI allI impI)
    show "?p \<noteq> []" using n(1) by auto
    show "cell_parent (?p ! 0) = None" using old(2) [OF ok(1)] ok(2) by simp
    fix j assume j: "j < length ?p"
    show "box_ok (?p ! j)"
    proof (cases "j < ?n")
      case True
      then show ?thesis using ok(3) old(1) [OF True] by (simp add: box_ok_def same_box_def)
    next
      case False
      then show ?thesis using new [OF j] n(4) box_ok_child [OF ok(3) [OF i]] by auto
    qed
    show "children_ok ?p j c" if c: "cell_first_child (?p ! j) = Some c" for c
    proof (cases "j < ?n")
      case True
      then show ?thesis
        using c n(3) children_ok_new [OF i] children_ok_split_pool [OF ok(4) [OF True] i True] old(3) [OF True]
        by (cases "j = i") simp_all
    next
      case False
      then show ?thesis using new [OF j] n(4) c by auto
    qed
    assume j0: "0 < j"
    show "\<exists>p c. p < j \<and> cell_parent (?p ! j) = Some p \<and> cell_first_child (?p ! p) = Some c \<and> c \<le> j \<and> j < c + 8"
    proof (cases "j < ?n")
      case True
      obtain p c where p: "p < j" "cell_parent (pool ! j) = Some p" "cell_first_child (pool ! p) = Some c"
          "c \<le> j" "j < c + 8"
        using ok(5) [OF True j0] by blast
      have "p < ?n" "p \<noteq> i" using p(1,3) True leaf by auto
      then show ?thesis using p old(2) [OF True] old(3) [of p] by (intro exI [of _ p] exI [of _ c]) simp
    next
      case False
      then obtain k where k: "k < 8" "j = ?n + k" using new [OF j] by blast
      then show ?thesis using i n(3,4) by (intro exI [of _ i] exI [of _ ?n]) simp
    qed
  qed
qed

definition members :: "raytrace \<Rightarrow> (nat \<Rightarrow> nat list) \<Rightarrow> nat set" where
  "members rt L = (\<Union>i < length (rt_pool rt). set (L i))"

definition tree_ok :: "psystem \<Rightarrow> raytrace \<Rightarrow> (nat \<Rightarrow> nat list) \<Rightarrow> bool" where
  "tree_ok s rt L \<longleftrightarrow> skel_ok (rt_pool rt) \<and> lists_ok s rt {..<length (rt_pool rt)} L"

lemma tree_ok_list: "tree_ok s rt L \<Longrightarrow> i < length (rt_pool rt) \<Longrightarrow> list_ok s rt i (L i)"
  by (simp add: tree_ok_def lists_ok_def)

lemma lists_ok_subset: "lists_ok s rt I L \<Longrightarrow> J \<subseteq> I \<Longrightarrow> lists_ok s rt J L"
  unfolding lists_ok_def by blast

text \<open>The state between the allocation of the children and the redistribution.\<close>

lemma lists_ok_split_pool:
  assumes t: "tree_ok s rt L" and i: "i < length (rt_pool rt)"
    and "rt_pool rt' = split_pool (rt_pool rt) i" "rt_next rt' = rt_next rt"
  shows "lists_ok s rt' ({..<length (rt_pool rt) + 8} - {i}) (\<lambda>j. if j < length (rt_pool rt) then L j else [])"
proof -
  let ?n = "length (rt_pool rt)"
  note n = split_pool_nth [OF i]
  have "list_ok s rt' j (if j < ?n then L j else [])" if "j < ?n + 8" "j \<noteq> i" for j
  proof (cases "j < ?n")
    case True
    have "rt_pool rt' ! j = rt_pool rt ! j" using n(2) [OF True that(2)] assms(3) by simp
    then have "list_ok s rt' j (L j)" by (rule list_ok_frame [OF tree_ok_list [OF t True]]) (simp only: assms(4))
    then show ?thesis using True by simp
  next
    case False
    define k where "k = j - ?n"
    have "k < 8" "j = ?n + k" using False that(1) by (simp_all add: k_def)
    then show ?thesis using n(4) assms(3) by (simp add: list_ok_def)
  qed
  moreover have "length (rt_pool rt') = ?n + 8" using n(1) assms(3) by simp
  moreover have "set (L j) \<inter> set (L l) = {}" if "j < ?n" "l < ?n" "j \<noteq> l" for j l
    using t that by (simp add: tree_ok_def lists_ok_def)
  moreover have "set (if j < ?n then L j else []) \<inter> set (if l < ?n then L l else []) = {}" if "j \<noteq> l" for j l
    using calculation(3) [of j l] that by (cases "j < ?n"; cases "l < ?n") simp_all
  ultimately show ?thesis unfolding lists_ok_def by simp
qed

lemma set_with_shares:
  assumes "\<And>j. c \<le> j \<Longrightarrow> L j = []"
  shows "(\<Union>j < c + 8. set (with_shares s cl c xs L j)) = (\<Union>j < c. set (L j)) \<union> set xs"
proof -
  have u: "{..<c + 8} = {..<c} \<union> {c..<c + 8}" by auto
  have old: "(\<Union>j < c. set (with_shares s cl c xs L j)) = (\<Union>j < c. set (L j))" by (simp add: with_shares_def)
  have "x \<in> (\<Union>j \<in> {c..<c + 8}. set (with_shares s cl c xs L j))" if "x \<in> set xs" for x
    using that child_octant_less [of "psys_pos s ! x" cl]
    by (intro UN_I [of "c + octant (psys_pos s ! x) cl"]) (simp_all add: with_shares_def shares_def)
  moreover have "(\<Union>j \<in> {c..<c + 8}. set (with_shares s cl c xs L j)) \<subseteq> set xs"
    using assms by (auto simp: with_shares_def shares_def)
  ultimately have "(\<Union>j \<in> {c..<c + 8}. set (with_shares s cl c xs L j)) = set xs" by auto
  then show ?thesis unfolding u UN_Un old by simp
qed

lemma split_cell_result:
  assumes t: "tree_ok s rt L" and i: "i < length (rt_pool rt)" and leaf: "cell_first_child (rt_pool rt ! i) = None"
  shows "(split_cell s i rt = Inr None \<and> rt_pool_size rt \<le> length (rt_pool rt) + 8)
    \<or> (\<exists>rt' L'. split_cell s i rt = Inr (Some rt') \<and> tree_ok s rt' L' \<and> members rt' L' = members rt L
        \<and> (\<forall>j. length (L' j) \<le> (if j < length (rt_pool rt) then length (L j) else length (L i)))
        \<and> (\<forall>pos. \<forall>j < length (rt_pool rt). in_cell pos (rt_pool rt' ! j) = in_cell pos (rt_pool rt ! j)))"
proof (cases "length (rt_pool rt) + 8 \<ge> rt_pool_size rt")
  case False
  let ?n = "length (rt_pool rt)" and ?cl = "rt_pool rt ! i"
  define rt1 where "rt1 = rt\<lparr>rt_pool := split_pool (rt_pool rt) i\<rparr>"
  define L1 where "L1 = (\<lambda>j. if j < ?n then L j else [])"
  let ?I = "{..<?n + 8} - {i}"
  note n = split_pool_nth [OF i] and li = tree_ok_list [OF t i]
  have pool1: "rt_pool rt1 = split_pool (rt_pool rt) i" "rt_next rt1 = rt_next rt" by (simp_all add: rt1_def)
  have cell1: "in_cell pos (rt_pool rt1 ! j) = in_cell pos (rt_pool rt ! j)" if "j < ?n" for pos j
    using split_pool_old(1) [OF i that] in_cell_same_box by (simp add: pool1)
  have oct: "octant pos (rt_pool rt1 ! i) = octant pos ?cl" for pos
    using split_pool_old(1) [OF i i] by (simp add: pool1 octant_def same_box_def)
  have l1: "lists_ok s rt1 ?I L1"
    unfolding L1_def by (rule lists_ok_split_pool [OF t i pool1])
  have ch: "children_ok (rt_pool rt1) i ?n" using children_ok_new [OF i] by (simp add: pool1)
  have leaf1: "cell_first_child (rt_pool rt1 ! (?n + k)) = None" if "k < 8" for k using n(4) [OF that] by (simp add: pool1)
  have chain1: "chain (rt_next rt1) (cell_head_par ?cl) (L i)" "distinct (L i)" "length (L i) \<le> length (rt_next rt)"
    using li chain_length by (auto simp: list_ok_def pool1)
  have in1: "x < length (psys_pos s) \<and> in_cell (psys_pos s ! x) (rt_pool rt1 ! i)" if "x \<in> set (L i)" for x
    using li that cell1 [OF i] by (simp add: list_ok_def)
  have new1: "x \<notin> set (L1 j)" if "x \<in> set (L i)" "j \<in> ?I" for x j
  proof (cases "j < ?n")
    case True
    then have "set (L i) \<inter> set (L j) = {}" using t i that(2) by (simp add: tree_ok_def lists_ok_def)
    then show ?thesis using that(1) True by (auto simp: L1_def)
  qed (simp add: L1_def)
  have "{?n..<?n + 8} \<subseteq> ?I" "i \<notin> ?I" using i by auto
  from split_loop_result [OF ch leaf1 this l1 chain1(1,2,3) in1 new1]
  obtain rt2 where rt2: "split_loop (length (rt_next rt)) s ?n (cell_head_par ?cl) rt1 = Inr rt2" "same_skel rt1 rt2"
      "rt_pool rt2 ! i = rt_pool rt1 ! i" "lists_ok s rt2 ?I (with_shares s (rt_pool rt1 ! i) ?n (L i) L1)"
    by blast
  define L2 where "L2 = with_shares s (rt_pool rt1 ! i) ?n (L i) L1"
  define rt3 where "rt3 = rt2\<lparr>rt_pool := (rt_pool rt2)[i := (rt_pool rt2 ! i)\<lparr>cell_head_par := None\<rparr>]\<rparr>"
  define L3 where "L3 = L2(i := [])"
  have len2: "length (rt_pool rt2) = ?n + 8" using rt2(2) n(1) by (simp add: same_skel_def pool1)
  have s23: "same_skel rt2 rt3" using len2 i by (auto simp: same_skel_def rt3_def same_box_def nth_list_update)
  have s13: "same_skel rt1 rt3" using same_skel_trans [OF rt2(2) s23] .
  have "skel_ok (rt_pool rt3)"
    using same_skel_skel_ok [OF s13] skel_ok_split_pool [OF _ i leaf] t by (simp add: pool1 tree_ok_def)
  moreover have "lists_ok s rt3 {..<length (rt_pool rt3)} L3"
  proof -
    have "list_ok s rt3 j (L3 j)" if "j < ?n + 8" for j
    proof (cases "j = i")
      case True
      then show ?thesis using len2 i rt2(3) n(3) by (simp add: list_ok_def L3_def rt3_def pool1)
    next
      case False
      then have "list_ok s rt2 j (L2 j)" using rt2(4) that by (simp add: lists_ok_def L2_def)
      moreover have "rt_pool rt3 ! j = rt_pool rt2 ! j" "rt_next rt3 = rt_next rt2" using False by (simp_all add: rt3_def)
      ultimately have "list_ok s rt3 j (L2 j)" by (intro list_ok_frame [of s rt2 j "L2 j" rt3]) (simp_all only:)
      then show ?thesis using False by (simp add: L3_def)
    qed
    moreover have "set (L3 j) \<inter> set (L3 l) = {}" if "j < ?n + 8" "l < ?n + 8" "j \<noteq> l" for j l
      using rt2(4) that unfolding lists_ok_def L2_def [symmetric] by (simp add: L3_def)
    moreover have "length (rt_pool rt3) = ?n + 8" using len2 by (simp add: rt3_def)
    ultimately show ?thesis unfolding lists_ok_def by auto
  qed
  moreover have "members rt3 L3 = members rt L"
  proof -
    have "L2 i = L1 i" using i by (simp add: L2_def with_shares_def)
    then have "set (L2 i) \<subseteq> set (L i)" using i by (simp add: L1_def)
    moreover have "set (L i) \<subseteq> (\<Union>j \<in> {..<?n + 8} - {i}. set (L2 j))"
    proof
      fix x assume x: "x \<in> set (L i)"
      let ?j = "?n + octant (psys_pos s ! x) (rt_pool rt1 ! i)"
      have "x \<in> set (L2 ?j)" using x child_octant_less by (simp add: L2_def with_shares_def shares_def)
      moreover have "?j \<in> {..<?n + 8} - {i}" using child_octant_less [of "psys_pos s ! x" "rt_pool rt1 ! i"] i by simp
      ultimately show "x \<in> (\<Union>j \<in> {..<?n + 8} - {i}. set (L2 j))" by blast
    qed
    ultimately have "set (L2 i) \<subseteq> (\<Union>j \<in> {..<?n + 8} - {i}. set (L2 j))" by blast
    moreover have "{..<?n + 8} = insert i ({..<?n + 8} - {i})" using i by auto
    ultimately have "(\<Union>j < ?n + 8. set (L2 j)) = (\<Union>j \<in> {..<?n + 8} - {i}. set (L2 j))" by blast
    moreover have "(\<Union>j < ?n + 8. set (L3 j)) = (\<Union>j \<in> {..<?n + 8} - {i}. set (L2 j))"
      by (auto simp: L3_def split: if_splits)
    ultimately have "(\<Union>j < ?n + 8. set (L3 j)) = (\<Union>j < ?n + 8. set (L2 j))" by simp
    also have "\<dots> = (\<Union>j < ?n. set (L1 j)) \<union> set (L i)"
      unfolding L2_def by (rule set_with_shares) (simp add: L1_def)
    also have "\<dots> = (\<Union>j < ?n. set (L j))" using i by (auto simp: L1_def)
    finally show ?thesis using len2 by (simp add: members_def rt3_def)
  qed
  moreover have "length (L3 j) \<le> (if j < ?n then length (L j) else length (L i))" for j
    by (simp add: L3_def L2_def L1_def with_shares_def shares_def)
  moreover have "in_cell pos (rt_pool rt3 ! j) = in_cell pos (rt_pool rt ! j)" if "j < ?n" for pos j
    using same_skel_in_cell [OF s13, of j pos] cell1 [OF that] that n(1) by (simp add: pool1)
  moreover have "split_cell s i rt = Inr (Some rt3)"
    using False i rt2(1) unfolding split_cell_def Let_def rt3_def
    by (simp add: cell_at_def rt1_def split_pool_def)
  ultimately show ?thesis unfolding tree_ok_def by blast
qed (simp add: split_cell_def)

section \<open>Building the tree\<close>

definition small :: "nat \<Rightarrow> raytrace \<Rightarrow> (nat \<Rightarrow> nat list) \<Rightarrow> bool" where
  "small ppc rt L \<longleftrightarrow> (\<forall>i < length (rt_pool rt). length (L i) \<le> ppc)"

lemma settle_result:
  "tree_ok s rt L \<Longrightarrow> small ppc rt L \<Longrightarrow> i < length (rt_pool rt) \<Longrightarrow>
    cell_first_child (rt_pool rt ! i) = None \<Longrightarrow> in_cell pos (rt_pool rt ! i) \<Longrightarrow>
   settle ppc s pos i rt = Inr None
   \<or> (\<exists>k rt' L'. settle ppc s pos i rt = Inr (Some (k, rt')) \<and> tree_ok s rt' L' \<and> small ppc rt' L'
        \<and> members rt' L' = members rt L \<and> k < length (rt_pool rt') \<and> cell_first_child (rt_pool rt' ! k) = None
        \<and> in_cell pos (rt_pool rt' ! k) \<and> length (L' k) < ppc
        \<and> rt_pool_size rt' = rt_pool_size rt \<and> length (rt_next rt') = length (rt_next rt)
        \<and> (\<forall>p. in_cell p (rt_pool rt' ! 0) = in_cell p (rt_pool rt ! 0)))"
proof (induction ppc s pos i rt arbitrary: L rule: settle.induct)
  case (1 ppc s pos i rt)
  have npar: "cell_npar (rt_pool rt ! i) = length (L i)"
    using tree_ok_list [OF "1.prems"(1,3)] by (simp add: list_ok_def)
  have full: "full ppc rt i = Inr (ppc \<le> length (L i))" using "1.prems"(3) npar by (simp add: full_def)
  show ?case
  proof (cases "ppc \<le> length (L i)")
    case False
    then have "settle ppc s pos i rt = Inr (Some (i, rt))" using full by (subst settle.simps) simp
    then show ?thesis using False "1.prems" by (intro disjI2 exI [of _ i] exI [of _ rt] exI [of _ L]) simp
  next
    case fl: True
    consider "split_cell s i rt = Inr None"
      | rt' L' where "split_cell s i rt = Inr (Some rt')" "tree_ok s rt' L'" "members rt' L' = members rt L"
        "\<forall>j. length (L' j) \<le> (if j < length (rt_pool rt) then length (L j) else length (L i))"
        "\<forall>pos. \<forall>j < length (rt_pool rt). in_cell pos (rt_pool rt' ! j) = in_cell pos (rt_pool rt ! j)"
      using split_cell_result [OF "1.prems"(1,3,4)] by blast
    then show ?thesis
    proof cases
      case 1
      then have "settle ppc s pos i rt = Inr None" using full fl by (subst settle.simps) simp
      then show ?thesis ..
    next
      case (2 rt' L')
      note shape = split_cell_shape [OF 2(1)]
      have sk: "skel_ok (rt_pool rt')" using 2(2) by (simp add: tree_ok_def)
      have old: "in_cell p (rt_pool rt' ! j) = in_cell p (rt_pool rt ! j)" if "j < length (rt_pool rt)" for p j
        using 2(5) that by blast
      have "in_cell pos (rt_pool rt' ! i)" "i < length (rt_pool rt')" using old "1.prems"(3,5) shape by simp_all
      then obtain j where j: "j < length (rt_pool rt')" "find_leaf rt' pos i = Inr j" "in_cell pos (rt_pool rt' ! j)"
          "cell_first_child (rt_pool rt' ! j) = None"
        using find_leaf_result [OF sk] by blast
      have sm: "small ppc rt' L'"
        unfolding small_def
      proof (intro allI impI)
        fix l assume "l < length (rt_pool rt')"
        have "length (L' l) \<le> (if l < length (rt_pool rt) then length (L l) else length (L i))" using 2(4) by blast
        also have "\<dots> \<le> ppc" using "1.prems"(2,3) by (simp add: small_def)
        finally show "length (L' l) \<le> ppc" .
      qed
      have run: "settle ppc s pos i rt = settle ppc s pos j rt'" using full fl 2(1) j(2) by (subst settle.simps) simp
      have root: "in_cell p (rt_pool rt' ! 0) = in_cell p (rt_pool rt ! 0)" for p
        using old [of 0] "1.prems"(3) by (metis gr_implies_not0 neq0_conv)
      have "settle ppc s pos j rt' = Inr None
        \<or> (\<exists>k rt'' L''. settle ppc s pos j rt' = Inr (Some (k, rt'')) \<and> tree_ok s rt'' L'' \<and> small ppc rt'' L''
          \<and> members rt'' L'' = members rt' L' \<and> k < length (rt_pool rt'') \<and> cell_first_child (rt_pool rt'' ! k) = None
          \<and> in_cell pos (rt_pool rt'' ! k) \<and> length (L'' k) < ppc
          \<and> rt_pool_size rt'' = rt_pool_size rt' \<and> length (rt_next rt'') = length (rt_next rt')
          \<and> (\<forall>p. in_cell p (rt_pool rt'' ! 0) = in_cell p (rt_pool rt' ! 0)))"
        by (rule "1.IH" [OF full _ 2(1) refl j(2) 2(2) sm j(1,4,3)]) (use fl in simp)
      then show ?thesis unfolding run 2(3) root using shape by simp
    qed
  qed
qed

text \<open>What holds of the tree when the particles of \<open>done\<close> were handled.\<close>

definition built :: "nat \<Rightarrow> psystem \<Rightarrow> nat set \<Rightarrow> raytrace \<Rightarrow> bool" where
  "built ppc s done rt \<longleftrightarrow> (\<exists>L. tree_ok s rt L \<and> small ppc rt L
     \<and> members rt L = {p \<in> done. in_cell (psys_pos s ! p) (rt_pool rt ! 0)})
     \<and> psys_npar s \<le> length (rt_next rt)"

lemma insert_all_result:
  assumes "psys_npar s \<le> length (psys_pos s)"
  shows "built ppc s D rt \<Longrightarrow> icell < length (rt_pool rt) \<Longrightarrow> distinct ps \<Longrightarrow> set ps \<inter> D = {} \<Longrightarrow>
     (\<And>p. p \<in> set ps \<Longrightarrow> p < psys_npar s) \<Longrightarrow> (\<And>p. in_cell p (rt_pool rt ! 0) \<longleftrightarrow> in_cell p rcell) \<Longrightarrow>
   (\<exists>p \<in> set ps. insert_all ppc s ps icell skipped rt = Inr (Pool_full p))
   \<or> (\<exists>rt'. insert_all ppc s ps icell skipped rt = Inr (Built rt'
            (skipped + length (filter (\<lambda>p. \<not> in_cell (psys_pos s ! p) rcell) ps)))
        \<and> built ppc s (D \<union> set ps) rt' \<and> (\<forall>p. in_cell p (rt_pool rt' ! 0) \<longleftrightarrow> in_cell p rcell))"
proof (induction ps arbitrary: D rt icell skipped)
  case Nil
  then show ?case by auto
next
  case (Cons x ps)
  let ?pos = "psys_pos s ! x"
  obtain L where L: "tree_ok s rt L" "small ppc rt L" "psys_npar s \<le> length (rt_next rt)"
      "members rt L = {p \<in> D. in_cell (psys_pos s ! p) (rt_pool rt ! 0)}"
    using Cons.prems(1) by (auto simp: built_def)
  have x: "x < psys_npar s" "x \<notin> D" using Cons.prems(4,5) by auto
  have pos: "pos_at s x = Inr ?pos" using x(1) assms by (simp add: pos_at_def)
  have sk: "skel_ok (rt_pool rt)" using L(1) by (simp add: tree_ok_def)
  consider "climb (Suc (length (rt_pool rt))) rt ?pos icell = Inr None" "\<not> in_cell ?pos (rt_pool rt ! 0)"
    | j where "climb (Suc (length (rt_pool rt))) rt ?pos icell = Inr (Some j)" "j < length (rt_pool rt)"
        "in_cell ?pos (rt_pool rt ! j)" "in_cell ?pos (rt_pool rt ! 0)"
    using climb_result [OF sk Cons.prems(2), of "Suc (length (rt_pool rt))" ?pos] Cons.prems(2) by force
  then show ?case
  proof cases
    case 1
    have "members rt L = {p \<in> insert x D. in_cell (psys_pos s ! p) (rt_pool rt ! 0)}" using L(4) 1(2) by auto
    then have b: "built ppc s (insert x D) rt" using L unfolding built_def by blast
    have nr: "\<not> in_cell ?pos rcell" using 1(2) Cons.prems(6) by simp
    have run: "insert_all ppc s (x # ps) icell skipped rt = insert_all ppc s ps 0 (Suc skipped) rt"
      using 1(1) pos by simp
    have "insert x D \<union> set ps = D \<union> set (x # ps)" by simp
    moreover have "set ps \<inter> insert x D = {}" "distinct ps" "0 < length (rt_pool rt)"
      using Cons.prems(3,4) skel_okD(1) [OF sk] by auto
    ultimately show ?thesis
      using Cons.IH [OF b, of 0 "Suc skipped"] Cons.prems(5,6) nr unfolding run by (auto simp del: insert_all.simps)
  next
    case (2 j)
    obtain l where l: "l < length (rt_pool rt)" "find_leaf rt ?pos j = Inr l" "in_cell ?pos (rt_pool rt ! l)"
        "cell_first_child (rt_pool rt ! l) = None"
      using find_leaf_result [OF sk 2(2,3)] by blast
    consider "settle ppc s ?pos l rt = Inr None"
      | k rt' L' where "settle ppc s ?pos l rt = Inr (Some (k, rt'))" "tree_ok s rt' L'" "small ppc rt' L'"
        "members rt' L' = members rt L" "k < length (rt_pool rt')" "cell_first_child (rt_pool rt' ! k) = None"
        "in_cell ?pos (rt_pool rt' ! k)" "length (L' k) < ppc" "length (rt_next rt') = length (rt_next rt)"
        "\<forall>p. in_cell p (rt_pool rt' ! 0) = in_cell p (rt_pool rt ! 0)"
      using settle_result [OF L(1,2) l(1,4,3)] by blast
    then show ?thesis
    proof cases
      case 1
      then have "insert_all ppc s (x # ps) icell skipped rt = Inr (Pool_full x)" using 2(1) pos l(2) by simp
      then show ?thesis by (simp del: insert_all.simps)
    next
      case s: (2 k rt' L')
      have lists: "lists_ok s rt' {..<length (rt_pool rt')} L'" using s(2) by (simp add: tree_ok_def)
      have nx: "x < length (rt_next rt')" "x < length (psys_pos s)" using s(9) L(3) x(1) assms by auto
      have "x \<notin> members rt' L'" using s(4) L(4) x(2) by simp
      then have new: "x \<notin> set (L' i)" if "i \<in> {..<length (rt_pool rt')}" for i using that by (auto simp: members_def)
      have "k \<in> {..<length (rt_pool rt')}" using s(5) by simp
      from add_result [OF lists this s(6) nx s(7) new]
      obtain rt2 where rt2: "add x k rt' = Inr rt2" "same_skel rt' rt2"
          "lists_ok s rt2 {..<length (rt_pool rt')} (L'(k := x # L' k))"
        by blast
      have len2: "length (rt_pool rt2) = length (rt_pool rt')" "length (rt_next rt2) = length (rt_next rt')"
        using rt2(2) by (simp_all add: same_skel_def)
      have root2: "in_cell p (rt_pool rt2 ! 0) = in_cell p (rt_pool rt ! 0)" for p
      proof -
        have "0 < length (rt_pool rt')" using s(5) by linarith
        then have "in_cell p (rt_pool rt2 ! 0) = in_cell p (rt_pool rt' ! 0)" by (rule same_skel_in_cell [OF rt2(2)])
        also have "\<dots> = in_cell p (rt_pool rt ! 0)" using s(10) by blast
        finally show ?thesis .
      qed
      have "tree_ok s rt2 (L'(k := x # L' k))"
        using rt2(3) same_skel_skel_ok [OF rt2(2)] s(2) by (simp add: tree_ok_def len2)
      moreover have "small ppc rt2 (L'(k := x # L' k))" using s(3,8) by (simp add: small_def len2)
      moreover have "members rt2 (L'(k := x # L' k)) = insert x (members rt' L')"
        using s(5) by (auto simp: members_def len2 split: if_splits)
      then have "members rt2 (L'(k := x # L' k)) = {p \<in> insert x D. in_cell (psys_pos s ! p) (rt_pool rt2 ! 0)}"
        unfolding s(4) L(4) root2 using 2(4) by auto
      ultimately have b: "built ppc s (insert x D) rt2"
        using L(3) s(9) len2(2) unfolding built_def by auto
      have r: "in_cell ?pos rcell" using 2(4) Cons.prems(6) by simp
      have run: "insert_all ppc s (x # ps) icell skipped rt = insert_all ppc s ps k skipped rt2"
        using 2(1) pos l(2) s(1) rt2(1) by simp
      have "insert x D \<union> set ps = D \<union> set (x # ps)" by simp
      moreover have "set ps \<inter> insert x D = {}" "distinct ps" "k < length (rt_pool rt2)"
        using Cons.prems(3,4) s(5) len2 by auto
      ultimately show ?thesis
        using Cons.IH [OF b, of k skipped] Cons.prems(5,6) r root2 unfolding run by (auto simp del: insert_all.simps)
    qed
  qed
qed

lemma start_tree_built:
  assumes "psys_npar s \<le> length (rt_next rt)" and "0 < rt_pool_size rt" and "0 \<le> psys_boxsize s"
    and "pool_fits rt"
  shows "\<exists>rt'. start_tree s rt = Inr rt' \<and> built ppc s {} rt' \<and> rt_pool rt' = [root_cell s]"
proof -
  define rt' where "rt' = rt\<lparr>rt_next := replicate (psys_npar s) None @ drop (psys_npar s) (rt_next rt),
                   rt_pool := [root_cell s]\<rparr>"
  have "start_tree s rt = Inr rt'" using assms(1,2,4) by (simp add: start_tree_def rt'_def)
  moreover have "box_ok (root_cell s)"
    using assms(3) fl.nonneg by (simp add: box_ok_def root_cell_def)
  then have "tree_ok s rt' (\<lambda>_. [])"
    by (simp add: tree_ok_def skel_ok_def lists_ok_def list_ok_def rt'_def root_cell_def)
  then have "built ppc s {} rt'"
    using assms(1) unfolding built_def by (intro conjI exI [of _ "\<lambda>_. []"]) (simp_all add: small_def members_def rt'_def)
  ultimately show ?thesis by (auto simp: rt'_def)
qed

lemma build_try_result:
  assumes "psys_npar s \<le> length (psys_pos s)" "psys_npar s \<le> length (rt_next rt)"
    and "0 < rt_pool_size rt" "0 \<le> psys_boxsize s" "pool_fits rt"
  shows "(\<exists>p < psys_npar s. build_try ppc s rt = Inr (Pool_full p))
   \<or> (\<exists>rt'. build_try ppc s rt = Inr (Built rt'
            (length (filter (\<lambda>p. \<not> in_cell (psys_pos s ! p) (root_cell s)) [0..<psys_npar s])))
        \<and> built ppc s {..<psys_npar s} rt'
        \<and> (\<forall>p. in_cell p (rt_pool rt' ! 0) \<longleftrightarrow> in_cell p (root_cell s)))"
proof -
  obtain rt1 where 1: "start_tree s rt = Inr rt1" "built ppc s {} rt1" "rt_pool rt1 = [root_cell s]"
    using start_tree_built [OF assms(2-5)] by blast
  have "{} \<union> set [0..<psys_npar s] = {..<psys_npar s}" by auto
  with insert_all_result [OF assms(1) 1(2), of 0 "[0..<psys_npar s]" "root_cell s" 0] 1
  show ?thesis unfolding build_try_def by auto
qed

lemma build_try_no_room: "\<not> pool_fits rt \<Longrightarrow> build_try ppc s rt = Inl Out_of_bounds"
  by (simp add: build_try_def start_tree_def)

text \<open>The pool, or the one that was asked for after a pool of at least its size was used up, does not fit.\<close>

definition memory_runs_out :: "nat \<Rightarrow> psystem \<Rightarrow> raytrace \<Rightarrow> bool" where
  "memory_runs_out ppc s rt \<longleftrightarrow> \<not> pool_fits rt \<or>
     (\<exists>n p. rt_pool_size rt \<le> n \<and> build_try ppc s (rt\<lparr>rt_pool_size := n\<rparr>) = Inr (Pool_full p)
        \<and> \<not> pool_fits (rt\<lparr>rt_pool_size := next_pool_size s p n\<rparr>))"

definition build_pre :: "psystem \<Rightarrow> raytrace \<Rightarrow> bool" where
  "build_pre s rt \<longleftrightarrow> psys_npar s \<le> length (psys_pos s) \<and> psys_npar s \<le> length (rt_next rt)
     \<and> 0 < rt_pool_size rt \<and> 0 \<le> psys_boxsize s"

definition build_post :: "nat \<Rightarrow> psystem \<Rightarrow> (raytrace \<times> nat) res \<Rightarrow> bool" where
  "build_post ppc s r \<longleftrightarrow> (\<exists>rt'. r = Inr (rt', length (filter (\<lambda>p. \<not> in_cell (psys_pos s ! p) (root_cell s)) [0..<psys_npar s]))
      \<and> built ppc s {..<psys_npar s} rt' \<and> (\<forall>p. in_cell p (rt_pool rt' ! 0) \<longleftrightarrow> in_cell p (root_cell s)))"

lemma build_tree_result:
  assumes "build_pre s rt"
  shows "(build_tree ppc s rt = Some (Inl Out_of_bounds) \<and> memory_runs_out ppc s rt)
    \<or> (\<exists>r. build_tree ppc s rt = Some r \<and> build_post ppc s r)"
  using assms
proof (induction "rt_room rt - rt_pool_size rt" arbitrary: rt rule: less_induct)
  case less
  show ?case
  proof (cases "pool_fits rt")
    case False
    then show ?thesis using build_try_no_room [of rt ppc s]
      by (simp add: build_tree.simps [of ppc s rt] memory_runs_out_def)
  next
    case True
    have "psys_npar s \<le> length (psys_pos s)" "psys_npar s \<le> length (rt_next rt)" "0 < rt_pool_size rt" "0 \<le> psys_boxsize s"
      using less.prems by (simp_all add: build_pre_def)
    from build_try_result [OF this True, of ppc]
    consider p where "build_try ppc s rt = Inr (Pool_full p)"
      | rt' where "build_try ppc s rt = Inr (Built rt'
          (length (filter (\<lambda>p. \<not> in_cell (psys_pos s ! p) (root_cell s)) [0..<psys_npar s])))"
        "built ppc s {..<psys_npar s} rt'" "\<forall>p. in_cell p (rt_pool rt' ! 0) \<longleftrightarrow> in_cell p (root_cell s)"
      by blast
    then show ?thesis
    proof cases
      case (1 p)
      define n where "n = next_pool_size s p (rt_pool_size rt)"
      have n: "rt_pool_size rt < n" using next_pool_size_grows less.prems by (simp add: n_def build_pre_def)
      have eq: "build_tree ppc s rt = build_tree ppc s (rt\<lparr>rt_pool_size := n\<rparr>)"
        using 1 by (simp add: build_tree.simps [of ppc s rt] n_def)
      show ?thesis
      proof (cases "pool_fits (rt\<lparr>rt_pool_size := n\<rparr>)")
        case False
        have "build_tree ppc s (rt\<lparr>rt_pool_size := n\<rparr>) = Some (Inl Out_of_bounds)"
          by (subst build_tree.simps) (simp add: build_try_no_room [OF False])
        moreover have "memory_runs_out ppc s rt"
          unfolding memory_runs_out_def
          by (intro disjI2 exI [of _ "rt_pool_size rt"] exI [of _ p]) (use 1 False in \<open>simp add: n_def\<close>)
        ultimately show ?thesis using eq by simp
      next
        case True
        have "n \<le> rt_room rt" using True by (simp add: pool_fits_def sizeof_Cell_def)
        then have "rt_room (rt\<lparr>rt_pool_size := n\<rparr>) - rt_pool_size (rt\<lparr>rt_pool_size := n\<rparr>) < rt_room rt - rt_pool_size rt"
          using n by simp
        moreover have "build_pre s (rt\<lparr>rt_pool_size := n\<rparr>)" using less.prems n by (simp add: build_pre_def)
        moreover have "memory_runs_out ppc s (rt\<lparr>rt_pool_size := n\<rparr>) \<Longrightarrow> memory_runs_out ppc s rt"
          using True less_imp_le [OF n] unfolding memory_runs_out_def by (simp, blast intro: order_trans)
        ultimately show ?thesis using less.hyps unfolding eq by blast
      qed
    next
      case (2 rt')
      then show ?thesis by (auto simp: build_tree.simps [of ppc s rt] build_post_def)
    qed
  qed
qed

section \<open>Coincident particles\<close>

lemma find_cell_mono: "find_cell f rt pos i = Inr k \<Longrightarrow> find_cell (Suc f) rt pos i = Inr k"
proof (induction f arbitrary: i)
  case (Suc f)
  have i: "i < length (rt_pool rt)" using Suc.prems by (simp split: if_splits)
  show ?case
  proof (cases "cell_first_child (rt_pool rt ! i)")
    case None
    then show ?thesis using Suc.prems i by simp
  next
    case (Some c)
    then obtain y where y: "find_child rt pos c [0..<8] = Inr (Some y)" "find_cell f rt pos y = Inr k" "k < length (rt_pool rt)"
      using Suc.prems i by (auto simp: rbind_Inr_iff split: option.splits if_splits)
    show ?thesis
      unfolding find_cell.simps(2) [of "Suc f"] using i Some y(1,3) Suc.IH [OF y(2)] by (simp del: find_cell.simps)
  qed
qed simp

lemma find_cell_le: "f \<le> g \<Longrightarrow> find_cell f rt pos i = Inr k \<Longrightarrow> find_cell g rt pos i = Inr k"
  by (induction g rule: dec_induct) (simp_all add: find_cell_mono del: find_cell.simps)

lemma find_cell_from_root:
  assumes "skel_ok (rt_pool rt)"
  shows "i < length (rt_pool rt) \<Longrightarrow> in_cell pos (rt_pool rt ! i) \<Longrightarrow> find_cell f rt pos i = Inr k \<Longrightarrow>
    \<exists>g. find_cell g rt pos 0 = Inr k"
proof (induction i arbitrary: f rule: less_induct)
  case (less i)
  show ?case
  proof (cases "i = 0")
    case False
    then obtain p c where p: "p < i" "cell_first_child (rt_pool rt ! p) = Some c" "c \<le> i" "i < c + 8"
      using skel_okD(5) [OF assms less.prems(1)] by blast
    have pn: "p < length (rt_pool rt)" using p(1) less.prems(1) by simp
    have ch: "children_ok (rt_pool rt) p c" by (rule skel_okD(4) [OF assms pn p(2)])
    have inp: "in_cell pos (rt_pool rt ! p)"
      using cell_in_parent [OF assms pn p(2), of "i - c" pos] p(3,4) less.prems(2) by simp
    have "i = c + octant pos (rt_pool rt ! p)"
      using child_in_cell_iff [OF ch inp, of "i - c"] p(3,4) less.prems(2) by auto
    moreover have "k < length (rt_pool rt)"
      using less.prems(3) by (induction f arbitrary: i) (auto simp: rbind_Inr_iff split: if_splits option.splits)
    ultimately have "find_cell (Suc f) rt pos p = Inr k"
      using find_child_octant [OF ch inp] pn p(2) less.prems(3) by simp
    then show ?thesis using less.IH [OF p(1) pn inp] by blast
  qed (use less.prems in blast)
qed

lemma leaf_unique:
  fixes rt :: raytrace
  assumes "skel_ok (rt_pool rt)" and "i < length (rt_pool rt)" "j < length (rt_pool rt)"
    and "in_cell pos (rt_pool rt ! i)" "in_cell pos (rt_pool rt ! j)"
    and "cell_first_child (rt_pool rt ! i) = None" "cell_first_child (rt_pool rt ! j) = None"
  shows "i = j"
proof -
  have "find_cell 1 rt pos i = Inr i" "find_cell 1 rt pos j = Inr j" using assms(2,3,6,7) by simp_all
  then obtain g h where "find_cell g rt pos 0 = Inr i" "find_cell h rt pos 0 = Inr j"
    using find_cell_from_root [OF assms(1,2,4)] find_cell_from_root [OF assms(1,3,5)] by blast
  then have "find_cell (max g h) rt pos 0 = Inr i" "find_cell (max g h) rt pos 0 = Inr j"
    using find_cell_le max.cobounded1 max.cobounded2 by blast+
  then show ?thesis by simp
qed

lemma built_coincident:
  assumes "built ppc s {..<psys_npar s} rt" and "\<And>p. in_cell p (rt_pool rt ! 0) \<longleftrightarrow> in_cell p (root_cell s)"
    and "in_cell pos (root_cell s)" and "P \<subseteq> {p. p < psys_npar s \<and> psys_pos s ! p = pos}"
  shows "card P \<le> ppc"
proof (cases "P = {}")
  case False
  obtain L where L: "tree_ok s rt L" "small ppc rt L"
      "members rt L = {p \<in> {..<psys_npar s}. in_cell (psys_pos s ! p) (rt_pool rt ! 0)}"
    using assms(1) by (auto simp: built_def)
  have sk: "skel_ok (rt_pool rt)" using L(1) by (simp add: tree_ok_def)
  have mem: "p \<in> members rt L" if "p \<in> P" for p using that assms(2-4) L(3) by auto
  have leafy: "in_cell pos (rt_pool rt ! i) \<and> cell_first_child (rt_pool rt ! i) = None"
    if "p \<in> P" "p \<in> set (L i)" "i < length (rt_pool rt)" for p i
    using tree_ok_list [OF L(1) that(3)] that(1,2) assms(4) unfolding list_ok_def
    by (cases "cell_first_child (rt_pool rt ! i)") auto
  obtain p0 i0 where i0: "p0 \<in> P" "p0 \<in> set (L i0)" "i0 < length (rt_pool rt)"
    using False mem by (force simp: members_def)
  have "P \<subseteq> set (L i0)"
  proof
    fix p assume p: "p \<in> P"
    then obtain i where i: "p \<in> set (L i)" "i < length (rt_pool rt)" using mem by (force simp: members_def)
    have "i = i0"
      using leaf_unique [OF sk i(2) i0(3)] leafy [OF p i] leafy [OF i0] by blast
    then show "p \<in> set (L i0)" using i(1) by simp
  qed
  then have "card P \<le> length (L i0)" using card_mono [of "set (L i0)" P] card_length [of "L i0"] by simp
  also have "\<dots> \<le> ppc" using L(2) i0(3) by (simp add: small_def)
  finally show ?thesis .
qed simp

text \<open>C22. The loop of \<open>rt_switch_epoch\<close> that builds the octree ends. Either the memory runs out, and
  the root of a pool that could not be allocated is written; or the tree is right: each cell's list
  is linked and counted correctly, every particle inside the root box is in the
  list of exactly one leaf, whose box contains it and which has at most \<open>CFG_OCTTREE_PPC\<close> particles,
  and the number of skipped particles is the number of particles outside the root box.\<close>

theorem octree_built:
  assumes "psys_npar s \<le> length (psys_pos s)" "psys_npar s \<le> length (rt_next rt)"
    and "0 < rt_pool_size rt" "0 \<le> psys_boxsize s"
  shows "(build_tree ppc s rt = Some (Inl Out_of_bounds) \<and> memory_runs_out ppc s rt)
    \<or> (\<exists>rt' L. build_tree ppc s rt
          = Some (Inr (rt', length (filter (\<lambda>p. \<not> in_cell (psys_pos s ! p) (root_cell s)) [0..<psys_npar s])))
      \<and> skel_ok (rt_pool rt') \<and> lists_ok s rt' {..<length (rt_pool rt')} L
      \<and> (\<Union>i < length (rt_pool rt'). set (L i)) = {p. p < psys_npar s \<and> in_cell (psys_pos s ! p) (root_cell s)}
      \<and> (\<forall>i < length (rt_pool rt'). length (L i) \<le> ppc))"
proof (cases "build_tree ppc s rt = Some (Inl Out_of_bounds) \<and> memory_runs_out ppc s rt")
  case False
  have "build_pre s rt" using assms by (simp add: build_pre_def)
  then obtain r where b: "build_tree ppc s rt = Some r" "build_post ppc s r"
    using build_tree_result [of s rt ppc] False by blast
  obtain rt' L where r: "r = Inr (rt', length (filter (\<lambda>p. \<not> in_cell (psys_pos s ! p) (root_cell s)) [0..<psys_npar s]))"
      "\<And>p. in_cell p (rt_pool rt' ! 0) \<longleftrightarrow> in_cell p (root_cell s)" "tree_ok s rt' L" "small ppc rt' L"
      "members rt' L = {p \<in> {..<psys_npar s}. in_cell (psys_pos s ! p) (rt_pool rt' ! 0)}"
    using b(2) unfolding build_post_def built_def by blast
  show ?thesis
    using r(3-5) unfolding r(2) tree_ok_def small_def members_def lessThan_iff
    by (intro disjI2 exI [of _ rt'] exI [of _ L] conjI b(1) [unfolded r(1)]) simp_all
qed simp

definition one_particle :: psystem where
  "one_particle = psys_of [particle_at (1, 2, 3) 0] 10"

lemma one_particle_simps [simp]:
  "psys_npar one_particle = 1" "psys_boxsize one_particle = 10" "psys_pos one_particle = [(1, 2, 3)]"
  by (simp_all add: one_particle_def psys_of_def particle_at_def)

lemma octree_built_witness:
  "\<exists>rt' L. build_tree 8 one_particle \<lparr>rt_next = [None], rt_pool = [], rt_pool_size = 16, rt_room = 1000\<rparr> = Some (Inr (rt', 0))
     \<and> (\<Union>i < length (rt_pool rt'). set (L i)) = {0::nat}"
proof -
  let ?rt = "\<lparr>rt_next = [None], rt_pool = [], rt_pool_size = 16, rt_room = 1000\<rparr>"
  have "in_cell (1, 2, 3) (root_cell one_particle)" by (simp add: in_cell_def in_box_def root_cell_def)
  then have e: "length (filter (\<lambda>p. \<not> in_cell (psys_pos one_particle ! p) (root_cell one_particle)) [0..<psys_npar one_particle]) = 0"
    "{p. p < psys_npar one_particle \<and> in_cell (psys_pos one_particle ! p) (root_cell one_particle)} = {0::nat}"
    by auto
  have "build_tree 8 one_particle ?rt \<noteq> Some (Inl Out_of_bounds)"
    by (subst build_tree.simps)
      (simp add: build_try_def start_tree_def pool_fits_def sizeof_Cell_def root_cell_def pos_at_def parent_def
        cell_at_def inside_def in_box_def find_leaf_def settle.simps full_def add_def)
  then have "\<exists>rt' L. build_tree 8 one_particle ?rt = Some (Inr (rt', 0)) \<and> skel_ok (rt_pool rt')
      \<and> lists_ok one_particle rt' {..<length (rt_pool rt')} L
      \<and> (\<Union>i < length (rt_pool rt'). set (L i)) = {0::nat} \<and> (\<forall>i < length (rt_pool rt'). length (L i) \<le> 8)"
    using octree_built [of one_particle ?rt 8, unfolded e] by simp
  then show ?thesis by blast
qed

text \<open>C23. The retry loop of \<open>rt_switch_epoch\<close> never gives a tree when more than \<open>CFG_OCTTREE_PPC\<close>
  particles of the box share one position, however much memory there is: they always land in the same
  leaf, every pool is used up by splitting it, and the loop ends only when the next pool cannot be allocated
  and its root cell is written through the null pointer.\<close>

theorem octree_coincident_exhausts:
  assumes "psys_npar s \<le> length (psys_pos s)" "psys_npar s \<le> length (rt_next rt)"
    and "0 < rt_pool_size rt" "0 \<le> psys_boxsize s"
    and "in_cell pos (root_cell s)" and "ppc < card {p. p < psys_npar s \<and> psys_pos s ! p = pos}"
  shows "build_tree ppc s rt = Some (Inl Out_of_bounds) \<and> memory_runs_out ppc s rt"
proof (rule ccontr)
  assume no: "\<not> ?thesis"
  have "build_pre s rt" using assms(1-4) by (simp add: build_pre_def)
  then obtain r where "build_post ppc s r" using build_tree_result [of s rt ppc] no by blast
  then obtain rt' where b: "built ppc s {..<psys_npar s} rt'" "\<forall>p. in_cell p (rt_pool rt' ! 0) \<longleftrightarrow> in_cell p (root_cell s)"
    unfolding build_post_def by blast
  have "card {p. p < psys_npar s \<and> psys_pos s ! p = pos} \<le> ppc"
    by (rule built_coincident [OF b(1) _ assms(5)]) (use b(2) in blast)+
  then show False using assms(6) by simp
qed

definition two_coincident :: psystem where
  "two_coincident = psys_of [particle_at (1, 2, 3) 0, particle_at (1, 2, 3) 0] 10"

lemma two_coincident_simps [simp]:
  "psys_npar two_coincident = 2" "psys_boxsize two_coincident = 10" "psys_pos two_coincident = [(1, 2, 3), (1, 2, 3)]"
  by (simp_all add: two_coincident_def psys_of_def particle_at_def)

lemma octree_coincident_exhausts_witness:
  "build_tree 1 two_coincident \<lparr>rt_next = [None, None], rt_pool = [], rt_pool_size = 16, rt_room = 1000\<rparr>
     = Some (Inl Out_of_bounds)"
proof -
  have root: "in_cell (1, 2, 3) (root_cell two_coincident)" by (simp add: in_cell_def in_box_def root_cell_def)
  have "{p. p < psys_npar two_coincident \<and> psys_pos two_coincident ! p = (1, 2, 3)} = {0, 1}"
    by (auto simp: less_2_cases_iff)
  then have "1 < card {p. p < psys_npar two_coincident \<and> psys_pos two_coincident ! p = (1, 2, 3)}" by simp
  then show ?thesis
    using octree_coincident_exhausts [of two_coincident
        "\<lparr>rt_next = [None, None], rt_pool = [], rt_pool_size = 16, rt_room = 1000\<rparr>" "(1, 2, 3)" 1] root
    by simp
qed

end
