(* ===== verification/Octree_Boxes.thy ===== *)
theory Octree_Boxes
  imports Octree
begin

text \<open>
  The second half of \<open>rt_switch_epoch\<close> in \<open>src/src/raytrace.c\<close>: the cell boxes are replaced,
  from the leaves up, by the bounding boxes of the smoothing spheres below them. The passes over the
  pool are the C loops; \<open>child_done\<close> counts the finished children of a cell, and a finished
  cell has the count 0. The passes have the number of cells as fuel: each pass finishes at least the
  unfinished cell with the largest index, because children stand behind their parents.
\<close>

section \<open>Bounding boxes\<close>

definition vlow :: "bool \<Rightarrow> vec3 \<Rightarrow> vec3 \<Rightarrow> vec3" where
  "vlow first = (\<lambda>(n0, n1, n2) (o0, o1, o2).
     (if first \<or> n0 < o0 then n0 else o0, if first \<or> n1 < o1 then n1 else o1, if first \<or> n2 < o2 then n2 else o2))"

definition vhigh :: "bool \<Rightarrow> vec3 \<Rightarrow> vec3 \<Rightarrow> vec3" where
  "vhigh first = (\<lambda>(n0, n1, n2) (o0, o1, o2).
     (if first \<or> n0 > o0 then n0 else o0, if first \<or> n1 > o1 then n1 else o1, if first \<or> n2 > o2 then n2 else o2))"

definition sphere_lo :: "psystem \<Rightarrow> nat \<Rightarrow> vec3" where
  "sphere_lo s p = (let (x, y, z) = psys_pos s ! p; sml = psys_sml s ! p in (fl (x - sml), fl (y - sml), fl (z - sml)))"

definition sphere_hi :: "psystem \<Rightarrow> nat \<Rightarrow> vec3" where
  "sphere_hi s p = (let (x, y, z) = psys_pos s ! p; sml = psys_sml s ! p in (fl (x + sml), fl (y + sml), fl (z + sml)))"

fun leaf_box :: "nat \<Rightarrow> psystem \<Rightarrow> nat option list \<Rightarrow> nat option \<Rightarrow> bool \<Rightarrow> vec3 \<Rightarrow> vec3 \<Rightarrow> (vec3 \<times> vec3) res" where
  "leaf_box fuel s nx None first lo hi = Inr (lo, hi)"
| "leaf_box 0 s nx (Some ipar) first lo hi = Inl Hang"
| "leaf_box (Suc fuel) s nx (Some ipar) first lo hi =
     (if ipar \<ge> length nx \<or> ipar \<ge> length (psys_pos s) \<or> ipar \<ge> length (psys_sml s) then Inl Out_of_bounds
      else leaf_box fuel s nx (nx ! ipar) False (vlow first (sphere_lo s ipar) lo) (vhigh first (sphere_hi s ipar) hi))"

fun children_box :: "cell list \<Rightarrow> nat \<Rightarrow> nat list \<Rightarrow> bool \<Rightarrow> vec3 \<Rightarrow> vec3 \<Rightarrow> (vec3 \<times> vec3) res" where
  "children_box pool c [] first lo hi = Inr (lo, hi)"
| "children_box pool c (i # is) first lo hi =
     (if c + i \<ge> length pool then Inl Out_of_bounds
      else children_box pool c is False (vlow first (cell_bot (pool ! (c + i))) lo)
             (vhigh first (cell_top (pool ! (c + i))) hi))"

record aabb =
  ab_pool :: "cell list"
  ab_child_done :: "int list"
  ab_done :: nat

definition aabb_visit :: "psystem \<Rightarrow> nat option list \<Rightarrow> nat \<Rightarrow> aabb \<Rightarrow> aabb res" where
  "aabb_visit s nx icell st =
     (if ab_child_done st ! icell > 8 then Inl (Trap ''more than 8 children?'')
      else if ab_child_done st ! icell \<noteq> 8 then Inr st
      else
        let cl = ab_pool st ! icell in
        rbind (case cell_first_child cl of
            None \<Rightarrow> leaf_box (length nx) s nx (cell_head_par cl) True (cell_bot cl) (cell_top cl)
          | Some c \<Rightarrow> children_box (ab_pool st) c [0..<8] True (cell_bot cl) (cell_top cl)) (\<lambda>(lo, hi).
        let st' = st\<lparr>ab_pool := (ab_pool st)[icell := cl\<lparr>cell_bot := lo, cell_top := hi\<rparr>],
                     ab_child_done := (ab_child_done st)[icell := 0], ab_done := ab_done st + 1\<rparr>
        in if icell = 0 then Inr st'
           else case cell_parent cl of
               None \<Rightarrow> Inl Out_of_bounds
             | Some p \<Rightarrow> if p \<ge> length (ab_child_done st') then Inl Out_of_bounds
                 else Inr (st'\<lparr>ab_child_done := (ab_child_done st')[p := ab_child_done st' ! p + 1]\<rparr>)))"

fun aabb_pass :: "psystem \<Rightarrow> nat option list \<Rightarrow> nat list \<Rightarrow> aabb \<Rightarrow> aabb res" where
  "aabb_pass s nx [] st = Inr st"
| "aabb_pass s nx (i # is) st = rbind (aabb_visit s nx i st) (aabb_pass s nx is)"

fun aabb_loop :: "nat \<Rightarrow> psystem \<Rightarrow> nat option list \<Rightarrow> aabb \<Rightarrow> aabb res" where
  "aabb_loop 0 s nx st = Inl Hang"
| "aabb_loop (Suc fuel) s nx st =
     (if ab_done st < length (ab_pool st)
      then rbind (aabb_pass s nx [0..<length (ab_pool st)] st) (aabb_loop fuel s nx)
      else Inr st)"

definition aabb_start :: "cell list \<Rightarrow> aabb" where
  "aabb_start pool =
     \<lparr>ab_pool = pool, ab_child_done = map (\<lambda>c. if cell_first_child c = None then 8 else 0) pool, ab_done = 0\<rparr>"

definition update_boxes :: "psystem \<Rightarrow> raytrace \<Rightarrow> raytrace res" where
  "update_boxes s rt =
     rbind (aabb_loop (Suc (length (rt_pool rt))) s (rt_next rt) (aabb_start (rt_pool rt))) (\<lambda>st.
       Inr (rt\<lparr>rt_pool := ab_pool st\<rparr>))"

text \<open>\<open>rt_switch_epoch\<close>; \<open>fresh\<close> is the uninitialized memory of the allocated list links.\<close>

definition rt_alloc :: "nat \<Rightarrow> psystem \<Rightarrow> (nat \<Rightarrow> nat option) \<Rightarrow> raytrace \<Rightarrow> raytrace" where
  "rt_alloc ppc s fresh rt =
     rt\<lparr>rt_next := map fresh [0..<psys_npar_max s], rt_pool := [], rt_pool_size := psys_npar_max s div ppc\<rparr>"

definition rt_switch_epoch ::
    "nat \<Rightarrow> int \<Rightarrow> psystem \<Rightarrow> (nat \<Rightarrow> nat option) \<Rightarrow> raytrace \<Rightarrow> raytrace res option" where
  "rt_switch_epoch ppc i s fresh rt =
     (case build_tree ppc s (if i = 0 then rt_alloc ppc s fresh rt else rt) of
        None \<Rightarrow> None
      | Some r \<Rightarrow> Some (rbind r (\<lambda>(rt', skipped). update_boxes s rt')))"

section \<open>Boxes that cover\<close>

definition vle :: "vec3 \<Rightarrow> vec3 \<Rightarrow> bool" where
  "vle = (\<lambda>(a0, a1, a2) (b0, b1, b2). a0 \<le> b0 \<and> a1 \<le> b1 \<and> a2 \<le> b2)"

definition vfl :: "vec3 \<Rightarrow> bool" where
  "vfl = (\<lambda>(a0, a1, a2). fl a0 = a0 \<and> fl a1 = a1 \<and> fl a2 = a2)"

lemma vle_refl [simp]: "vle a a"
  by (cases a) (simp add: vle_def)

lemma vle_trans: "vle a b \<Longrightarrow> vle b c \<Longrightarrow> vle a c"
  by (cases a; cases b; cases c) (auto simp: vle_def)

lemma vlow_le: "vle (vlow first n b) n" "vle (vlow False n b) b" "vlow True n b = n"
  by (cases n; cases b; simp add: vle_def vlow_def)+

lemma vhigh_ge: "vle n (vhigh first n b)" "vle b (vhigh False n b)" "vhigh True n b = n"
  by (cases n; cases b; simp add: vle_def vhigh_def)+

lemma vfl_vlow: "vfl n \<Longrightarrow> vfl b \<Longrightarrow> vfl (vlow first n b)"
  by (cases n; cases b) (simp add: vfl_def vlow_def)

lemma vfl_vhigh: "vfl n \<Longrightarrow> vfl b \<Longrightarrow> vfl (vhigh first n b)"
  by (cases n; cases b) (simp add: vfl_def vhigh_def)

lemma vfl_sphere [simp]: "vfl (sphere_lo s p)" "vfl (sphere_hi s p)"
  by (simp_all add: vfl_def sphere_lo_def sphere_hi_def Let_def split: prod.splits)

definition covers :: "vec3 \<Rightarrow> vec3 \<Rightarrow> vec3 \<Rightarrow> vec3 \<Rightarrow> bool" where
  "covers lo hi a b \<longleftrightarrow> vle lo a \<and> vle b hi"

lemma covers_trans: "vle lo lo' \<Longrightarrow> vle hi' hi \<Longrightarrow> covers lo' hi' a b \<Longrightarrow> covers lo hi a b"
  unfolding covers_def using vle_trans by blast

lemma leaf_box_result:
  assumes "length nx \<le> length (psys_pos s)" "length nx \<le> length (psys_sml s)"
  shows "chain nx h xs \<Longrightarrow> length xs \<le> fuel \<Longrightarrow> vfl lo \<Longrightarrow> vfl hi \<Longrightarrow>
    \<exists>lo' hi'. leaf_box fuel s nx h first lo hi = Inr (lo', hi') \<and> vfl lo' \<and> vfl hi'
      \<and> (\<forall>p \<in> set xs. covers lo' hi' (sphere_lo s p) (sphere_hi s p))
      \<and> (\<not> first \<longrightarrow> vle lo' lo \<and> vle hi hi')"
proof (induction xs arbitrary: fuel h first lo hi)
  case Nil
  then show ?case by simp
next
  case (Cons x xs)
  obtain f where f: "fuel = Suc f" using Cons.prems(2) by (cases fuel) auto
  have x: "h = Some x" "x < length nx" "chain nx (nx ! x) xs" using Cons.prems(1) by auto
  let ?b = "vlow first (sphere_lo s x) lo" and ?t = "vhigh first (sphere_hi s x) hi"
  have "length xs \<le> f" using Cons.prems(2) f by simp
  have v: "vfl ?b" "vfl ?t" using Cons.prems(3,4) by (simp_all add: vfl_vlow vfl_vhigh)
  from Cons.IH [OF x(3) \<open>length xs \<le> f\<close> v, of False]
  obtain lo' hi' where r: "leaf_box f s nx (nx ! x) False ?b ?t = Inr (lo', hi')" "vfl lo'" "vfl hi'"
      "\<forall>p \<in> set xs. covers lo' hi' (sphere_lo s p) (sphere_hi s p)" "vle lo' ?b" "vle ?t hi'"
    unfolding not_False_eq_True simp_thms by (elim exE conjE) (rule that)
  have "leaf_box fuel s nx h first lo hi = Inr (lo', hi')" using r(1) x(1,2) assms by (simp add: f)
  moreover have "covers lo' hi' (sphere_lo s x) (sphere_hi s x)"
    using vle_trans [OF r(5) vlow_le(1)] vle_trans [OF vhigh_ge(1) r(6)] by (simp add: covers_def)
  moreover have "\<not> first \<longrightarrow> vle lo' lo \<and> vle hi hi'"
    using vle_trans [OF r(5), of lo] vle_trans [OF _ r(6), of hi] vlow_le(2) [of "sphere_lo s x" lo] vhigh_ge(2) [of hi "sphere_hi s x"]
    by (cases first) (simp_all only: simp_thms)
  ultimately show ?case using r(2-4) by (intro exI [of _ lo'] exI [of _ hi']) simp
qed

lemma children_box_result:
  "(\<And>i. i \<in> set is \<Longrightarrow> c + i < length pool \<and> vfl (cell_bot (pool ! (c + i))) \<and> vfl (cell_top (pool ! (c + i)))) \<Longrightarrow>
   vfl lo \<Longrightarrow> vfl hi \<Longrightarrow>
    \<exists>lo' hi'. children_box pool c is first lo hi = Inr (lo', hi') \<and> vfl lo' \<and> vfl hi'
      \<and> (\<forall>i \<in> set is. covers lo' hi' (cell_bot (pool ! (c + i))) (cell_top (pool ! (c + i))))
      \<and> (\<not> first \<longrightarrow> vle lo' lo \<and> vle hi hi')"
proof (induction "is" arbitrary: first lo hi)
  case Nil
  then show ?case by simp
next
  case (Cons i "is")
  let ?b = "vlow first (cell_bot (pool ! (c + i))) lo" and ?t = "vhigh first (cell_top (pool ! (c + i))) hi"
  have i: "c + i < length pool" "vfl (cell_bot (pool ! (c + i)))" "vfl (cell_top (pool ! (c + i)))"
    using Cons.prems(1) [of i] by auto
  have v: "vfl ?b" "vfl ?t" using Cons.prems(2,3) i by (simp_all add: vfl_vlow vfl_vhigh)
  have sub: "c + j < length pool \<and> vfl (cell_bot (pool ! (c + j))) \<and> vfl (cell_top (pool ! (c + j)))"
    if "j \<in> set is" for j using Cons.prems(1) [of j] that by simp
  have "\<exists>lo' hi'. children_box pool c is False ?b ?t = Inr (lo', hi') \<and> vfl lo' \<and> vfl hi'
      \<and> (\<forall>i \<in> set is. covers lo' hi' (cell_bot (pool ! (c + i))) (cell_top (pool ! (c + i))))
      \<and> (\<not> False \<longrightarrow> vle lo' ?b \<and> vle ?t hi')"
    by (rule Cons.IH [OF sub v])
  then obtain lo' hi' where r: "children_box pool c is False ?b ?t = Inr (lo', hi')" "vfl lo'" "vfl hi'"
      "\<forall>i \<in> set is. covers lo' hi' (cell_bot (pool ! (c + i))) (cell_top (pool ! (c + i)))" "vle lo' ?b" "vle ?t hi'"
    unfolding not_False_eq_True simp_thms by (elim exE conjE) (rule that)
  have "children_box pool c (i # is) first lo hi = Inr (lo', hi')" using r(1) i(1) by simp
  moreover have "covers lo' hi' (cell_bot (pool ! (c + i))) (cell_top (pool ! (c + i)))"
    using vle_trans [OF r(5) vlow_le(1)] vle_trans [OF vhigh_ge(1) r(6)] by (simp add: covers_def)
  moreover have "\<not> first \<longrightarrow> vle lo' lo \<and> vle hi hi'"
    using vle_trans [OF r(5), of lo] vle_trans [OF _ r(6), of hi] vlow_le(2) [of "cell_bot (pool ! (c + i))" lo] vhigh_ge(2) [of hi "cell_top (pool ! (c + i))"]
    by (cases first) (simp_all only: simp_thms)
  ultimately show ?case using r(2-4) by (intro exI [of _ lo'] exI [of _ hi']) simp
qed


section \<open>The passes\<close>

definition same_links :: "cell \<Rightarrow> cell \<Rightarrow> bool" where
  "same_links c d \<longleftrightarrow> cell_head_par c = cell_head_par d \<and> cell_first_child c = cell_first_child d
     \<and> cell_parent c = cell_parent d \<and> cell_npar c = cell_npar d"

definition kids_in :: "cell list \<Rightarrow> nat set \<Rightarrow> nat \<Rightarrow> bool" where
  "kids_in pool P i \<longleftrightarrow> (\<forall>c. cell_first_child (pool ! i) = Some c \<longrightarrow> (\<forall>k < 8. c + k \<in> P))"

definition count_of :: "cell list \<Rightarrow> nat set \<Rightarrow> nat \<Rightarrow> int" where
  "count_of pool P i = (if i \<in> P then 0
     else case cell_first_child (pool ! i) of None \<Rightarrow> 8 | Some c \<Rightarrow> int (card {k. k < 8 \<and> c + k \<in> P}))"

definition covered :: "psystem \<Rightarrow> (nat \<Rightarrow> nat list) \<Rightarrow> cell list \<Rightarrow> nat \<Rightarrow> bool" where
  "covered s L pool i \<longleftrightarrow> (\<forall>p \<in> set (L i). covers (cell_bot (pool ! i)) (cell_top (pool ! i)) (sphere_lo s p) (sphere_hi s p))
     \<and> (\<forall>c. cell_first_child (pool ! i) = Some c \<longrightarrow> (\<forall>k < 8.
          covers (cell_bot (pool ! i)) (cell_top (pool ! i)) (cell_bot (pool ! (c + k))) (cell_top (pool ! (c + k)))))"

definition ab_inv :: "psystem \<Rightarrow> cell list \<Rightarrow> (nat \<Rightarrow> nat list) \<Rightarrow> nat set \<Rightarrow> aabb \<Rightarrow> bool" where
  "ab_inv s pool L P st \<longleftrightarrow> length (ab_pool st) = length pool \<and> length (ab_child_done st) = length pool
     \<and> P \<subseteq> {..<length pool} \<and> ab_done st = card P
     \<and> (\<forall>i < length pool. same_links (ab_pool st ! i) (pool ! i)
          \<and> vfl (cell_bot (ab_pool st ! i)) \<and> vfl (cell_top (ab_pool st ! i))
          \<and> ab_child_done st ! i = count_of pool P i)
     \<and> (\<forall>i \<in> P. kids_in pool P i \<and> covered s L (ab_pool st) i)"

text \<open>What the building phase provides.\<close>

definition ab_pre :: "psystem \<Rightarrow> nat option list \<Rightarrow> cell list \<Rightarrow> (nat \<Rightarrow> nat list) \<Rightarrow> bool" where
  "ab_pre s nx pool L \<longleftrightarrow> skel_ok pool \<and> length nx \<le> length (psys_pos s) \<and> length nx \<le> length (psys_sml s)
     \<and> (\<forall>i < length pool. chain nx (cell_head_par (pool ! i)) (L i) \<and> length (L i) \<le> length nx
          \<and> (cell_first_child (pool ! i) \<noteq> None \<longrightarrow> L i = []))"

lemma card_less_8: "card {k. k < 8 \<and> Q k} \<le> 8" "card {k. k < (8::nat) \<and> Q k} = 8 \<longleftrightarrow> (\<forall>k < 8. Q k)"
proof -
  have s: "{k. k < (8::nat) \<and> Q k} \<subseteq> {..<8}" by auto
  then show "card {k. k < 8 \<and> Q k} \<le> 8" using card_mono [OF _ s] by simp
  show "card {k. k < (8::nat) \<and> Q k} = 8 \<longleftrightarrow> (\<forall>k < 8. Q k)"
  proof
    assume "card {k. k < (8::nat) \<and> Q k} = 8"
    then have "{k. k < (8::nat) \<and> Q k} = {..<8}" using card_subset_eq [OF _ s] by simp
    then show "\<forall>k < 8. Q k" by blast
  next
    assume "\<forall>k < 8. Q k"
    then have "{k. k < (8::nat) \<and> Q k} = {..<8}" by auto
    then show "card {k. k < (8::nat) \<and> Q k} = 8" by simp
  qed
qed

lemma count_of_8: "count_of pool P i = 8 \<longleftrightarrow> i \<notin> P \<and> kids_in pool P i" "count_of pool P i \<le> 8"
  using card_less_8 by (auto simp: count_of_def kids_in_def split: option.splits)

lemma count_of_insert:
  assumes sk: "skel_ok pool" and i: "i < length pool" "i \<notin> P" and j: "j < length pool" "j \<noteq> i"
    and up: "\<And>l. l \<in> P \<Longrightarrow> kids_in pool P l"
  shows "count_of pool (insert i P) j = count_of pool P j + (if i \<noteq> 0 \<and> cell_parent (pool ! i) = Some j then 1 else 0)"
proof (cases "cell_first_child (pool ! j)")
  case None
  have "cell_parent (pool ! i) \<noteq> Some j" if "i \<noteq> 0" using skel_okD(5) [OF sk i(1)] that None by force
  then show ?thesis using None j(2) by (cases "i = 0") (simp_all add: count_of_def)
next
  case (Some c)
  have ch: "children_ok pool j c" by (rule skel_okD(4) [OF sk j(1) Some])
  show ?thesis
  proof (cases "i \<noteq> 0 \<and> cell_parent (pool ! i) = Some j")
    case True
    then obtain c' where "cell_first_child (pool ! j) = Some c'" "c' \<le> i" "i < c' + 8"
      using skel_okD(5) [OF sk i(1)] by force
    then have k: "i - c < 8" "c + (i - c) = i" using Some by auto
    have "j \<notin> P"
    proof
      assume "j \<in> P"
      then have "kids_in pool P j" by (rule up)
      then have "c + (i - c) \<in> P" using Some k(1) unfolding kids_in_def by blast
      then show False using k(2) i(2) by simp
    qed
    moreover have "{k. k < 8 \<and> c + k \<in> insert i P} = insert (i - c) {k. k < 8 \<and> c + k \<in> P}" using k by auto
    moreover have "i - c \<notin> {k. k < 8 \<and> c + k \<in> P}" using k(2) i(2) by simp
    ultimately show ?thesis using True Some j(2) by (simp add: count_of_def)
  next
    case False
    have "c + k \<noteq> i" if "k < 8" for k
      using ch that False unfolding children_ok_def by (metis add_is_0 not_less_zero)
    then have "{k. k < 8 \<and> c + k \<in> insert i P} = {k. k < 8 \<and> c + k \<in> P}" by auto
    then show ?thesis unfolding count_of_def if_not_P [OF False] Some using j(2) by simp
  qed
qed

lemma visit_box:
  assumes pre: "ab_pre s nx pool L" and st: "ab_inv s pool L P st" and i: "i < length pool"
  shows "\<exists>lo hi. (case cell_first_child (ab_pool st ! i) of
        None \<Rightarrow> leaf_box (length nx) s nx (cell_head_par (ab_pool st ! i)) True (cell_bot (ab_pool st ! i)) (cell_top (ab_pool st ! i))
      | Some c \<Rightarrow> children_box (ab_pool st) c [0..<8] True (cell_bot (ab_pool st ! i)) (cell_top (ab_pool st ! i))) = Inr (lo, hi)
    \<and> vfl lo \<and> vfl hi \<and> (\<forall>p \<in> set (L i). covers lo hi (sphere_lo s p) (sphere_hi s p))
    \<and> (\<forall>c. cell_first_child (pool ! i) = Some c \<longrightarrow> (\<forall>k < 8.
        covers lo hi (cell_bot (ab_pool st ! (c + k))) (cell_top (ab_pool st ! (c + k)))))"
proof -
  have l: "same_links (ab_pool st ! i) (pool ! i)" "vfl (cell_bot (ab_pool st ! i))" "vfl (cell_top (ab_pool st ! i))"
    using st i by (simp_all add: ab_inv_def)
  have ch: "chain nx (cell_head_par (ab_pool st ! i)) (L i)" "length (L i) \<le> length nx"
    "length nx \<le> length (psys_pos s)" "length nx \<le> length (psys_sml s)"
    using pre i l(1) by (simp_all add: ab_pre_def same_links_def)
  show ?thesis
  proof (cases "cell_first_child (pool ! i)")
    case None
    then show ?thesis using leaf_box_result [OF ch(3,4,1,2) l(2,3), of True] l(1) by (auto simp: same_links_def)
  next
    case (Some c)
    have "c + k < length pool" if "k < 8" for k
      using pre i Some that skel_okD(4) [of pool i c] by (auto simp: ab_pre_def children_ok_def)
    then have "c + k < length (ab_pool st) \<and> vfl (cell_bot (ab_pool st ! (c + k))) \<and> vfl (cell_top (ab_pool st ! (c + k)))"
      if "k \<in> set [0..<8]" for k
      using st that by (simp add: ab_inv_def)
    from children_box_result [OF this l(2,3), of _ True]
    obtain lo hi where "children_box (ab_pool st) c [0..<8] True (cell_bot (ab_pool st ! i)) (cell_top (ab_pool st ! i)) = Inr (lo, hi)"
        "vfl lo" "vfl hi" "\<forall>k \<in> set [0..<8]. covers lo hi (cell_bot (ab_pool st ! (c + k))) (cell_top (ab_pool st ! (c + k)))"
      by blast
    moreover have "L i = []" using pre i Some by (simp add: ab_pre_def)
    ultimately show ?thesis using Some l(1) by (intro exI [of _ lo] exI [of _ hi]) (simp add: same_links_def)
  qed
qed

lemma aabb_visit_result:
  assumes pre: "ab_pre s nx pool L" and st: "ab_inv s pool L P st" and i: "i < length pool"
  shows "\<exists>st' P'. aabb_visit s nx i st = Inr st' \<and> ab_inv s pool L P' st' \<and> P \<subseteq> P' \<and> (kids_in pool P i \<longrightarrow> i \<in> P')"
proof (cases "i \<notin> P \<and> kids_in pool P i")
  case False
  have "ab_child_done st ! i = count_of pool P i" using st i by (simp add: ab_inv_def)
  then have "aabb_visit s nx i st = Inr st" using count_of_8 [of pool P i] False by (simp add: aabb_visit_def)
  then show ?thesis using st False by blast
next
  case True
  have sk: "skel_ok pool" using pre by (simp add: ab_pre_def)
  obtain lo hi where b: "(case cell_first_child (ab_pool st ! i) of
        None \<Rightarrow> leaf_box (length nx) s nx (cell_head_par (ab_pool st ! i)) True (cell_bot (ab_pool st ! i)) (cell_top (ab_pool st ! i))
      | Some c \<Rightarrow> children_box (ab_pool st) c [0..<8] True (cell_bot (ab_pool st ! i)) (cell_top (ab_pool st ! i))) = Inr (lo, hi)"
    "vfl lo" "vfl hi" "\<forall>p \<in> set (L i). covers lo hi (sphere_lo s p) (sphere_hi s p)"
    "\<forall>c. cell_first_child (pool ! i) = Some c \<longrightarrow> (\<forall>k < 8.
        covers lo hi (cell_bot (ab_pool st ! (c + k))) (cell_top (ab_pool st ! (c + k))))"
    using visit_box [OF assms] by blast
  have len: "length (ab_pool st) = length pool" "length (ab_child_done st) = length pool" and P: "P \<subseteq> {..<length pool}"
    using st by (simp_all add: ab_inv_def)
  have links: "same_links (ab_pool st ! j) (pool ! j)" "vfl (cell_bot (ab_pool st ! j))" "vfl (cell_top (ab_pool st ! j))"
    "ab_child_done st ! j = count_of pool P j" if "j < length pool" for j
    using st that by (simp_all add: ab_inv_def)
  have c8: "ab_child_done st ! i = 8" using links(4) [OF i] count_of_8 True by simp
  define st1 where "st1 = st\<lparr>ab_pool := (ab_pool st)[i := (ab_pool st ! i)\<lparr>cell_bot := lo, cell_top := hi\<rparr>],
     ab_child_done := (ab_child_done st)[i := 0], ab_done := ab_done st + 1\<rparr>"
  define st2 where "st2 = (if i = 0 then st1 else
     let p = the (cell_parent (pool ! i)) in st1\<lparr>ab_child_done := (ab_child_done st1)[p := ab_child_done st1 ! p + 1]\<rparr>)"
  have par: "\<exists>p. cell_parent (pool ! i) = Some p \<and> p < i" if "i \<noteq> 0" using skel_okD(5) [OF sk i] that by blast
  have run: "aabb_visit s nx i st = Inr st2"
    using c8 b(1) par links(1) [OF i] i len
    by (auto simp: aabb_visit_def st1_def st2_def Let_def same_links_def)
  have pool2: "ab_pool st2 = (ab_pool st)[i := (ab_pool st ! i)\<lparr>cell_bot := lo, cell_top := hi\<rparr>]" "ab_done st2 = Suc (card P)"
    using st by (simp_all add: st2_def st1_def Let_def ab_inv_def)
  have at: "ab_pool st2 ! j = (if j = i then (ab_pool st ! i)\<lparr>cell_bot := lo, cell_top := hi\<rparr> else ab_pool st ! j)"
    for j using i len(1) by (cases "j = i") (simp_all add: pool2)
  have cd: "ab_child_done st2 ! j = count_of pool (insert i P) j" if j: "j < length pool" for j
  proof (cases "j = i")
    case True
    have "the (cell_parent (pool ! i)) \<noteq> i" if "i \<noteq> 0" using par [OF that] by auto
    then show ?thesis using True i len by (cases "i = 0") (simp_all add: st2_def st1_def Let_def count_of_def)
  next
    case False
    have "ab_child_done st2 ! j = count_of pool P j + (if i \<noteq> 0 \<and> cell_parent (pool ! i) = Some j then 1 else 0)"
    proof (cases "i = 0")
      case i0: False
      then obtain p where "cell_parent (pool ! i) = Some p" "p < i" using par by blast
      then show ?thesis using False i0 j i len links(4) [OF j] by (simp add: st2_def st1_def Let_def nth_list_update)
    qed (use False i len links(4) [OF j] in \<open>simp add: st2_def st1_def\<close>)
    also have "\<dots> = count_of pool (insert i P) j"
      using count_of_insert [OF sk i _ j False, of P] st \<open>i \<notin> P \<and> kids_in pool P i\<close> by (simp add: ab_inv_def)
    finally show ?thesis .
  qed
  have cov: "kids_in pool (insert i P) j \<and> covered s L (ab_pool st2) j" if j: "j \<in> insert i P" for j
  proof (cases "j = i")
    case True
    have "c + k \<noteq> i" if "cell_first_child (pool ! i) = Some c" for c k
      using skel_okD(4) [OF sk i that] by (simp add: children_ok_def)
    then show ?thesis
      using True \<open>i \<notin> P \<and> kids_in pool P i\<close> b(4,5) links(1) [OF i] by (auto simp: kids_in_def covered_def at same_links_def)
  next
    case False
    then have jP: "j \<in> P" "kids_in pool P j" "covered s L (ab_pool st) j" using that st by (auto simp: ab_inv_def)
    have "c + k \<noteq> i" if "cell_first_child (pool ! j) = Some c" "k < 8" for c k
      using jP(2) that \<open>i \<notin> P \<and> kids_in pool P i\<close> by (auto simp: kids_in_def)
    moreover have "cell_first_child (ab_pool st ! j) = cell_first_child (pool ! j)"
      using links(1) [of j] jP(1) P by (auto simp: same_links_def)
    ultimately show ?thesis using jP False by (auto simp: kids_in_def covered_def at)
  qed
  have "ab_inv s pool L (insert i P) st2"
    unfolding ab_inv_def
  proof (intro conjI allI impI ballI)
    show "length (ab_pool st2) = length pool" "length (ab_child_done st2) = length pool"
      using len by (simp_all add: pool2 st2_def st1_def Let_def)
    show "insert i P \<subseteq> {..<length pool}" using P i by simp
    show "ab_done st2 = card (insert i P)" using pool2(2) True finite_subset [OF P] by simp
    fix j assume j: "j < length pool"
    show "same_links (ab_pool st2 ! j) (pool ! j)" using links(1) [OF j] by (cases "j = i") (simp_all add: at same_links_def)
    show "vfl (cell_bot (ab_pool st2 ! j))" "vfl (cell_top (ab_pool st2 ! j))" using links(2,3) [OF j] b(2,3) by (simp_all add: at)
    show "ab_child_done st2 ! j = count_of pool (insert i P) j" by (rule cd [OF j])
  qed (use cov in blast)+
  then show ?thesis using run by blast
qed

lemma aabb_pass_result:
  assumes pre: "ab_pre s nx pool L"
  shows "ab_inv s pool L P st \<Longrightarrow> (\<And>i. i \<in> set is \<Longrightarrow> i < length pool) \<Longrightarrow>
    \<exists>st' P'. aabb_pass s nx is st = Inr st' \<and> ab_inv s pool L P' st' \<and> P \<subseteq> P' \<and> (\<forall>i \<in> set is. kids_in pool P i \<longrightarrow> i \<in> P')"
proof (induction "is" arbitrary: P st)
  case (Cons i "is")
  obtain st1 P1 where 1: "aabb_visit s nx i st = Inr st1" "ab_inv s pool L P1 st1" "P \<subseteq> P1" "kids_in pool P i \<longrightarrow> i \<in> P1"
    using aabb_visit_result [OF pre Cons.prems(1), of i] Cons.prems(2) by auto
  obtain st2 P2 where 2: "aabb_pass s nx is st1 = Inr st2" "ab_inv s pool L P2 st2" "P1 \<subseteq> P2"
      "\<forall>j \<in> set is. kids_in pool P1 j \<longrightarrow> j \<in> P2"
    using Cons.IH [OF 1(2)] Cons.prems(2) by auto
  have "kids_in pool P j \<Longrightarrow> kids_in pool P1 j" for j using 1(3) by (auto simp: kids_in_def)
  then show ?case using 1 2 by (intro exI [of _ st2] exI [of _ P2]) auto
qed auto

lemma aabb_loop_result:
  assumes pre: "ab_pre s nx pool L"
  shows "ab_inv s pool L P st \<Longrightarrow> length pool - card P < fuel \<Longrightarrow>
    \<exists>st'. aabb_loop fuel s nx st = Inr st' \<and> ab_inv s pool L {..<length pool} st'"
proof (induction fuel arbitrary: P st)
  case (Suc fuel)
  have P: "P \<subseteq> {..<length pool}" "ab_done st = card P" "length (ab_pool st) = length pool"
    using Suc.prems(1) by (simp_all add: ab_inv_def)
  show ?case
  proof (cases "card P < length pool")
    case True
    obtain st' P' where 1: "aabb_pass s nx [0..<length pool] st = Inr st'" "ab_inv s pool L P' st'" "P \<subseteq> P'"
        "\<forall>i \<in> set [0..<length pool]. kids_in pool P i \<longrightarrow> i \<in> P'"
      using aabb_pass_result [OF pre Suc.prems(1), of "[0..<length pool]"] by auto
    let ?U = "{..<length pool} - P"
    have "?U \<noteq> {}" using True P(1) card_mono [of P "{..<length pool}"] finite_subset [OF P(1)] by auto
    then have m: "Max ?U \<in> ?U" by (intro Max_in) simp_all
    have "kids_in pool P (Max ?U)"
      unfolding kids_in_def
    proof (intro allI impI)
      fix c k :: nat assume c: "cell_first_child (pool ! Max ?U) = Some c" and k: "k < 8"
      have "children_ok pool (Max ?U) c" using pre m skel_okD(4) [OF _ _ c] by (simp add: ab_pre_def)
      then have "Max ?U < c + k" "c + k < length pool" using k by (auto simp: children_ok_def)
      then show "c + k \<in> P" using Max_ge [of ?U "c + k"] by fastforce
    qed
    then have "Max ?U \<in> P'" using 1(4) m by simp
    then have "P \<subset> P'" using 1(3) m by auto
    moreover have "finite P'" using 1(2) finite_subset by (auto simp: ab_inv_def)
    ultimately have "card P < card P'" by (simp add: psubset_card_mono)
    then have "length pool - card P' < fuel" using Suc.prems(2) True by simp
    then show ?thesis using Suc.IH [OF 1(2)] 1(1) True P(2,3) by simp
  next
    case False
    then have "P = {..<length pool}" using P(1) card_subset_eq [of "{..<length pool}" P] card_mono [OF _ P(1)] by simp
    then show ?thesis using False P Suc.prems(1) by auto
  qed
qed simp

lemma ab_start_inv: "ab_pre s nx pool L \<Longrightarrow> ab_inv s pool L {} (aabb_start pool)"
  unfolding ab_inv_def ab_pre_def
  by (auto simp: aabb_start_def count_of_def same_links_def vfl_def box_ok_def dest!: skel_okD(3) split: prod.splits option.splits)

lemma update_boxes_result:
  assumes "ab_pre s (rt_next rt) (rt_pool rt) L"
  shows "\<exists>rt'. update_boxes s rt = Inr rt' \<and> rt_next rt' = rt_next rt \<and> length (rt_pool rt') = length (rt_pool rt)
    \<and> (\<forall>i < length (rt_pool rt). same_links (rt_pool rt' ! i) (rt_pool rt ! i) \<and> vfl (cell_bot (rt_pool rt' ! i))
        \<and> vfl (cell_top (rt_pool rt' ! i)) \<and> covered s L (rt_pool rt') i)"
proof -
  obtain st where st: "aabb_loop (Suc (length (rt_pool rt))) s (rt_next rt) (aabb_start (rt_pool rt)) = Inr st"
      "ab_inv s (rt_pool rt) L {..<length (rt_pool rt)} st"
    using aabb_loop_result [OF assms ab_start_inv [OF assms], of "Suc (length (rt_pool rt))"] by auto
  have "update_boxes s rt = Inr (rt\<lparr>rt_pool := ab_pool st\<rparr>)" using st(1) by (simp add: update_boxes_def)
  then show ?thesis using st(2) unfolding ab_inv_def by auto
qed

text \<open>C24. After the passes over the pool, which always come to an end, every cell's box covers what is
  below it: a leaf covers the smoothing spheres of its particles, with the rounding of their corners,
  and an inner cell covers the boxes of its eight children; the links of the tree are untouched.\<close>

theorem octree_boxes_cover:
  assumes "skel_ok (rt_pool rt)" and "lists_ok s rt {..<length (rt_pool rt)} L"
    and "length (rt_next rt) \<le> length (psys_pos s)" and "length (rt_next rt) \<le> length (psys_sml s)"
  shows "\<exists>rt'. update_boxes s rt = Inr rt' \<and> rt_next rt' = rt_next rt \<and> length (rt_pool rt') = length (rt_pool rt)
    \<and> (\<forall>i < length (rt_pool rt). same_links (rt_pool rt' ! i) (rt_pool rt ! i) \<and> covered s L (rt_pool rt') i)"
proof -
  have "chain (rt_next rt) (cell_head_par (rt_pool rt ! i)) (L i) \<and> length (L i) \<le> length (rt_next rt)
      \<and> (cell_first_child (rt_pool rt ! i) \<noteq> None \<longrightarrow> L i = [])" if "i < length (rt_pool rt)" for i
  proof -
    have l: "list_ok s rt i (L i)" using assms(2) that by (simp add: lists_ok_def)
    then have "chain (rt_next rt) (cell_head_par (rt_pool rt ! i)) (L i)" "distinct (L i)" by (simp_all add: list_ok_def)
    then show ?thesis using chain_length l by (simp add: list_ok_def)
  qed
  then have "ab_pre s (rt_next rt) (rt_pool rt) L" using assms(1,3,4) by (simp add: ab_pre_def)
  then show ?thesis using update_boxes_result by blast
qed

definition one_leaf :: raytrace where
  "one_leaf = \<lparr>rt_next = [None], rt_pool = [(root_cell one_particle)\<lparr>cell_head_par := Some 0, cell_npar := 1\<rparr>],
     rt_pool_size = 16, rt_room = 1000\<rparr>"

lemma one_leaf_ok: "skel_ok (rt_pool one_leaf)" "lists_ok one_particle one_leaf {..<length (rt_pool one_leaf)} (\<lambda>i. [0])"
  by (simp_all add: one_leaf_def skel_ok_def box_ok_def root_cell_def lists_ok_def list_ok_def in_cell_def in_box_def)

lemma octree_boxes_cover_witness:
  "\<exists>rt'. update_boxes one_particle one_leaf = Inr rt' \<and> covers (cell_bot (rt_pool rt' ! 0)) (cell_top (rt_pool rt' ! 0)) (0, 1, 2) (2, 3, 4)"
proof -
  have l: "length (rt_next one_leaf) \<le> length (psys_pos one_particle)" "length (rt_next one_leaf) \<le> length (psys_sml one_particle)"
    by (simp_all add: one_leaf_def one_particle_def psys_of_def)
  obtain rt' where rt': "update_boxes one_particle one_leaf = Inr rt'"
      "\<forall>i < length (rt_pool one_leaf). same_links (rt_pool rt' ! i) (rt_pool one_leaf ! i) \<and> covered one_particle (\<lambda>i. [0]) (rt_pool rt') i"
    using octree_boxes_cover [OF one_leaf_ok l] by blast
  have "covered one_particle (\<lambda>i. [0]) (rt_pool rt') 0" using rt'(2) by (simp add: one_leaf_def)
  moreover have "psys_sml one_particle = [1]" by (simp add: one_particle_def psys_of_def particle_at_def)
  then have "sphere_lo one_particle 0 = (0, 1, 2)" "sphere_hi one_particle 0 = (2, 3, 4)"
    by (simp_all add: sphere_lo_def sphere_hi_def)
  ultimately show ?thesis using rt'(1) by (auto simp: covered_def)
qed


end
