(* ===== verification/Ray_Trace.thy ===== *)
theory Ray_Trace
  imports Octree_Boxes Pluecker
begin

text \<open>
  \<open>rt_trace\<close> of \<open>src/src/raytrace.c\<close>: the walk over the octree that collects the particles a ray
  passes. The loop moves to the first child of a cell that the ray hits, and otherwise to the next
  sibling of the cell or of its closest ancestor that has one (\<open>next_cell\<close>). It is a
  \<open>partial_function\<close>; that it ends on every well-linked tree is part of the theorems.
  The particles found are appended to the caller's array, which doubles when it is full.
\<close>

section \<open>The walk\<close>

record xtype =
  x_ipar :: nat
  x_d :: real
  x_b :: real

text \<open>The caller's array: the entries written so far and the number allocated.\<close>

type_synonym xbuf = "xtype list \<times> nat"

definition push :: "xtype \<Rightarrow> xbuf \<Rightarrow> xbuf res" where
  "push x = (\<lambda>(xs, sz).
     let sz' = (if length xs = sz then sz * 2 else sz)
     in if length xs \<ge> sz' then Inl Out_of_bounds else Inr (xs @ [x], sz'))"

definition sibling :: "raytrace \<Rightarrow> nat \<Rightarrow> nat option res" where
  "sibling rt icell =
     rbind (parent rt icell) (\<lambda>p. case p of
       None \<Rightarrow> Inr None
     | Some p \<Rightarrow> rbind (cell_at rt p) (\<lambda>c.
         let ichild = int icell - (case cell_first_child c of None \<Rightarrow> - 1 | Some k \<Rightarrow> int k)
         in Inr (if ichild = 7 then None else Some (icell + 1))))"

definition hit :: "raytrace \<Rightarrow> vec3 \<Rightarrow> vec3 \<Rightarrow> real \<Rightarrow> nat \<Rightarrow> bool res" where
  "hit rt src dir len icell =
     rbind (cell_at rt icell) (\<lambda>c.
       let sub = (\<lambda>(a0, a1, a2). case src of (s0, s1, s2) \<Rightarrow> (fl (a0 - s0), fl (a1 - s1), fl (a2 - s2)))
       in Inr (pluecker dir len (sub (cell_bot c)) (sub (cell_top c))))"

text \<open>Distance and projection of a particle, in doubles over float differences and products.\<close>

definition ray_dist_proj :: "vec3 \<Rightarrow> vec3 \<Rightarrow> vec3 \<Rightarrow> real \<times> real" where
  "ray_dist_proj = (\<lambda>(s0, s1, s2) (d0, d1, d2) (p0, p1, p2).
     let dd0 = fl (p0 - s0); dd1 = fl (p1 - s1); dd2 = fl (p2 - s2);
         proj = db (db (db (0 + fl (dd0 * d0)) + fl (dd1 * d1)) + fl (dd2 * d2));
         dist2 = db (db (db (0 + fl (dd0 * dd0)) + fl (dd1 * dd1)) + fl (dd2 * dd2))
     in (db (sqrt dist2), proj))"

definition impact :: "psystem \<Rightarrow> vec3 \<Rightarrow> vec3 \<Rightarrow> nat \<Rightarrow> real \<times> real" where
  "impact s src dir ipar =
     (let (dist, proj) = ray_dist_proj src dir (psys_pos s ! ipar)
      in (dist, db (db (dist - proj) * db (dist + proj))))"

definition misses :: "psystem \<Rightarrow> vec3 \<Rightarrow> vec3 \<Rightarrow> nat \<Rightarrow> bool" where
  "misses s src dir ipar \<longleftrightarrow> fl (psys_sml s ! ipar * psys_sml s ! ipar) < snd (impact s src dir ipar)"

definition xrec :: "psystem \<Rightarrow> vec3 \<Rightarrow> vec3 \<Rightarrow> nat \<Rightarrow> xtype" where
  "xrec s src dir ipar =
     (let (dist, r2) = impact s src dir ipar in \<lparr>x_ipar = ipar, x_d = dist, x_b = db (sqrt \<bar>r2\<bar>)\<rparr>)"

fun trace_leaf :: "nat \<Rightarrow> psystem \<Rightarrow> nat option list \<Rightarrow> vec3 \<Rightarrow> vec3 \<Rightarrow> nat option \<Rightarrow> xbuf \<Rightarrow> xbuf res" where
  "trace_leaf fuel s nx src dir None buf = Inr buf"
| "trace_leaf 0 s nx src dir (Some ipar) buf = Inl Hang"
| "trace_leaf (Suc fuel) s nx src dir (Some ipar) buf =
     (if ipar \<ge> length nx \<or> ipar \<ge> length (psys_pos s) \<or> ipar \<ge> length (psys_sml s) \<or> ipar \<ge> length (psys_flag s)
      then Inl Out_of_bounds
      else if invalid s ipar \<or> misses s src dir ipar then trace_leaf fuel s nx src dir (nx ! ipar) buf
      else rbind (push (xrec s src dir ipar) buf) (trace_leaf fuel s nx src dir (nx ! ipar)))"

text \<open>\<open>while(icell != 0) { next = sibling(icell); if(next != -1) break; icell = parent(icell); }\<close>\<close>

fun next_cell :: "nat \<Rightarrow> raytrace \<Rightarrow> nat \<Rightarrow> nat option res" where
  "next_cell 0 rt icell = Inl Hang"
| "next_cell (Suc fuel) rt icell =
     (if icell = 0 then Inr None
      else rbind (sibling rt icell) (\<lambda>nxt. case nxt of
          Some j \<Rightarrow> Inr (Some j)
        | None \<Rightarrow> rbind (parent rt icell) (\<lambda>p. case p of
              None \<Rightarrow> Inl Out_of_bounds
            | Some i \<Rightarrow> next_cell fuel rt i)))"

text \<open>One turn of the outer loop: what is done at a cell, and the cell that follows.\<close>

definition trace_step :: "psystem \<Rightarrow> raytrace \<Rightarrow> vec3 \<Rightarrow> vec3 \<Rightarrow> real \<Rightarrow> nat \<Rightarrow> xbuf \<Rightarrow> (nat option \<times> xbuf) res" where
  "trace_step s rt src dir len icell buf =
     rbind (cell_at rt icell) (\<lambda>c.
     rbind (hit rt src dir len icell) (\<lambda>h.
       case (h, cell_first_child c) of
         (True, Some k) \<Rightarrow> Inr (Some k, buf)
       | _ \<Rightarrow> rbind (if h then trace_leaf (length (rt_next rt)) s (rt_next rt) src dir (cell_head_par c) buf else Inr buf) (\<lambda>buf'.
           rbind (next_cell (Suc (length (rt_pool rt))) rt icell) (\<lambda>nxt. Inr (nxt, buf')))))"

partial_function (option) trace_loop ::
    "psystem \<Rightarrow> raytrace \<Rightarrow> vec3 \<Rightarrow> vec3 \<Rightarrow> real \<Rightarrow> nat option \<Rightarrow> xbuf \<Rightarrow> xbuf res option" where
  "trace_loop s rt src dir len ocell buf =
     (case ocell of
        None \<Rightarrow> Some (Inr buf)
      | Some icell \<Rightarrow>
          (case trace_step s rt src dir len icell buf of
             Inl e \<Rightarrow> Some (Inl e)
           | Inr (nxt, buf') \<Rightarrow> trace_loop s rt src dir len nxt buf'))"

text \<open>A null array is allocated with 1000 entries; the length returned is the number written.\<close>

definition rt_trace :: "psystem \<Rightarrow> raytrace \<Rightarrow> vec3 \<Rightarrow> vec3 \<Rightarrow> real \<Rightarrow> nat option \<Rightarrow> xbuf res option" where
  "rt_trace s rt src dir len sz =
     trace_loop s rt src dir len (Some 0) ([], case sz of None \<Rightarrow> 1000 | Some n \<Rightarrow> n)"

section \<open>Siblings and successors\<close>

definition links_ok :: "cell list \<Rightarrow> bool" where
  "links_ok pool \<longleftrightarrow> pool \<noteq> [] \<and> cell_parent (pool ! 0) = None
     \<and> (\<forall>i < length pool. \<forall>c. cell_first_child (pool ! i) = Some c \<longrightarrow> i < c \<and> c + 8 \<le> length pool
          \<and> (\<forall>k < 8. cell_parent (pool ! (c + k)) = Some i))
     \<and> (\<forall>i < length pool. 0 < i \<longrightarrow> (\<exists>p c. p < i \<and> cell_parent (pool ! i) = Some p
          \<and> cell_first_child (pool ! p) = Some c \<and> c \<le> i \<and> i < c + 8))"

lemma links_okD:
  assumes "links_ok pool"
  shows "0 < length pool" "cell_parent (pool ! 0) = None"
    and "i < length pool \<Longrightarrow> cell_first_child (pool ! i) = Some c \<Longrightarrow> i < c \<and> c + 8 \<le> length pool"
    and "i < length pool \<Longrightarrow> cell_first_child (pool ! i) = Some c \<Longrightarrow> k < 8 \<Longrightarrow> cell_parent (pool ! (c + k)) = Some i"
    and "i < length pool \<Longrightarrow> 0 < i \<Longrightarrow> \<exists>p c. p < i \<and> cell_parent (pool ! i) = Some p
          \<and> cell_first_child (pool ! p) = Some c \<and> c \<le> i \<and> i < c + 8"
  using assms by (simp_all add: links_ok_def)

lemma skel_links_ok:
  assumes sk: "skel_ok pool" and len: "length pool' = length pool"
    and l: "\<And>i. i < length pool \<Longrightarrow> same_links (pool' ! i) (pool ! i)"
  shows "links_ok pool'"
proof -
  note ok = skel_okD [OF sk]
  have e: "cell_first_child (pool' ! i) = cell_first_child (pool ! i)" "cell_parent (pool' ! i) = cell_parent (pool ! i)"
    if "i < length pool" for i using l [OF that] by (simp_all add: same_links_def)
  show ?thesis
    unfolding links_ok_def
  proof (intro conjI allI impI)
    show "pool' \<noteq> []" using ok(1) len by auto
    show "cell_parent (pool' ! 0) = None" using e(2) [OF ok(1)] ok(2) by simp
    fix i assume i: "i < length pool'"
    {
      fix c assume "cell_first_child (pool' ! i) = Some c"
      then have c: "children_ok pool i c" using ok(4) [of i c] e(1) [of i] i len by simp
      then show "i < c" "c + 8 \<le> length pool'" using len by (simp_all add: children_ok_def)
      fix k :: nat assume "k < 8"
      then show "cell_parent (pool' ! (c + k)) = Some i" using c e(2) [of "c + k"] by (simp add: children_ok_def)
    }
    assume "0 < i"
    then obtain p c where p: "p < i" "cell_parent (pool ! i) = Some p" "cell_first_child (pool ! p) = Some c" "c \<le> i" "i < c + 8"
      using ok(5) [of i] i len by auto
    then show "\<exists>p c. p < i \<and> cell_parent (pool' ! i) = Some p \<and> cell_first_child (pool' ! p) = Some c \<and> c \<le> i \<and> i < c + 8"
      using e [of i] e [of p] i len by (intro exI [of _ p] exI [of _ c]) simp
  qed
qed

lemma sibling_child:
  assumes "links_ok (rt_pool rt)" and "i < length (rt_pool rt)" and "cell_first_child (rt_pool rt ! i) = Some c" and "k < 8"
  shows "sibling rt (c + k) = Inr (if k = 7 then None else Some (c + k + 1))"
proof -
  have "c + k < length (rt_pool rt)" using links_okD(3) [OF assms(1-3)] assms(4) by simp
  moreover have "cell_parent (rt_pool rt ! (c + k)) = Some i" by (rule links_okD(4) [OF assms])
  ultimately show ?thesis using assms(2,3) by (simp add: sibling_def parent_def cell_at_def)
qed

lemma next_cell_fuel:
  assumes "links_ok (rt_pool rt)"
  shows "i < length (rt_pool rt) \<Longrightarrow> i < f \<Longrightarrow> i < g \<Longrightarrow> next_cell f rt i = next_cell g rt i"
proof (induction f arbitrary: i g)
  case (Suc f)
  obtain g' where g: "g = Suc g'" using Suc.prems(3) by (cases g) auto
  show ?case
  proof (cases "i = 0")
    case False
    then obtain p where p: "p < i" "cell_parent (rt_pool rt ! i) = Some p"
      using links_okD(5) [OF assms Suc.prems(1)] by blast
    have "next_cell f rt p = next_cell g' rt p" using Suc.IH [of p g'] p(1) Suc.prems g by simp
    then show ?thesis using p Suc.prems(1) False by (simp add: g parent_def cell_at_def)
  qed (simp add: g)
qed simp

definition after :: "raytrace \<Rightarrow> nat \<Rightarrow> nat option res" where
  "after rt i = next_cell (Suc (length (rt_pool rt))) rt i"

lemma after_root: "after rt 0 = Inr None"
  by (simp add: after_def)

lemma after_child:
  assumes "links_ok (rt_pool rt)" and "i < length (rt_pool rt)" and "cell_first_child (rt_pool rt ! i) = Some c" and "k < 8"
  shows "after rt (c + k) = (if k = 7 then after rt i else Inr (Some (c + k + 1)))"
proof -
  have c: "c + k < length (rt_pool rt)" "i < c" using links_okD(3) [OF assms(1-3)] assms(4) by simp_all
  have p: "cell_parent (rt_pool rt ! (c + k)) = Some i" by (rule links_okD(4) [OF assms])
  have up: "next_cell (length (rt_pool rt)) rt i = after rt i"
    unfolding after_def by (rule next_cell_fuel [OF assms(1,2)]) (use assms(2) in simp_all)
  have "c + k \<noteq> 0" "parent rt (c + k) = Inr (Some i)" using c p by (simp_all add: parent_def cell_at_def)
  then have "after rt (c + k) = (if k = 7 then next_cell (length (rt_pool rt)) rt i else Inr (Some (c + k + 1)))"
    using sibling_child [OF assms] by (cases "k = 7") (simp_all add: after_def)
  then show ?thesis unfolding up .
qed

section \<open>The particles of a leaf\<close>

definition found :: "psystem \<Rightarrow> vec3 \<Rightarrow> vec3 \<Rightarrow> nat \<Rightarrow> bool" where
  "found s src dir p \<longleftrightarrow> \<not> invalid s p \<and> \<not> misses s src dir p"

fun pushes :: "xtype list \<Rightarrow> xbuf \<Rightarrow> xbuf" where
  "pushes [] buf = buf"
| "pushes (y # ys) (xs, sz) = pushes ys (xs @ [y], if length xs = sz then sz * 2 else sz)"

definition buf_ok :: "xbuf \<Rightarrow> bool" where
  "buf_ok = (\<lambda>(xs, sz). length xs \<le> sz \<and> 0 < sz)"

lemma push_pushes: "buf_ok buf \<Longrightarrow> push x buf = Inr (pushes [x] buf) \<and> buf_ok (pushes [x] buf)"
  by (cases buf) (auto simp: buf_ok_def push_def)

lemma pushes_append: "pushes (xs @ ys) buf = pushes ys (pushes xs buf)"
  by (induction xs buf rule: pushes.induct) simp_all

lemma fst_pushes: "fst (pushes ys buf) = fst buf @ ys"
  by (induction ys buf rule: pushes.induct) simp_all

lemma pushes_ok: "buf_ok buf \<Longrightarrow> buf_ok (pushes ys buf)"
proof (induction ys arbitrary: buf)
  case (Cons y ys)
  then show ?case using push_pushes [OF Cons.prems, of y] pushes_append [of "[y]" ys buf] by simp
qed simp

definition trace_pre :: "psystem \<Rightarrow> raytrace \<Rightarrow> (nat \<Rightarrow> nat list) \<Rightarrow> bool" where
  "trace_pre s rt L \<longleftrightarrow> links_ok (rt_pool rt) \<and> length (rt_next rt) \<le> length (psys_pos s)
     \<and> length (rt_next rt) \<le> length (psys_sml s) \<and> length (rt_next rt) \<le> length (psys_flag s)
     \<and> (\<forall>i < length (rt_pool rt). chain (rt_next rt) (cell_head_par (rt_pool rt ! i)) (L i) \<and> length (L i) \<le> length (rt_next rt))"

lemma trace_leaf_result:
  assumes "length nx \<le> length (psys_pos s)" "length nx \<le> length (psys_sml s)" "length nx \<le> length (psys_flag s)"
  shows "chain nx h xs \<Longrightarrow> length xs \<le> fuel \<Longrightarrow> buf_ok buf \<Longrightarrow>
    trace_leaf fuel s nx src dir h buf = Inr (pushes (map (xrec s src dir) (filter (found s src dir) xs)) buf)"
proof (induction xs arbitrary: fuel h buf)
  case (Cons x xs)
  obtain f where f: "fuel = Suc f" using Cons.prems(2) by (cases fuel) auto
  have x: "h = Some x" "x < length nx" "chain nx (nx ! x) xs" "length xs \<le> f" using Cons.prems(1,2) f by auto
  show ?case
  proof (cases "found s src dir x")
    case True
    have b: "push (xrec s src dir x) buf = Inr (pushes [xrec s src dir x] buf)" "buf_ok (pushes [xrec s src dir x] buf)"
      using push_pushes [OF Cons.prems(3)] by blast+
    have "trace_leaf fuel s nx src dir h buf = trace_leaf f s nx src dir (nx ! x) (pushes [xrec s src dir x] buf)"
      using True x(1,2) assms b(1) by (simp add: f found_def)
    also have "\<dots> = Inr (pushes (map (xrec s src dir) (filter (found s src dir) xs)) (pushes [xrec s src dir x] buf))"
      by (rule Cons.IH [OF x(3,4) b(2)])
    also have "\<dots> = Inr (pushes (map (xrec s src dir) (filter (found s src dir) (x # xs))) buf)"
      using True by (simp only: filter.simps if_True list.map pushes_append [symmetric] append_Cons append_Nil)
    finally show ?thesis .
  next
    case False
    then show ?thesis using Cons.IH [OF x(3,4) Cons.prems(3)] x(1,2) assms by (auto simp: f found_def)
  qed
qed simp

section \<open>The leaves the walk visits\<close>

definition hits_cell :: "raytrace \<Rightarrow> vec3 \<Rightarrow> vec3 \<Rightarrow> real \<Rightarrow> nat \<Rightarrow> bool" where
  "hits_cell rt src dir len i \<longleftrightarrow> hit rt src dir len i = Inr True"

lemma hit_hits_cell: "i < length (rt_pool rt) \<Longrightarrow> hit rt src dir len i = Inr (hits_cell rt src dir len i)"
  by (simp add: hits_cell_def hit_def cell_at_def Let_def)

fun walk :: "nat \<Rightarrow> cell list \<Rightarrow> (nat \<Rightarrow> bool) \<Rightarrow> nat \<Rightarrow> nat list" where
  "walk 0 pool h i = []"
| "walk (Suc fuel) pool h i =
     (if h i then case cell_first_child (pool ! i) of
          None \<Rightarrow> [i]
        | Some c \<Rightarrow> concat (map (\<lambda>k. walk fuel pool h (c + k)) [0..<8])
      else [])"

definition found_in :: "psystem \<Rightarrow> vec3 \<Rightarrow> vec3 \<Rightarrow> (nat \<Rightarrow> nat list) \<Rightarrow> nat list \<Rightarrow> xtype list" where
  "found_in s src dir L is = map (xrec s src dir) (filter (found s src dir) (concat (map L is)))"

lemma found_in_append: "found_in s src dir L (is @ js) = found_in s src dir L is @ found_in s src dir L js"
  by (simp add: found_in_def)

definition continue :: "psystem \<Rightarrow> raytrace \<Rightarrow> vec3 \<Rightarrow> vec3 \<Rightarrow> real \<Rightarrow> nat option res \<Rightarrow> xbuf \<Rightarrow> xbuf res option" where
  "continue s rt src dir len r buf = (case r of Inl e \<Rightarrow> Some (Inl e) | Inr nxt \<Rightarrow> trace_loop s rt src dir len nxt buf)"

lemma trace_subtree:
  assumes pre: "trace_pre s rt L"
  shows "i < length (rt_pool rt) \<Longrightarrow> length (rt_pool rt) - i < fuel \<Longrightarrow> buf_ok buf \<Longrightarrow>
    trace_loop s rt src dir len (Some i) buf = continue s rt src dir len (after rt i)
      (pushes (found_in s src dir L (walk fuel (rt_pool rt) (hits_cell rt src dir len) i)) buf)"
proof (induction fuel arbitrary: i buf)
  case (Suc fuel)
  let ?h = "hits_cell rt src dir len" and ?n = "length (rt_pool rt)"
  let ?w = "\<lambda>i. walk fuel (rt_pool rt) ?h i" and ?f = "found_in s src dir L"
  have lk: "links_ok (rt_pool rt)" using pre by (simp add: trace_pre_def)
  have ch: "chain (rt_next rt) (cell_head_par (rt_pool rt ! i)) (L i)" "length (L i) \<le> length (rt_next rt)"
      "length (rt_next rt) \<le> length (psys_pos s)" "length (rt_next rt) \<le> length (psys_sml s)" "length (rt_next rt) \<le> length (psys_flag s)"
    using pre Suc.prems(1) by (simp_all add: trace_pre_def)
  note hit = hit_hits_cell [OF Suc.prems(1), of src dir len]
  have aft: "next_cell (Suc ?n) rt i = after rt i" by (simp only: after_def)
  have stop: "trace_loop s rt src dir len (Some i) buf = continue s rt src dir len (after rt i) buf'"
    if "trace_step s rt src dir len i buf = rbind (after rt i) (\<lambda>nxt. Inr (nxt, buf'))" for buf'
    using that by (subst trace_loop.simps) (cases "after rt i"; simp add: continue_def)
  show ?case
  proof (cases "?h i")
    case False
    then show ?thesis
      using stop [of buf] hit Suc.prems(1) aft by (simp add: trace_step_def cell_at_def found_in_def del: next_cell.simps)
  next
    case h: True
    show ?thesis
    proof (cases "cell_first_child (rt_pool rt ! i)")
      case None
      have "trace_leaf (length (rt_next rt)) s (rt_next rt) src dir (cell_head_par (rt_pool rt ! i)) buf = Inr (pushes (?f [i]) buf)"
        using trace_leaf_result [OF ch(3-5,1,2) Suc.prems(3)] by (simp add: found_in_def)
      then show ?thesis
        using stop [of "pushes (?f [i]) buf"] hit Suc.prems(1) aft h None by (simp add: trace_step_def cell_at_def del: next_cell.simps)
    next
      case (Some c)
      have c: "i < c" "c + 8 \<le> ?n" using links_okD(3) [OF lk Suc.prems(1) Some] by simp_all
      have kids: "trace_loop s rt src dir len (Some (c + k)) b = continue s rt src dir len (after rt i)
          (pushes (?f (concat (map (\<lambda>k. ?w (c + k)) [k..<8]))) b)" if "k < 8" "buf_ok b" for k b
        using that
      proof (induction "7 - k" arbitrary: k b)
        case 0
        then have k: "k = 7" by simp
        have "trace_loop s rt src dir len (Some (c + 7)) b = continue s rt src dir len (after rt (c + 7)) (pushes (?f (?w (c + 7))) b)"
          by (rule Suc.IH) (use c Suc.prems(2) 0 in auto)
        then show ?case using after_child [OF lk Suc.prems(1) Some, of 7] by (simp add: k upt_rec)
      next
        case (Suc d)
        have lt: "k < 7" "d = 7 - Suc k" "Suc k < 8" using Suc.hyps(2) by simp_all
        have "trace_loop s rt src dir len (Some (c + k)) b = continue s rt src dir len (after rt (c + k)) (pushes (?f (?w (c + k))) b)"
          by (rule \<open>\<And>i buf. i < ?n \<Longrightarrow> ?n - i < fuel \<Longrightarrow> buf_ok buf \<Longrightarrow> trace_loop s rt src dir len (Some i) buf
              = continue s rt src dir len (after rt i) (pushes (?f (?w i)) buf)\<close>)
            (use c \<open>?n - i < Suc fuel\<close> Suc.prems in auto)
        also have "\<dots> = trace_loop s rt src dir len (Some (c + Suc k)) (pushes (?f (?w (c + k))) b)"
          using after_child [OF lk \<open>i < ?n\<close> Some, of k] lt(1) by (simp add: continue_def)
        also have "\<dots> = continue s rt src dir len (after rt i)
          (pushes (?f (concat (map (\<lambda>k. ?w (c + k)) [Suc k..<8]))) (pushes (?f (?w (c + k))) b))"
          by (rule Suc.hyps(1) [OF lt(2,3) pushes_ok [OF Suc.prems(2)]])
        also have "\<dots> = continue s rt src dir len (after rt i) (pushes (?f (concat (map (\<lambda>k. ?w (c + k)) [k..<8]))) b)"
          using upt_conv_Cons [of k 8] Suc.prems(1) by (simp add: found_in_append pushes_append)
        finally show ?case .
      qed
      have "trace_loop s rt src dir len (Some i) buf = trace_loop s rt src dir len (Some (c + 0)) buf"
        using hit h Some Suc.prems(1) by (subst trace_loop.simps) (simp add: trace_step_def cell_at_def)
      also have "\<dots> = continue s rt src dir len (after rt i) (pushes (?f (walk (Suc fuel) (rt_pool rt) ?h i)) buf)"
        using kids [OF _ Suc.prems(3), of 0] h Some by simp
      finally show ?thesis .
    qed
  qed
qed simp

definition leaves_hit :: "raytrace \<Rightarrow> vec3 \<Rightarrow> vec3 \<Rightarrow> real \<Rightarrow> nat list" where
  "leaves_hit rt src dir len = walk (Suc (length (rt_pool rt))) (rt_pool rt) (hits_cell rt src dir len) 0"

lemma rt_trace_result:
  assumes "trace_pre s rt L" and "sz \<noteq> Some 0"
  shows "\<exists>n>0. rt_trace s rt src dir len sz = Some (Inr (found_in s src dir L (leaves_hit rt src dir len), n))"
proof -
  let ?b = "([], case sz of None \<Rightarrow> 1000 | Some n \<Rightarrow> n) :: xbuf"
  let ?xs = "found_in s src dir L (leaves_hit rt src dir len)"
  have b: "buf_ok ?b" using assms(2) by (cases sz) (auto simp: buf_ok_def)
  have "0 < length (rt_pool rt)" using assms(1) links_okD(1) by (simp add: trace_pre_def)
  then have "rt_trace s rt src dir len sz = continue s rt src dir len (after rt 0) (pushes ?xs ?b)"
    unfolding rt_trace_def leaves_hit_def by (intro trace_subtree [OF assms(1) _ _ b]) simp_all
  also have "\<dots> = Some (Inr (pushes ?xs ?b))"
    by (simp add: after_root continue_def trace_loop.simps)
  finally have result: "rt_trace s rt src dir len sz = Some (Inr (pushes ?xs ?b))" .
  have "fst (pushes ?xs ?b) = ?xs" using fst_pushes [of ?xs ?b] by simp
  moreover have "0 < snd (pushes ?xs ?b)" using pushes_ok [OF b, of ?xs] by (auto simp: buf_ok_def)
  ultimately show ?thesis using result by (metis prod.collapse)
qed

section \<open>No particle is lost\<close>

lemma walk_less:
  assumes "links_ok pool"
  shows "i < length pool \<Longrightarrow> l \<in> set (walk fuel pool h i) \<Longrightarrow> l < length pool \<and> cell_first_child (pool ! l) = None"
proof (induction fuel arbitrary: i)
  case (Suc fuel)
  show ?case
  proof (cases "cell_first_child (pool ! i)")
    case None
    then show ?thesis using Suc.prems by (simp split: if_splits)
  next
    case (Some c)
    then obtain k where "k < 8" "l \<in> set (walk fuel pool h (c + k))" using Suc.prems(2) by (auto split: if_splits)
    then show ?thesis using Suc.IH [of "c + k"] links_okD(3) [OF assms Suc.prems(1) Some] by simp
  qed
qed simp

text \<open>A cell that is hit, with all the cells above it, is reached.\<close>

lemma walk_reaches:
  assumes "links_ok pool"
  shows "i < length pool \<Longrightarrow> P i \<Longrightarrow> (\<And>j. j < length pool \<Longrightarrow> P j \<Longrightarrow> h j) \<Longrightarrow>
    (\<And>j c k. j < length pool \<Longrightarrow> cell_first_child (pool ! j) = Some c \<Longrightarrow> k < 8 \<Longrightarrow> P (c + k) \<Longrightarrow> P j) \<Longrightarrow>
    \<exists>g. length pool - i < g \<and> set (walk g pool h i) \<subseteq> set (walk (Suc (length pool)) pool h 0)"
proof (induction i rule: less_induct)
  case (less i)
  show ?case
  proof (cases "i = 0")
    case False
    then obtain p c where p: "p < i" "cell_first_child (pool ! p) = Some c" "c \<le> i" "i < c + 8"
      using links_okD(5) [OF assms less.prems(1)] by blast
    have "P p" using less.prems(4) [of p c "i - c"] less.prems(1,2) p by simp
    then obtain g where g: "length pool - p < g" "set (walk g pool h p) \<subseteq> set (walk (Suc (length pool)) pool h 0)"
      using less.IH [OF p(1)] less.prems p(1) by force
    obtain g' where g': "g = Suc g'" using g(1) by (cases g) auto
    have "h p" using less.prems(1,3) \<open>P p\<close> p(1) by simp
    moreover have "i - c \<in> set [0..<8]" "c + (i - c) = i" using p(3,4) by auto
    ultimately have "set (walk g' pool h i) \<subseteq> set (walk g pool h p)"
      using p(2) unfolding g' by (auto intro!: bexI [of _ "i - c"])
    moreover have "length pool - i < g'" using g(1) p(1) less.prems(1) unfolding g' by simp
    ultimately show ?thesis using g(2) by blast
  qed (intro exI [of _ "Suc (length pool)"], simp)
qed

lemma meets_mono:
  assumes "meets d len b t" and "vle b' b" "vle t t'"
  shows "meets d len b' t'"
  using assms unfolding meets_def vle_def by (cases b; cases t; cases b'; cases t'; cases d) (simp; meson order_trans)

definition relative :: "vec3 \<Rightarrow> vec3 \<Rightarrow> vec3" where
  "relative src a = (case (src, a) of ((s0, s1, s2), (a0, a1, a2)) \<Rightarrow> (fl (a0 - s0), fl (a1 - s1), fl (a2 - s2)))"

lemma relative_mono: "vle a b \<Longrightarrow> vle (relative src a) (relative src b)"
  by (cases a; cases b; cases src) (simp add: vle_def relative_def fl.mono)

lemma hits_cell_pluecker:
  "i < length (rt_pool rt) \<Longrightarrow> hits_cell rt src dir len i
     \<longleftrightarrow> pluecker dir len (relative src (cell_bot (rt_pool rt ! i))) (relative src (cell_top (rt_pool rt ! i)))"
  by (simp add: hits_cell_def hit_def cell_at_def Let_def relative_def split: prod.splits)

lemma hits_cell_meets:
  assumes "i < length (rt_pool rt)"
    and "meets dir len (relative src (cell_bot (rt_pool rt ! i))) (relative src (cell_top (rt_pool rt ! i)))"
  shows "hits_cell rt src dir len i"
  unfolding hits_cell_pluecker [OF assms(1)]
  using assms(2) pluecker_no_false_negative by (cases dir; cases src) (auto simp: relative_def split: prod.splits)

text \<open>The box around the smoothing sphere of a particle, seen from the start of the ray.\<close>

definition meets_sphere_box :: "psystem \<Rightarrow> vec3 \<Rightarrow> vec3 \<Rightarrow> real \<Rightarrow> nat \<Rightarrow> bool" where
  "meets_sphere_box s src dir len p \<longleftrightarrow> meets dir len (relative src (sphere_lo s p)) (relative src (sphere_hi s p))"

lemma sphere_leaf_reached:
  assumes lk: "links_ok (rt_pool rt)" and cov: "\<And>j. j < length (rt_pool rt) \<Longrightarrow> covered s L (rt_pool rt) j"
    and i: "i < length (rt_pool rt)" "p \<in> set (L i)" "cell_first_child (rt_pool rt ! i) = None"
    and m: "meets_sphere_box s src dir len p"
  shows "i \<in> set (leaves_hit rt src dir len)"
proof -
  let ?P = "\<lambda>j. covers (cell_bot (rt_pool rt ! j)) (cell_top (rt_pool rt ! j)) (sphere_lo s p) (sphere_hi s p)"
  have h: "hits_cell rt src dir len j" if "j < length (rt_pool rt)" "?P j" for j
    using m that meets_mono relative_mono hits_cell_meets unfolding meets_sphere_box_def covers_def by blast
  have "?P i" using cov [OF i(1)] i(2) by (simp add: covered_def)
  moreover have "?P j" if "j < length (rt_pool rt)" "cell_first_child (rt_pool rt ! j) = Some c" "k < 8" "?P (c + k)" for j c k
  proof -
    have "covers (cell_bot (rt_pool rt ! j)) (cell_top (rt_pool rt ! j)) (cell_bot (rt_pool rt ! (c + k))) (cell_top (rt_pool rt ! (c + k)))"
      using cov [OF that(1)] that(2,3) by (simp add: covered_def)
    then show ?thesis using that(4) unfolding covers_def using vle_trans by blast
  qed
  ultimately obtain g where g: "length (rt_pool rt) - i < g"
      "set (walk g (rt_pool rt) (hits_cell rt src dir len) i) \<subseteq> set (leaves_hit rt src dir len)"
    using walk_reaches [OF lk i(1), of ?P "hits_cell rt src dir len"] h unfolding leaves_hit_def by blast
  obtain g' where "g = Suc g'" using g(1) by (cases g) auto
  then have "i \<in> set (walk g (rt_pool rt) (hits_cell rt src dir len) i)" using i(3) h [OF i(1) \<open>?P i\<close>] by simp
  then show ?thesis using g(2) by blast
qed

section \<open>Shapes\<close>

lemma settle_shape:
  "settle ppc s pos i rt = Inr (Some (k, rt')) \<Longrightarrow> length (rt_next rt') = length (rt_next rt)"
proof (induction ppc s pos i rt rule: settle.induct)
  case (1 ppc s pos i rt)
  show ?case
  proof (cases "full ppc rt i")
    case (Inr f)
    show ?thesis
    proof (cases f)
      case False
      then show ?thesis using "1.prems" Inr by (subst (asm) settle.simps) simp
    next
      case True
      then obtain rt1 j where r: "split_cell s i rt = Inr (Some rt1)" "find_leaf rt1 pos i = Inr j"
          "settle ppc s pos j rt1 = Inr (Some (k, rt'))"
        using "1.prems" Inr by (subst (asm) settle.simps) (auto split: sum.splits option.splits)
      have "length (rt_next rt') = length (rt_next rt1)" by (rule "1.IH" [OF Inr _ r(1) refl r(2,3)]) (use True in simp)
      then show ?thesis using split_cell_shape [OF r(1)] by simp
    qed
  qed (use "1.prems" in \<open>subst (asm) settle.simps, simp\<close>)
qed

lemma insert_all_shape:
  "insert_all ppc s ps icell skipped rt = Inr (Built rt' k) \<Longrightarrow> length (rt_next rt') = length (rt_next rt)"
proof (induction ps arbitrary: icell skipped rt)
  case (Cons x ps)
  then show ?case
    by (fastforce simp: rbind_Inr_iff dest!: settle_shape add_shape split: option.splits)
qed simp

lemma build_try_shape:
  assumes "build_try ppc s rt = Inr (Built rt' k)"
  shows "length (rt_next rt') = length (rt_next rt)"
proof -
  obtain rt1 where 1: "start_tree s rt = Inr rt1" "insert_all ppc s [0..<psys_npar s] 0 0 rt1 = Inr (Built rt' k)"
    using assms by (auto simp: build_try_def rbind_Inr_iff)
  have "length (rt_next rt1) = length (rt_next rt)" using 1(1) by (auto simp: start_tree_def split: if_splits)
  then show ?thesis using insert_all_shape [OF 1(2)] by simp
qed

lemma build_tree_shape:
  assumes ret: "build_tree ppc s rt = Some (Inr (rt', k))"
  shows "length (rt_next rt') = length (rt_next rt)"
proof -
  have "\<forall>rt1 k1. (Inr (rt', k) :: (raytrace \<times> nat) res) = Inr (rt1, k1) \<longrightarrow> length (rt_next rt1) = length (rt_next rt)"
  proof (rule build_tree.raw_induct [where P = "\<lambda>ppc s rt r. \<forall>rt1 k1. r = Inr (rt1, k1) \<longrightarrow> length (rt_next rt1) = length (rt_next rt)", OF _ ret])
    fix f ppc s rt r
    assume IH: "\<And>ppc s rt r. f ppc s rt = Some r \<Longrightarrow> \<forall>rt1 k1. r = Inr (rt1, k1) \<longrightarrow> length (rt_next rt1) = length (rt_next rt)"
      and eq: "(case build_try ppc s rt of Inl e \<Rightarrow> Some (Inl e)
        | Inr (Built rt' skipped) \<Rightarrow> Some (Inr (rt', skipped))
        | Inr (Pool_full ipar) \<Rightarrow> f ppc s (rt\<lparr>rt_pool_size := next_pool_size s ipar (rt_pool_size rt)\<rparr>)) = Some r"
    show "\<forall>rt1 k1. r = Inr (rt1, k1) \<longrightarrow> length (rt_next rt1) = length (rt_next rt)"
    proof (cases "build_try ppc s rt")
      case (Inr a)
      show ?thesis
      proof (cases a)
        case (Built rt2 k2)
        then show ?thesis using eq Inr build_try_shape [of ppc s rt rt2 k2] by auto
      next
        case (Pool_full p)
        then show ?thesis using eq Inr IH [of ppc s "rt\<lparr>rt_pool_size := next_pool_size s p (rt_pool_size rt)\<rparr>" r] by simp
      qed
    qed (use eq in auto)
  qed
  then show ?thesis by simp
qed

section \<open>Every leaf once\<close>

definition upward :: "cell list \<Rightarrow> (nat \<times> nat) set" where
  "upward pool = {(i, p). i < length pool \<and> cell_parent (pool ! i) = Some p}"

lemma upward_le:
  assumes lk: "links_ok pool"
  shows "(i, j) \<in> (upward pool)\<^sup>* \<Longrightarrow> j \<le> i"
proof (induction rule: rtrancl_induct)
  case (step y z)
  have "y < length pool" "cell_parent (pool ! y) = Some z" using step(2) by (auto simp: upward_def)
  then have "z < y" using links_okD(2,5) [OF lk] by (cases "y = 0") force+
  then show ?case using step by simp
qed simp

lemma upward_child: "links_ok pool \<Longrightarrow> i < length pool \<Longrightarrow> cell_first_child (pool ! i) = Some c \<Longrightarrow> k < 8 \<Longrightarrow> (c + k, i) \<in> upward pool"
  using links_okD(3,4) [of pool i c] by (force simp: upward_def)

lemma walk_upward:
  assumes "links_ok pool"
  shows "i < length pool \<Longrightarrow> l \<in> set (walk fuel pool h i) \<Longrightarrow> (l, i) \<in> (upward pool)\<^sup>*"
proof (induction fuel arbitrary: i)
  case (Suc fuel)
  show ?case
  proof (cases "cell_first_child (pool ! i)")
    case None
    then show ?thesis using Suc.prems by (simp split: if_splits)
  next
    case (Some c)
    then obtain k where k: "k < 8" "l \<in> set (walk fuel pool h (c + k))" using Suc.prems(2) by (auto split: if_splits)
    have "(l, c + k) \<in> (upward pool)\<^sup>*"
      using Suc.IH [of "c + k"] links_okD(3) [OF assms Suc.prems(1) Some] k by simp
    then show ?thesis using upward_child [OF assms Suc.prems(1) Some k(1)] by (rule rtrancl_into_rtrancl)
  qed
qed simp

lemma siblings_apart:
  assumes lk: "links_ok pool" and i: "i < length pool" "cell_first_child (pool ! i) = Some c"
    and k: "k < 8" "k' < 8" "k \<noteq> k'"
  shows "(c + k, c + k') \<notin> (upward pool)\<^sup>*"
proof
  assume "(c + k, c + k') \<in> (upward pool)\<^sup>*"
  then obtain y where y: "(c + k, y) \<in> upward pool" "(y, c + k') \<in> (upward pool)\<^sup>*"
    using k(3) by (auto elim: converse_rtranclE)
  have "y = i" using y(1) upward_child [OF lk i k(1)] by (simp add: upward_def)
  then have "c + k' \<le> i" using upward_le [OF lk y(2)] by simp
  then show False using links_okD(3) [OF lk i] by simp
qed

lemma distinct_concat_map:
  "distinct ks \<Longrightarrow> (\<And>k. k \<in> set ks \<Longrightarrow> distinct (f k)) \<Longrightarrow>
   (\<And>k k'. k \<in> set ks \<Longrightarrow> k' \<in> set ks \<Longrightarrow> k \<noteq> k' \<Longrightarrow> set (f k) \<inter> set (f k') = {}) \<Longrightarrow> distinct (concat (map f ks))"
proof (induction ks)
  case (Cons k ks)
  have "set (f k) \<inter> set (f k') = {}" if "k' \<in> set ks" for k' using Cons.prems(1,3) that by (metis distinct.simps(2) list.set_intros)
  then show ?case using Cons by auto
qed simp

lemma distinct_walk:
  assumes lk: "links_ok pool"
  shows "i < length pool \<Longrightarrow> distinct (walk fuel pool h i)"
proof (induction fuel arbitrary: i)
  case (Suc fuel)
  show ?case
  proof (cases "cell_first_child (pool ! i)")
    case None
    then show ?thesis by simp
  next
    case (Some c)
    have lt: "c + k < length pool" if "k < 8" for k using links_okD(3) [OF lk Suc.prems Some] that by simp
    have "distinct (concat (map (\<lambda>k. walk fuel pool h (c + k)) [0..<8]))"
    proof (rule distinct_concat_map)
      show "distinct (walk fuel pool h (c + k))" if "k \<in> set [0..<8]" for k using Suc.IH lt that by simp
      fix k k' :: nat assume k: "k \<in> set [0..<8]" "k' \<in> set [0..<8]" "k \<noteq> k'"
      show "set (walk fuel pool h (c + k)) \<inter> set (walk fuel pool h (c + k')) = {}"
      proof (rule ccontr)
        assume "set (walk fuel pool h (c + k)) \<inter> set (walk fuel pool h (c + k')) \<noteq> {}"
        then obtain l where l: "l \<in> set (walk fuel pool h (c + k))" "l \<in> set (walk fuel pool h (c + k'))" by blast
        have "(l, c + k) \<in> (upward pool)\<^sup>*" "(l, c + k') \<in> (upward pool)\<^sup>*"
          using walk_upward [OF lk lt l(1)] walk_upward [OF lk lt l(2)] k(1,2) by simp_all
        moreover have "single_valued (upward pool)" by (auto simp: single_valued_def upward_def)
        ultimately have "(c + k, c + k') \<in> (upward pool)\<^sup>* \<or> (c + k', c + k) \<in> (upward pool)\<^sup>*"
          by (rule single_valued_confluent [rotated])
        then show False using siblings_apart [OF lk Suc.prems Some] k by auto
      qed
    qed simp
    then show ?thesis using Some by simp
  qed
qed simp

section \<open>Properties\<close>

lemma found_in_entries:
  "set (map x_ipar (found_in s src dir L is)) = {p. \<exists>i \<in> set is. p \<in> set (L i) \<and> found s src dir p}"
  "x \<in> set (found_in s src dir L is) \<Longrightarrow> x = xrec s src dir (x_ipar x)"
  by (auto simp: found_in_def xrec_def Let_def split: prod.splits)

lemma map_x_ipar_found_in: "map x_ipar (found_in s src dir L is) = filter (found s src dir) (concat (map L is))"
  by (auto simp: found_in_def xrec_def Let_def map_idI split: prod.splits)

text \<open>The tree that \<open>rt_switch_epoch\<close> leaves.\<close>

lemma rt_switch_epoch_result:
  assumes ok: "psys_ok s" and box: "0 \<le> psys_boxsize s"
    and r0: "r0 = (if i = 0 then rt_alloc ppc s fresh rt0 else rt0)"
    and pre: "psys_npar s \<le> length (rt_next r0)" "length (rt_next r0) \<le> psys_npar_max s" "0 < rt_pool_size r0"
  shows "(build_tree ppc s r0 = Some (Inl Out_of_bounds)
        \<and> rt_switch_epoch ppc i s fresh rt0 = Some (Inl Out_of_bounds) \<and> memory_runs_out ppc s r0)
    \<or> (\<exists>rt L. rt_switch_epoch ppc i s fresh rt0 = Some (Inr rt) \<and> trace_pre s rt L \<and> (\<forall>j < length (rt_pool rt). covered s L (rt_pool rt) j \<and> distinct (L j)
        \<and> (L j \<noteq> [] \<longrightarrow> cell_first_child (rt_pool rt ! j) = None))
    \<and> (\<forall>j < length (rt_pool rt). \<forall>l < length (rt_pool rt). j \<noteq> l \<longrightarrow> set (L j) \<inter> set (L l) = {})
    \<and> (\<Union>j < length (rt_pool rt). set (L j)) = {p. p < psys_npar s \<and> in_cell (psys_pos s ! p) (root_cell s)})"
proof (cases "build_tree ppc s r0 = Some (Inl Out_of_bounds) \<and> memory_runs_out ppc s r0")
  case True
  then show ?thesis by (simp add: rt_switch_epoch_def r0)
next
  case False
  have al: "length (psys_pos s) = psys_npar_max s" "length (psys_sml s) = psys_npar_max s" "length (psys_flag s) = psys_npar_max s"
    using ok by (simp_all add: psys_ok_def arrays_length_def)
  have "build_pre s r0" using ok box pre al by (simp add: build_pre_def psys_ok_def)
  then obtain b where b: "build_tree ppc s r0 = Some b" "build_post ppc s b"
    using build_tree_result False by blast
  then obtain rt1 L k where 1: "b = Inr (rt1, k)" "tree_ok s rt1 L"
      "members rt1 L = {p \<in> {..<psys_npar s}. in_cell (psys_pos s ! p) (rt_pool rt1 ! 0)}"
      "\<forall>p. in_cell p (rt_pool rt1 ! 0) \<longleftrightarrow> in_cell p (root_cell s)"
    unfolding build_post_def built_def by blast
  have len: "length (rt_next rt1) \<le> psys_npar_max s" using build_tree_shape b(1) 1(1) pre(2) by metis
  have li: "list_ok s rt1 j (L j)" if "j < length (rt_pool rt1)" for j using tree_ok_list [OF 1(2) that] .
  have ch: "chain (rt_next rt1) (cell_head_par (rt_pool rt1 ! j)) (L j) \<and> length (L j) \<le> length (rt_next rt1)
      \<and> (cell_first_child (rt_pool rt1 ! j) \<noteq> None \<longrightarrow> L j = [])" if "j < length (rt_pool rt1)" for j
    using li [OF that] chain_length by (auto simp: list_ok_def)
  have sk: "skel_ok (rt_pool rt1)" using 1(2) by (simp add: tree_ok_def)
  have "ab_pre s (rt_next rt1) (rt_pool rt1) L" using sk ch len al by (simp add: ab_pre_def)
  then obtain rt where 2: "update_boxes s rt1 = Inr rt" "rt_next rt = rt_next rt1" "length (rt_pool rt) = length (rt_pool rt1)"
      "\<forall>j < length (rt_pool rt1). same_links (rt_pool rt ! j) (rt_pool rt1 ! j) \<and> covered s L (rt_pool rt) j"
    using update_boxes_result by blast
  have lk: "links_ok (rt_pool rt)" using skel_links_ok [OF sk 2(3)] 2(4) by blast
  have "trace_pre s rt L" using lk ch len al 2(2-4) by (simp add: trace_pre_def same_links_def)
  moreover have "covered s L (rt_pool rt) j \<and> distinct (L j) \<and> (L j \<noteq> [] \<longrightarrow> cell_first_child (rt_pool rt ! j) = None)"
    if "j < length (rt_pool rt)" for j
    using 2(3,4) li [of j] ch [of j] that by (auto simp: same_links_def list_ok_def)
  moreover have "set (L j) \<inter> set (L l) = {}" if "j < length (rt_pool rt)" "l < length (rt_pool rt)" "j \<noteq> l" for j l
    using 1(2) 2(3) that by (simp add: tree_ok_def lists_ok_def)
  moreover have "(\<Union>j < length (rt_pool rt). set (L j)) = {p. p < psys_npar s \<and> in_cell (psys_pos s ! p) (root_cell s)}"
    using 1(3,4) 2(3) by (simp add: members_def)
  moreover have "rt_switch_epoch ppc i s fresh rt0 = Some (Inr rt)"
    using b(1) 1(1) 2(1) by (simp add: rt_switch_epoch_def r0)
  ultimately show ?thesis by (intro disjI2 exI [of _ rt] exI [of _ L]) simp
qed

lemma found_in_distinct:
  assumes lk: "links_ok (rt_pool rt)" and d: "\<And>j. j < length (rt_pool rt) \<Longrightarrow> distinct (L j)"
    and apart: "\<And>j l. j < length (rt_pool rt) \<Longrightarrow> l < length (rt_pool rt) \<Longrightarrow> j \<noteq> l \<Longrightarrow> set (L j) \<inter> set (L l) = {}"
  shows "distinct (map x_ipar (found_in s src dir L (leaves_hit rt src dir len)))"
  unfolding map_x_ipar_found_in leaves_hit_def
proof (intro distinct_filter distinct_concat_map)
  note w = walk_less [OF lk links_okD(1) [OF lk]]
  show "distinct (walk (Suc (length (rt_pool rt))) (rt_pool rt) (hits_cell rt src dir len) 0)"
    by (rule distinct_walk [OF lk links_okD(1) [OF lk]])
qed (use d apart walk_less [OF lk links_okD(1) [OF lk]] in blast)+

text \<open>C21. \<open>rt_switch_epoch\<close> returns; unless the memory runs out for the tree,
  tracing a ray through the tree it built returns, without a fault, each particle at most once; every entry is a valid particle of the box whose squared smoothing length is at
  least its squared distance from the ray, with its distance and impact parameter; and no particle is missed:
  a valid particle in the box that passes this test is returned if the exact ray segment meets the
  (rounded) box around its smoothing sphere, whatever rounding occurs in the cell tests.\<close>

theorem rt_trace_finds_particles:
  assumes "psys_ok s" and "0 \<le> psys_boxsize s"
    and "r0 = (if i = 0 then rt_alloc ppc s fresh rt0 else rt0)"
    and "psys_npar s \<le> length (rt_next r0)" "length (rt_next r0) \<le> psys_npar_max s" "0 < rt_pool_size r0"
    and "sz \<noteq> Some 0"
  shows "(rt_switch_epoch ppc i s fresh rt0 = Some (Inl Out_of_bounds) \<and> memory_runs_out ppc s r0)
    \<or> (\<exists>rt xs n. rt_switch_epoch ppc i s fresh rt0 = Some (Inr rt) \<and> rt_trace s rt src dir len sz = Some (Inr (xs, n)) \<and> distinct (map x_ipar xs)
    \<and> (\<forall>x \<in> set xs. x_ipar x < psys_npar s \<and> in_cell (psys_pos s ! x_ipar x) (root_cell s)
          \<and> found s src dir (x_ipar x) \<and> x = xrec s src dir (x_ipar x))
    \<and> (\<forall>p < psys_npar s. in_cell (psys_pos s ! p) (root_cell s) \<and> found s src dir p \<and> meets_sphere_box s src dir len p
          \<longrightarrow> p \<in> x_ipar ` set xs))"
proof (cases "rt_switch_epoch ppc i s fresh rt0 = Some (Inl Out_of_bounds) \<and> memory_runs_out ppc s r0")
  case False
  obtain rt L where t: "rt_switch_epoch ppc i s fresh rt0 = Some (Inr rt)" "trace_pre s rt L"
      "\<forall>j < length (rt_pool rt). covered s L (rt_pool rt) j \<and> distinct (L j) \<and> (L j \<noteq> [] \<longrightarrow> cell_first_child (rt_pool rt ! j) = None)"
      "\<forall>j < length (rt_pool rt). \<forall>l < length (rt_pool rt). j \<noteq> l \<longrightarrow> set (L j) \<inter> set (L l) = {}"
      "(\<Union>j < length (rt_pool rt). set (L j)) = {p. p < psys_npar s \<and> in_cell (psys_pos s ! p) (root_cell s)}"
    using rt_switch_epoch_result [OF assms(1-6)] False by blast
  have lk: "links_ok (rt_pool rt)" using t(2) by (simp add: trace_pre_def)
  let ?xs = "found_in s src dir L (leaves_hit rt src dir len)"
  have leaf: "j < length (rt_pool rt)" if "j \<in> set (leaves_hit rt src dir len)" for j
    using walk_less [OF lk links_okD(1) [OF lk]] that unfolding leaves_hit_def by blast
  have ips: "x_ipar ` set ?xs = {p. \<exists>j \<in> set (leaves_hit rt src dir len). p \<in> set (L j) \<and> found s src dir p}"
    using found_in_entries(1) [of s src dir L "leaves_hit rt src dir len"] by simp
  obtain n where "rt_trace s rt src dir len sz = Some (Inr (?xs, n))" using rt_trace_result [OF t(2) assms(7)] by blast
  moreover have "distinct (map x_ipar ?xs)" by (rule found_in_distinct [OF lk]) (use t(3,4) in blast)+
  moreover have "x_ipar x < psys_npar s \<and> in_cell (psys_pos s ! x_ipar x) (root_cell s)
          \<and> found s src dir (x_ipar x) \<and> x = xrec s src dir (x_ipar x)" if x: "x \<in> set ?xs" for x
  proof -
    have "x_ipar x \<in> x_ipar ` set ?xs" using x by simp
    then obtain j where j: "j \<in> set (leaves_hit rt src dir len)" "x_ipar x \<in> set (L j)" "found s src dir (x_ipar x)"
      unfolding ips by blast
    then have "x_ipar x \<in> (\<Union>j < length (rt_pool rt). set (L j))" using leaf by blast
    then show ?thesis using j(3) found_in_entries(2) [OF x] unfolding t(5) by blast
  qed
  moreover have "p \<in> x_ipar ` set ?xs" if "p < psys_npar s" "in_cell (psys_pos s ! p) (root_cell s)" "found s src dir p"
    "meets_sphere_box s src dir len p" for p
  proof -
    have "p \<in> (\<Union>j < length (rt_pool rt). set (L j))" using that(1,2) unfolding t(5) by blast
    then obtain j where j: "j < length (rt_pool rt)" "p \<in> set (L j)" by blast
    then have c: "cell_first_child (rt_pool rt ! j) = None" using t(3) by fastforce
    have "covered s L (rt_pool rt) l" if "l < length (rt_pool rt)" for l using t(3) that by blast
    from sphere_leaf_reached [OF lk this j c that(4)] have "j \<in> set (leaves_hit rt src dir len)" .
    then show ?thesis unfolding ips using j(2) that(3) by blast
  qed
  ultimately show ?thesis using t(1) by (intro disjI2 exI [of _ rt] exI [of _ ?xs] exI [of _ n]) blast
qed simp

definition no_tree :: raytrace where
  "no_tree = \<lparr>rt_next = [], rt_pool = [], rt_pool_size = 0, rt_room = 1000\<rparr>"

lemma one_particle_arrays [simp]:
  "psys_sml one_particle = [1]" "psys_flag one_particle = [0]" "psys_npar_max one_particle = 1"
  by (simp_all add: one_particle_def psys_of_def particle_at_def)

lemma one_particle_found: "found one_particle (1, 2, 0) (0, 0, 1) 0"
proof -
  have "sqrt 9 = 3" by (rule real_sqrt_unique) simp_all
  then show ?thesis by (simp add: found_def invalid_def misses_def impact_def ray_dist_proj_def Let_def)
qed

lemma one_particle_met: "meets_sphere_box one_particle (1, 2, 0) (0, 0, 1) 5 0"
  unfolding meets_sphere_box_def meets_def
  by (simp add: sphere_lo_def sphere_hi_def relative_def) (intro exI [of _ 3], simp)

lemma one_particle_tree: "rt_switch_epoch 1 0 one_particle (\<lambda>_. None) no_tree \<noteq> Some (Inl Out_of_bounds)"
proof -
  define r0 where "r0 = (if (0::int) = 0 then rt_alloc 1 one_particle (\<lambda>_. None) no_tree else no_tree)"
  have r0: "r0 = \<lparr>rt_next = [None], rt_pool = [], rt_pool_size = 1, rt_room = 1000\<rparr>"
    by (simp add: r0_def rt_alloc_def no_tree_def)
  have "build_tree 1 one_particle r0 \<noteq> Some (Inl Out_of_bounds)"
    by (subst build_tree.simps)
      (simp add: r0 build_try_def start_tree_def pool_fits_def sizeof_Cell_def root_cell_def pos_at_def parent_def
        cell_at_def inside_def in_box_def find_leaf_def settle.simps full_def add_def)
  moreover have "psys_ok one_particle" "0 \<le> psys_boxsize one_particle" "psys_npar one_particle \<le> length (rt_next r0)"
      "length (rt_next r0) \<le> psys_npar_max one_particle" "0 < rt_pool_size r0"
    by (simp_all add: r0) (simp add: one_particle_def)
  ultimately show ?thesis using rt_switch_epoch_result [of one_particle r0 0 1 "\<lambda>_. None" no_tree] r0_def by fastforce
qed

lemma rt_trace_finds_particles_witness:
  "\<exists>rt xs n. rt_switch_epoch 1 0 one_particle (\<lambda>_. None) no_tree = Some (Inr rt)
     \<and> rt_trace one_particle rt (1, 2, 0) (0, 0, 1) 5 None = Some (Inr (xs, n)) \<and> x_ipar ` set xs = {0}"
proof -
  define r0 where "r0 = (if (0::int) = 0 then rt_alloc 1 one_particle (\<lambda>_. None) no_tree else no_tree)"
  have r0: "r0 = \<lparr>rt_next = [None], rt_pool = [], rt_pool_size = 1, rt_room = 1000\<rparr>" by (simp add: r0_def rt_alloc_def no_tree_def)
  have root: "in_cell (1, 2, 3) (root_cell one_particle)" by (simp add: in_cell_def in_box_def root_cell_def)
  have h: "psys_ok one_particle" "0 \<le> psys_boxsize one_particle" "psys_npar one_particle \<le> length (rt_next r0)"
      "length (rt_next r0) \<le> psys_npar_max one_particle" "0 < rt_pool_size r0"
    by (simp_all add: r0) (simp add: one_particle_def)
  obtain rt xs n where x: "rt_switch_epoch 1 0 one_particle (\<lambda>_. None) no_tree = Some (Inr rt)" "rt_trace one_particle rt (1, 2, 0) (0, 0, 1) 5 None = Some (Inr (xs, n))"
      "\<forall>x \<in> set xs. x_ipar x < psys_npar one_particle"
      "\<forall>p < psys_npar one_particle. in_cell (psys_pos one_particle ! p) (root_cell one_particle)
         \<and> found one_particle (1, 2, 0) (0, 0, 1) p \<and> meets_sphere_box one_particle (1, 2, 0) (0, 0, 1) 5 p \<longrightarrow> p \<in> x_ipar ` set xs"
    using rt_trace_finds_particles [OF h(1,2) r0_def h(3,4,5), of None "(1, 2, 0)" "(0, 0, 1)" 5] one_particle_tree by blast
  have "0 \<in> x_ipar ` set xs" using x(4) root one_particle_found one_particle_met by simp
  moreover have "x_ipar ` set xs \<subseteq> {0}" using x(3) by auto
  ultimately have "x_ipar ` set xs = {0}" by blast
  then show ?thesis using x(1,2) by blast
qed


end
