(* ===== verification/C_Text.thy ===== *)
theory C_Text
  imports Float_Model
begin

text \<open>
  What the code uses of \<open>stdio.h\<close> and \<open>stdlib.h\<close> to read text files: \<open>getline\<close> hands out the lines
  of a file one by one (a file is the list of its lines, \<open>None\<close> when \<open>fopen\<close> fails), and
  \<open>sscanf\<close> and \<open>atof\<close> convert their beginnings. A conversion skips blanks, takes the longest
  number or word it finds and leaves the rest; \<open>None\<close> is a conversion that fails. Decimal
  numbers with an optional exponent are converted (\<open>inf\<close>, \<open>nan\<close> and hexadecimal numbers are
  not); a value is rounded to \<open>double\<close> once.
\<close>

type_synonym text_file = "string list option"

definition is_blank :: "char \<Rightarrow> bool" where
  "is_blank ch \<longleftrightarrow> ch = CHR '' '' \<or> ch = CHR 0x09 \<or> ch = CHR 0x0A \<or> ch = CHR 0x0D"

definition is_digit :: "char \<Rightarrow> bool" where
  "is_digit ch \<longleftrightarrow> 48 \<le> (of_char ch :: nat) \<and> (of_char ch :: nat) \<le> 57"

definition digits_value :: "string \<Rightarrow> int" where
  "digits_value ds = foldl (\<lambda>n ch. 10 * n + (int (of_char ch) - 48)) 0 ds"

definition skip_blanks :: "string \<Rightarrow> string" where
  "skip_blanks s = dropWhile is_blank s"

text \<open>An optional sign.\<close>

definition scan_sign :: "string \<Rightarrow> int \<times> string" where
  "scan_sign s = (case s of
       [] \<Rightarrow> (1, [])
     | ch # cs \<Rightarrow> if ch = CHR ''-'' then (-1, cs) else if ch = CHR ''+'' then (1, cs) else (1, s))"

text \<open>\<open>%ld\<close> and \<open>%d\<close>.\<close>

definition scan_int :: "string \<Rightarrow> (int \<times> string) option" where
  "scan_int s =
     (let (sg, t) = scan_sign (skip_blanks s); ds = takeWhile is_digit t
      in if ds = [] then None else Some (sg * digits_value ds, drop (length ds) t))"

text \<open>The exponent of a number: taken only when digits follow it.\<close>

definition scan_exponent :: "string \<Rightarrow> int \<times> string" where
  "scan_exponent s = (case s of
       [] \<Rightarrow> (0, [])
     | ch # cs \<Rightarrow>
         if ch = CHR ''e'' \<or> ch = CHR ''E'' then
           (let (sg, t) = scan_sign cs; ds = takeWhile is_digit t
            in if ds = [] then (0, s) else (sg * digits_value ds, drop (length ds) t))
         else (0, s))"

text \<open>\<open>%lf\<close>, \<open>%le\<close>.\<close>

definition scan_double :: "string \<Rightarrow> (real \<times> string) option" where
  "scan_double s =
     (let (sg, t) = scan_sign (skip_blanks s);
          ds = takeWhile is_digit t; t1 = drop (length ds) t;
          fs = (case t1 of [] \<Rightarrow> [] | ch # cs \<Rightarrow> if ch = CHR ''.'' then takeWhile is_digit cs else []);
          t2 = (case t1 of [] \<Rightarrow> [] | ch # cs \<Rightarrow> if ch = CHR ''.'' then drop (length fs) cs else t1)
      in if ds = [] \<and> fs = [] then None
         else let (e, t3) = scan_exponent t2
              in Some (db (of_int (sg * digits_value (ds @ fs)) * 10 powi (e - int (length fs))), t3))"

text \<open>\<open>%80s\<close>: a word of at most 80 characters.\<close>

definition scan_word :: "string \<Rightarrow> (string \<times> string) option" where
  "scan_word s =
     (let t = skip_blanks s; w = take 80 (takeWhile (\<lambda>ch. \<not> is_blank ch) t)
      in if w = [] then None else Some (w, drop (length w) t))"

text \<open>The successful conversions of \<open>n\<close> consecutive \<open>%lf\<close>, and the rest of the text.\<close>

fun scan_doubles :: "nat \<Rightarrow> string \<Rightarrow> real list \<times> string" where
  "scan_doubles 0 s = ([], s)"
| "scan_doubles (Suc n) s = (case scan_double s of
       None \<Rightarrow> ([], s)
     | Some (x, t) \<Rightarrow> (case scan_doubles n t of (xs, u) \<Rightarrow> (x # xs, u)))"

definition atof :: "string \<Rightarrow> real" where
  "atof s = (case scan_double s of None \<Rightarrow> 0 | Some (x, _) \<Rightarrow> x)"

lemma length_scan_doubles: "length (fst (scan_doubles n s)) \<le> n"
proof (induction n arbitrary: s)
  case (Suc n)
  show ?case
  proof (cases "scan_double s")
    case (Some xt)
    then obtain x t where "scan_double s = Some (x, t)" by (cases xt) auto
    moreover obtain xs u where "scan_doubles n t = (xs, u)" by fastforce
    ultimately show ?thesis using Suc.IH [of t] by simp
  qed simp
qed simp

end
