(* ===== verification/Tabulated.thy ===== *)
theory Tabulated
  imports C_Text Config_Units
begin

text \<open>
  The tabulated functions of \<open>src/src/tabfun.c\<close>: reading a table from its file
  (\<open>tabfun_init\<close>), adding or scaling a column (\<open>tabfun_setup_col\<close>, \<open>tabfun2_ensure_col\<close>) and
  looking a value up (\<open>tabfun_get\<close>, linear interpolation; \<open>tabfun2_get\<close>, bilinear).

  A table is a list of columns; the element \<open>data[k][i]\<close> is \<open>entry cols k i\<close>, with every index
  checked. \<open>fresh\<close> stands for the contents of the memory \<open>malloc\<close> returns, \<open>bufsize\<close> for the
  size of the buffer that \<open>getline\<close> has allocated.

  The lookups take the rounding of the arithmetic as their first argument (\<open>db\<close> is the program).
  The theorems are over exact arithmetic: the lookup is the piecewise linear interpolant, stays
  between the neighbouring entries and is clamped outside the table, except in the first step
  below the table, where the truncation toward zero makes it extrapolate.
\<close>

section \<open>The table\<close>

record tabfun =
  tf_data :: "real list list"
  tf_headers :: "string list"
  tf_nrows :: int
  tf_ncols :: int
  tf_min :: real
  tf_max :: real
  tf_step :: real
  tf_step_inv :: real

definition tabfun_zero :: tabfun where
  "tabfun_zero = \<lparr>tf_data = [], tf_headers = [], tf_nrows = 0, tf_ncols = 0, tf_min = 0, tf_max = 0,
     tf_step = 0, tf_step_inv = 0\<rparr>"

definition entry :: "real list list \<Rightarrow> int \<Rightarrow> int \<Rightarrow> real res" where
  "entry cols k i =
     (if 0 \<le> k \<and> k < int (length cols) \<and> 0 \<le> i \<and> i < int (length (cols ! nat k))
      then Inr (cols ! nat k ! nat i) else Inl Out_of_bounds)"

section \<open>Reading a table\<close>

text \<open>
  The header of column \<open>i\<close>: 14 characters, blanks removed at both ends. The blanks at the end are
  replaced by terminating zeros; where there is none, the copy runs on into the next columns.
\<close>

definition header_at :: "string \<Rightarrow> nat \<Rightarrow> string res" where
  "header_at line i =
     (let w = take 14 (drop (i * 14) line);
          kept = rev (dropWhile (\<lambda>ch. ch = CHR '' '') (rev w))
      in if kept = [] \<and> i = 0 then Inl Out_of_bounds
         else if length kept < length w then Inr (dropWhile (\<lambda>ch. ch = CHR '' '') kept)
         else Inr (dropWhile (\<lambda>ch. ch = CHR '' '') (drop (i * 14) line)))"

fun headers_from :: "string \<Rightarrow> nat list \<Rightarrow> string list res" where
  "headers_from line [] = Inr []"
| "headers_from line (i # is) =
     rbind (header_at line i) (\<lambda>h. rbind (headers_from line is) (\<lambda>hs. Inr (h # hs)))"

text \<open>\<open>data[i][irow] = atof(p)\<close> for every column of a row.\<close>

definition set_entry :: "real list list \<Rightarrow> nat \<Rightarrow> nat \<Rightarrow> real \<Rightarrow> real list list res" where
  "set_entry cols i irow x =
     (if i < length cols \<and> irow < length (cols ! i) then Inr (cols[i := (cols ! i)[irow := x]])
      else Inl Out_of_bounds)"

fun row_from :: "nat \<Rightarrow> string \<Rightarrow> nat \<Rightarrow> nat list \<Rightarrow> real list list \<Rightarrow> real list list res" where
  "row_from bufsize line irow [] cols = Inr cols"
| "row_from bufsize line irow (i # is) cols =
     (if i * 14 > length line then Inl (Trap ''file line is too short'')
      else if i * 14 + 13 \<ge> bufsize then Inl Out_of_bounds
      else rbind (set_entry cols i irow (atof (take 13 (drop (i * 14) line))))
             (row_from bufsize line irow is))"

record tabread =
  tr_stage :: nat
  tr_irow :: nat
  tr_tab :: tabfun

definition tabfun_line :: "(nat \<Rightarrow> nat \<Rightarrow> real) \<Rightarrow> nat \<Rightarrow> string \<Rightarrow> tabread \<Rightarrow> tabread res" where
  "tabfun_line fresh bufsize line st =
     (let t = tr_tab st
      in if take 1 line = ''#'' then Inr st
         else if tr_stage st = 0 then
           (case scan_doubles 2 line of
              ([lo, hi], rest) \<Rightarrow> (case scan_int rest of
                  Some (n, rest') \<Rightarrow> (case scan_doubles 1 rest' of
                      ([step], _) \<Rightarrow>
                        rbind (fdiv db 1 step) (\<lambda>inv.
                          Inr (st\<lparr>tr_stage := 1, tr_tab := t\<lparr>tf_min := lo, tf_max := hi, tf_nrows := n,
                            tf_step := step, tf_step_inv := inv\<rparr>\<rparr>))
                    | _ \<Rightarrow> Inl (Trap ''expecting header logTmin logTmax nrows stepsize''))
                | None \<Rightarrow> Inl (Trap ''expecting header logTmin logTmax nrows stepsize''))
            | _ \<Rightarrow> Inl (Trap ''expecting header logTmin logTmax nrows stepsize''))
         else if tr_stage st = 1 then
           (let ncols = length line div 14
            in rbind (headers_from line [0..<ncols]) (\<lambda>hs.
                 Inr (st\<lparr>tr_stage := 2, tr_tab := t\<lparr>tf_ncols := int ncols, tf_headers := hs,
                   tf_data := map (\<lambda>i. map (fresh i) [0..<nat (tf_nrows t)]) [0..<ncols]\<rparr>\<rparr>)))
         else if tr_stage st = 2 then Inr (st\<lparr>tr_stage := 3, tr_irow := 0\<rparr>)
         else
           rbind (row_from bufsize line (tr_irow st) [0..<nat (tf_ncols t)] (tf_data t)) (\<lambda>cols.
             Inr (st\<lparr>tr_tab := t\<lparr>tf_data := cols\<rparr>, tr_irow := tr_irow st + 1,
               tr_stage := (if int (tr_irow st + 1) = tf_nrows t then 4 else 3)\<rparr>)))"

fun tabfun_lines :: "(nat \<Rightarrow> nat \<Rightarrow> real) \<Rightarrow> nat \<Rightarrow> string list \<Rightarrow> tabread \<Rightarrow> tabread res" where
  "tabfun_lines fresh bufsize [] st = Inr st"
| "tabfun_lines fresh bufsize (line # lines) st =
     rbind (tabfun_line fresh bufsize line st) (\<lambda>st'.
       if tr_stage st' = 4 then Inr st' else tabfun_lines fresh bufsize lines st')"

definition tabfun_init :: "(nat \<Rightarrow> nat \<Rightarrow> real) \<Rightarrow> nat \<Rightarrow> text_file \<Rightarrow> tabfun \<Rightarrow> tabfun res" where
  "tabfun_init fresh bufsize file t =
     (case file of
        None \<Rightarrow> Inl (Trap ''tabulated function input file no access'')
      | Some lines \<Rightarrow>
          rbind (tabfun_lines fresh bufsize lines \<lparr>tr_stage = 0, tr_irow = 0, tr_tab = t\<rparr>)
            (\<lambda>st. Inr (tr_tab st)))"

section \<open>Columns\<close>

definition col_index :: "string \<Rightarrow> string list \<Rightarrow> nat" where
  "col_index col headers = length (takeWhile (\<lambda>h. \<not> strcase_eq col h) headers)"

definition tabfun_setup_col ::
    "tabfun \<Rightarrow> string \<Rightarrow> (real \<Rightarrow> real) option \<Rightarrow> real \<Rightarrow> (int \<times> tabfun) res" where
  "tabfun_setup_col t col func unit =
     (let i = col_index col (tf_headers t); n = nat (tf_nrows t)
      in if i < length (tf_headers t) then
           if i \<ge> length (tf_data t) \<or> n > length (tf_data t ! i) then Inl Out_of_bounds
           else Inr (int i, t\<lparr>tf_data := (tf_data t)[i :=
             map (\<lambda>x. db (x * unit)) (take n (tf_data t ! i)) @ drop n (tf_data t ! i)]\<rparr>)
         else (case func of
             None \<Rightarrow> Inl (Trap ''column unknown and no hard coded analytical form'')
           | Some f \<Rightarrow>
               if length (tf_data t) \<noteq> i \<or> tf_data t = [] \<or> n > length (tf_data t ! 0) then Inl Out_of_bounds
               else Inr (int i, t\<lparr>tf_headers := tf_headers t @ [col],
                 tf_data := tf_data t @ [map (\<lambda>x. db (f x * unit)) (take n (tf_data t ! 0))]\<rparr>)))"

section \<open>Looking up a value\<close>

definition tabfun_get :: "(real \<Rightarrow> real) \<Rightarrow> tabfun \<Rightarrow> int \<Rightarrow> real \<Rightarrow> real res" where
  "tabfun_get rd t k value =
     (let index = trunc (rd (rd (value - tf_min t) * tf_step_inv t))
      in if index < 0 then entry (tf_data t) k 0
         else if index \<ge> tf_nrows t - 1 then entry (tf_data t) k (tf_nrows t - 1)
         else
           rbind (entry (tf_data t) 0 index) (\<lambda>left.
           rbind (entry (tf_data t) 0 (index + 1)) (\<lambda>right.
           rbind (entry (tf_data t) k index) (\<lambda>y0.
           rbind (entry (tf_data t) k (index + 1)) (\<lambda>y1.
             Inr (rd (rd (rd (rd (right - value) * y0) + rd (rd (value - left) * y1))
                    * tf_step_inv t)))))))"

section \<open>Functions of two variables\<close>

record tabfun2 =
  t2_data :: "real list list"
  t2_headers :: "string list"
  t2_nrows1 :: int
  t2_nrows2 :: int
  t2_ncols :: int
  t2_min1 :: real
  t2_min2 :: real
  t2_max1 :: real
  t2_max2 :: real
  t2_step1 :: real
  t2_step2 :: real
  t2_step1_inv :: real
  t2_step2_inv :: real
  t2_x :: "real list"
  t2_y :: "real list"

definition tabfun2_zero :: tabfun2 where
  "tabfun2_zero = \<lparr>t2_data = [], t2_headers = [], t2_nrows1 = 0, t2_nrows2 = 0, t2_ncols = 0,
     t2_min1 = 0, t2_min2 = 0, t2_max1 = 0, t2_max2 = 0, t2_step1 = 0, t2_step2 = 0,
     t2_step1_inv = 0, t2_step2_inv = 0, t2_x = [], t2_y = []\<rparr>"

fun fill_column :: "(real \<Rightarrow> real \<Rightarrow> real res) \<Rightarrow> (real \<times> real) list \<Rightarrow> real list res" where
  "fill_column func [] = Inr []"
| "fill_column func ((x, y) # xys) =
     rbind (func x y) (\<lambda>v. rbind (fill_column func xys) (\<lambda>vs. Inr (v # vs)))"

definition tabfun2_ensure_col ::
    "tabfun2 \<Rightarrow> string \<Rightarrow> (real \<Rightarrow> real \<Rightarrow> real res) option \<Rightarrow> (int \<times> tabfun2) res" where
  "tabfun2_ensure_col t col func =
     (let i = col_index col (t2_headers t); n1 = nat (t2_nrows1 t); n2 = nat (t2_nrows2 t)
      in if i < length (t2_headers t) then Inr (int i, t)
         else (case func of
             None \<Rightarrow> Inl (Trap ''column unknown and no hard coded analytical form'')
           | Some f \<Rightarrow>
               if n1 > length (t2_x t) \<or> n2 > length (t2_y t) \<or> length (t2_data t) \<noteq> length (t2_headers t)
               then Inl Out_of_bounds
               else rbind (fill_column f (List.product (take n1 (t2_x t)) (take n2 (t2_y t)))) (\<lambda>vs.
                 Inr (int (length (t2_headers t)),
                   t\<lparr>t2_headers := t2_headers t @ [col], t2_data := t2_data t @ [vs]\<rparr>))))"

text \<open>The interpolation along one axis, and the bilinear one.\<close>

definition interp1 :: "(real \<Rightarrow> real) \<Rightarrow> real list \<Rightarrow> real list list \<Rightarrow> int \<Rightarrow> real \<Rightarrow> int \<Rightarrow> real
    \<Rightarrow> int \<Rightarrow> int \<Rightarrow> real res" where
  "interp1 rd axis cols k step_inv ind v at0 at1 =
     rbind (entry [axis] 0 ind) (\<lambda>left.
     rbind (entry [axis] 0 (ind + 1)) (\<lambda>right.
     rbind (entry cols k at0) (\<lambda>f0.
     rbind (entry cols k at1) (\<lambda>f1.
       Inr (rd (rd (rd (rd (right - v) * f0) + rd (rd (v - left) * f1)) * step_inv))))))"

definition bilinear :: "(real \<Rightarrow> real) \<Rightarrow> tabfun2 \<Rightarrow> int \<Rightarrow> int \<Rightarrow> int \<Rightarrow> real \<Rightarrow> real \<Rightarrow> real res" where
  "bilinear rd t k xind yind x y =
     rbind (entry [t2_x t] 0 xind) (\<lambda>x1.
     rbind (entry [t2_x t] 0 (xind + 1)) (\<lambda>x2.
     rbind (entry [t2_y t] 0 yind) (\<lambda>y1.
     rbind (entry [t2_y t] 0 (yind + 1)) (\<lambda>y2.
     rbind (entry (t2_data t) k (xind * t2_nrows2 t + yind)) (\<lambda>f11.
     rbind (entry (t2_data t) k (xind * t2_nrows2 t + yind + 1)) (\<lambda>f12.
     rbind (entry (t2_data t) k ((xind + 1) * t2_nrows2 t + yind)) (\<lambda>f21.
     rbind (entry (t2_data t) k ((xind + 1) * t2_nrows2 t + yind + 1)) (\<lambda>f22.
       let term = (\<lambda>f a b. rd (rd (f * rd a) * rd b))
       in Inr (rd (rd (t2_step1_inv t * t2_step2_inv t)
            * rd (rd (rd (term f11 (x2 - x) (y2 - y) + term f21 (x - x1) (y2 - y))
                    + term f12 (x2 - x) (y - y1)) + term f22 (x - x1) (y - y1))))))))))))"

definition tabfun2_get :: "(real \<Rightarrow> real) \<Rightarrow> tabfun2 \<Rightarrow> int \<Rightarrow> real \<Rightarrow> real \<Rightarrow> real res" where
  "tabfun2_get rd t k x y =
     (let xind = trunc (rd (rd (x - t2_min1 t) * t2_step1_inv t));
          yind = trunc (rd (rd (y - t2_min2 t) * t2_step2_inv t));
          n1 = t2_nrows1 t; n2 = t2_nrows2 t;
          linoffset = (if xind \<ge> n1 - 1 then (n1 - 1) * n2 else if xind < 0 then 0 else -1)
      in if linoffset \<noteq> -1 then
           if yind < 0 then entry (t2_data t) k linoffset
           else if yind \<ge> n2 - 1 then entry (t2_data t) k (linoffset + n2 - 1)
           else interp1 rd (t2_y t) (t2_data t) k (t2_step2_inv t) yind y
                  (linoffset + yind) (linoffset + yind + 1)
         else
           let lin = (if yind \<ge> n2 - 1 then n2 - 1 else if yind < 0 then 0 else -1)
           in if lin \<noteq> -1 then
                interp1 rd (t2_x t) (t2_data t) k (t2_step1_inv t) xind x
                  (xind * n2 + lin) ((xind + 1) * n2 + lin)
              else bilinear rd t k xind yind x y)"


declare entry_def [model_defs]

section \<open>Interpolation over exact arithmetic\<close>

definition uniform_table :: "tabfun \<Rightarrow> bool" where
  "uniform_table t \<longleftrightarrow> 2 \<le> tf_nrows t \<and> 0 < tf_step t \<and> tf_step_inv t = 1 / tf_step t
     \<and> tf_data t \<noteq> [] \<and> (\<forall>c \<in> set (tf_data t). length c = nat (tf_nrows t))
     \<and> (\<forall>i < nat (tf_nrows t). tf_data t ! 0 ! i = tf_min t + real i * tf_step t)"

lemma trunc_eq: "of_int n \<le> x \<Longrightarrow> x < of_int n + 1 \<Longrightarrow> 0 \<le> n \<Longrightarrow> trunc x = n"
  by (simp add: trunc_def floor_eq_iff)

lemma trunc_small: "- 1 < x \<Longrightarrow> x < 1 \<Longrightarrow> trunc x = 0"
  by (simp add: trunc_less_one)

lemma trunc_negative: "x \<le> - 1 \<Longrightarrow> trunc x < 0"
  by (simp add: trunc_def)

lemma trunc_ge: "of_int n \<le> x \<Longrightarrow> 0 \<le> n \<Longrightarrow> n \<le> trunc x"
  by (simp add: trunc_def le_floor_iff)

lemma entry_table:
  "uniform_table t \<Longrightarrow> 0 \<le> k \<Longrightarrow> k < int (length (tf_data t)) \<Longrightarrow> 0 \<le> i \<Longrightarrow> i < tf_nrows t \<Longrightarrow>
   entry (tf_data t) k i = Inr (tf_data t ! nat k ! nat i)"
  by (simp add: entry_def uniform_table_def nat_less_iff)

lemma tabfun_get_cell:
  assumes t: "uniform_table t" and k: "0 \<le> k" "k < int (length (tf_data t))"
    and i: "int i < tf_nrows t - 1" and tr: "trunc ((v - tf_min t) / tf_step t) = int i"
  shows "tabfun_get (\<lambda>x. x) t k v
     = Inr (tf_data t ! nat k ! i + (tf_data t ! nat k ! Suc i - tf_data t ! nat k ! i)
          * ((v - (tf_min t + real i * tf_step t)) / tf_step t))"
proof -
  let ?f = "tf_data t ! nat k"
  have step: "0 < tf_step t" "tf_step_inv t = 1 / tf_step t" and n: "2 \<le> tf_nrows t"
    using t by (simp_all add: uniform_table_def)
  have ends: "entry (tf_data t) 0 (int i) = Inr (tf_min t + real i * tf_step t)"
      "entry (tf_data t) 0 (int i + 1) = Inr (tf_min t + real (Suc i) * tf_step t)"
    using t i by (auto simp: entry_def uniform_table_def nat_add_distrib)
  have fs: "entry (tf_data t) k (int i) = Inr (?f ! i)" "entry (tf_data t) k (int i + 1) = Inr (?f ! Suc i)"
    using entry_table [OF t k, of "int i"] entry_table [OF t k, of "int i + 1"] i
    by (simp_all add: nat_add_distrib)
  have "tabfun_get (\<lambda>x. x) t k v
      = Inr ((((tf_min t + real (Suc i) * tf_step t) - v) * ?f ! i
          + (v - (tf_min t + real i * tf_step t)) * ?f ! Suc i) * (1 / tf_step t))"
    using tr i by (simp add: tabfun_get_def step ends fs Let_def)
  also have "\<dots> = Inr (?f ! i + (?f ! Suc i - ?f ! i) * ((v - (tf_min t + real i * tf_step t)) / tf_step t))"
    using step by (simp add: field_simps)
  finally show ?thesis .
qed

lemma tabfun_get_above:
  assumes t: "uniform_table t" and k: "0 \<le> k" "k < int (length (tf_data t))"
    and v: "tf_min t + of_int (tf_nrows t - 1) * tf_step t \<le> v"
  shows "tabfun_get (\<lambda>x. x) t k v = Inr (tf_data t ! nat k ! nat (tf_nrows t - 1))"
proof -
  have step: "0 < tf_step t" "tf_step_inv t = 1 / tf_step t" and n: "2 \<le> tf_nrows t"
    using t by (simp_all add: uniform_table_def)
  have "of_int (tf_nrows t - 1) \<le> (v - tf_min t) / tf_step t"
    using step v by (simp add: pos_le_divide_eq)
  then have "tf_nrows t - 1 \<le> trunc ((v - tf_min t) / tf_step t)"
    using n by (intro trunc_ge) auto
  then show ?thesis
    using n entry_table [OF t k, of "tf_nrows t - 1"] by (simp add: tabfun_get_def Let_def step)
qed

text \<open>
  C25. Over exact arithmetic the lookup in a uniform table never fails and is the piecewise linear
  interpolant of the column: at or above the last abscissa it is the last entry, between two
  abscissae it is their linear interpolation (the entries themselves at the abscissae), and one
  step or more below the table it is the first entry. Within one step below the table the
  truncation toward zero selects the first cell, so the value is extrapolated and not clamped.
\<close>

theorem tabfun_get_interpolates:
  assumes "uniform_table t" and "0 \<le> k" and "k < int (length (tf_data t))"
  shows "(\<forall>v \<le> tf_min t - tf_step t. tabfun_get (\<lambda>x. x) t k v = Inr (tf_data t ! nat k ! 0))
    \<and> (\<forall>v \<ge> tf_min t + of_int (tf_nrows t - 1) * tf_step t.
          tabfun_get (\<lambda>x. x) t k v = Inr (tf_data t ! nat k ! nat (tf_nrows t - 1)))
    \<and> (\<forall>i v. int i < tf_nrows t - 1 \<and> (if i = 0 then tf_min t - tf_step t < v else tf_min t + real i * tf_step t \<le> v)
          \<and> v < tf_min t + real (Suc i) * tf_step t \<longrightarrow>
        tabfun_get (\<lambda>x. x) t k v
          = Inr (tf_data t ! nat k ! i + (tf_data t ! nat k ! Suc i - tf_data t ! nat k ! i)
               * ((v - (tf_min t + real i * tf_step t)) / tf_step t)))"
proof (intro conjI allI impI)
  have step: "0 < tf_step t" "tf_step_inv t = 1 / tf_step t" and n: "2 \<le> tf_nrows t"
    using assms(1) by (simp_all add: uniform_table_def)
  fix v
  show "tabfun_get (\<lambda>x. x) t k v = Inr (tf_data t ! nat k ! 0)" if "v \<le> tf_min t - tf_step t"
  proof -
    have "trunc ((v - tf_min t) / tf_step t) < 0"
      using that step by (intro trunc_negative) (simp add: pos_divide_le_eq)
    then show ?thesis
      using entry_table [OF assms, of 0] n by (simp add: tabfun_get_def Let_def step)
  qed
  show "tabfun_get (\<lambda>x. x) t k v = Inr (tf_data t ! nat k ! nat (tf_nrows t - 1))"
    if "tf_min t + of_int (tf_nrows t - 1) * tf_step t \<le> v"
    using tabfun_get_above [OF assms that] .
next
  have step: "0 < tf_step t" using assms(1) by (simp add: uniform_table_def)
  fix i v
  assume v: "int i < tf_nrows t - 1
      \<and> (if i = 0 then tf_min t - tf_step t < v else tf_min t + real i * tf_step t \<le> v)
      \<and> v < tf_min t + real (Suc i) * tf_step t"
  have up: "(v - tf_min t) / tf_step t < real i + 1"
    using v step by (simp add: pos_divide_less_eq algebra_simps)
  have "trunc ((v - tf_min t) / tf_step t) = int i"
  proof (cases "i = 0")
    case True
    then show ?thesis using v step up by (auto intro!: trunc_small simp: pos_less_divide_eq)
  next
    case False
    then show ?thesis using v step up by (intro trunc_eq) (simp_all add: pos_le_divide_eq)
  qed
  then show "tabfun_get (\<lambda>x. x) t k v
      = Inr (tf_data t ! nat k ! i + (tf_data t ! nat k ! Suc i - tf_data t ! nat k ! i)
           * ((v - (tf_min t + real i * tf_step t)) / tf_step t))"
    using tabfun_get_cell [OF assms] v by blast
qed

definition small_table :: tabfun where
  "small_table = \<lparr>tf_data = [[1, 2, 3], [10, 30, 20]], tf_headers = [''x'', ''f''], tf_nrows = 3,
     tf_ncols = 2, tf_min = 1, tf_max = 3, tf_step = 1, tf_step_inv = 1\<rparr>"

lemma small_table_uniform: "uniform_table small_table"
  by (auto simp: uniform_table_def small_table_def numeral_eq_Suc less_Suc_eq)

lemma tabfun_get_interpolates_witness:
  "uniform_table small_table \<and> tabfun_get (\<lambda>x. x) small_table 1 (3 / 2) = Inr 20
   \<and> tabfun_get (\<lambda>x. x) small_table 1 4 = Inr 20 \<and> tabfun_get (\<lambda>x. x) small_table 1 (1 / 2) = Inr 0"
proof -
  have k: "(0::int) \<le> 1" "(1::int) < int (length (tf_data small_table))" by (simp_all add: small_table_def)
  note facts = tabfun_get_interpolates [OF small_table_uniform k]
  have "tabfun_get (\<lambda>x. x) small_table 1 (3 / 2) = Inr 20" "tabfun_get (\<lambda>x. x) small_table 1 (1 / 2) = Inr 0"
    using conjunct2 [OF conjunct2 [OF facts], rule_format, of 0 "3/2"]
      conjunct2 [OF conjunct2 [OF facts], rule_format, of 0 "1/2"] by (simp_all add: small_table_def)
  moreover have "tabfun_get (\<lambda>x. x) small_table 1 4 = Inr 20"
    using conjunct1 [OF conjunct2 [OF facts], rule_format, of 4] by (simp add: small_table_def)
  ultimately show ?thesis using small_table_uniform by blast
qed


section \<open>Bilinear interpolation over exact arithmetic\<close>

definition uniform_grid :: "tabfun2 \<Rightarrow> bool" where
  "uniform_grid t \<longleftrightarrow> 2 \<le> t2_nrows1 t \<and> 2 \<le> t2_nrows2 t \<and> 0 < t2_step1 t \<and> 0 < t2_step2 t
     \<and> t2_step1_inv t = 1 / t2_step1 t \<and> t2_step2_inv t = 1 / t2_step2 t
     \<and> t2_x t = map (\<lambda>i. t2_min1 t + real i * t2_step1 t) [0..<nat (t2_nrows1 t)]
     \<and> t2_y t = map (\<lambda>i. t2_min2 t + real i * t2_step2 t) [0..<nat (t2_nrows2 t)]
     \<and> (\<forall>c \<in> set (t2_data t). length c = nat (t2_nrows1 t * t2_nrows2 t))"

text \<open>A value within the range of a column.\<close>

definition in_range :: "real list \<Rightarrow> real \<Rightarrow> bool" where
  "in_range c v \<longleftrightarrow> Min (set c) \<le> v \<and> v \<le> Max (set c)"

lemma in_range_nth: "i < length c \<Longrightarrow> in_range c (c ! i)"
  by (simp add: in_range_def)

lemma in_range_mix:
  assumes "in_range c a" and "in_range c b" and "0 \<le> u" and "u \<le> 1"
  shows "in_range c ((1 - u) * a + u * b)"
proof -
  have "(1 - u) * Min (set c) + u * Min (set c) \<le> (1 - u) * a + u * b"
    using assms by (intro add_mono mult_left_mono) (auto simp: in_range_def)
  moreover have "(1 - u) * a + u * b \<le> (1 - u) * Max (set c) + u * Max (set c)"
    using assms by (intro add_mono mult_left_mono) (auto simp: in_range_def)
  ultimately show ?thesis by (simp add: in_range_def algebra_simps)
qed

text \<open>
  The specification: the piecewise linear interpolant of \<open>f 0, ..., f (n - 1)\<close> at a position in units of
  the step. It is constant from the last abscissa on and from one step below the first abscissa
  down; between them the first cell is extrapolated.
\<close>

definition lerp :: "nat \<Rightarrow> (nat \<Rightarrow> real) \<Rightarrow> real \<Rightarrow> real" where
  "lerp n f p =
     (if p \<le> -1 then f 0
      else if real (n - 1) \<le> p then f (n - 1)
      else let i = nat \<lfloor>p\<rfloor> in f i + (f (i + 1) - f i) * (p - real i))"

text \<open>The entry of column \<open>k\<close> at the grid point \<open>(i, j)\<close>; the grid is stored by rows.\<close>

definition grid_value :: "tabfun2 \<Rightarrow> int \<Rightarrow> nat \<Rightarrow> nat \<Rightarrow> real" where
  "grid_value t k i j = t2_data t ! nat k ! (i * nat (t2_nrows2 t) + j)"

text \<open>Where the code looks for a position, and what the interpolant is there.\<close>

lemma position_cases:
  assumes "0 < step" and "2 \<le> n" and "q = (v - a0) * (1 / step)"
  obtains "trunc q < 0" and "\<And>f. lerp (nat n) f q = f 0" and "q < 0"
    | "n - 1 \<le> trunc q" and "\<And>f. lerp (nat n) f q = f (nat n - 1)" and "0 \<le> q"
    | i u where "trunc q = int i" and "int i < n - 1" and "Suc i < nat n" and "i < nat n"
        and "\<And>f. lerp (nat n) f q = (1 - u) * f i + u * f (Suc i)" and "0 \<le> q \<longrightarrow> 0 \<le> u" and "u \<le> 1"
        and "v - (a0 + real i * step) = u * step" and "(a0 + real (Suc i) * step) - v = (1 - u) * step"
proof -
  have n1: "real (nat n - 1) = of_int (n - 1)" using assms(2) by (simp add: of_nat_diff)
  have v: "v = a0 + q * step" using assms(1,3) by simp
  consider "q \<le> -1" | "of_int (n - 1) \<le> q" "-1 < q" | "-1 < q" "q < of_int (n - 1)" by linarith
  then show thesis
  proof cases
    case 1
    then show thesis by (intro that(1)) (auto simp: lerp_def trunc_negative)
  next
    case 2
    then have "0 \<le> q" "n - 1 \<le> trunc q" using assms(2) by (auto intro!: trunc_ge)
    then show thesis using 2 by (intro that(2)) (auto simp: lerp_def n1)
  next
    case 3
    define i where "i = nat \<lfloor>q\<rfloor>"
    have "trunc q = int i \<and> real i \<le> max 0 q \<and> q \<le> real i + 1"
    proof (cases "0 \<le> q")
      case True
      then show ?thesis by (simp add: i_def trunc_def)
    next
      case False
      then have "\<lfloor>q\<rfloor> < 0" by simp
      then show ?thesis using False 3(1) trunc_small [of q] by (simp add: i_def)
    qed
    moreover from this have "real i < of_int (n - 1)" using 3(2) assms(2) by (auto simp: max_def split: if_splits)
    then have "int i < n - 1" by linarith
    moreover have "lerp (nat n) f q = (1 - (q - real i)) * f i + (q - real i) * f (Suc i)" for f
      using 3 by (simp add: lerp_def n1 i_def [symmetric] algebra_simps)
    ultimately show thesis
      by (intro that(3) [of i "q - real i"]) (auto simp: v algebra_simps max_def split: if_splits)
  qed
qed

lemma lerp_in_range:
  assumes "\<And>i. i < n \<Longrightarrow> in_range c (f i)" and "0 < n" and "0 \<le> q"
  shows "in_range c (lerp n f q)"
proof (cases "real (n - 1) \<le> q")
  case True
  then show ?thesis using assms by (simp add: lerp_def)
next
  case False
  define i where "i = nat \<lfloor>q\<rfloor>"
  have i: "real i \<le> q" "q \<le> real i + 1" "Suc i < n" using assms(3) False by (simp_all add: i_def) linarith+
  have "\<not> q \<le> -1" using assms(3) by simp
  then have "lerp n f q = f i + (f (i + 1) - f i) * (q - real i)"
    by (simp only: lerp_def Let_def i_def False if_False)
  then have "lerp n f q = (1 - (q - real i)) * f i + (q - real i) * f (Suc i)"
    by (simp add: algebra_simps)
  then show ?thesis using in_range_mix [OF assms(1) [of i] assms(1) [of "Suc i"], of "q - real i"] i by simp
qed

lemma entry_grid:
  assumes "uniform_grid t" and "0 \<le> k" and "k < int (length (t2_data t))"
    and i: "i < nat (t2_nrows1 t)" and j: "j < nat (t2_nrows2 t)"
  shows "entry (t2_data t) k (int i * t2_nrows2 t + int j) = Inr (grid_value t k i j)"
    "in_range (t2_data t ! nat k) (grid_value t k i j)"
proof -
  have len: "length (t2_data t ! nat k) = nat (t2_nrows1 t * t2_nrows2 t)"
    using assms(1-3) by (simp add: uniform_grid_def nat_less_iff)
  have n2: "int (nat (t2_nrows2 t)) = t2_nrows2 t" using j by simp
  have "i * nat (t2_nrows2 t) + j < (i + 1) * nat (t2_nrows2 t)" using j by simp
  also have "\<dots> \<le> nat (t2_nrows1 t) * nat (t2_nrows2 t)" using i by (intro mult_right_mono) auto
  also have "\<dots> = nat (t2_nrows1 t * t2_nrows2 t)" using i by (simp add: nat_mult_distrib)
  finally have less: "i * nat (t2_nrows2 t) + j < length (t2_data t ! nat k)" unfolding len .
  have "int i * t2_nrows2 t + int j = int (i * nat (t2_nrows2 t) + j)"
    by (simp only: of_nat_add of_nat_mult n2)
  then show "entry (t2_data t) k (int i * t2_nrows2 t + int j) = Inr (grid_value t k i j)"
    using less assms(2,3) unfolding entry_def grid_value_def by (simp only: nat_int of_nat_less_iff) simp
  show "in_range (t2_data t ! nat k) (grid_value t k i j)"
    unfolding grid_value_def by (rule in_range_nth [OF less])
qed

lemma entry_axis:
  "int i < n \<Longrightarrow> entry [map f [0..<nat n]] 0 (int i) = Inr (f i)"
  by (auto simp: entry_def)

lemma interp1_value:
  assumes "0 < step" and "axis = map (\<lambda>i. a0 + real i * step) [0..<nat n]" and "int i < n - 1"
    and "v - (a0 + real i * step) = u * step" and "(a0 + real (Suc i) * step) - v = (1 - u) * step"
    and "entry cols k at0 = Inr f0" and "entry cols k at1 = Inr f1"
  shows "interp1 (\<lambda>x. x) axis cols k (1 / step) (int i) v at0 at1 = Inr ((1 - u) * f0 + u * f1)"
proof -
  have "entry [axis] 0 (int i) = Inr (a0 + real i * step)"
      "entry [axis] 0 (int i + 1) = Inr (a0 + real (Suc i) * step)"
    using entry_axis [of i n "\<lambda>i. a0 + real i * step"] entry_axis [of "Suc i" n "\<lambda>i. a0 + real i * step"]
      assms(2,3) by (simp_all add: algebra_simps)
  then have "interp1 (\<lambda>x. x) axis cols k (1 / step) (int i) v at0 at1
      = Inr (((1 - u) * step * f0 + u * step * f1) * (1 / step))"
    using assms(4-7) by (simp add: interp1_def)
  also have "((1 - u) * step * f0 + u * step * f1) * (1 / step) = (1 - u) * f0 + u * f1"
    using assms(1) by (simp add: field_simps)
  finally show ?thesis .
qed

lemma bilinear_mix:
  fixes s1 s2 :: real
  assumes "s1 \<noteq> 0" and "s2 \<noteq> 0"
  shows "1 / s1 * (1 / s2) * (f11 * (a * s1) * (b * s2) + f21 * (c * s1) * (b * s2)
      + f12 * (a * s1) * (d * s2) + f22 * (c * s1) * (d * s2))
    = b * (a * f11 + c * f21) + d * (a * f12 + c * f22)"
  using assms by (simp add: field_simps)

lemma bilinear_value:
  assumes t: "uniform_grid t" and k: "0 \<le> k" "k < int (length (t2_data t))"
    and i: "int i < t2_nrows1 t - 1"
      "x - (t2_min1 t + real i * t2_step1 t) = u * t2_step1 t"
      "(t2_min1 t + real (Suc i) * t2_step1 t) - x = (1 - u) * t2_step1 t"
    and j: "int j < t2_nrows2 t - 1"
      "y - (t2_min2 t + real j * t2_step2 t) = w * t2_step2 t"
      "(t2_min2 t + real (Suc j) * t2_step2 t) - y = (1 - w) * t2_step2 t"
  shows "bilinear (\<lambda>x. x) t k (int i) (int j) x y =
    Inr ((1 - u) * ((1 - w) * grid_value t k i j + w * grid_value t k i (Suc j))
       + u * ((1 - w) * grid_value t k (Suc i) j + w * grid_value t k (Suc i) (Suc j)))"
proof -
  let ?n2 = "t2_nrows2 t" and ?s1 = "t2_step1 t" and ?s2 = "t2_step2 t" and ?f = "grid_value t k"
  have s: "0 < ?s1" "0 < ?s2" and inv: "t2_step1_inv t = 1 / ?s1" "t2_step2_inv t = 1 / ?s2"
    and axes: "t2_x t = map (\<lambda>i. t2_min1 t + real i * ?s1) [0..<nat (t2_nrows1 t)]"
      "t2_y t = map (\<lambda>i. t2_min2 t + real i * ?s2) [0..<nat ?n2]"
    using t by (simp_all add: uniform_grid_def)
  have ends: "entry [t2_x t] 0 (int i) = Inr (t2_min1 t + real i * ?s1)"
      "entry [t2_x t] 0 (int i + 1) = Inr (t2_min1 t + real (Suc i) * ?s1)"
      "entry [t2_y t] 0 (int j) = Inr (t2_min2 t + real j * ?s2)"
      "entry [t2_y t] 0 (int j + 1) = Inr (t2_min2 t + real (Suc j) * ?s2)"
    using entry_axis [of i "t2_nrows1 t"] entry_axis [of "Suc i" "t2_nrows1 t"]
      entry_axis [of j ?n2] entry_axis [of "Suc j" ?n2] i(1) j(1) by (simp_all add: axes algebra_simps)
  have f: "entry (t2_data t) k (int i * ?n2 + int j) = Inr (?f i j)"
      "entry (t2_data t) k (int i * ?n2 + int j + 1) = Inr (?f i (Suc j))"
      "entry (t2_data t) k ((int i + 1) * ?n2 + int j) = Inr (?f (Suc i) j)"
      "entry (t2_data t) k ((int i + 1) * ?n2 + int j + 1) = Inr (?f (Suc i) (Suc j))"
    using entry_grid(1) [OF t k, of i j] entry_grid(1) [OF t k, of i "Suc j"]
      entry_grid(1) [OF t k, of "Suc i" j] entry_grid(1) [OF t k, of "Suc i" "Suc j"] i(1) j(1)
    by (simp_all add: algebra_simps)
  have "bilinear (\<lambda>x. x) t k (int i) (int j) x y
      = Inr (1 / ?s1 * (1 / ?s2) * (?f i j * ((1 - u) * ?s1) * ((1 - w) * ?s2) + ?f (Suc i) j * (u * ?s1) * ((1 - w) * ?s2)
          + ?f i (Suc j) * ((1 - u) * ?s1) * (w * ?s2) + ?f (Suc i) (Suc j) * (u * ?s1) * (w * ?s2)))"
    by (simp only: bilinear_def ends f rbind_simps Let_def inv i(2,3) j(2,3))
  also have "\<dots> = Inr ((1 - w) * ((1 - u) * ?f i j + u * ?f (Suc i) j) + w * ((1 - u) * ?f i (Suc j) + u * ?f (Suc i) (Suc j)))"
    by (simp only: bilinear_mix [OF less_imp_neq [OF s(1), THEN not_sym] less_imp_neq [OF s(2), THEN not_sym]])
  also have "\<dots> = Inr ((1 - u) * ((1 - w) * ?f i j + w * ?f i (Suc j)) + u * ((1 - w) * ?f (Suc i) j + w * ?f (Suc i) (Suc j)))"
    by (simp add: algebra_simps)
  finally show ?thesis .
qed

lemma tabfun2_get_at:
  assumes i: "trunc (rd (rd (x - t2_min1 t) * t2_step1_inv t)) = i"
    and j: "trunc (rd (rd (y - t2_min2 t) * t2_step2_inv t)) = j"
    and n: "2 \<le> t2_nrows1 t" "2 \<le> t2_nrows2 t"
  shows "i < 0 \<Longrightarrow> tabfun2_get rd t k x y =
      (if j < 0 then entry (t2_data t) k 0
       else if t2_nrows2 t - 1 \<le> j then entry (t2_data t) k (t2_nrows2 t - 1)
       else interp1 rd (t2_y t) (t2_data t) k (t2_step2_inv t) j y j (j + 1))"
    and "t2_nrows1 t - 1 \<le> i \<Longrightarrow> tabfun2_get rd t k x y =
      (if j < 0 then entry (t2_data t) k ((t2_nrows1 t - 1) * t2_nrows2 t)
       else if t2_nrows2 t - 1 \<le> j then entry (t2_data t) k ((t2_nrows1 t - 1) * t2_nrows2 t + t2_nrows2 t - 1)
       else interp1 rd (t2_y t) (t2_data t) k (t2_step2_inv t) j y
         ((t2_nrows1 t - 1) * t2_nrows2 t + j) ((t2_nrows1 t - 1) * t2_nrows2 t + j + 1))"
    and "0 \<le> i \<Longrightarrow> i < t2_nrows1 t - 1 \<Longrightarrow> tabfun2_get rd t k x y =
      (if j < 0 then interp1 rd (t2_x t) (t2_data t) k (t2_step1_inv t) i x (i * t2_nrows2 t) ((i + 1) * t2_nrows2 t)
       else if t2_nrows2 t - 1 \<le> j then interp1 rd (t2_x t) (t2_data t) k (t2_step1_inv t) i x
         (i * t2_nrows2 t + (t2_nrows2 t - 1)) ((i + 1) * t2_nrows2 t + (t2_nrows2 t - 1))
       else bilinear rd t k i j x y)"
proof -
  have o1: "(t2_nrows1 t - 1) * t2_nrows2 t \<noteq> -1" using n by (smt (verit) mult_nonneg_nonneg)
  show "i < 0 \<Longrightarrow> tabfun2_get rd t k x y =
      (if j < 0 then entry (t2_data t) k 0
       else if t2_nrows2 t - 1 \<le> j then entry (t2_data t) k (t2_nrows2 t - 1)
       else interp1 rd (t2_y t) (t2_data t) k (t2_step2_inv t) j y j (j + 1))"
    using n unfolding tabfun2_get_def Let_def i j by simp
  show "t2_nrows1 t - 1 \<le> i \<Longrightarrow> tabfun2_get rd t k x y =
      (if j < 0 then entry (t2_data t) k ((t2_nrows1 t - 1) * t2_nrows2 t)
       else if t2_nrows2 t - 1 \<le> j then entry (t2_data t) k ((t2_nrows1 t - 1) * t2_nrows2 t + t2_nrows2 t - 1)
       else interp1 rd (t2_y t) (t2_data t) k (t2_step2_inv t) j y
         ((t2_nrows1 t - 1) * t2_nrows2 t + j) ((t2_nrows1 t - 1) * t2_nrows2 t + j + 1))"
    unfolding tabfun2_get_def Let_def i j by (simp only: if_True o1 simp_thms)
  show "0 \<le> i \<Longrightarrow> i < t2_nrows1 t - 1 \<Longrightarrow> tabfun2_get rd t k x y =
      (if j < 0 then interp1 rd (t2_x t) (t2_data t) k (t2_step1_inv t) i x (i * t2_nrows2 t) ((i + 1) * t2_nrows2 t)
       else if t2_nrows2 t - 1 \<le> j then interp1 rd (t2_x t) (t2_data t) k (t2_step1_inv t) i x
         (i * t2_nrows2 t + (t2_nrows2 t - 1)) ((i + 1) * t2_nrows2 t + (t2_nrows2 t - 1))
       else bilinear rd t k i j x y)"
    using n unfolding tabfun2_get_def Let_def i j by simp
qed

text \<open>A row of the grid, then the position in it.\<close>

lemma grid_row_get:
  assumes t: "uniform_grid t" and k: "0 \<le> k" "k < int (length (t2_data t))"
    and r: "r < nat (t2_nrows1 t)" and q: "q = (y - t2_min2 t) * (1 / t2_step2 t)" and o: "o1 = int r * t2_nrows2 t"
  shows "(if trunc q < 0 then entry (t2_data t) k o1
       else if t2_nrows2 t - 1 \<le> trunc q then entry (t2_data t) k (o1 + t2_nrows2 t - 1)
       else interp1 (\<lambda>x. x) (t2_y t) (t2_data t) k (t2_step2_inv t) (trunc q) y (o1 + trunc q) (o1 + trunc q + 1))
    = Inr (lerp (nat (t2_nrows2 t)) (grid_value t k r) q)"
proof -
  let ?n2 = "t2_nrows2 t"
  have s: "0 < t2_step2 t" "t2_step2_inv t = 1 / t2_step2 t" and n: "2 \<le> ?n2"
    and axis: "t2_y t = map (\<lambda>i. t2_min2 t + real i * t2_step2 t) [0..<nat ?n2]"
    using t by (simp_all add: uniform_grid_def)
  note e = entry_grid(1) [OF t k r]
  show ?thesis
  proof (rule position_cases [OF s(1) n q])
    assume "trunc q < 0" and l: "\<And>f. lerp (nat ?n2) f q = f 0"
    then show ?thesis using e [of 0] n by (simp add: o)
  next
    assume i: "?n2 - 1 \<le> trunc q" and l: "\<And>f. lerp (nat ?n2) f q = f (nat ?n2 - 1)"
    moreover have "int (nat ?n2 - 1) = ?n2 - 1" using n by simp
    ultimately show ?thesis using e [of "nat ?n2 - 1"] n by (simp add: o add_diff_eq)
  next
    fix j w
    assume j: "trunc q = int j" "int j < ?n2 - 1" "Suc j < nat ?n2" "j < nat ?n2"
      and l: "\<And>f. lerp (nat ?n2) f q = (1 - w) * f j + w * f (Suc j)"
      and w: "y - (t2_min2 t + real j * t2_step2 t) = w * t2_step2 t"
        "t2_min2 t + real (Suc j) * t2_step2 t - y = (1 - w) * t2_step2 t"
    have "entry (t2_data t) k (o1 + int j) = Inr (grid_value t k r j)"
      "entry (t2_data t) k (o1 + int j + 1) = Inr (grid_value t k r (Suc j))"
      using e [OF j(4)] e [OF j(3)] by (simp_all add: o algebra_simps)
    from interp1_value [OF s(1) axis j(2) w this] show ?thesis using j(2) by (simp add: j(1) l s(2))
  qed
qed

lemma grid_col_get:
  assumes t: "uniform_grid t" and k: "0 \<le> k" "k < int (length (t2_data t))"
    and c: "c < nat (t2_nrows2 t)" and o: "o1 = int c"
    and i: "int i < t2_nrows1 t - 1"
    and u: "x - (t2_min1 t + real i * t2_step1 t) = u * t2_step1 t"
      "(t2_min1 t + real (Suc i) * t2_step1 t) - x = (1 - u) * t2_step1 t"
  shows "interp1 (\<lambda>x. x) (t2_x t) (t2_data t) k (t2_step1_inv t) (int i) x
      (int i * t2_nrows2 t + o1) ((int i + 1) * t2_nrows2 t + o1)
    = Inr ((1 - u) * grid_value t k i c + u * grid_value t k (Suc i) c)"
proof -
  have s: "0 < t2_step1 t" "t2_step1_inv t = 1 / t2_step1 t"
    and axis: "t2_x t = map (\<lambda>i. t2_min1 t + real i * t2_step1 t) [0..<nat (t2_nrows1 t)]"
    using t by (simp_all add: uniform_grid_def)
  have "entry (t2_data t) k (int i * t2_nrows2 t + o1) = Inr (grid_value t k i c)"
    "entry (t2_data t) k ((int i + 1) * t2_nrows2 t + o1) = Inr (grid_value t k (Suc i) c)"
    using entry_grid(1) [OF t k _ c, of i] entry_grid(1) [OF t k _ c, of "Suc i"] i by (simp_all add: o algebra_simps)
  from interp1_value [OF s(1) axis i u this] show ?thesis by (simp add: s(2))
qed

lemma tabfun2_get_value:
  assumes t: "uniform_grid t" and k: "0 \<le> k" "k < int (length (t2_data t))"
  shows "tabfun2_get (\<lambda>x. x) t k x y = Inr (lerp (nat (t2_nrows1 t))
      (\<lambda>i. lerp (nat (t2_nrows2 t)) (grid_value t k i) ((y - t2_min2 t) * (1 / t2_step2 t)))
      ((x - t2_min1 t) * (1 / t2_step1 t)))"
proof -
  let ?n1 = "t2_nrows1 t" and ?n2 = "t2_nrows2 t"
  define p where "p = (x - t2_min1 t) * (1 / t2_step1 t)"
  define q where "q = (y - t2_min2 t) * (1 / t2_step2 t)"
  have n: "2 \<le> ?n1" "2 \<le> ?n2" and s: "0 < t2_step1 t" "0 < t2_step2 t"
    and inv: "t2_step1_inv t = 1 / t2_step1 t" "t2_step2_inv t = 1 / t2_step2 t"
    using t by (simp_all add: uniform_grid_def)
  have ij: "trunc ((x - t2_min1 t) * t2_step1_inv t) = trunc p" "trunc ((y - t2_min2 t) * t2_step2_inv t) = trunc q"
    by (simp_all only: p_def q_def inv)
  note get = tabfun2_get_at [of "\<lambda>x. x", OF ij n]
  note row = grid_row_get [OF t k _ q_def]
  have "tabfun2_get (\<lambda>x. x) t k x y
    = Inr (lerp (nat ?n1) (\<lambda>i. lerp (nat ?n2) (grid_value t k i) q) p)"
  proof (rule position_cases [OF s(1) n(1) p_def])
    assume i: "trunc p < 0" and l: "\<And>f. lerp (nat ?n1) f p = f 0"
    have "0 < nat ?n1" "0 = int 0 * ?n2" using n by simp_all
    from row [OF this] show ?thesis unfolding l get(1) [OF i] by (simp only: add_0)
  next
    assume i: "?n1 - 1 \<le> trunc p" and l: "\<And>f. lerp (nat ?n1) f p = f (nat ?n1 - 1)"
    have "int (nat ?n1 - 1) = ?n1 - 1" "nat ?n1 - 1 < nat ?n1" using n by simp_all
    then show ?thesis unfolding l get(2) [OF i] using row [of "nat ?n1 - 1"] by simp
  next
    fix i u
    assume i: "trunc p = int i" "int i < ?n1 - 1" and l: "\<And>f. lerp (nat ?n1) f p = (1 - u) * f i + u * f (Suc i)"
      and u: "x - (t2_min1 t + real i * t2_step1 t) = u * t2_step1 t"
        "t2_min1 t + real (Suc i) * t2_step1 t - x = (1 - u) * t2_step1 t"
    have get': "tabfun2_get (\<lambda>x. x) t k x y =
      (if trunc q < 0 then interp1 (\<lambda>x. x) (t2_x t) (t2_data t) k (t2_step1_inv t) (int i) x (int i * ?n2) ((int i + 1) * ?n2)
       else if ?n2 - 1 \<le> trunc q then interp1 (\<lambda>x. x) (t2_x t) (t2_data t) k (t2_step1_inv t) (int i) x
         (int i * ?n2 + (?n2 - 1)) ((int i + 1) * ?n2 + (?n2 - 1))
       else bilinear (\<lambda>x. x) t k (int i) (trunc q) x y)"
      using get(3) i by simp
    note col = grid_col_get [OF t k _ _ i(2) u]
    show ?thesis
    proof (rule position_cases [OF s(2) n(2) q_def])
      assume j: "trunc q < 0" and m: "\<And>f. lerp (nat ?n2) f q = f 0"
      show ?thesis unfolding get' l m using j col [of 0 0] n by simp
    next
      assume j: "?n2 - 1 \<le> trunc q" and m: "\<And>f. lerp (nat ?n2) f q = f (nat ?n2 - 1)"
      have c: "nat ?n2 - 1 < nat ?n2" "?n2 - 1 = int (nat ?n2 - 1)" "\<not> trunc q < 0" using n j by simp_all
      show ?thesis unfolding get' l m using j c(3) col [OF c(1,2)] by simp
    next
      fix j w
      assume j: "trunc q = int j" "int j < ?n2 - 1" and m: "\<And>f. lerp (nat ?n2) f q = (1 - w) * f j + w * f (Suc j)"
        and w: "y - (t2_min2 t + real j * t2_step2 t) = w * t2_step2 t"
          "t2_min2 t + real (Suc j) * t2_step2 t - y = (1 - w) * t2_step2 t"
      show ?thesis unfolding get' l m using j bilinear_value [OF t k i(2) u j(2) w] by simp
    qed
  qed
  then show ?thesis unfolding p_def q_def .
qed

text \<open>
  C26. Over exact arithmetic (without rounding) the lookup in a uniform grid never fails, and its
  value is the bilinear interpolant of the column: the interpolant along the rows of the
  interpolants along the columns, clamped beyond the upper edges and from one step below the lower
  ones. Where the point is not below the grid the value lies
  between the smallest and the largest entry of the column, and at a grid point it is the entry.
\<close>

theorem tabfun2_get_interpolates:
  assumes t: "uniform_grid t" and k: "0 \<le> k" "k < int (length (t2_data t))"
  shows "tabfun2_get (\<lambda>x. x) t k x y = Inr (lerp (nat (t2_nrows1 t))
      (\<lambda>i. lerp (nat (t2_nrows2 t)) (grid_value t k i) ((y - t2_min2 t) / t2_step2 t))
      ((x - t2_min1 t) / t2_step1 t))
    \<and> (t2_min1 t \<le> x \<and> t2_min2 t \<le> y \<longrightarrow> (\<exists>r. tabfun2_get (\<lambda>x. x) t k x y = Inr r
         \<and> Min (set (t2_data t ! nat k)) \<le> r \<and> r \<le> Max (set (t2_data t ! nat k))))
    \<and> (\<forall>i < nat (t2_nrows1 t). \<forall>j < nat (t2_nrows2 t).
         tabfun2_get (\<lambda>x. x) t k (t2_min1 t + real i * t2_step1 t) (t2_min2 t + real j * t2_step2 t)
           = Inr (grid_value t k i j))"
proof (intro conjI impI allI)
  have s: "0 < t2_step1 t" "0 < t2_step2 t" and n: "2 \<le> t2_nrows1 t" "2 \<le> t2_nrows2 t"
    using t by (simp_all add: uniform_grid_def)
  note get = tabfun2_get_value [OF t k]
  show "tabfun2_get (\<lambda>x. x) t k x y = Inr (lerp (nat (t2_nrows1 t))
      (\<lambda>i. lerp (nat (t2_nrows2 t)) (grid_value t k i) ((y - t2_min2 t) / t2_step2 t))
      ((x - t2_min1 t) / t2_step1 t))"
    using get [of x y] by simp
  show "\<exists>r. tabfun2_get (\<lambda>x. x) t k x y = Inr r
         \<and> Min (set (t2_data t ! nat k)) \<le> r \<and> r \<le> Max (set (t2_data t ! nat k))"
    if "t2_min1 t \<le> x \<and> t2_min2 t \<le> y"
  proof -
    define q where "q = (y - t2_min2 t) * (1 / t2_step2 t)"
    define p where "p = (x - t2_min1 t) * (1 / t2_step1 t)"
    have pos: "0 < nat (t2_nrows1 t)" "0 < nat (t2_nrows2 t)" "0 \<le> p" "0 \<le> q"
      using that s n by (simp_all add: p_def q_def)
    have "in_range (t2_data t ! nat k) (lerp (nat (t2_nrows2 t)) (grid_value t k i) q)" if "i < nat (t2_nrows1 t)" for i
      by (rule lerp_in_range [OF entry_grid(2) [OF t k that] pos(2,4)])
    from lerp_in_range [where f = "\<lambda>i. lerp (nat (t2_nrows2 t)) (grid_value t k i) q", OF this pos(1,3)]
    show ?thesis unfolding get p_def [symmetric] q_def [symmetric] in_range_def by blast
  qed
  show "tabfun2_get (\<lambda>x. x) t k (t2_min1 t + real i * t2_step1 t) (t2_min2 t + real j * t2_step2 t)
      = Inr (grid_value t k i j)" if "i < nat (t2_nrows1 t)" "j < nat (t2_nrows2 t)" for i j
  proof -
    have l: "lerp m f (real i) = f i" if "i < m" for m i and f
      using that by (cases "i = m - 1") (auto simp: lerp_def)
    show ?thesis unfolding get using s that by (simp add: l)
  qed
qed

definition small_grid :: tabfun2 where
  "small_grid = tabfun2_zero\<lparr>t2_data := [[1, 2, 3, 8]], t2_headers := [''f''], t2_nrows1 := 2,
     t2_nrows2 := 2, t2_step1 := 1, t2_step2 := 1, t2_step1_inv := 1, t2_step2_inv := 1,
     t2_x := [0, 1], t2_y := [0, 1]\<rparr>"

lemma tabfun2_get_interpolates_witness:
  "uniform_grid small_grid \<and> tabfun2_get (\<lambda>x. x) small_grid 0 (1 / 2) (1 / 4) = Inr (11 / 4)
   \<and> tabfun2_get (\<lambda>x. x) small_grid 0 1 0 = Inr 3"
proof -
  have g: "uniform_grid small_grid"
    by (simp add: uniform_grid_def small_grid_def tabfun2_zero_def upt_conv_Cons)
  have k: "(0::int) < int (length (t2_data small_grid))" by (simp add: small_grid_def)
  note facts = tabfun2_get_interpolates [OF g order_refl k]
  have "tabfun2_get (\<lambda>x. x) small_grid 0 (1 / 2) (1 / 4) = Inr (11 / 4)"
    using conjunct1 [OF facts, of "1 / 2" "1 / 4"]
    by (simp add: small_grid_def tabfun2_zero_def lerp_def grid_value_def)
  moreover have "tabfun2_get (\<lambda>x. x) small_grid 0 1 0 = Inr 3"
    using conjunct1 [OF facts, of 1 0] by (simp add: small_grid_def tabfun2_zero_def lerp_def grid_value_def)
  ultimately show ?thesis using g by blast
qed

end
