(* ===== verification/Rates.thy ===== *)
theory Rates
  imports Tabulated
begin

text \<open>
  The tables of atomic physics: the rates and cross sections of \<open>src/src/atomic-rate.c\<close> with the
  analytical forms of \<open>src/src/verner.F90\<close>, the secondary ionization of \<open>src/src/secion.c\<close>, the
  equation of state of \<open>src/src/eos.c\<close> and the kernel of \<open>src/src/sph-depth.c\<close>.

  The global tables and the column numbers that the \<open>_init\<close> functions assign are the records
  \<open>atomic\<close>, \<open>secion\<close> and \<open>eos_state\<close>. The data of \<open>src/src/kernel.akline\<close> (4096 numbers) and the
  files are arguments. \<open>pow\<close>, \<open>sqrt\<close> and \<open>log10\<close> are the rounded real functions.
\<close>

section \<open>Atomic rates and cross sections\<close>

record atomic =
  ar_tab :: tabfun
  xs_tab :: tabfun
  xs_cut :: "real list"
  AR_HI_CI :: int
  AR_HII_RC_A :: int
  AR_HII_RCC_A :: int
  AR_HII_RC_B :: int
  AR_HII_RCC_B :: int
  AR_HI_CIC :: int
  AR_HI_CEC :: int
  AR_E_BREMC :: int
  AR_E_COMPC :: int
  AR_HEI_CI :: int
  AR_HEII_CI :: int
  AR_HEII_RC_A :: int
  AR_HEII_RC_B :: int
  AR_HEIII_RC_A :: int
  AR_HEIII_RC_B :: int
  AR_LOG_T :: int
  XS_ENG :: int
  XS_HI :: int
  XS_HEI :: int
  XS_HEII :: int

definition atomic_start :: atomic where
  "atomic_start = \<lparr>ar_tab = tabfun_zero, xs_tab = tabfun_zero, xs_cut = replicate 100 0,
     AR_HI_CI = -1, AR_HII_RC_A = -1, AR_HII_RCC_A = -1, AR_HII_RC_B = -1, AR_HII_RCC_B = -1,
     AR_HI_CIC = -1, AR_HI_CEC = -1, AR_E_BREMC = -1, AR_E_COMPC = -1, AR_HEI_CI = -1,
     AR_HEII_CI = -1, AR_HEII_RC_A = -1, AR_HEII_RC_B = -1, AR_HEIII_RC_A = -1, AR_HEIII_RC_B = -1,
     AR_LOG_T = -1, XS_ENG = -1, XS_HI = -1, XS_HEI = -1, XS_HEII = -1\<rparr>"

text \<open>The functions of \<open>verner.F90\<close>, in single precision with double precision literals.\<close>

definition verner_hi_photo_cs :: "real \<Rightarrow> real" where
  "verner_hi_photo_cs ry =
     (if ry < 1 / 2 then 0
      else
        let P = fl (2963 / 1000); E0 = fl (4298 / 10000); ya = fl (3288 / 100);
            ev = fl (db (ry * db (136 / 10)));
            x = fl (ev / E0); y = x;
            low = fl (54750 * fl (fl (x - 1) * fl (x - 1)));
            mid = db (y powr db (db (1 / 2 * P) - 11 / 2));
            high = fl (fl (1 + fl (sqrt (fl (y / ya)))) powr (- P));
            sigma = fl (db (fl (db (db (low * mid) * high)) * db (1 / 10 ^ 18)))
        in if sigma < 0 then 0 else sigma)"

definition osterbrok_hei_photo_cs :: "real \<Rightarrow> real" where
  "osterbrok_hei_photo_cs ry =
     (let nu = fl (24587 / 1000); c = fl (136 / 10)
      in if fl (fl (2 * ry) * c) < nu then 0
         else
           let scaled = fl (fl (ry * c) / nu)
           in fl (fl (72 / 10 ^ 19)
                * fl (fl (fl (166 / 100) * fl (scaled powr fl (- 205 / 100)))
                    + fl (fl (66 / 100) * fl (scaled powr fl (- 305 / 100))))))"

definition osterbrok_heii_photo_cs :: "real \<Rightarrow> real" where
  "osterbrok_heii_photo_cs ry =
     (let nu = fl (54416 / 1000); c = fl (136 / 10)
      in if fl (fl (2 * ry) * c) < nu then 0
         else fl (fl (158 / 10 ^ 20) * fl (fl (fl (ry * c) / nu) powi (- 3))))"

definition verner :: "units \<Rightarrow> real \<Rightarrow> real" where
  "verner u eng = verner_hi_photo_cs (fl (db (eng / c_hi_energy u)))"

definition osterbrok_HeI :: "units \<Rightarrow> real \<Rightarrow> real" where
  "osterbrok_HeI u eng = osterbrok_hei_photo_cs (fl (db (eng / c_hi_energy u)))"

definition osterbrok_HeII :: "units \<Rightarrow> real \<Rightarrow> real" where
  "osterbrok_HeII u eng = osterbrok_heii_photo_cs (fl (db (eng / c_hi_energy u)))"

definition bremsstrahlung_cen_1992 :: "real \<Rightarrow> real" where
  "bremsstrahlung_cen_1992 T = db (db (db (142 / 10 ^ 29) * (3 / 2)) * db (sqrt T))"

definition compton_haiman_1996 :: "real \<Rightarrow> real" where
  "compton_haiman_1996 T = 0"

definition ar_init :: "(nat \<Rightarrow> nat \<Rightarrow> real) \<Rightarrow> nat \<Rightarrow> units \<Rightarrow> text_file \<Rightarrow> atomic \<Rightarrow> atomic res" where
  "ar_init fresh bufsize u file a =
     (let cm = u_cm u; sec = u_sec u; erg = u_erg u;
          rate = db (db (db (cm * cm) * cm) / sec);
          cool = db (db (db (db (erg * cm) * cm) * cm) / sec);
          vol = db (db (erg * db (db (cm * cm) * cm)) / sec)
      in rbind (tabfun_init fresh bufsize file (ar_tab a)) (\<lambda>t.
         rbind (tabfun_setup_col t ''HIci'' None rate) (\<lambda>(hi_ci, t).
         rbind (tabfun_setup_col t ''HIIrcA'' None rate) (\<lambda>(hii_rc_a, t).
         rbind (tabfun_setup_col t ''HIIrccA'' None cool) (\<lambda>(hii_rcc_a, t).
         rbind (tabfun_setup_col t ''HIIrcB'' None rate) (\<lambda>(hii_rc_b, t).
         rbind (tabfun_setup_col t ''HIIrccB'' None cool) (\<lambda>(hii_rcc_b, t).
         rbind (tabfun_setup_col t ''HeIci'' None rate) (\<lambda>(hei_ci, t).
         rbind (tabfun_setup_col t ''HeIIci'' None rate) (\<lambda>(heii_ci, t).
         rbind (tabfun_setup_col t ''HeIIrcA'' None rate) (\<lambda>(heii_rc_a, t).
         rbind (tabfun_setup_col t ''HeIIrcB'' None rate) (\<lambda>(heii_rc_b, t).
         rbind (tabfun_setup_col t ''HeIIIrcA'' None rate) (\<lambda>(heiii_rc_a, t).
         rbind (tabfun_setup_col t ''HeIIIrcB'' None rate) (\<lambda>(heiii_rc_b, t).
         rbind (tabfun_setup_col t ''HIcic'' None vol) (\<lambda>(hi_cic, t).
         rbind (tabfun_setup_col t ''HIcec'' None vol) (\<lambda>(hi_cec, t).
         rbind (tabfun_setup_col t ''Brem'' (Some bremsstrahlung_cen_1992) vol) (\<lambda>(e_bremc, t).
         rbind (tabfun_setup_col t ''Compton'' (Some compton_haiman_1996) (db (erg / sec))) (\<lambda>(e_compc, t).
           Inr (a\<lparr>ar_tab := t, AR_HI_CI := hi_ci, AR_HII_RC_A := hii_rc_a, AR_HII_RCC_A := hii_rcc_a,
             AR_HII_RC_B := hii_rc_b, AR_HII_RCC_B := hii_rcc_b, AR_HEI_CI := hei_ci,
             AR_HEII_CI := heii_ci, AR_HEII_RC_A := heii_rc_a, AR_HEII_RC_B := heii_rc_b,
             AR_HEIII_RC_A := heiii_rc_a, AR_HEIII_RC_B := heiii_rc_b, AR_HI_CIC := hi_cic,
             AR_HI_CEC := hi_cec, AR_E_BREMC := e_bremc, AR_E_COMPC := e_compc, AR_LOG_T := 0\<rparr>))))))))))))))))))"

definition ar_get :: "atomic \<Rightarrow> int \<Rightarrow> real \<Rightarrow> real res" where
  "ar_get a k v = tabfun_get db (ar_tab a) k v"

text \<open>The table of energies that is set up when no file is given.\<close>

definition xs_default :: "units \<Rightarrow> tabfun \<Rightarrow> tabfun res" where
  "xs_default u t =
     (let lo = db (1 * c_hi_energy u); hi = db (100 * c_hi_energy u);
          step = db (db (hi - lo) / 16383)
      in rbind (fdiv db 1 step) (\<lambda>inv.
           Inr (t\<lparr>tf_ncols := 1, tf_nrows := 16384, tf_min := lo, tf_max := hi, tf_step := step,
             tf_step_inv := inv, tf_headers := [''eng''],
             tf_data := [map (\<lambda>i. db (lo + db (step * real i))) [0..<16384]]\<rparr>)))"

definition xs_init :: "(nat \<Rightarrow> nat \<Rightarrow> real) \<Rightarrow> nat \<Rightarrow> units \<Rightarrow> text_file option \<Rightarrow> atomic \<Rightarrow> atomic res" where
  "xs_init fresh bufsize u filename a =
     (let cm2 = db (u_cm u * u_cm u)
      in rbind (case filename of
             Some file \<Rightarrow> tabfun_init fresh bufsize file (xs_tab a)
           | None \<Rightarrow> xs_default u (xs_tab a)) (\<lambda>t.
         rbind (tabfun_setup_col t ''HI'' (Some (verner u)) cm2) (\<lambda>(hi, t).
         rbind (tabfun_setup_col t ''HeI'' (Some (osterbrok_HeI u)) cm2) (\<lambda>(hei, t).
         rbind (tabfun_setup_col t ''HeII'' (Some (osterbrok_HeII u)) cm2) (\<lambda>(heii, t).
           if hi \<ge> 100 \<or> hei \<ge> 100 \<or> heii \<ge> 100 then Inl Out_of_bounds
           else Inr (a\<lparr>xs_tab := t, XS_HI := hi, XS_HEI := hei, XS_HEII := heii, XS_ENG := 0,
             xs_cut := (((xs_cut a)[nat hi := db (db (136 / 10) * u_ev u)])
               [nat hei := db (db (245 / 10) * u_ev u)])[nat heii := db (db (544 / 10) * u_ev u)]\<rparr>))))))"

definition xs_get :: "atomic \<Rightarrow> int \<Rightarrow> real \<Rightarrow> real res" where
  "xs_get a k v =
     (if k < 0 \<or> k \<ge> int (length (xs_cut a)) then Inl Out_of_bounds
      else if v < xs_cut a ! nat k then Inr 0
      else tabfun_get db (xs_tab a) k v)"

section \<open>Secondary ionization\<close>

record secion =
  si_tab :: tabfun2
  SECION_PHI_HI :: int
  SECION_PHI_HEI :: int
  SECION_EH :: int

text \<open>The fit coefficients; the entries \<open>a[j][0]\<close> are NaN in the source and never read.\<close>

definition secion_a1 :: "real list" where
  "secion_a1 = map db [2 / 10, 2 / 10, 4 / 10]"

definition secion_b :: "real list list" where
  "secion_b = map (map db) [[4092 / 10000, 38 / 100], [4614 / 10000, 38 / 100], [2663 / 10000, 34 / 100]]"

definition secion_c :: "real list list" where
  "secion_c = map (map db) [[17592 / 10000, 2], [16660 / 10000, 2], [13163 / 10000, 2]]"

definition secion_C :: "real list list" where
  "secion_C = map (map db) [[3908 / 10000, 6941 / 10000], [554 / 10000, 984 / 10000], [1, 39811 / 10000]]"

definition secion_y :: "nat \<Rightarrow> real \<Rightarrow> (real \<times> real) res" where
  "secion_y j x =
     rbind (fpow db x (secion_b ! j ! 0)) (\<lambda>p0.
     rbind (fpow db (db (1 - p0)) (secion_c ! j ! 0)) (\<lambda>q0.
     rbind (fpow db x (secion_a1 ! j)) (\<lambda>pa.
     rbind (fpow db x (secion_b ! j ! 1)) (\<lambda>p1.
     rbind (fpow db (db (1 - p1)) (secion_c ! j ! 1)) (\<lambda>q1.
       Inr (db (secion_C ! j ! 0 * q0), db (db (secion_C ! j ! 1 * pa) * q1)))))))"

definition secion_gate :: "real \<Rightarrow> real \<Rightarrow> real \<Rightarrow> (real \<times> real) res" where
  "secion_gate gate E p =
     (let f1 = (if db (gate - db (1 / 10)) \<le> E then 1 else 0 :: real)
      in rbind (fdiv db gate E) (\<lambda>q. rbind (fpow db q (db p)) (\<lambda>w. Inr (f1, db (f1 * w)))))"

definition secion_get_Phi_factor :: "units \<Rightarrow> nat \<Rightarrow> real \<Rightarrow> real \<Rightarrow> real res" where
  "secion_get_Phi_factor u j E x =
     (if j \<ge> 2 then Inl (Trap ''j has to be 0, 1, for HI and HEI respectively'')
      else rbind (secion_gate (db (28 * u_ev u)) E (4 / 10)) (\<lambda>(f1, f2).
           rbind (secion_y j x) (\<lambda>(y1, y2). Inr (db (db (y1 * f1) - db (y2 * f2))))))"

definition secion_get_Eh_factor :: "units \<Rightarrow> real \<Rightarrow> real \<Rightarrow> real res" where
  "secion_get_Eh_factor u E x =
     rbind (secion_gate (db (11 * u_ev u)) E (7 / 10)) (\<lambda>(f1, f2).
     rbind (secion_y 2 x) (\<lambda>(y1, y2). Inr (db (db (1 - db (y1 * f1)) + db (y2 * f2)))))"

definition exp10 :: "real \<Rightarrow> real" where
  "exp10 x = db (10 powr x)"

definition Phi_HI :: "units \<Rightarrow> real \<Rightarrow> real \<Rightarrow> real res" where
  "Phi_HI u E logx = secion_get_Phi_factor u 0 E (exp10 logx)"

definition Phi_HeI :: "units \<Rightarrow> real \<Rightarrow> real \<Rightarrow> real res" where
  "Phi_HeI u E logx = secion_get_Phi_factor u 1 E (exp10 logx)"

definition Eh :: "units \<Rightarrow> real \<Rightarrow> real \<Rightarrow> real res" where
  "Eh u E logx = secion_get_Eh_factor u E (exp10 logx)"

definition secion_axes :: "units \<Rightarrow> tabfun2 res" where
  "secion_axes u =
     (let n1 = 4096; n2 = 1024; lo1 = db (10 * u_ev u); hi1 = db (200 * u_ev u);
          step1 = db (db (hi1 - lo1) / real n1); step2 = db (db (0 - (-8)) / real n2)
      in rbind (fdiv db 1 step1) (\<lambda>inv1. rbind (fdiv db 1 step2) (\<lambda>inv2.
           Inr (tabfun2_zero\<lparr>t2_nrows1 := int n1, t2_nrows2 := int n2, t2_ncols := 3,
             t2_min1 := lo1, t2_max1 := hi1, t2_min2 := -8, t2_max2 := 0,
             t2_step1 := step1, t2_step2 := step2, t2_step1_inv := inv1, t2_step2_inv := inv2,
             t2_x := map (\<lambda>i. db (lo1 + db (real i * step1))) [0..<n1],
             t2_y := map (\<lambda>i. db (-8 + db (real i * step2))) [0..<n2]\<rparr>))))"

definition secion_init :: "units \<Rightarrow> secion res" where
  "secion_init u =
     rbind (secion_axes u) (\<lambda>t.
     rbind (tabfun2_ensure_col t ''PhiHI'' (Some (Phi_HI u))) (\<lambda>(hi, t).
     rbind (tabfun2_ensure_col t ''PhiHeI'' (Some (Phi_HeI u))) (\<lambda>(hei, t).
     rbind (tabfun2_ensure_col t ''Eh'' (Some (Eh u))) (\<lambda>(eh, t).
       Inr \<lparr>si_tab = t, SECION_PHI_HI = hi, SECION_PHI_HEI = hei, SECION_EH = eh\<rparr>))))"

definition secion_get :: "secion \<Rightarrow> int \<Rightarrow> real \<Rightarrow> real \<Rightarrow> real res" where
  "secion_get si k E log10x = tabfun2_get db (si_tab si) k E log10x"

section \<open>Equation of state\<close>

record eos_state =
  eos_tab :: tabfun
  EOS_X :: int
  EOS_EGYHOT :: int

definition eos_init :: "(nat \<Rightarrow> nat \<Rightarrow> real) \<Rightarrow> nat \<Rightarrow> text_file \<Rightarrow> eos_state res" where
  "eos_init fresh bufsize file =
     rbind (tabfun_init fresh bufsize file tabfun_zero) (\<lambda>t.
     rbind (tabfun_setup_col t ''x'' None 1) (\<lambda>(x, t).
     rbind (tabfun_setup_col t ''egyhot'' None 1) (\<lambda>(egyhot, t).
       Inr \<lparr>eos_tab = t, EOS_X = x, EOS_EGYHOT = egyhot\<rparr>)))"

definition eos_get_cloud_fraction :: "eos_state \<Rightarrow> real \<Rightarrow> real res" where
  "eos_get_cloud_fraction e dens_phys =
     rbind (flog10 db dens_phys) (\<lambda>ll.
     rbind (entry (tf_data (eos_tab e)) 0 0) (\<lambda>least.
       if ll \<le> least then Inr 0 else tabfun_get db (eos_tab e) (EOS_X e) ll))"

definition eos_get_egyhot :: "eos_state \<Rightarrow> real \<Rightarrow> real res" where
  "eos_get_egyhot e dens_phys =
     rbind (flog10 db dens_phys) (\<lambda>ll.
     rbind (entry (tf_data (eos_tab e)) 0 0) (\<lambda>least.
       if ll \<le> least then Inr 0 else tabfun_get db (eos_tab e) (EOS_EGYHOT e) ll))"

section \<open>The smoothing kernel\<close>

definition sph_Wh3 :: "real \<Rightarrow> real" where
  "sph_Wh3 r_h =
     (let norm = db (8 / db pi); r_h2 = db (r_h * r_h)
      in if r_h \<le> 1 / 2 then
           db (norm * db (db (1 - db (6 * r_h2)) + db (db (6 * r_h2) * r_h)))
         else if r_h \<le> 1 then
           (let dd = db (1 - r_h) in db (db (db (db (norm * 2) * dd) * dd) * dd))
         else 0)"

definition sph_depth :: "real list \<Rightarrow> real \<Rightarrow> real" where
  "sph_depth kernel_depth r_h =
     (let N = int (length kernel_depth); n = trunc (db (real_of_int N * r_h))
      in if n < N \<and> n \<ge> 0 then kernel_depth ! nat n else 0)"

text \<open>All tables of the run.\<close>

record physics =
  ph_atomic :: atomic
  ph_secion :: secion
  ph_eos :: eos_state
  ph_kernel :: "real list"

end
