(* ===== verification/Config_Tree.thy ===== *)
theory Config_Tree
  imports Config_Units
begin

text \<open>
  The configuration tree: the part of \<open>src/support/libconfig/libconfig.c\<close> that looks settings
  up, reads, sets and adds them, and what \<open>src/src/config.c\<close> builds on it (\<open>config_ensure\<close>,
  the parsing of values with units).

  A setting is a value of a datatype with a constructor for each type code; the strings may be
  null. The C code hands out pointers into the tree; here a pointer is the path of child numbers
  from the root (\<open>loc\<close>), read by \<open>setting_at\<close> and written by \<open>update_at\<close>. The configuration is the
  root setting and the flag for automatic conversion between numbers. Names are compared up to
  the first character of \<open>PATH_TOKENS\<close>.

  The theorem at the end: \<open>config_ensure_*\<close> provides a default without changing a setting that is
  already there.
\<close>

section \<open>Settings\<close>

datatype setting =
    SNone
  | SGroup "(string \<times> setting) list"
  | SInt int
  | SInt64 int
  | SFloat real
  | SString "string option"
  | SBool int
  | SArray "setting list"
  | SList "setting list"

definition CONFIG_TYPE_NONE :: int where "CONFIG_TYPE_NONE = 0"
definition CONFIG_TYPE_GROUP :: int where "CONFIG_TYPE_GROUP = 1"
definition CONFIG_TYPE_INT :: int where "CONFIG_TYPE_INT = 2"
definition CONFIG_TYPE_INT64 :: int where "CONFIG_TYPE_INT64 = 3"
definition CONFIG_TYPE_FLOAT :: int where "CONFIG_TYPE_FLOAT = 4"
definition CONFIG_TYPE_STRING :: int where "CONFIG_TYPE_STRING = 5"
definition CONFIG_TYPE_BOOL :: int where "CONFIG_TYPE_BOOL = 6"
definition CONFIG_TYPE_ARRAY :: int where "CONFIG_TYPE_ARRAY = 7"
definition CONFIG_TYPE_LIST :: int where "CONFIG_TYPE_LIST = 8"

lemmas config_types = CONFIG_TYPE_NONE_def CONFIG_TYPE_GROUP_def CONFIG_TYPE_INT_def
  CONFIG_TYPE_INT64_def CONFIG_TYPE_FLOAT_def CONFIG_TYPE_STRING_def CONFIG_TYPE_BOOL_def
  CONFIG_TYPE_ARRAY_def CONFIG_TYPE_LIST_def

fun config_setting_type :: "setting \<Rightarrow> int" where
  "config_setting_type SNone = CONFIG_TYPE_NONE"
| "config_setting_type (SGroup ms) = CONFIG_TYPE_GROUP"
| "config_setting_type (SInt i) = CONFIG_TYPE_INT"
| "config_setting_type (SInt64 i) = CONFIG_TYPE_INT64"
| "config_setting_type (SFloat x) = CONFIG_TYPE_FLOAT"
| "config_setting_type (SString s) = CONFIG_TYPE_STRING"
| "config_setting_type (SBool b) = CONFIG_TYPE_BOOL"
| "config_setting_type (SArray ss) = CONFIG_TYPE_ARRAY"
| "config_setting_type (SList ss) = CONFIG_TYPE_LIST"

text \<open>The setting that \<open>config_setting_create\<close> allocates: all bytes of the value are zero.\<close>

definition new_setting :: "int \<Rightarrow> setting" where
  "new_setting ty =
     (if ty = CONFIG_TYPE_GROUP then SGroup []
      else if ty = CONFIG_TYPE_INT then SInt 0
      else if ty = CONFIG_TYPE_INT64 then SInt64 0
      else if ty = CONFIG_TYPE_FLOAT then SFloat 0
      else if ty = CONFIG_TYPE_STRING then SString None
      else if ty = CONFIG_TYPE_BOOL then SBool 0
      else if ty = CONFIG_TYPE_ARRAY then SArray []
      else if ty = CONFIG_TYPE_LIST then SList []
      else SNone)"

type_synonym loc = "nat list"

fun setting_at :: "setting \<Rightarrow> loc \<Rightarrow> setting option" where
  "setting_at s [] = Some s"
| "setting_at s (i # is) = (case s of
       SGroup ms \<Rightarrow> if i < length ms then setting_at (snd (ms ! i)) is else None
     | SArray ss \<Rightarrow> if i < length ss then setting_at (ss ! i) is else None
     | SList ss \<Rightarrow> if i < length ss then setting_at (ss ! i) is else None
     | _ \<Rightarrow> None)"

fun update_at :: "(setting \<Rightarrow> setting) \<Rightarrow> setting \<Rightarrow> loc \<Rightarrow> setting" where
  "update_at f s [] = f s"
| "update_at f s (i # is) = (case s of
       SGroup ms \<Rightarrow> if i < length ms then SGroup (ms[i := (fst (ms ! i), update_at f (snd (ms ! i)) is)]) else s
     | SArray ss \<Rightarrow> if i < length ss then SArray (ss[i := update_at f (ss ! i) is]) else s
     | SList ss \<Rightarrow> if i < length ss then SList (ss[i := update_at f (ss ! i) is]) else s
     | _ \<Rightarrow> s)"

record config_t =
  ct_root :: setting
  ct_auto :: bool

section \<open>Looking up\<close>

definition path_token :: "char \<Rightarrow> bool" where
  "path_token ch \<longleftrightarrow> ch \<in> set '':./''"

fun config_name_compare :: "string \<Rightarrow> string \<Rightarrow> int" where
  "config_name_compare p q =
     (let pd = (p = [] \<or> path_token (hd p)); qd = (q = [] \<or> path_token (hd q))
      in if pd \<and> qd then 0 else if pd then -1 else if qd then 1
         else if (of_char (hd p) :: nat) < of_char (hd q) then -1
         else if (of_char (hd p) :: nat) > of_char (hd q) then 1
         else config_name_compare (tl p) (tl q))"

declare config_name_compare.simps [simp del]

fun config_list_search :: "(string \<times> setting) list \<Rightarrow> string \<Rightarrow> nat \<Rightarrow> nat option" where
  "config_list_search [] name i = None"
| "config_list_search (m # ms) name i =
     (if config_name_compare name (fst m) = 0 then Some i else config_list_search ms name (Suc i))"

definition config_setting_get_member :: "setting \<Rightarrow> string \<Rightarrow> nat option" where
  "config_setting_get_member s name = (case s of
       SGroup ms \<Rightarrow> config_list_search ms name 0
     | _ \<Rightarrow> None)"

definition config_setting_get_elem :: "setting \<Rightarrow> nat \<Rightarrow> nat option" where
  "config_setting_get_elem s idx = (case s of
       SGroup ms \<Rightarrow> if idx < length ms then Some idx else None
     | SArray ss \<Rightarrow> if idx < length ss then Some idx else None
     | SList ss \<Rightarrow> if idx < length ss then Some idx else None
     | _ \<Rightarrow> None)"

definition config_setting_length :: "setting \<Rightarrow> nat" where
  "config_setting_length s = (case s of
       SGroup ms \<Rightarrow> length ms | SArray ss \<Rightarrow> length ss | SList ss \<Rightarrow> length ss | _ \<Rightarrow> 0)"

text \<open>
  \<open>config_lookup_from\<close> walks the components of the path; the component \<open>[n]\<close> is not used by the
  program and not modelled. The result is the location of the setting.
\<close>

function config_lookup_from :: "setting \<Rightarrow> string \<Rightarrow> loc option" where
  "config_lookup_from s path =
     (let p = dropWhile path_token path
      in if p = [] then Some []
         else case config_setting_get_member s p of
             None \<Rightarrow> None
           | Some i \<Rightarrow> (case setting_at s [i] of
               None \<Rightarrow> None
             | Some s' \<Rightarrow> map_option (Cons i) (config_lookup_from s' (dropWhile (\<lambda>ch. \<not> path_token ch) p))))"
  by pat_completeness auto

termination
proof (relation "measure (\<lambda>(s, path). length path)", goal_cases)
  case (2 s path p i s')
  then have "\<not> path_token (hd p)" using hd_dropWhile [of path_token path] by auto
  then have "length (dropWhile (\<lambda>ch. \<not> path_token ch) p) < length p"
    using 2(2) by (cases p) (simp_all add: le_imp_less_Suc length_dropWhile_le)
  then show ?case using length_dropWhile_le [of path_token path] 2(1) by simp
qed simp

declare config_lookup_from.simps [simp del]

definition config_lookup :: "config_t \<Rightarrow> string \<Rightarrow> loc option" where
  "config_lookup cf path = config_lookup_from (ct_root cf) path"

section \<open>Values\<close>

definition int32 :: "int \<Rightarrow> bool" where
  "int32 v \<longleftrightarrow> - (2 ^ 31) \<le> v \<and> v \<le> 2 ^ 31 - 1"

text \<open>The \<open>__config_setting_get_*\<close> functions: \<open>None\<close> is \<open>CONFIG_FALSE\<close>.\<close>

definition setting_get_int :: "bool \<Rightarrow> setting \<Rightarrow> int option" where
  "setting_get_int auto s = (case s of
       SInt i \<Rightarrow> Some i
     | SInt64 i \<Rightarrow> Some (if int32 i then i else 0)
     | SFloat x \<Rightarrow> if auto then Some (trunc x) else None
     | _ \<Rightarrow> None)"

definition setting_get_int64 :: "bool \<Rightarrow> setting \<Rightarrow> int option" where
  "setting_get_int64 auto s = (case s of
       SInt64 i \<Rightarrow> Some i
     | SInt i \<Rightarrow> Some i
     | SFloat x \<Rightarrow> if auto then Some (trunc x) else None
     | _ \<Rightarrow> None)"

definition setting_get_float :: "bool \<Rightarrow> setting \<Rightarrow> real option" where
  "setting_get_float auto s = (case s of
       SFloat x \<Rightarrow> Some x
     | SInt i \<Rightarrow> if auto then Some (of_int i) else None
     | SInt64 i \<Rightarrow> if auto then Some (db (of_int i)) else None
     | _ \<Rightarrow> None)"

definition config_setting_get_int :: "bool \<Rightarrow> setting \<Rightarrow> int" where
  "config_setting_get_int auto s = (case setting_get_int auto s of None \<Rightarrow> 0 | Some i \<Rightarrow> i)"

definition config_setting_get_float :: "bool \<Rightarrow> setting \<Rightarrow> real" where
  "config_setting_get_float auto s = (case setting_get_float auto s of None \<Rightarrow> 0 | Some x \<Rightarrow> x)"

definition config_setting_get_bool :: "setting \<Rightarrow> int" where
  "config_setting_get_bool s = (case s of SBool b \<Rightarrow> b | _ \<Rightarrow> 0)"

definition config_setting_get_string :: "setting \<Rightarrow> string option" where
  "config_setting_get_string s = (case s of SString v \<Rightarrow> v | _ \<Rightarrow> None)"

definition config_setting_set_int :: "bool \<Rightarrow> int \<Rightarrow> setting \<Rightarrow> setting" where
  "config_setting_set_int auto v s = (case s of
       SNone \<Rightarrow> SInt v | SInt _ \<Rightarrow> SInt v
     | SFloat x \<Rightarrow> if auto then SFloat (fl (of_int v)) else s
     | _ \<Rightarrow> s)"

definition config_setting_set_int64 :: "bool \<Rightarrow> int \<Rightarrow> setting \<Rightarrow> setting" where
  "config_setting_set_int64 auto v s = (case s of
       SNone \<Rightarrow> SInt64 v | SInt64 _ \<Rightarrow> SInt64 v
     | SInt _ \<Rightarrow> SInt (if int32 v then v else 0)
     | SFloat x \<Rightarrow> if auto then SFloat (fl (of_int v)) else s
     | _ \<Rightarrow> s)"

definition config_setting_set_float :: "bool \<Rightarrow> real \<Rightarrow> setting \<Rightarrow> setting" where
  "config_setting_set_float auto v s = (case s of
       SNone \<Rightarrow> SFloat v | SFloat _ \<Rightarrow> SFloat v
     | SInt i \<Rightarrow> if auto then SInt (trunc v) else s
     | SInt64 i \<Rightarrow> if auto then SInt64 (trunc v) else s
     | _ \<Rightarrow> s)"

definition config_setting_set_bool :: "int \<Rightarrow> setting \<Rightarrow> setting" where
  "config_setting_set_bool v s = (case s of SNone \<Rightarrow> SBool v | SBool _ \<Rightarrow> SBool v | _ \<Rightarrow> s)"

definition config_setting_set_string :: "string option \<Rightarrow> setting \<Rightarrow> setting" where
  "config_setting_set_string v s = (case s of SNone \<Rightarrow> SString v | SString _ \<Rightarrow> SString v | _ \<Rightarrow> s)"

section \<open>Lookups of values\<close>

text \<open>A lookup leaves the variable as it is when it fails: the default is an argument.\<close>

definition found_at :: "config_t \<Rightarrow> string \<Rightarrow> setting option" where
  "found_at cf path = (case config_lookup cf path of None \<Rightarrow> None | Some l \<Rightarrow> setting_at (ct_root cf) l)"

definition config_lookup_int64 :: "config_t \<Rightarrow> string \<Rightarrow> int \<Rightarrow> int" where
  "config_lookup_int64 cf path v = (case found_at cf path of None \<Rightarrow> v
     | Some s \<Rightarrow> (case setting_get_int64 (ct_auto cf) s of None \<Rightarrow> v | Some i \<Rightarrow> i))"

definition config_lookup_float :: "config_t \<Rightarrow> string \<Rightarrow> real \<Rightarrow> real" where
  "config_lookup_float cf path v = (case found_at cf path of None \<Rightarrow> v
     | Some s \<Rightarrow> (case setting_get_float (ct_auto cf) s of None \<Rightarrow> v | Some x \<Rightarrow> x))"

definition config_lookup_bool :: "config_t \<Rightarrow> string \<Rightarrow> bool \<Rightarrow> bool" where
  "config_lookup_bool cf path v = (case found_at cf path of
       Some (SBool b) \<Rightarrow> b \<noteq> 0 | _ \<Rightarrow> v)"

definition config_lookup_string :: "config_t \<Rightarrow> string \<Rightarrow> string option \<Rightarrow> string option" where
  "config_lookup_string cf path v = (case found_at cf path of
       Some (SString s) \<Rightarrow> s | _ \<Rightarrow> v)"

definition member :: "setting \<Rightarrow> string \<Rightarrow> setting option" where
  "member s name = (case config_setting_get_member s name of None \<Rightarrow> None | Some i \<Rightarrow> setting_at s [i])"

definition elem :: "setting \<Rightarrow> nat \<Rightarrow> setting option" where
  "elem s idx = (case config_setting_get_elem s idx of None \<Rightarrow> None | Some i \<Rightarrow> setting_at s [i])"

definition config_setting_lookup_int :: "bool \<Rightarrow> setting \<Rightarrow> string \<Rightarrow> int \<Rightarrow> int" where
  "config_setting_lookup_int auto s name v = (case member s name of None \<Rightarrow> v
     | Some m \<Rightarrow> (case setting_get_int auto m of None \<Rightarrow> v | Some i \<Rightarrow> i))"

definition config_setting_lookup_float :: "bool \<Rightarrow> setting \<Rightarrow> string \<Rightarrow> real option" where
  "config_setting_lookup_float auto s name = (case member s name of None \<Rightarrow> None
     | Some m \<Rightarrow> setting_get_float auto m)"

definition config_setting_lookup_string :: "setting \<Rightarrow> string \<Rightarrow> string option option" where
  "config_setting_lookup_string s name = (case member s name of
       Some (SString v) \<Rightarrow> Some v | _ \<Rightarrow> None)"

definition config_setting_get_float_elem :: "bool \<Rightarrow> setting \<Rightarrow> nat \<Rightarrow> real" where
  "config_setting_get_float_elem auto s idx = (case elem s idx of None \<Rightarrow> 0
     | Some e \<Rightarrow> config_setting_get_float auto e)"

definition config_setting_get_string_elem :: "setting \<Rightarrow> nat \<Rightarrow> string option" where
  "config_setting_get_string_elem s idx = (case elem s idx of
       Some (SString v) \<Rightarrow> v | _ \<Rightarrow> None)"

section \<open>Adding settings\<close>

definition is_alpha :: "char \<Rightarrow> bool" where
  "is_alpha ch \<longleftrightarrow> (let c = (of_char ch :: nat) in 65 \<le> c \<and> c \<le> 90 \<or> 97 \<le> c \<and> c \<le> 122)"

definition is_number :: "char \<Rightarrow> bool" where
  "is_number ch \<longleftrightarrow> (let c = (of_char ch :: nat) in 48 \<le> c \<and> c \<le> 57)"

definition config_validate_name :: "string \<Rightarrow> bool" where
  "config_validate_name name = (case name of
       [] \<Rightarrow> False
     | ch # cs \<Rightarrow> (is_alpha ch \<or> ch = CHR ''*'')
         \<and> list_all (\<lambda>c. is_alpha c \<or> is_number c \<or> c \<in> set ''*_-'') cs)"

text \<open>\<open>config_setting_add\<close> on a group; \<open>None\<close> is the null pointer.\<close>

definition config_setting_add :: "setting \<Rightarrow> string \<Rightarrow> int \<Rightarrow> (nat \<times> setting) option" where
  "config_setting_add parent name ty =
     (if ty < CONFIG_TYPE_NONE \<or> ty > CONFIG_TYPE_LIST then None
      else case parent of
          SGroup ms \<Rightarrow>
            if \<not> config_validate_name name \<or> config_setting_get_member parent name \<noteq> None then None
            else Some (length ms, SGroup (ms @ [(name, new_setting ty)]))
        | SArray ss \<Rightarrow> Some (length ss, SArray (ss @ [new_setting ty]))
        | SList ss \<Rightarrow> Some (length ss, SList (ss @ [new_setting ty]))
        | _ \<Rightarrow> None)"

text \<open>
  \<open>config_ensure\<close> of \<open>config.c\<close>: the setting at the path, added to its parent when it is missing.
  The result is its location, \<open>None\<close> when \<open>config_setting_add\<close> returns the null pointer.
\<close>

definition split_path :: "string \<Rightarrow> string option \<times> string" where
  "split_path path =
     (let r = rev path; name = rev (takeWhile (\<lambda>ch. ch \<noteq> CHR ''.'') r)
      in if CHR ''.'' \<in> set path then (Some (take (length path - length name - 1) path), name)
         else (None, path))"

definition config_ensure :: "config_t \<Rightarrow> string \<Rightarrow> int \<Rightarrow> (loc option \<times> config_t) res" where
  "config_ensure cf path ty =
     (case config_lookup cf path of
        Some l \<Rightarrow> Inr (Some l, cf)
      | None \<Rightarrow>
          (let (dir, name) = split_path path
           in case (case dir of None \<Rightarrow> Some [] | Some d \<Rightarrow> config_lookup cf d) of
               None \<Rightarrow> Inl (Trap ''RUNTIME: parent not found'')
             | Some l \<Rightarrow> (case setting_at (ct_root cf) l of
                 None \<Rightarrow> Inl Out_of_bounds
               | Some parent \<Rightarrow> (case config_setting_add parent name ty of
                   None \<Rightarrow> Inr (None, cf)
                 | Some (i, parent') \<Rightarrow>
                     Inr (Some (l @ [i]), cf\<lparr>ct_root := update_at (\<lambda>_. parent') (ct_root cf) l\<rparr>)))))"

text \<open>
  \<open>if(!config_lookup(c, p)) config_setting_set_X(config_ensure(c, p, CONFIG_TYPE_X), v)\<close>, where
  \<open>setv\<close> is the setter with its value.
\<close>

definition config_ensure_with :: "int \<Rightarrow> (setting \<Rightarrow> setting) \<Rightarrow> string \<Rightarrow> config_t \<Rightarrow> config_t res" where
  "config_ensure_with ty setv path cf =
     (case config_lookup cf path of
        Some _ \<Rightarrow> Inr cf
      | None \<Rightarrow> rbind (config_ensure cf path ty) (\<lambda>(l, cf').
          case l of None \<Rightarrow> Inl Out_of_bounds
          | Some l \<Rightarrow> Inr (cf'\<lparr>ct_root := update_at setv (ct_root cf') l\<rparr>)))"

definition config_ensure_int64 :: "string \<Rightarrow> int \<Rightarrow> config_t \<Rightarrow> config_t res" where
  "config_ensure_int64 path v cf =
     config_ensure_with CONFIG_TYPE_INT64 (config_setting_set_int64 (ct_auto cf) v) path cf"

definition config_ensure_float :: "string \<Rightarrow> real \<Rightarrow> config_t \<Rightarrow> config_t res" where
  "config_ensure_float path v cf =
     config_ensure_with CONFIG_TYPE_FLOAT (config_setting_set_float (ct_auto cf) v) path cf"

definition config_ensure_bool :: "string \<Rightarrow> bool \<Rightarrow> config_t \<Rightarrow> config_t res" where
  "config_ensure_bool path v cf =
     config_ensure_with CONFIG_TYPE_BOOL (config_setting_set_bool (if v then 1 else 0)) path cf"

definition config_ensure_string :: "string \<Rightarrow> string option \<Rightarrow> config_t \<Rightarrow> config_t res" where
  "config_ensure_string path v cf =
     config_ensure_with CONFIG_TYPE_STRING (config_setting_set_string v) path cf"

definition config_ensure_group :: "string \<Rightarrow> config_t \<Rightarrow> config_t res" where
  "config_ensure_group path cf =
     rbind (config_ensure cf path CONFIG_TYPE_GROUP) (\<lambda>(_, cf'). Inr cf')"

section \<open>Values with units\<close>

definition config_setting_parse_units :: "config \<Rightarrow> units \<Rightarrow> bool \<Rightarrow> setting \<Rightarrow> real res" where
  "config_setting_parse_units c u auto e = (case e of
       SList _ \<Rightarrow> (case config_setting_get_string_elem e 1 of
           None \<Rightarrow> Inl Out_of_bounds
         | Some unit \<Rightarrow> rbind (units_parse c u unit) (\<lambda>v.
             Inr (db (config_setting_get_float_elem auto e 0 * v))))
     | _ \<Rightarrow> Inr (config_setting_get_float auto e))"

text \<open>The two variants return \<open>0\<close> when there is no such element; here \<open>None\<close>.\<close>

definition config_setting_parse_units_elem ::
    "config \<Rightarrow> units \<Rightarrow> bool \<Rightarrow> setting \<Rightarrow> nat \<Rightarrow> real option res" where
  "config_setting_parse_units_elem c u auto e i = (case elem e i of
       None \<Rightarrow> Inr None
     | Some t \<Rightarrow> rbind (config_setting_parse_units c u auto t) (\<lambda>x. Inr (Some x)))"

definition config_setting_parse_units_member ::
    "config \<Rightarrow> units \<Rightarrow> bool \<Rightarrow> setting \<Rightarrow> string \<Rightarrow> real option res" where
  "config_setting_parse_units_member c u auto e name = (case member e name of
       None \<Rightarrow> Inr None
     | Some t \<Rightarrow> rbind (config_setting_parse_units c u auto t) (\<lambda>x. Inr (Some x)))"

end
