(* ===== verification/Spectra.thy ===== *)
theory Spectra
  imports Rates Config_Tree
begin

text \<open>
  The random choices of photon energies: the source spectra of \<open>src/src/spectra.c\<close> and the
  recombination spectra of \<open>src/src/lte.c\<close>.

  The GNU Scientific Library is an argument of the model: the record \<open>rng\<close> holds the functions the
  program calls, over a generator state of any type. A \<open>gsl_ran_discrete_t\<close> is the list of
  weights it was made from; \<open>gsl_ran_discrete_preproc\<close> returns a null pointer for an empty table or
  one with a negative weight (the error handler is switched off), and drawing from a null pointer is
  an access outside any array. What the library documents is the hypothesis \<open>rng_ok\<close>: a draw returns
  an index of the table.
\<close>

section \<open>Random numbers\<close>

record 'g rng =
  gsl_ran_discrete :: "real list \<Rightarrow> 'g \<Rightarrow> nat \<times> 'g"
  gsl_ran_flat :: "real \<Rightarrow> real \<Rightarrow> 'g \<Rightarrow> real \<times> 'g"
  gsl_ran_dir_3d :: "'g \<Rightarrow> vec3 \<times> 'g"

definition rng_ok :: "'g rng \<Rightarrow> bool" where
  "rng_ok r \<longleftrightarrow> (\<forall>w g. w \<noteq> [] \<longrightarrow> fst (gsl_ran_discrete r w g) < length w)"

definition draw :: "'g rng \<Rightarrow> real list \<Rightarrow> 'g \<Rightarrow> (nat \<times> 'g) res" where
  "draw r w g =
     (if w = [] \<or> list_ex (\<lambda>x. x < 0) w then Inl Out_of_bounds else Inr (gsl_ran_discrete r w g))"

section \<open>Source spectra\<close>

record spec =
  sp_name :: string
  sp_type :: int
  sp_eng :: "real list"
  sp_lum :: "real list"
  sp_lumwt :: "real list"
  sp_Nwt :: "real list"
  sp_band_min :: real
  sp_band_max :: real
  sp_N_lum :: real

definition spec_zero :: "string \<Rightarrow> spec" where
  "spec_zero name = \<lparr>sp_name = name, sp_type = 0, sp_eng = [], sp_lum = [], sp_lumwt = [], sp_Nwt = [],
     sp_band_min = 0, sp_band_max = 0, sp_N_lum = 0\<rparr>"

definition blackbody :: "units \<Rightarrow> real \<Rightarrow> real \<Rightarrow> real res" where
  "blackbody u T eng =
     rbind (fdiv db eng (db (db (c_boltzmann u * T) * u_kelvin u))) (\<lambda>x.
       fdiv db (db (db (eng * eng) * eng)) (db (exp x - 1)))"

definition powerlaw :: "real \<Rightarrow> real \<Rightarrow> real \<Rightarrow> real res" where
  "powerlaw index eng eng0 = rbind (fdiv db eng eng0) (\<lambda>x. fpow db x index)"

definition spec_get :: "spec list \<Rightarrow> string \<Rightarrow> nat res" where
  "spec_get specs name =
     (let i = length (takeWhile (\<lambda>s. sp_name s \<noteq> name) specs)
      in if i < length specs then Inr i else Inl (Trap ''spec unknown''))"

definition spec_gen_freq :: "'g rng \<Rightarrow> spec list \<Rightarrow> nat \<Rightarrow> 'g \<Rightarrow> (real \<times> 'g) res" where
  "spec_gen_freq r specs k g =
     (if k \<ge> length specs then Inl Out_of_bounds
      else
        let s = specs ! k
        in if sp_type s = 0 then
             rbind (draw r (sp_Nwt s) g) (\<lambda>(j, g').
               if j < length (sp_eng s) then Inr (sp_eng s ! j, g') else Inl Out_of_bounds)
           else if sp_type s = 1 then
             (if sp_eng s = [] then Inl Out_of_bounds else Inr (sp_eng s ! 0, g))
           else Inl (Trap ''wrong spec type''))"

definition spec_N_from_lum :: "spec list \<Rightarrow> nat \<Rightarrow> real \<Rightarrow> real res" where
  "spec_N_from_lum specs k lum =
     (if k \<ge> length specs then Inl Out_of_bounds else Inr (db (lum * sp_N_lum (specs ! k))))"

definition spec_lum_from_N :: "spec list \<Rightarrow> nat \<Rightarrow> real \<Rightarrow> real res" where
  "spec_lum_from_N specs k N =
     (if k \<ge> length specs then Inl Out_of_bounds else fdiv db N (sp_N_lum (specs ! k)))"

text \<open>A file of frequencies and photon numbers.\<close>

fun spec_lines :: "units \<Rightarrow> string list \<Rightarrow> spec \<Rightarrow> spec res" where
  "spec_lines u [] s = Inr s"
| "spec_lines u (line # lines) s =
     (if take 1 line = ''#'' then spec_lines u lines s
      else case fst (scan_doubles 2 line) of
          [freq, N] \<Rightarrow> spec_lines u lines
            (s\<lparr>sp_eng := sp_eng s @ [db (freq * u_ry_eng u)],
               sp_lum := sp_lum s @ [db (db (N * freq) * u_ry_eng u)]\<rparr>)
        | _ \<Rightarrow> Inl (Trap ''format error''))"

definition spec_from_file :: "units \<Rightarrow> text_file \<Rightarrow> spec \<Rightarrow> spec res" where
  "spec_from_file u file s =
     (case file of None \<Rightarrow> Inl (Trap ''failed to open'') | Some lines \<Rightarrow> spec_lines u lines s)"

text \<open>A spectrum described in the configuration: 65536 bins between two energies.\<close>

fun map_res :: "('a \<Rightarrow> 'b res) \<Rightarrow> 'a list \<Rightarrow> 'b list res" where
  "map_res f [] = Inr []"
| "map_res f (x # xs) = rbind (f x) (\<lambda>y. rbind (map_res f xs) (\<lambda>ys. Inr (y # ys)))"

definition first_some :: "'a option list \<Rightarrow> 'a option" where
  "first_some os = (case filter (\<lambda>x. x \<noteq> None) os of [] \<Rightarrow> None | x # _ \<Rightarrow> x)"

definition spec_from_config_setting ::
    "nat \<Rightarrow> config \<Rightarrow> units \<Rightarrow> bool \<Rightarrow> setting \<Rightarrow> spec \<Rightarrow> spec res" where
  "spec_from_config_setting nbins c u auto st s =
     (case config_setting_lookup_string st ''type'' of
        None \<Rightarrow> Inl (Trap ''cant parse spectra type in configfile'')
      | Some None \<Rightarrow> Inl Out_of_bounds
      | Some (Some ty) \<Rightarrow>
          rbind (config_setting_parse_units_member c u auto st ''min'') (\<lambda>mn.
          rbind (config_setting_parse_units_member c u auto st ''max'') (\<lambda>mx.
            case (mn, mx) of
              (Some engmin, Some engmax) \<Rightarrow>
                (let step = db (db (engmax - engmin) / real (nbins - 1));
                     eng = map (\<lambda>i. db (engmin + db (real i * step))) [0..<nbins];
                     s' = s\<lparr>sp_eng := eng, sp_band_min := engmin, sp_band_max := engmax\<rparr>
                 in if ty = ''blackbody'' then
                      (case first_some (map (config_setting_lookup_float auto st) [''temperature'', ''T'', ''temp'']) of
                         None \<Rightarrow> Inl (Trap ''specify temperature in blackbody spectrum'')
                       | Some T \<Rightarrow> rbind (map_res (blackbody u T) eng) (\<lambda>lum. Inr (s'\<lparr>sp_lum := lum\<rparr>)))
                    else if ty = ''powerlaw'' then
                      (case config_setting_lookup_float auto st ''index'' of
                         None \<Rightarrow> Inl (Trap ''specify index in power law spectrum'')
                       | Some index \<Rightarrow>
                           rbind (map_res (\<lambda>e. powerlaw index e engmin) eng) (\<lambda>lum. Inr (s'\<lparr>sp_lum := lum\<rparr>)))
                    else Inl (Trap ''spectra type unknown''))
            | (None, _) \<Rightarrow> Inl (Trap ''cant parse engmin in configfile'')
            | _ \<Rightarrow> Inl (Trap ''cant parse max in configfile''))))"

text \<open>
  The width of bin \<open>j\<close>. With a single bin the code reads the element behind it, which is zero in
  a freshly allocated array.
\<close>

definition bin_width :: "(real \<Rightarrow> real) \<Rightarrow> real list \<Rightarrow> nat \<Rightarrow> nat \<Rightarrow> real res" where
  "bin_width rd eng n j =
     (if j = 0 then Inr (rd ((if length eng \<le> 1 then 0 else eng ! 1) - eng ! 0))
      else if j = n - 1 then Inr (rd (eng ! j - eng ! (j - 1)))
      else Inr (rd (1 / 2 * rd (eng ! (j + 1) - eng ! (j - 1)))))"

fun spec_weights :: "(real \<Rightarrow> real) \<Rightarrow> real list \<Rightarrow> real list \<Rightarrow> nat list \<Rightarrow> real list \<Rightarrow> real list
    \<Rightarrow> real \<Rightarrow> real \<Rightarrow> (real list \<times> real list \<times> real \<times> real) res" where
  "spec_weights rd eng lum [] lumwt Nwt lumwtsum Nwtsum = Inr (lumwt, Nwt, lumwtsum, Nwtsum)"
| "spec_weights rd eng lum (j # js) lumwt Nwt lumwtsum Nwtsum =
     rbind (fdiv rd (lum ! j) (eng ! j)) (\<lambda>N.
     rbind (bin_width rd eng (length lum) j) (\<lambda>w.
       spec_weights rd eng lum js (lumwt @ [rd (lum ! j * w)]) (Nwt @ [rd (N * w)])
         (rd (lumwtsum + rd (lum ! j * w))) (rd (Nwtsum + rd (N * w)))))"

definition spec_finish :: "spec \<Rightarrow> spec res" where
  "spec_finish s =
     (if sp_type s \<noteq> 0 then
        (if sp_eng s = [] then Inl Out_of_bounds
         else rbind (fdiv db 1 (sp_eng s ! 0)) (\<lambda>n. Inr (s\<lparr>sp_N_lum := n\<rparr>)))
      else if sp_eng s = [] then Inl Out_of_bounds
      else
        rbind (spec_weights db (sp_eng s) (sp_lum s) [0..<length (sp_lum s)] [] [] 0 0)
          (\<lambda>(lumwt, Nwt, lumwtsum, Nwtsum).
        rbind (fdiv db Nwtsum lumwtsum) (\<lambda>n.
          Inr (s\<lparr>sp_lumwt := lumwt, sp_Nwt := Nwt, sp_N_lum := n,
                 sp_band_min := sp_eng s ! 0, sp_band_max := last (sp_eng s)\<rparr>))))"

text \<open>
  \<open>spec_init\<close> over the members of the group \<open>specs\<close>; \<open>files\<close> opens a file by its name. The elements of
  a list have no name: the null pointer is read when a spectrum is looked up.
\<close>

definition spec_read ::
    "nat \<Rightarrow> (string \<Rightarrow> text_file) \<Rightarrow> config \<Rightarrow> units \<Rightarrow> bool \<Rightarrow> string \<times> setting \<Rightarrow> spec res" where
  "spec_read nbins files c u auto = (\<lambda>(name, st).
     let s = spec_zero name
     in if config_setting_type st = CONFIG_TYPE_STRING then
          (case config_setting_get_string st of
             None \<Rightarrow> Inl Out_of_bounds
           | Some f \<Rightarrow> spec_from_file u (files f) (s\<lparr>sp_type := 0\<rparr>))
        else if config_setting_type st = CONFIG_TYPE_GROUP then
          spec_from_config_setting nbins c u auto st (s\<lparr>sp_type := 0\<rparr>)
        else rbind (config_setting_parse_units c u auto st) (\<lambda>e.
               Inr (s\<lparr>sp_type := 1, sp_eng := [e], sp_lum := [1]\<rparr>)))"

definition spec_init :: "nat \<Rightarrow> (string \<Rightarrow> text_file) \<Rightarrow> config \<Rightarrow> units \<Rightarrow> config_t \<Rightarrow> spec list res" where
  "spec_init nbins files c u cf =
     (case found_at cf ''specs'' of
        None \<Rightarrow> Inr []
      | Some (SGroup ms) \<Rightarrow>
          rbind (map_res (spec_read nbins files c u (ct_auto cf)) ms) (map_res spec_finish)
      | Some s \<Rightarrow> if config_setting_length s = 0 then Inr [] else Inl Out_of_bounds)"

section \<open>Recombination spectra\<close>

definition LTE_FREQ_HI :: nat where "LTE_FREQ_HI = 0"
definition LTE_FREQ_HEI :: nat where "LTE_FREQ_HEI = 1"
definition LTE_FREQ_HEII :: nat where "LTE_FREQ_HEII = 2"

record lte =
  lte_dist :: "real list list"
  lte_Nfreq :: nat
  lte_NlogT :: nat
  lte_freq_min :: real
  lte_freq_max :: real
  lte_logT_min :: real
  lte_logT_max :: real
  lte_logT_step :: real
  lte_freq_step :: real
  lte_freq :: "real list"

definition lte_weight :: "atomic \<Rightarrow> int \<Rightarrow> real \<Rightarrow> real \<Rightarrow> real \<Rightarrow> real res" where
  "lte_weight a xsid freq_min kT freq =
     rbind (xs_get a xsid freq) (\<lambda>sigma.
     rbind (fdiv db (- db (freq - freq_min)) kT) (\<lambda>x.
       Inr (db (db (db (db (sigma * freq) * freq) * freq) * db (exp x)))))"

definition lte_fill :: "nat \<Rightarrow> nat \<Rightarrow> units \<Rightarrow> atomic \<Rightarrow> real \<Rightarrow> real \<Rightarrow> int \<Rightarrow> lte res" where
  "lte_fill Nfreq NlogT u a freq_th freq_max xsid =
     (let freq_step = db (db (freq_max - freq_th) / real Nfreq);
          logT_step = db (db (10 - 3) / real NlogT);
          freq = map (\<lambda>j. db (freq_th + db (freq_step * real j))) [0..<Nfreq]
      in rbind (map_res (\<lambda>i.
             map_res (lte_weight a xsid freq_th
               (db (c_boltzmann u * exp10 (db (3 + db (logT_step * real i)))))) freq) [0..<NlogT]) (\<lambda>dist.
         Inr \<lparr>lte_dist = dist, lte_Nfreq = Nfreq, lte_NlogT = NlogT, lte_freq_min = freq_th,
              lte_freq_max = freq_max, lte_logT_min = 3, lte_logT_max = 10, lte_logT_step = logT_step,
              lte_freq_step = freq_step, lte_freq = freq\<rparr>))"

definition lte_init :: "units \<Rightarrow> atomic \<Rightarrow> lte list res" where
  "lte_init u a =
     map_res (\<lambda>(e, k). lte_fill 1024 128 u a e (db (16 * e)) k)
       [(c_hi_energy u, XS_HI a), (c_hei_energy u, XS_HEI a), (c_heii_energy u, XS_HEII a)]"

definition lte_gen_freq :: "'g rng \<Rightarrow> config \<Rightarrow> lte list \<Rightarrow> nat \<Rightarrow> real \<Rightarrow> 'g \<Rightarrow> (real \<times> 'g) res" where
  "lte_gen_freq r c ltes k logT g =
     (if k \<ge> length ltes then Inl Out_of_bounds
      else
        let l = ltes ! k
        in if cfg_disable_lte c then Inr (lte_freq_min l, g)
           else
             rbind (fdiv db (db (logT - lte_logT_min l)) (lte_logT_step l)) (\<lambda>q.
               let n = trunc q;
                   n = (if n < 0 then 0 else n);
                   n = (if n \<ge> int (lte_NlogT l) then int (lte_NlogT l) - 1 else n)
               in if n < 0 \<or> n \<ge> int (length (lte_dist l)) then Inl Out_of_bounds
                  else rbind (draw r (lte_dist l ! nat n) g) (\<lambda>(j, g').
                    if j < length (lte_freq l) then Inr (lte_freq l ! j, g') else Inl Out_of_bounds)))"

end
