(* ===== verification/Sources.thy ===== *)
theory Sources
  imports Spectra Particle_System
begin

text \<open>
  The sources of \<open>src/src/sources.c\<close>: reading source files of both versions, and the photons each
  source emits in a tick (\<open>psystem_weight_srcs\<close>, with the cursor into its luminosity history).

  The readers go through the lines of the file with a stage, as the code does; the local
  variables that \<open>sscanf\<close> fills keep their values from line to line and are \<open>None\<close> while they are
  indeterminate, and using an indeterminate value is undefined behaviour (\<open>Out_of_bounds\<close>).
  \<open>fresh\<close> stands for the contents of the memory that \<open>realloc\<close> adds to the array of sources,
  \<open>eigen\<close> for the two columns that \<open>gsl_eigen_symmv\<close> with an ascending sort yields for a symmetric
  matrix of nine entries.
\<close>

section \<open>Time and luminosity\<close>

definition solve_u_v :: "(real list \<Rightarrow> vec3 \<times> vec3) \<Rightarrow> vec3 \<Rightarrow> vec3 \<times> vec3" where
  "solve_u_v eigen = (\<lambda>(d0, d1, d2). eigen
     [db (d0 * d0), db (d1 * d0), db (d2 * d0),
      db (d0 * d1), db (d1 * d1), db (d2 * d1),
      db (d0 * d2), db (d1 * d2), db (d2 * d2)])"

definition plane_rate :: "units \<Rightarrow> real \<Rightarrow> real \<Rightarrow> real" where
  "plane_rate u L radius =
     db (db (db (db (L * db pi) * radius) * radius) / db (db (u_cm u * u_cm u) * u_sec u))"

definition point_rate :: "units \<Rightarrow> spec list \<Rightarrow> nat \<Rightarrow> real \<Rightarrow> real res" where
  "point_rate u specs k L =
     rbind (if L < 0 then
              rbind (spec_N_from_lum specs k (db (- L * c_solar_lum u))) (\<lambda>n.
                Inr (db (db (n * u_sec u) / db (10 ^ 50))))
            else Inr L) (\<lambda>L. Inr (db (db (L * db (10 ^ 50)) / u_sec u)))"

section \<open>Version 1 files\<close>

definition put_src :: "nat \<Rightarrow> source \<Rightarrow> psystem \<Rightarrow> psystem res" where
  "put_src isrc x s =
     (if isrc < length (psys_srcs s) then Inr (s\<lparr>psys_srcs := (psys_srcs s)[isrc := x]\<rparr>)
      else Inl Out_of_bounds)"

definition add_srcs :: "(nat \<Rightarrow> source) \<Rightarrow> int \<Rightarrow> psystem \<Rightarrow> psystem res" where
  "add_srcs fresh n s =
     (if n < 0 then Inl Out_of_bounds
      else Inr (s\<lparr>psys_srcs := psys_srcs s @ map (\<lambda>i. fresh (length (psys_srcs s) + i)) [0..<nat n]\<rparr>))"

definition skip_line :: "string \<Rightarrow> bool" where
  "skip_line line \<longleftrightarrow> take 1 line = ''#'' \<or> take 1 line = [CHR 0x0A]"

text \<open>Seven numbers, two words and perhaps an eighth number.\<close>

definition scan_source1 :: "string \<Rightarrow> (real list \<times> string \<times> string \<times> real option) option" where
  "scan_source1 line =
     (case scan_doubles 7 line of (xs, rest) \<Rightarrow>
        if length xs < 7 then None
        else case scan_word rest of None \<Rightarrow> None
          | Some (sp, rest) \<Rightarrow> (case scan_word rest of None \<Rightarrow> None
            | Some (ty, rest) \<Rightarrow> Some (xs, sp, ty, map_option fst (scan_double rest))))"

definition source1 ::
    "(real list \<Rightarrow> vec3 \<times> vec3) \<Rightarrow> config \<Rightarrow> units \<Rightarrow> spec list \<Rightarrow> string \<Rightarrow> source \<Rightarrow> source res" where
  "source1 eigen c u specs line x =
     (case scan_source1 line of
        Some ([px, py, pz, dx, dy, dz, L], sp, ty, rad) \<Rightarrow>
          rbind (spec_get specs sp) (\<lambda>k.
            let x = x\<lparr>src_pos := (px, py, pz), src_dir := (dx, dy, dz), src_specid := int k,
                      src_lastemit := 0, src_ticks := [0], src_Ngamma_dots := [0], src_cursor := 0\<rparr>;
                boost = (\<lambda>v. db (v * cfg_boost_source_factor c))
            in if ty = ''plane'' then
                 (case rad of
                    None \<Rightarrow> Inl (Trap ''format error, needs 10 fields'')
                  | Some radius \<Rightarrow>
                      let (a, b) = solve_u_v eigen (dx, dy, dz)
                      in Inr (x\<lparr>src_type := PSYS_SRC_PLANE, src_radius := radius,
                                src_Ngamma_dots := [boost (plane_rate u L radius)],
                                src_a := a, src_b := b\<rparr>))
               else rbind (point_rate u specs k L) (\<lambda>v.
                      Inr (x\<lparr>src_type := PSYS_SRC_POINT, src_Ngamma_dots := [boost v]\<rparr>)))
      | _ \<Rightarrow> Inl (Trap ''format error''))"

text \<open>The loop over the lines: the stage, the number of the current source, the system.\<close>

fun source_file_lines ::
    "(nat \<Rightarrow> source) \<Rightarrow> (real list \<Rightarrow> vec3 \<times> vec3) \<Rightarrow> config \<Rightarrow> units \<Rightarrow> spec list \<Rightarrow> string list
     \<Rightarrow> nat \<Rightarrow> nat \<Rightarrow> psystem \<Rightarrow> (nat \<times> psystem) res" where
  "source_file_lines fresh eigen c u specs [] stage isrc s = Inr (isrc, s)"
| "source_file_lines fresh eigen c u specs (line # lines) stage isrc s =
     (if skip_line line then source_file_lines fresh eigen c u specs lines stage isrc s
      else if stage = 0 then
        (case scan_int line of
           None \<Rightarrow> Inl (Trap ''format error'')
         | Some (n, _) \<Rightarrow> rbind (add_srcs fresh n s) (\<lambda>s'.
             source_file_lines fresh eigen c u specs lines 1 (length (psys_srcs s)) s'))
      else if isrc \<ge> length (psys_srcs s) then Inl Out_of_bounds
      else
        rbind (source1 eigen c u specs line (psys_srcs s ! isrc)) (\<lambda>x.
        rbind (put_src isrc x s) (\<lambda>s'.
          if isrc + 1 = length (psys_srcs s') then Inr (isrc + 1, s')
          else source_file_lines fresh eigen c u specs lines 1 (isrc + 1) s')))"

definition psystem_read_source_file ::
    "(nat \<Rightarrow> source) \<Rightarrow> (real list \<Rightarrow> vec3 \<times> vec3) \<Rightarrow> config \<Rightarrow> units \<Rightarrow> spec list \<Rightarrow> text_file
     \<Rightarrow> psystem \<Rightarrow> psystem res" where
  "psystem_read_source_file fresh eigen c u specs file s =
     (case file of
        None \<Rightarrow> Inl (Trap ''failed to open'')
      | Some lines \<Rightarrow> rbind (source_file_lines fresh eigen c u specs lines 0 0 s) (\<lambda>(isrc, s').
          if isrc \<noteq> length (psys_srcs s') then Inl (Trap ''wrong number of sources'') else Inr s'))"

section \<open>Version 2 files\<close>

record src_reader =
  sr_stage :: nat
  sr_isrc :: nat
  sr_isample :: nat
  sr_timefmt :: nat
  sr_locationfmt :: nat
  sr_Nsamples :: "int option"
  sr_spec :: "string option"
  sr_type :: "string option"
  sr_radius :: "real option"

definition sr_start :: src_reader where
  "sr_start = \<lparr>sr_stage = 0, sr_isrc = 0, sr_isample = 0, sr_timefmt = 0, sr_locationfmt = 0,
     sr_Nsamples = None, sr_spec = None, sr_type = None, sr_radius = None\<rparr>"

text \<open>The number of sources and up to two words, as far as the line has them.\<close>

definition scan_head2 :: "string \<Rightarrow> int option \<times> string option \<times> string option" where
  "scan_head2 line =
     (case scan_int line of
        None \<Rightarrow> (None, None, None)
      | Some (n, rest) \<Rightarrow> (case scan_word rest of
          None \<Rightarrow> (Some n, None, None)
        | Some (w, rest) \<Rightarrow> (Some n, Some w, map_option fst (scan_word rest))))"

definition time_format :: "string \<Rightarrow> string \<Rightarrow> nat res" where
  "time_format tf lf =
     (if tf = ''time_q'' \<or> tf = ''a'' then Inr 0
      else if tf = ''redshift'' \<or> tf = ''z'' then Inr 1
      else if tf = ''myr'' then Inr 2
      else if tf = ''tick'' then Inr 3
      else if lf = ''absolute'' then Inr 0
      else Inl (Trap ''time fmt str unknown''))"

text \<open>
  The tick of a sample. The case of format 0 has no \<open>break\<close>: it runs on into the case of format 1.
\<close>

definition sample_tick :: "config \<Rightarrow> units \<Rightarrow> psystem \<Rightarrow> nat \<Rightarrow> real \<Rightarrow> int res" where
  "sample_tick c u s timefmt time =
     (let tick_of = (\<lambda>t. map_sum (\<lambda>x. x) trunc
            (fdiv db (db (db (t * u_myr u) - ep_age (psys_epoch s))) (psys_tick_time s)))
      in if timefmt = 0 then tick_of (z2t db c (z2t db c (db (1 / db (1 + time)))))
         else if timefmt = 1 then tick_of (z2t db c time)
         else if timefmt = 2 then map_sum (\<lambda>x. x) trunc (fdiv db (db (time * u_myr u)) (psys_tick_time s))
         else Inr (trunc time))"

text \<open>A write into an array that was resized to the length of the list: its capacity is at least 128.\<close>

definition put_cell :: "nat \<Rightarrow> 'a \<Rightarrow> 'a list \<Rightarrow> 'a list res" where
  "put_cell i v xs =
     (if i < length xs then Inr (xs[i := v]) else if i < 128 then Inr xs else Inl Out_of_bounds)"

definition source_head ::
    "spec list \<Rightarrow> string \<Rightarrow> src_reader \<Rightarrow> source \<Rightarrow> (src_reader \<times> source) res" where
  "source_head specs line st x =
     (let st1 = (case scan_int line of None \<Rightarrow> st
            | Some (n, r1) \<Rightarrow> (case scan_word r1 of None \<Rightarrow> st\<lparr>sr_Nsamples := Some n\<rparr>
              | Some (sp, r2) \<Rightarrow> (case scan_word r2 of
                  None \<Rightarrow> st\<lparr>sr_Nsamples := Some n, sr_spec := Some sp\<rparr>
                | Some (ty, r3) \<Rightarrow> (case scan_double r3 of
                    None \<Rightarrow> st\<lparr>sr_Nsamples := Some n, sr_spec := Some sp, sr_type := Some ty\<rparr>
                  | Some (rad, _) \<Rightarrow> st\<lparr>sr_Nsamples := Some n, sr_spec := Some sp, sr_type := Some ty,
                                        sr_radius := Some rad\<rparr>))));
          three = (case scan_int line of None \<Rightarrow> False
            | Some (n, r1) \<Rightarrow> (case scan_word r1 of None \<Rightarrow> False
              | Some (sp, r2) \<Rightarrow> (case scan_word r2 of None \<Rightarrow> False
                | Some (ty, r3) \<Rightarrow> scan_double r3 = None)))
      in if three \<and> sr_type st1 = Some ''plane'' then
           Inl (Trap ''format error, needs radius for plane source'')
         else case (sr_Nsamples st1, sr_spec st1, sr_type st1) of
           (Some n, Some sp, Some ty) \<Rightarrow>
             if n < 0 then Inl Out_of_bounds
             else rbind (spec_get specs sp) (\<lambda>k.
               let x = x\<lparr>src_lastemit := 0, src_ticks := replicate (nat n) 0,
                         src_Ngamma_dots := replicate (nat n) 0, src_cursor := 0, src_specid := int k\<rparr>;
                   st2 = st1\<lparr>sr_stage := 2, sr_isample := 0\<rparr>
               in if ty = ''plane'' then
                    (case sr_radius st1 of
                       None \<Rightarrow> Inl Out_of_bounds
                     | Some rad \<Rightarrow> Inr (st2, x\<lparr>src_type := PSYS_SRC_PLANE, src_radius := rad\<rparr>))
                  else Inr (st2, x\<lparr>src_type := PSYS_SRC_POINT\<rparr>))
         | _ \<Rightarrow> Inl Out_of_bounds)"

definition source_sample ::
    "(real list \<Rightarrow> vec3 \<times> vec3) \<Rightarrow> config \<Rightarrow> units \<Rightarrow> spec list \<Rightarrow> psystem \<Rightarrow> string \<Rightarrow> src_reader
     \<Rightarrow> source \<Rightarrow> (src_reader \<times> source) res" where
  "source_sample eigen c u specs s line st x =
     (case fst (scan_doubles 8 line) of
        [time, px, py, pz, dx, dy, dz, L] \<Rightarrow>
          rbind (sample_tick c u s (sr_timefmt st) time) (\<lambda>tick.
          rbind (put_cell (sr_isample st) tick (src_ticks x)) (\<lambda>ticks.
            let scale = (\<lambda>v. if sr_locationfmt st = 1 then db (psys_boxsize s * v) else v);
                x1 = x\<lparr>src_ticks := ticks\<rparr>;
                (a, b) = solve_u_v eigen (src_dir x1);
                plane = (src_type x1 = PSYS_SRC_PLANE);
                x2 = (if plane then x1\<lparr>src_a := a, src_b := b\<rparr> else x1)
            in rbind (if plane then
                        (case sr_radius st of None \<Rightarrow> Inl Out_of_bounds
                         | Some rad \<Rightarrow> Inr (plane_rate u L rad))
                      else point_rate u specs (nat (src_specid x)) L) (\<lambda>rate.
               rbind (put_cell (sr_isample st) (db (rate * cfg_boost_source_factor c)) (src_Ngamma_dots x2)) (\<lambda>dots.
                 let x3 = x2\<lparr>src_Ngamma_dots := dots, src_pos := (scale px, scale py, scale pz),
                             src_dir := (dx, dy, dz)\<rparr>;
                     st1 = st\<lparr>sr_isample := sr_isample st + 1\<rparr>
                 in if sr_Nsamples st = Some (int (sr_isample st + 1))
                    then Inr (if sr_isrc st = length (psys_srcs s) then st1\<lparr>sr_stage := 3\<rparr>
                              else st1\<lparr>sr_stage := 1, sr_isrc := sr_isrc st + 1\<rparr>, x3)
                    else Inr (st1, x3)))))
      | _ \<Rightarrow> Inl (Trap ''format error''))"

text \<open>
  The loop over the lines. The first component of the result is \<open>False\<close> when the header has a
  single field, that is, when the file is of version 1.
\<close>

fun source_file2_lines ::
    "(nat \<Rightarrow> source) \<Rightarrow> (real list \<Rightarrow> vec3 \<times> vec3) \<Rightarrow> config \<Rightarrow> units \<Rightarrow> spec list \<Rightarrow> string list
     \<Rightarrow> src_reader \<Rightarrow> psystem \<Rightarrow> (bool \<times> src_reader \<times> psystem) res" where
  "source_file2_lines fresh eigen c u specs [] st s = Inr (True, st, s)"
| "source_file2_lines fresh eigen c u specs (line # lines) st s =
     (if skip_line line then source_file2_lines fresh eigen c u specs lines st s
      else if sr_stage st = 0 then
        (case scan_head2 line of
           (None, _, _) \<Rightarrow> Inl Out_of_bounds
         | (Some n, None, _) \<Rightarrow> Inr (False, st, s)
         | (Some n, Some tf, lf) \<Rightarrow>
             (let loc = (case lf of None \<Rightarrow> ''absolute'' | Some w \<Rightarrow> w)
              in rbind (time_format tf loc) (\<lambda>timefmt.
                 rbind (add_srcs fresh n s) (\<lambda>s'.
                   source_file2_lines fresh eigen c u specs lines
                     (st\<lparr>sr_stage := 1, sr_isrc := length (psys_srcs s), sr_timefmt := timefmt,
                         sr_locationfmt := (if loc = ''relative'' then 1 else 0)\<rparr>) s'))))
      else if sr_stage st = 3 then Inr (True, st, s)
      else if sr_isrc st \<ge> length (psys_srcs s) then Inl Out_of_bounds
      else
        rbind (if sr_stage st = 1 then source_head specs line st (psys_srcs s ! sr_isrc st)
               else source_sample eigen c u specs s line st (psys_srcs s ! sr_isrc st)) (\<lambda>(st', x).
        rbind (put_src (sr_isrc st) x s) (\<lambda>s'.
          source_file2_lines fresh eigen c u specs lines st' s')))"

definition psystem_read_source_file2 ::
    "(nat \<Rightarrow> source) \<Rightarrow> (real list \<Rightarrow> vec3 \<times> vec3) \<Rightarrow> config \<Rightarrow> units \<Rightarrow> spec list \<Rightarrow> text_file
     \<Rightarrow> psystem \<Rightarrow> psystem res" where
  "psystem_read_source_file2 fresh eigen c u specs file s =
     (case file of
        None \<Rightarrow> Inl (Trap ''failed to open'')
      | Some lines \<Rightarrow> rbind (source_file2_lines fresh eigen c u specs lines sr_start s) (\<lambda>(v2, st, s').
          if \<not> v2 then psystem_read_source_file fresh eigen c u specs file s'
          else if sr_isrc st \<noteq> length (psys_srcs s') then Inl (Trap ''wrong number of sources'')
          else Inr s'))"

section \<open>All sources of an epoch\<close>

fun read_source_files ::
    "(text_file \<Rightarrow> psystem \<Rightarrow> psystem res) \<Rightarrow> (string \<Rightarrow> text_file) \<Rightarrow> string option list \<Rightarrow> psystem \<Rightarrow> psystem res" where
  "read_source_files rd files [] s = Inr s"
| "read_source_files rd files (None # fs) s = Inl Out_of_bounds"
| "read_source_files rd files (Some f # fs) s = rbind (rd (files f) s) (read_source_files rd files fs)"

definition psystem_read_source ::
    "(nat \<Rightarrow> source) \<Rightarrow> (real list \<Rightarrow> vec3 \<times> vec3) \<Rightarrow> (string \<Rightarrow> text_file) \<Rightarrow> config \<Rightarrow> units
     \<Rightarrow> spec list \<Rightarrow> psystem \<Rightarrow> psystem res" where
  "psystem_read_source fresh eigen files c u specs s =
     (let scaling_fac = (if cfg_comoving c then db (1 / db (ep_redshift (psys_epoch s) + 1)) else 1)
      in rbind (read_source_files (psystem_read_source_file2 fresh eigen c u specs) files
                  (ep_sources (psys_epoch s)) (s\<lparr>psys_srcs := []\<rparr>)) (\<lambda>s'.
           if psys_srcs s' = [] \<or> list_ex (\<lambda>x. src_cursor x \<ge> length (src_Ngamma_dots x)) (psys_srcs s')
           then Inl Out_of_bounds
           else Inr (s'\<lparr>psys_srcs := map (\<lambda>x. x\<lparr>src_ray_length_hint :=
                  db (db (c_speed_light u / scaling_fac) * psys_tick_time s')\<rparr>) (psys_srcs s')\<rparr>)))"

section \<open>The weights of a tick\<close>

function advance_cursor :: "int \<Rightarrow> source \<Rightarrow> source" where
  "advance_cursor tick x =
     (if src_cursor x + 1 < length (src_ticks x) \<and> src_ticks x ! (src_cursor x + 1) \<le> tick
      then advance_cursor tick (x\<lparr>src_cursor := src_cursor x + 1\<rparr>) else x)"
  by pat_completeness auto
termination
  by (relation "measure (\<lambda>(tick, x). length (src_ticks x) - src_cursor x)") auto

declare advance_cursor.simps [simp del]

definition weight_src :: "(real \<Rightarrow> real) \<Rightarrow> psystem \<Rightarrow> source \<Rightarrow> real res" where
  "weight_src rd s x =
     (if src_cursor x \<ge> length (src_Ngamma_dots x) then Inl Out_of_bounds
      else if src_type x = PSYS_SRC_POINT \<or> src_type x = PSYS_SRC_PLANE then
        Inr (rd (rd (src_Ngamma_dots x ! src_cursor x * of_int (psys_tick s - src_lastemit x))
               * psys_tick_time s))
      else Inl Out_of_bounds)"

definition psystem_weight_srcs :: "(real \<Rightarrow> real) \<Rightarrow> psystem \<Rightarrow> (real list \<times> psystem) res" where
  "psystem_weight_srcs rd s =
     (if list_ex (\<lambda>x. src_ticks x = []) (psys_srcs s) then Inl Out_of_bounds
      else
        let s' = s\<lparr>psys_srcs := map (advance_cursor (psys_tick s)) (psys_srcs s)\<rparr>
        in rbind (map_res (weight_src rd s') (psys_srcs s')) (\<lambda>ws. Inr (ws, s')))"

end
