(* ===== verification/Ray_Emission.thy ===== *)
theory Ray_Emission imports Sources Ray_Trace Bit_Mask begin

text \<open>
  The rays of a tick: \<open>emit_rays\<close>, \<open>trace\<close> and \<open>merge_pars\<close> of \<open>src/src/loop.c\<close>.

  The file-level variables of \<open>loop.c\<close> are a record \<open>loop\<close>: the particle system, the array \<open>r\<close> of
  rays (the allocated block, whose elements keep their buffers of intersections from tick to tick,
  and the number in use), the active set with \<open>x_src_length\<close>, the bit mask, the statistics and the
  state of the random number generator. What does not change during a run is a record \<open>env\<close>.
  \<open>qsort\<close> is a stable sort by the comparison function (C leaves the order of equal elements open;
  the theorems do not depend on it). \<open>conv\<close> is the value of the conversion of \<open>weightsum / 0\<close> to
  \<open>size_t\<close>, which C leaves undefined and which the code runs into whenever \<open>packet_size\<close> is zero.
\<close>

section \<open>The state of the loop\<close>

record ray =
  r_s :: vec3
  r_dir :: vec3
  r_Nph :: real
  r_freq :: real
  r_length :: real
  r_type :: int
  r_ipar :: nat
  r_x :: "xtype list"
  r_x_size :: "nat option"

definition zero_ray :: ray where
  "zero_ray = \<lparr>r_s = (0, 0, 0), r_dir = (0, 0, 0), r_Nph = 0, r_freq = 0, r_length = 0, r_type = 0,
     r_ipar = 0, r_x = [], r_x_size = None\<rparr>"

record stat =
  src_ray_total :: nat
  src_ray_subtotal :: nat
  rec_ray_total :: nat
  rec_ray_subtotal :: nat
  src_photon_total :: real
  src_photon_subtotal :: real
  rec_photon_total :: real
  rec_photon_subtotal :: real
  rec_photon_subtotalHII :: real
  rec_photon_subtotalHeII :: real
  rec_photon_subtotalHeIII :: real
  secondary_HI :: real
  secondary_HeI :: real
  first_HI :: real
  first_HeI :: real
  first_HeII :: real
  lost_photon_sum :: real
  rec_photon_sum :: real
  saturated_deposits :: nat
  total_deposits :: nat
  disordered :: nat
  gsl_errors :: nat
  evolves :: nat
  ticks_subtotal :: nat
  fast_recombinations :: nat

definition stat_zero :: stat where
  "stat_zero = \<lparr>src_ray_total = 0, src_ray_subtotal = 0, rec_ray_total = 0, rec_ray_subtotal = 0,
     src_photon_total = 0, src_photon_subtotal = 0, rec_photon_total = 0, rec_photon_subtotal = 0,
     rec_photon_subtotalHII = 0, rec_photon_subtotalHeII = 0, rec_photon_subtotalHeIII = 0,
     secondary_HI = 0, secondary_HeI = 0, first_HI = 0, first_HeI = 0, first_HeII = 0,
     lost_photon_sum = 0, rec_photon_sum = 0, saturated_deposits = 0, total_deposits = 0,
     disordered = 0, gsl_errors = 0, evolves = 0, ticks_subtotal = 0, fast_recombinations = 0\<rparr>"

record 'g loop =
  l_psys :: psystem
  l_block :: "ray list"
  l_r_length :: nat
  l_active_set :: "nat list"
  l_x_src_length :: nat
  l_active :: bitmask
  l_stat :: stat
  l_rng :: 'g
  l_mxstep :: nat

definition l_rays :: "'g loop \<Rightarrow> ray list" where
  "l_rays l = take (l_r_length l) (l_block l)"

text \<open>
  The integrator LSODA (\<open>src/support/lsoda\<close>, a library) is a parameter: from the right hand side, the
  options, the vector, the time and the end time to the new vector, the time reached and \<open>state\<close>
  (2 for success, -1 when \<open>mxstep\<close> steps were not enough). The options are those
  \<open>step_evolve_prepare\<close> of \<open>solve.c\<close> sets.
\<close>

record lsoda_opt =
  lo_ixpr :: int
  lo_mxstep :: nat
  lo_itask :: int
  lo_rtol :: "real list"
  lo_atol :: "real list"

type_synonym lsoda = "(real list \<Rightarrow> real list res) \<Rightarrow> lsoda_opt \<Rightarrow> real list \<Rightarrow> real \<Rightarrow> real
  \<Rightarrow> (real list \<times> real \<times> int) res"

record 'g env =
  e_config :: config
  e_units :: units
  e_specs :: "spec list"
  e_ltes :: "lte list"
  e_physics :: physics
  e_rng :: "'g rng"
  e_conv :: "real \<Rightarrow> nat"
  e_lsoda :: lsoda

section \<open>Comparison functions\<close>

definition intptr_compare :: "int \<Rightarrow> int \<Rightarrow> int" where
  "intptr_compare d1 d2 = three_way d1 d2"

definition x_t_compare :: "xtype \<Rightarrow> xtype \<Rightarrow> int" where
  "x_t_compare p1 p2 = three_way (x_d p1) (x_d p2)"

definition r_t_compare :: "ray \<Rightarrow> ray \<Rightarrow> int" where
  "r_t_compare p1 p2 = three_way (r_type p1) (r_type p2) * 8 + three_way (r_ipar p1) (r_ipar p2)"

fun insert_by :: "('a \<Rightarrow> 'a \<Rightarrow> int) \<Rightarrow> 'a \<Rightarrow> 'a list \<Rightarrow> 'a list" where
  "insert_by cmp x [] = [x]"
| "insert_by cmp x (y # ys) = (if cmp x y \<le> 0 then x # y # ys else y # insert_by cmp x ys)"

definition qsort :: "('a \<Rightarrow> 'a \<Rightarrow> int) \<Rightarrow> 'a list \<Rightarrow> 'a list" where
  "qsort cmp xs = foldr (insert_by cmp) xs []"

section \<open>The array of rays\<close>

text \<open>\<open>ARRAY_ENSURE0\<close>: 128 zeroed elements at first, then the capacity doubles.\<close>

function doubled :: "nat \<Rightarrow> nat \<Rightarrow> nat" where
  "doubled cap n = (if cap = 0 \<or> n \<le> cap then cap else doubled (2 * cap) n)"
  by pat_completeness auto
termination by (relation "measure (\<lambda>(cap, n). n - cap)") auto

declare doubled.simps [simp del]

definition ensure0 :: "nat \<Rightarrow> ray list \<Rightarrow> ray list" where
  "ensure0 n blk =
     (let cap = doubled (if blk = [] then 128 else length blk) n
      in blk @ replicate (cap - length blk) zero_ray)"

definition set_ray :: "int \<Rightarrow> nat \<Rightarrow> ray \<Rightarrow> ray" where
  "set_ray ty i p = p\<lparr>r_type := ty, r_ipar := i\<rparr>"

definition append_ray :: "int \<Rightarrow> nat \<Rightarrow> ray list \<times> nat \<Rightarrow> ray list \<times> nat" where
  "append_ray ty i = (\<lambda>(blk, n).
     let blk' = ensure0 (n + 1) blk in (blk'[n := set_ray ty i (blk' ! n)], n + 1))"

section \<open>Choosing the rays\<close>

fun source_rays :: "'g rng \<Rightarrow> real list \<Rightarrow> nat \<Rightarrow> nat \<Rightarrow> ray list \<Rightarrow> 'g \<Rightarrow> (ray list \<times> 'g) res" where
  "source_rays r ws 0 i blk g = Inr (blk, g)"
| "source_rays r ws (Suc n) i blk g =
     rbind (draw r ws g) (\<lambda>(isrc, g').
       if i \<ge> length blk then Inl Out_of_bounds
       else source_rays r ws n (Suc i) (blk[i := set_ray (-1) isrc (blk ! i)]) g')"

definition rec_weight :: "psystem \<Rightarrow> nat \<Rightarrow> nat \<Rightarrow> real" where
  "rec_weight s species ipar =
     (let x = psys_xHI s ipar; x = (if x = 0 then db (1 / 10 ^ 10) else x)
      in db (psys_yGrec s species ! ipar / x))"

fun rec_draws :: "'g rng \<Rightarrow> real list \<Rightarrow> nat list \<Rightarrow> int \<Rightarrow> nat \<Rightarrow> ray list \<times> nat \<Rightarrow> 'g
    \<Rightarrow> ((ray list \<times> nat) \<times> 'g) res" where
  "rec_draws r ws act species 0 rs g = Inr (rs, g)"
| "rec_draws r ws act species (Suc n) rs g =
     rbind (draw r ws g) (\<lambda>(ix, g').
       if ix \<ge> length act then Inl Out_of_bounds
       else rec_draws r ws act species n (append_ray species (act ! ix) rs) g')"

definition rec_above :: "config \<Rightarrow> psystem \<Rightarrow> nat \<Rightarrow> nat list \<Rightarrow> nat list" where
  "rec_above c s species act = filter (\<lambda>ipar. cfg_recombine_threshold c < psys_yGrec s species ! ipar) act"

definition species_rays :: "'g env \<Rightarrow> psystem \<Rightarrow> nat list \<Rightarrow> nat \<Rightarrow> ray list \<times> nat \<Rightarrow> 'g
    \<Rightarrow> ((ray list \<times> nat) \<times> 'g) res" where
  "species_rays e s act species rs g =
     (if list_ex (\<lambda>ipar. ipar \<ge> length (psys_lambdaH s) \<or> ipar \<ge> length (psys_yGrec s species)) act
      then Inl Out_of_bounds
      else if ep_nrec (psys_epoch s) > 0 then
        rec_draws (e_rng e) (map (rec_weight s species) act) act (int species)
          (nat (ep_nrec (psys_epoch s))) rs g
      else Inr (fold (append_ray (int species)) (rec_above (e_config e) s species act) rs, g))"

fun all_species :: "'g env \<Rightarrow> psystem \<Rightarrow> nat list \<Rightarrow> nat list \<Rightarrow> ray list \<times> nat \<Rightarrow> 'g
    \<Rightarrow> ((ray list \<times> nat) \<times> 'g) res" where
  "all_species e s act [] rs g = Inr (rs, g)"
| "all_species e s act (sp # sps) rs g =
     rbind (species_rays e s act sp rs g) (\<lambda>(rs', g'). all_species e s act sps rs' g')"

definition ray_estimate :: "(real \<Rightarrow> nat) \<Rightarrow> real \<Rightarrow> real \<Rightarrow> nat" where
  "ray_estimate conv weightsum packet_size =
     (if packet_size = 0 then conv weightsum else nat (trunc (db (weightsum / packet_size))))"

text \<open>The number of recombination rays, a \<open>size_t\<close>: \<open>nrec\<close> of the epoch may be negative.\<close>

definition rec_count :: "config \<Rightarrow> epoch \<Rightarrow> 64 word" where
  "rec_count c ep = (if cfg_on_the_spot c then 0 else of_int (ep_nrec ep * (if cfg_h_only c then 1 else 3)))"

section \<open>Filling in the photons\<close>

definition fl3 :: "vec3 \<Rightarrow> vec3" where
  "fl3 = (\<lambda>(x, y, z). (fl x, fl y, fl z))"

text \<open>Where a ray of a source starts and points to: a point, or a random place of a square.\<close>

definition point_ray :: "'g rng \<Rightarrow> source \<Rightarrow> ray \<Rightarrow> 'g \<Rightarrow> ray \<times> 'g" where
  "point_ray r x p g = (let (d, g') = gsl_ran_dir_3d r g in (p\<lparr>r_s := fl3 (src_pos x), r_dir := fl3 d\<rparr>, g'))"

definition plane_start :: "source \<Rightarrow> real \<Rightarrow> real \<Rightarrow> vec3" where
  "plane_start x u v =
     (let place = (\<lambda>pos a b. fl (db (db (pos + db (db (u * a) * src_radius x)) + db (db (v * b) * src_radius x))));
          (p0, p1, p2) = src_pos x; (a0, a1, a2) = src_a x; (b0, b1, b2) = src_b x
      in (place p0 a0 b0, place p1 a1 b1, place p2 a2 b2))"

definition plane_ray :: "'g rng \<Rightarrow> source \<Rightarrow> ray \<Rightarrow> 'g \<Rightarrow> ray \<times> 'g" where
  "plane_ray r x p g =
     (let (u, g1) = gsl_ran_flat r (-1) 1 g; (v, g2) = gsl_ran_flat r (-1) 1 g1
      in (p\<lparr>r_dir := fl3 (src_dir x), r_s := plane_start x u v\<rparr>, g2))"

definition fill_source :: "'g env \<Rightarrow> psystem \<Rightarrow> real list \<Rightarrow> ray \<Rightarrow> 'g \<Rightarrow> (ray \<times> 'g) res" where
  "fill_source e s ws p g =
     (if r_ipar p \<ge> length (psys_srcs s) \<or> r_ipar p \<ge> length ws then Inl Out_of_bounds
      else
        let x = psys_srcs s ! r_ipar p;
            (p1, g1) = (if src_type x = PSYS_SRC_POINT then point_ray (e_rng e) x p g
                        else if src_type x = PSYS_SRC_PLANE then plane_ray (e_rng e) x p g else (p, g))
        in rbind (spec_gen_freq (e_rng e) (e_specs e) (nat (src_specid x)) g1) (\<lambda>(freq, g2).
             if db (100000 * u_ev (e_units e)) < freq then Inl (Trap ''freq strangely large'')
             else Inr (p1\<lparr>r_Nph := ws ! r_ipar p, r_freq := freq, r_length := db (psys_boxsize s * 2)\<rparr>, g2)))"

text \<open>The photons stored in a recombination pool, and the number of atoms they are counted by.\<close>

definition rec_atoms :: "units \<Rightarrow> psystem \<Rightarrow> int \<Rightarrow> nat \<Rightarrow> real" where
  "rec_atoms u s ty ipar = (if ty = 0 then psys_NH u s ipar else psys_NHe u s ipar)"

definition rec_photons :: "units \<Rightarrow> psystem \<Rightarrow> int \<Rightarrow> nat \<Rightarrow> real" where
  "rec_photons u s ty ipar = db (psys_yGrec s (nat ty) ! ipar * rec_atoms u s ty ipar)"

definition fill_rec :: "'g env \<Rightarrow> psystem \<Rightarrow> real \<Rightarrow> ray \<Rightarrow> 'g \<Rightarrow> (ray \<times> 'g) res" where
  "fill_rec e s max_rec_length p g =
     (if r_ipar p \<ge> psys_npar s then Inl Out_of_bounds
      else
        rbind (flog10 db (psys_T (e_config e) (e_units e) s (r_ipar p))) (\<lambda>logT.
        rbind (lte_gen_freq (e_rng e) (e_config e) (e_ltes e) (nat (r_type p)) logT g) (\<lambda>(freq, g1).
          let Nph = rec_photons (e_units e) s (r_type p) (r_ipar p); (d, g2) = gsl_ran_dir_3d (e_rng e) g1
          in if Nph < 0 then Inl (Trap ''Nph < 0'')
             else Inr (p\<lparr>r_s := psys_pos s ! r_ipar p, r_Nph := Nph, r_freq := freq,
                         r_length := max_rec_length, r_dir := fl3 d\<rparr>, g2))))"

definition fill_ray :: "'g env \<Rightarrow> psystem \<Rightarrow> real list \<Rightarrow> real \<Rightarrow> ray \<Rightarrow> 'g \<Rightarrow> (ray \<times> 'g) res" where
  "fill_ray e s ws max_rec_length p g =
     (if r_type p = -1 then fill_source e s ws p g
      else if r_type p = 0 \<or> r_type p = 1 \<or> r_type p = 2 then fill_rec e s max_rec_length p g
      else Inl (Trap ''never reach here''))"

fun fill_rays :: "('a \<Rightarrow> 'g \<Rightarrow> ('a \<times> 'g) res) \<Rightarrow> 'a list \<Rightarrow> 'g \<Rightarrow> ('a list \<times> 'g) res" where
  "fill_rays f [] g = Inr ([], g)"
| "fill_rays f (p # ps) g =
     rbind (f p g) (\<lambda>(p', g'). rbind (fill_rays f ps g') (\<lambda>(ps', g''). Inr (p' # ps', g'')))"

section \<open>Sharing the photons of identical rays\<close>

definition scale_Nph :: "real \<Rightarrow> ray \<Rightarrow> ray" where
  "scale_Nph factor p = p\<lparr>r_Nph := db (r_Nph p * factor)\<rparr>"

text \<open>\<open>while(identical_count > 0) { r[i - identical_count].Nph *= factor; identical_count --; }\<close>\<close>

fun scale_run :: "real \<Rightarrow> nat \<Rightarrow> nat \<Rightarrow> ray list \<Rightarrow> ray list" where
  "scale_run factor i 0 rs = rs"
| "scale_run factor i (Suc c) rs =
     scale_run factor i c (rs[i - Suc c := scale_Nph factor (rs ! (i - Suc c))])"

fun share_loop :: "nat list \<Rightarrow> nat \<Rightarrow> ray list \<Rightarrow> ray list" where
  "share_loop [] identical_count rs = rs"
| "share_loop (i # is) identical_count rs =
     (if i = 0 then share_loop is 1 rs
      else if i = length rs \<or> r_t_compare (rs ! (i - 1)) (rs ! i) \<noteq> 0 then
        share_loop is 1 (scale_run (db (1 / real identical_count)) i identical_count rs)
      else share_loop is (identical_count + 1) rs)"

definition share_photons :: "ray list \<Rightarrow> ray list" where
  "share_photons rs = share_loop [0..<length rs + 1] 0 rs"

section \<open>Accounting\<close>

definition set_yGrec :: "int \<Rightarrow> (real list \<Rightarrow> real list) \<Rightarrow> psystem \<Rightarrow> psystem" where
  "set_yGrec ty f s =
     (if ty = 0 then s\<lparr>psys_yGrecHII := f (psys_yGrecHII s)\<rparr>
      else if ty = 1 then s\<lparr>psys_yGrecHeII := f (psys_yGrecHeII s)\<rparr>
      else s\<lparr>psys_yGrecHeIII := f (psys_yGrecHeIII s)\<rparr>)"

definition count_rec :: "int \<Rightarrow> real \<Rightarrow> stat \<Rightarrow> stat" where
  "count_rec ty n st =
     (let st = st\<lparr>rec_ray_subtotal := rec_ray_subtotal st + 1,
                  rec_photon_subtotal := db (rec_photon_subtotal st + n),
                  rec_photon_sum := db (rec_photon_sum st - n)\<rparr>
      in if ty = 0 then st\<lparr>rec_photon_subtotalHII := db (rec_photon_subtotalHII st + n)\<rparr>
         else if ty = 1 then st\<lparr>rec_photon_subtotalHeII := db (rec_photon_subtotalHeII st + n)\<rparr>
         else st\<lparr>rec_photon_subtotalHeIII := db (rec_photon_subtotalHeIII st + n)\<rparr>)"

definition count_src :: "real \<Rightarrow> stat \<Rightarrow> stat" where
  "count_src n st = st\<lparr>src_ray_subtotal := src_ray_subtotal st + 1,
     src_photon_subtotal := db (src_photon_subtotal st + n)\<rparr>"

text \<open>Taking the photons of a ray out of the pool of its particle; a negative rest is cut to zero.\<close>

definition purge :: "units \<Rightarrow> int \<Rightarrow> nat \<Rightarrow> real \<Rightarrow> psystem \<Rightarrow> psystem res" where
  "purge u ty ipar n s =
     rbind (fdiv db n (rec_atoms u s ty ipar)) (\<lambda>dy.
       let y = fl (db (psys_yGrec s (nat ty) ! ipar - dy))
       in if ty = 0 \<and> 1 < y then Inl (Trap ''ygrecHII > 0'')
          else Inr (set_yGrec ty (\<lambda>ys. ys[ipar := (if y < 0 then 0 else y)]) s))"

fun account :: "units \<Rightarrow> ray list \<Rightarrow> psystem \<Rightarrow> stat \<Rightarrow> (psystem \<times> stat) res" where
  "account u [] s st = Inr (s, st)"
| "account u (p # ps) s st =
     (if r_type p = -1 then
        (if r_ipar p \<ge> length (psys_srcs s) then Inl Out_of_bounds
         else account u ps
                (s\<lparr>psys_srcs := (psys_srcs s)[r_ipar p := (psys_srcs s ! r_ipar p)\<lparr>src_lastemit := psys_tick s\<rparr>]\<rparr>)
                (count_src (r_Nph p) st))
      else if r_type p = 0 \<or> r_type p = 1 \<or> r_type p = 2 then
        (if r_ipar p \<ge> psys_npar s then Inl Out_of_bounds
         else rbind (purge u (r_type p) (r_ipar p) (r_Nph p) s) (\<lambda>s'.
                account u ps s' (count_rec (r_type p) (r_Nph p) st)))
      else Inl (Trap ''never each here''))"

section \<open>Emission, tracing, merging\<close>

text \<open>Which rays are cast: \<open>nray\<close> from the sources, then the recombination rays.\<close>

definition choose_rays :: "'g env \<Rightarrow> 'g loop \<Rightarrow> psystem \<Rightarrow> real list \<Rightarrow> ((ray list \<times> nat) \<times> 'g) res" where
  "choose_rays e l s ws =
     (let ep = psys_epoch s; nrec = rec_count (e_config e) ep;
          blk = ensure0 (unat (of_nat (ep_nray ep) + nrec)) (l_block l);
          act = take (l_x_src_length l) (l_active_set l)
      in rbind (source_rays (e_rng e) ws (ep_nray ep) 0 blk (l_rng l)) (\<lambda>(blk, g).
           if nrec \<noteq> 0 \<and> 1 < psys_tick s
           then all_species e s act [0..<if cfg_h_only (e_config e) then 1 else 3] (blk, ep_nray ep) g
           else Inr ((blk, ep_nray ep), g)))"

definition emit_rays :: "'g env \<Rightarrow> 'g loop \<Rightarrow> 'g loop res" where
  "emit_rays e l =
     rbind (psystem_weight_srcs db (l_psys l)) (\<lambda>(ws, s).
       let max_rec_length = db (db (psys_boxsize s * 2) * db (1 / 10));
           weightsum = foldl (\<lambda>acc w. db (acc + w)) 0 ws;
           nray = ray_estimate (e_conv e) weightsum (ep_packet_size (psys_epoch s))
       in if nray > ep_nray (psys_epoch s) * 2 then Inl (Trap ''needs more rays'')
          else
            rbind (choose_rays e l s ws) (\<lambda>((blk, n), g).
            rbind (fill_rays (fill_ray e s ws max_rec_length) (qsort r_t_compare (take n blk)) g) (\<lambda>(rs, g).
            rbind (account (e_units e) (share_photons rs) s (l_stat l)) (\<lambda>(s', st).
              Inr (l\<lparr>l_psys := s', l_block := share_photons rs @ drop n blk, l_r_length := n,
                     l_stat := st, l_rng := g\<rparr>)))))"

definition trace_ray :: "psystem \<Rightarrow> raytrace \<Rightarrow> ray \<Rightarrow> ray res option" where
  "trace_ray s rt p =
     (case rt_trace s rt (r_s p) (r_dir p) (fl (r_length p)) (r_x_size p) of
        None \<Rightarrow> None
      | Some r \<Rightarrow> Some (rbind r (\<lambda>(xs, sz). Inr (p\<lparr>r_x := qsort x_t_compare xs, r_x_size := Some sz\<rparr>))))"

fun trace_rays :: "psystem \<Rightarrow> raytrace \<Rightarrow> ray list \<Rightarrow> ray list res option" where
  "trace_rays s rt [] = Some (Inr [])"
| "trace_rays s rt (p # ps) =
     (case trace_ray s rt p of
        None \<Rightarrow> None
      | Some (Inl err) \<Rightarrow> Some (Inl err)
      | Some (Inr p') \<Rightarrow> (case trace_rays s rt ps of
          None \<Rightarrow> None
        | Some r \<Rightarrow> Some (rbind r (\<lambda>ps'. Inr (p' # ps')))))"

definition trace :: "raytrace \<Rightarrow> 'g loop \<Rightarrow> 'g loop res option" where
  "trace rt l =
     (case trace_rays (l_psys l) rt (l_rays l) of
        None \<Rightarrow> None
      | Some r \<Rightarrow> Some (rbind r (\<lambda>rs. Inr (l\<lparr>l_block := rs @ drop (l_r_length l) (l_block l)\<rparr>))))"

text \<open>The particles a ray meets, as the indices of the bit mask.\<close>

definition ray_pars :: "ray \<Rightarrow> 64 word list" where
  "ray_pars p = map (\<lambda>x. of_nat (x_ipar x)) (r_x p)"

fun merge_rays :: "nat \<Rightarrow> nat \<Rightarrow> ray list \<Rightarrow> 64 word list \<Rightarrow> nat \<Rightarrow> bitmask
    \<Rightarrow> (64 word list \<times> nat \<times> bitmask) res" where
  "merge_rays nray i [] acc x_src m = Inr (acc, x_src, m)"
| "merge_rays nray i (p # ps) acc x_src m =
     rbind (collect_marked bitmask_test bitmask_clear_unsafe (ray_pars p) acc m) (\<lambda>(acc', m').
       merge_rays nray (i + 1) ps acc' (if i \<le> nray then length acc' else x_src) m')"

definition merge_pars :: "'g loop \<Rightarrow> 'g loop res" where
  "merge_pars l =
     rbind (mark_all bitmask_set (concat (map ray_pars (l_rays l))) (l_active l)) (\<lambda>m.
     rbind (merge_rays (ep_nray (psys_epoch (l_psys l))) 0 (l_rays l) [] (l_x_src_length l) m)
       (\<lambda>(acc, x_src, m').
         Inr (l\<lparr>l_active_set := map unat acc, l_x_src_length := x_src, l_active := m'\<rparr>)))"

section \<open>Sorting by a comparison function\<close>

context key_order
begin

lemma mset_insert_by: "mset (insert_by cmp x ys) = mset (x # ys)"
  by (induction ys) auto

lemma sorted_insert_by: "sorted_keys ys \<Longrightarrow> sorted_keys (insert_by cmp x ys)"
proof (induction ys)
  case (Cons y ys)
  have set: "set (insert_by cmp x ys) = insert x (set ys)"
    using mset_insert_by [of x ys] by (metis mset_eq_setD list.set(2))
  show ?case
  proof (cases "cmp x y \<le> 0")
    case True
    then show ?thesis using Cons.prems trans [OF True] by (auto simp: sorted_keys_def)
  next
    case False
    then have "cmp y x \<le> 0" using total by blast
    then show ?thesis using Cons False set by (auto simp: sorted_keys_def)
  qed
qed (simp add: sorted_keys_def)

lemma mset_qsort [simp]: "mset (qsort cmp xs) = mset xs"
  by (induction xs) (simp_all add: qsort_def mset_insert_by)

lemma length_qsort [simp]: "length (qsort cmp xs) = length xs"
  by (metis mset_qsort size_mset)

lemma sorted_qsort: "sorted_keys (qsort cmp xs)"
  by (induction xs) (simp_all add: qsort_def sorted_insert_by, simp add: sorted_keys_def)

lemma set_qsort [simp]: "set (qsort cmp xs) = set xs"
  using mset_qsort by (rule mset_eq_setD)

end

lemma r_t_compare_le:
  "r_t_compare p q \<le> 0 \<longleftrightarrow> r_type p < r_type q \<or> (r_type p = r_type q \<and> r_ipar p \<le> r_ipar q)"
  by (auto simp: r_t_compare_def three_way_def)

lemma r_t_compare_0: "r_t_compare p q = 0 \<longleftrightarrow> r_type p = r_type q \<and> r_ipar p = r_ipar q"
  by (auto simp: r_t_compare_def three_way_def)

interpretation ray_order: key_order r_t_compare
proof
  show "0 < r_t_compare a b \<longleftrightarrow> r_t_compare b a < 0" for a b
    by (auto simp: r_t_compare_def three_way_def)
  show "r_t_compare a c \<le> 0" if "r_t_compare a b \<le> 0" "r_t_compare b c \<le> 0" for a b c
    using that by (auto simp: r_t_compare_le)
qed

interpretation hit_order: key_order x_t_compare
  by unfold_locales (auto simp: x_t_compare_def)

section \<open>Every group of identical rays shares its photons\<close>

definition twins :: "ray \<Rightarrow> ray list \<Rightarrow> nat" where
  "twins p rs = length (filter (\<lambda>q. r_t_compare p q = 0) rs)"

definition shared :: "ray list \<Rightarrow> ray \<Rightarrow> ray" where
  "shared rs p = scale_Nph (db (1 / real (twins p rs))) p"

fun share_runs :: "ray list \<Rightarrow> ray list \<Rightarrow> ray list" where
  "share_runs run [] = map (scale_Nph (db (1 / real (length run)))) run"
| "share_runs run (x # xs) =
     (if r_t_compare (last run) x \<noteq> 0
      then map (scale_Nph (db (1 / real (length run)))) run @ share_runs [x] xs
      else share_runs (run @ [x]) xs)"

lemma length_scale_run [simp]: "length (scale_run f i c rs) = length rs"
  by (induction c arbitrary: rs) auto

lemma nth_scale_run:
  "c \<le> i \<Longrightarrow> i \<le> length rs \<Longrightarrow> k < length rs \<Longrightarrow>
   scale_run f i c rs ! k = (if i - c \<le> k \<and> k < i then scale_Nph f (rs ! k) else rs ! k)"
proof (induction c arbitrary: rs)
  case (Suc c)
  then show ?case by (auto simp: nth_list_update Suc_diff_le)
qed auto

lemma scale_run_middle:
  "scale_run f (length P + length run) (length run) (P @ run @ rest) = P @ map (scale_Nph f) run @ rest"
  by (rule nth_equalityI) (auto simp: nth_scale_run nth_append)

lemma share_loop_runs:
  "run \<noteq> [] \<Longrightarrow>
   share_loop [length P + length run..<Suc (length P + length run + length rest)] (length run) (P @ run @ rest)
     = P @ share_runs run rest"
proof (induction rest arbitrary: P run)
  case Nil
  then show ?case using scale_run_middle [of _ P run "[]"] by simp
next
  case (Cons x xs)
  let ?i = "length P + length run" and ?rs = "P @ run @ x # xs"
  have upt: "[?i..<Suc (?i + length (x # xs))] = ?i # [Suc ?i..<Suc (Suc ?i + length xs)]"
    by (subst upt_conv_Cons) auto
  have at: "?rs ! (?i - 1) = last run" "?rs ! ?i = x" "?i \<noteq> 0" "?i \<noteq> length ?rs"
    using Cons.prems by (cases run rule: rev_cases; force simp: nth_append)+
  show ?case
  proof (cases "r_t_compare (last run) x = 0")
    case True
    then show ?thesis
      unfolding upt using at Cons.IH [of "run @ [x]" P] Cons.prems by (simp del: upt_Suc)
  next
    case False
    let ?f = "db (1 / real (length run))"
    have "share_loop [?i..<Suc (?i + length (x # xs))] (length run) ?rs
        = share_loop [Suc ?i..<Suc (Suc ?i + length xs)] 1 (P @ map (scale_Nph ?f) run @ x # xs)"
      unfolding upt using at False scale_run_middle [of ?f P run "x # xs"] by (simp del: upt_Suc)
    also have "\<dots> = (P @ map (scale_Nph ?f) run) @ share_runs [x] xs"
      using Cons.IH [of "[x]" "P @ map (scale_Nph ?f) run"] by (simp del: upt_Suc)
    finally show ?thesis using False by simp
  qed
qed

lemma share_runs_shared:
  "run \<noteq> [] \<Longrightarrow> \<forall>p \<in> set run. r_t_compare p (last run) = 0 \<Longrightarrow> ray_order.sorted_keys (run @ rest) \<Longrightarrow>
   share_runs run rest = map (shared (run @ rest)) (run @ rest)"
proof (induction rest arbitrary: run)
  case Nil
  have "filter (\<lambda>q. r_t_compare p q = 0) run = run" if "p \<in> set run" for p
    using Nil.prems(2) that by (auto simp: filter_id_conv r_t_compare_0)
  then show ?case by (simp add: shared_def twins_def)
next
  case (Cons x xs)
  show ?case
  proof (cases "r_t_compare (last run) x = 0")
    case True
    have "\<forall>p \<in> set (run @ [x]). r_t_compare p (last (run @ [x])) = 0"
      using Cons.prems(2) True by (auto simp: r_t_compare_0)
    then show ?thesis using Cons.IH [of "run @ [x]"] Cons.prems(3) True by simp
  next
    case False
    have sorted: "ray_order.sorted_keys (x # xs)"
      and le: "\<And>p q. p \<in> set run \<Longrightarrow> q \<in> set (x # xs) \<Longrightarrow> r_t_compare p q \<le> 0"
      using Cons.prems(3) by (auto simp: ray_order.sorted_keys_def sorted_wrt_append)
    have apart: "r_t_compare p q \<noteq> 0" if "p \<in> set run" "q \<in> set (x # xs)" for p q
    proof -
      have "r_t_compare x q \<le> 0" using sorted that(2) by (auto simp: ray_order.sorted_keys_def r_t_compare_le)
      moreover have "r_t_compare p x \<le> 0" using le that(1) by simp
      moreover have "r_t_compare p x \<noteq> 0" using Cons.prems(2) that(1) False by (auto simp: r_t_compare_0)
      ultimately show ?thesis by (auto simp: r_t_compare_le r_t_compare_0)
    qed
    have "filter (\<lambda>q. r_t_compare p q = 0) (run @ x # xs) = run" if "p \<in> set run" for p
    proof -
      have "filter (\<lambda>q. r_t_compare p q = 0) run = run"
        using Cons.prems(2) that by (auto simp: filter_id_conv r_t_compare_0)
      moreover have "filter (\<lambda>q. r_t_compare p q = 0) (x # xs) = []"
        using apart that by (auto simp: filter_empty_conv)
      ultimately show ?thesis by simp
    qed
    then have left: "map (scale_Nph (db (1 / real (length run)))) run = map (shared (run @ x # xs)) run"
      by (simp add: shared_def twins_def)
    have "filter (\<lambda>q. r_t_compare p q = 0) run = []" if "p \<in> set (x # xs)" for p
      using apart that by (auto simp: filter_empty_conv ray_order.zero_sym [of p])
    then have "map (shared (x # xs)) (x # xs) = map (shared (run @ x # xs)) (x # xs)"
      by (intro map_cong) (simp_all add: shared_def twins_def del: filter.simps)
    then show ?thesis using Cons.IH [of "[x]"] sorted left False by simp
  qed
qed

lemma share_photons_shared:
  assumes "ray_order.sorted_keys rs"
  shows "share_photons rs = map (shared rs) rs"
proof (cases rs)
  case (Cons x xs)
  have "share_photons rs = share_loop [1..<Suc (1 + length xs)] 1 rs"
    by (simp add: share_photons_def Cons upt_conv_Cons del: upt_Suc)
  also have "\<dots> = share_runs [x] xs" using share_loop_runs [of "[x]" "[]" xs] by (simp add: Cons)
  also have "\<dots> = map (shared rs) rs" using share_runs_shared [of "[x]" xs] assms by (simp add: Cons)
  finally show ?thesis .
qed (simp add: share_photons_def)

section \<open>What \<open>emit_rays\<close> yields\<close>

lemma doubled_ge: "0 < cap \<Longrightarrow> n \<le> doubled cap n"
proof (induction cap n rule: doubled.induct)
  case (1 cap n)
  then show ?case by (subst doubled.simps) auto
qed

lemma doubled_mono: "cap \<le> doubled cap n"
proof (induction cap n rule: doubled.induct)
  case (1 cap n)
  then show ?case by (subst doubled.simps) auto
qed

lemma length_ensure0: "n \<le> length (ensure0 n blk) \<and> length blk \<le> length (ensure0 n blk)"
  using doubled_ge [of "if blk = [] then 128 else length blk" n]
    doubled_mono [of "if blk = [] then 128 else length blk" n]
  by (auto simp: ensure0_def Let_def)

lemma nth_ensure0: "k < length blk \<Longrightarrow> ensure0 n blk ! k = blk ! k"
  by (simp add: ensure0_def Let_def nth_append)

lemma source_rays_result:
  "source_rays r ws n i blk g = Inr (blk', g') \<Longrightarrow> i \<le> length blk \<Longrightarrow>
   length blk' = length blk \<and> i + n \<le> length blk \<and> (\<forall>k < length blk. k < i \<longrightarrow> blk' ! k = blk ! k)
   \<and> (\<forall>k. i \<le> k \<and> k < i + n \<longrightarrow> r_type (blk' ! k) = -1)"
proof (induction n arbitrary: i blk g)
  case (Suc n)
  from Suc.prems(1) obtain isrc g1 where i: "i < length blk"
    and rest: "source_rays r ws n (Suc i) (blk[i := set_ray (-1) isrc (blk ! i)]) g1 = Inr (blk', g')"
    by (auto simp: rbind_Inr_iff split: if_splits)
  have IH: "length blk' = length blk" "Suc i + n \<le> length blk"
    "\<And>k. k < length blk \<Longrightarrow> k < Suc i \<Longrightarrow> blk' ! k = blk[i := set_ray (-1) isrc (blk ! i)] ! k"
    "\<And>k. Suc i \<le> k \<Longrightarrow> k < Suc i + n \<Longrightarrow> r_type (blk' ! k) = -1"
    using Suc.IH [OF rest] i by auto
  have "r_type (blk' ! i) = -1" using IH(3) [of i] i by (simp add: set_ray_def)
  moreover have "r_type (blk' ! k) = -1" if "i < k" "k < i + Suc n" for k using IH i that by auto
  ultimately show ?case using IH i by (auto simp: le_less)
qed simp

definition chosen :: "nat \<Rightarrow> ray list \<times> nat \<Rightarrow> bool" where
  "chosen nray = (\<lambda>(blk, n). nray \<le> n \<and> n \<le> length blk \<and> (\<forall>k < nray. r_type (blk ! k) = -1)
     \<and> (\<forall>k. nray \<le> k \<and> k < n \<longrightarrow> r_type (blk ! k) \<noteq> -1))"

lemma chosen_append_ray:
  assumes "chosen nray rs" and "0 \<le> ty"
  shows "chosen nray (append_ray ty i rs)"
proof (cases rs)
  case (Pair blk n)
  then show ?thesis
    using assms length_ensure0 [of "n + 1" blk]
    by (auto simp: chosen_def append_ray_def Let_def set_ray_def nth_list_update nth_ensure0 less_Suc_eq)
qed

lemma chosen_rec_draws:
  "rec_draws r ws act sp n rs g = Inr (rs', g') \<Longrightarrow> 0 \<le> sp \<Longrightarrow> chosen nray rs \<Longrightarrow> chosen nray rs'"
proof (induction n arbitrary: rs g)
  case (Suc n)
  from Suc.prems(1) obtain ix g1 where "rec_draws r ws act sp n (append_ray sp (act ! ix) rs) g1 = Inr (rs', g')"
    by (auto simp: rbind_Inr_iff split: if_splits)
  then show ?case using Suc.IH Suc.prems(2) chosen_append_ray [OF Suc.prems(3,2)] by blast
qed simp

lemma chosen_fold_append: "0 \<le> sp \<Longrightarrow> chosen nray rs \<Longrightarrow> chosen nray (fold (append_ray sp) is rs)"
  by (induction "is" arbitrary: rs) (simp_all add: chosen_append_ray)

lemma chosen_all_species:
  "all_species e s act sps rs g = Inr (rs', g') \<Longrightarrow> chosen nray rs \<Longrightarrow> chosen nray rs'"
proof (induction sps arbitrary: rs g)
  case (Cons sp sps)
  from Cons.prems(1) obtain rs1 g1 where one: "species_rays e s act sp rs g = Inr (rs1, g1)"
    and rest: "all_species e s act sps rs1 g1 = Inr (rs', g')"
    by (auto simp: rbind_Inr_iff)
  have "chosen nray rs1"
    using one Cons.prems(2) chosen_rec_draws [of _ _ _ "int sp"] chosen_fold_append [of "int sp"]
    by (fastforce simp: species_rays_def split: if_splits)
  then show ?case using Cons.IH rest by blast
qed simp

lemma chosen_count:
  assumes "chosen nray (blk, n)"
  shows "length (filter (\<lambda>p. r_type p = -1) (take n blk)) = nray"
proof -
  have n: "nray \<le> n" "n \<le> length blk" using assms by (simp_all add: chosen_def)
  have split: "take n blk = take nray blk @ take (n - nray) (drop nray blk)"
    using n(1) take_add [of nray "n - nray" blk] by simp
  have "filter (\<lambda>p. r_type p = -1) (take nray blk) = take nray blk"
    using assms by (auto simp: chosen_def filter_id_conv in_set_conv_nth)
  moreover have "filter (\<lambda>p. r_type p = -1) (take (n - nray) (drop nray blk)) = []"
    using assms by (auto simp: chosen_def filter_empty_conv in_set_conv_nth)
  ultimately show ?thesis unfolding split using n by simp
qed

text \<open>The photons a ray stands for before they are shared.\<close>

definition ray_photons :: "units \<Rightarrow> psystem \<Rightarrow> real list \<Rightarrow> ray \<Rightarrow> real" where
  "ray_photons u s ws p =
     (if r_type p = -1 then ws ! r_ipar p else rec_photons u s (r_type p) (r_ipar p))"

definition filled :: "units \<Rightarrow> psystem \<Rightarrow> real list \<Rightarrow> ray \<Rightarrow> ray \<Rightarrow> bool" where
  "filled u s ws p p' \<longleftrightarrow> r_type p' = r_type p \<and> r_ipar p' = r_ipar p \<and> r_Nph p' = ray_photons u s ws p"

lemma fill_ray_filled:
  assumes "fill_ray e s ws mx p g = Inr (p', g')"
  shows "filled (e_units e) s ws p p'"
proof (cases "r_type p = -1")
  case True
  then show ?thesis
    using assms
    by (auto simp: fill_ray_def fill_source_def filled_def ray_photons_def rbind_Inr_iff Let_def
        point_ray_def plane_ray_def case_prod_beta split: if_splits)
next
  case False
  then show ?thesis
    using assms
    by (auto simp: fill_ray_def fill_rec_def filled_def ray_photons_def rbind_Inr_iff Let_def
        case_prod_beta split: if_splits)
qed

lemma fill_rays_filled:
  "fill_rays (fill_ray e s ws mx) ps g = Inr (ps', g') \<Longrightarrow> list_all2 (filled (e_units e) s ws) ps ps'"
proof (induction ps arbitrary: g ps')
  case (Cons p ps)
  from Cons.prems obtain p1 g1 ps1 where "fill_ray e s ws mx p g = Inr (p1, g1)"
    and "fill_rays (fill_ray e s ws mx) ps g1 = Inr (ps1, g')" and "ps' = p1 # ps1"
    by (auto simp: rbind_Inr_iff)
  then show ?case using Cons.IH fill_ray_filled by fastforce
qed simp

lemma filled_keys:
  "list_all2 (filled u s ws) ps ps' \<Longrightarrow>
   map (\<lambda>p. (r_type p, r_ipar p)) ps' = map (\<lambda>p. (r_type p, r_ipar p)) ps"
  by (induction rule: list_all2_induct) (auto simp: filled_def)

lemma sorted_same_keys:
  assumes "map (\<lambda>p. (r_type p, r_ipar p)) ps' = map (\<lambda>p. (r_type p, r_ipar p)) ps"
    and "ray_order.sorted_keys ps"
  shows "ray_order.sorted_keys ps'"
proof -
  have sorted: "ray_order.sorted_keys xs \<longleftrightarrow>
      sorted_wrt (\<lambda>a b. fst a < fst b \<or> (fst a = fst b \<and> snd a \<le> snd b)) (map (\<lambda>p. (r_type p, r_ipar p)) xs)" for xs
    by (simp add: ray_order.sorted_keys_def sorted_wrt_map r_t_compare_le)
  show ?thesis using assms unfolding sorted by simp
qed

lemma twins_same_keys:
  assumes "map (\<lambda>p. (r_type p, r_ipar p)) ps' = map (\<lambda>p. (r_type p, r_ipar p)) ps"
  shows "twins p ps' = twins p ps"
proof -
  have tw: "twins p xs = length (filter (\<lambda>k. k = (r_type p, r_ipar p)) (map (\<lambda>p. (r_type p, r_ipar p)) xs))" for xs
    unfolding twins_def by (induction xs) (auto simp: r_t_compare_0)
  show ?thesis by (simp only: tw assms)
qed

definition pools_ok :: "psystem \<Rightarrow> bool" where
  "pools_ok s \<longleftrightarrow> (\<forall>y \<in> set (psys_yGrecHII s) \<union> set (psys_yGrecHeII s) \<union> set (psys_yGrecHeIII s). 0 \<le> y)"

lemma purge_pools:
  assumes "purge u ty ipar n s = Inr s'" and "pools_ok s"
  shows "pools_ok s'"
proof -
  obtain dy where dy: "fdiv db n (rec_atoms u s ty ipar) = Inr dy"
    using assms(1) by (auto simp: purge_def rbind_Inr_iff)
  define x where "x = fl (db (psys_yGrec s (nat ty) ! ipar - dy))"
  define y where "y = (if x < 0 then 0 else x)"
  have y: "0 \<le> y" "s' = set_yGrec ty (\<lambda>ys. ys[ipar := y]) s"
    using assms(1) dy by (auto simp: purge_def Let_def x_def [symmetric] y_def split: if_split_asm)
  show ?thesis
    using assms(2) y unfolding pools_ok_def set_yGrec_def
    by (auto dest!: set_update_subset_insert [THEN subsetD] split: if_splits)
qed

lemma account_pools: "account u ps s st = Inr (s', st') \<Longrightarrow> pools_ok s \<Longrightarrow> pools_ok s'"
proof (induction ps arbitrary: s st)
  case (Cons p ps)
  show ?case
  proof (cases "r_type p = -1")
    case True
    with Cons.prems obtain srcs where "account u ps (s\<lparr>psys_srcs := srcs\<rparr>) (count_src (r_Nph p) st) = Inr (s', st')"
      by (auto split: if_splits)
    then show ?thesis using Cons.IH Cons.prems(2) by (auto simp: pools_ok_def)
  next
    case False
    with Cons.prems(1) obtain s1 where "purge u (r_type p) (r_ipar p) (r_Nph p) s = Inr s1"
      "account u ps s1 (count_rec (r_type p) (r_Nph p) st) = Inr (s', st')"
      by (auto simp: rbind_Inr_iff split: if_splits)
    then show ?thesis using Cons.IH purge_pools Cons.prems(2) by blast
  qed
qed simp

lemma choose_rays_chosen:
  assumes "choose_rays e l s ws = Inr (rs, g)"
  shows "chosen (ep_nray (psys_epoch s)) rs"
proof -
  let ?nray = "ep_nray (psys_epoch s)"
  obtain x where
      src: "source_rays (e_rng e) ws ?nray 0
        (ensure0 (unat (of_nat ?nray + rec_count (e_config e) (psys_epoch s))) (l_block l)) (l_rng l) = Inr (fst x, snd x)"
    and rec: "(if rec_count (e_config e) (psys_epoch s) \<noteq> 0 \<and> 1 < psys_tick s
        then all_species e s (take (l_x_src_length l) (l_active_set l))
          [0..<if cfg_h_only (e_config e) then 1 else 3] (fst x, ?nray) (snd x)
        else Inr ((fst x, ?nray), snd x)) = Inr (rs, g)"
    using assms unfolding choose_rays_def Let_def rbind_Inr_iff case_prod_beta by (elim exE conjE) simp
  have "chosen ?nray (fst x, ?nray)"
    using source_rays_result [OF src] by (auto simp: chosen_def)
  then show ?thesis
    using rec chosen_all_species [of e s] by (cases "rec_count (e_config e) (psys_epoch s) \<noteq> 0 \<and> 1 < psys_tick s") auto
qed

lemma emit_rays_result:
  assumes "emit_rays e l = Inr l'"
  obtains ws s blk n ps where "psystem_weight_srcs db (l_psys l) = Inr (ws, s)"
    and "chosen (ep_nray (psys_epoch s)) (blk, n)"
    and "list_all2 (filled (e_units e) s ws) (qsort r_t_compare (take n blk)) ps"
    and "l_rays l' = map (shared ps) ps" and "ray_order.sorted_keys ps"
    and "pools_ok s \<longrightarrow> pools_ok (l_psys l')"
proof -
  from assms obtain ws s where ws: "psystem_weight_srcs db (l_psys l) = Inr (ws, s)"
    by (auto simp: emit_rays_def rbind_Inr_iff)
  let ?mx = "db (db (psys_boxsize s * 2) * db (1 / 10))"
  from assms ws obtain blk n g2 ps g3 s' st where
      choose: "choose_rays e l s ws = Inr ((blk, n), g2)"
    and fill: "fill_rays (fill_ray e s ws ?mx) (qsort r_t_compare (take n blk)) g2 = Inr (ps, g3)"
    and acc: "account (e_units e) (share_photons ps) s (l_stat l) = Inr (s', st)"
    and l': "l' = l\<lparr>l_psys := s', l_block := share_photons ps @ drop n blk, l_r_length := n, l_stat := st,
                    l_rng := g3\<rparr>"
    unfolding emit_rays_def Let_def by (auto simp: rbind_Inr_iff split: if_split_asm)
  have ch: "chosen (ep_nray (psys_epoch s)) (blk, n)" using choose_rays_chosen [OF choose] .
  have lp: "list_all2 (filled (e_units e) s ws) (qsort r_t_compare (take n blk)) ps"
    using fill by (rule fill_rays_filled)
  have len: "length ps = n"
    using list_all2_lengthD [OF lp] ch by (simp add: chosen_def)
  have sorted: "ray_order.sorted_keys ps"
    using sorted_same_keys [OF filled_keys [OF lp] ray_order.sorted_qsort] .
  then have "l_rays l' = map (shared ps) ps"
    using len by (simp add: l_rays_def l' share_photons_shared)
  moreover have "pools_ok s \<longrightarrow> pools_ok (l_psys l')" using account_pools [OF acc] by (simp add: l')
  ultimately show ?thesis using that ws ch lp sorted by blast
qed

lemma share_sum:
  assumes "\<forall>q \<in> set rs. r_t_compare p q = 0 \<longrightarrow> r_Nph q = db (w * db (1 / real (twins p rs)))"
    and "p \<in> set rs"
  shows "\<bar>(\<Sum>q\<leftarrow>filter (\<lambda>q. r_t_compare p q = 0) rs. r_Nph q) - w\<bar> \<le> \<bar>w\<bar> / 2 ^ 51"
proof -
  define n where "n = twins p rs"
  have n: "0 < n"
    using assms(2) by (auto simp: n_def twins_def filter_empty_conv r_t_compare_0 intro!: bexI [of _ p])
  define a where "a = db (1 / real n)"
  have "map r_Nph (filter (\<lambda>q. r_t_compare p q = 0) rs) = replicate n (db (w * a))"
    using assms(1) by (auto simp: n_def a_def twins_def map_replicate_const [symmetric])
  then have sum: "(\<Sum>q\<leftarrow>filter (\<lambda>q. r_t_compare p q = 0) rs. r_Nph q) = real n * db (w * a)"
    by (simp add: sum_list_replicate)
  have e1: "\<bar>real n * a - 1\<bar> \<le> 1 / 2 ^ 53"
  proof -
    have "real n * a - 1 = real n * (a - 1 / real n)" using n by (simp add: field_simps)
    also have "\<bar>\<dots>\<bar> \<le> real n * (\<bar>1 / real n\<bar> / 2 ^ 53)"
      unfolding a_def abs_mult using db_error [of "1 / real n"] by (intro mult_mono) auto
    finally show ?thesis using n by simp
  qed
  have "\<bar>real n * db (w * a) - w\<bar> \<le> \<bar>real n * db (w * a) - real n * (w * a)\<bar> + \<bar>real n * (w * a) - w\<bar>" by simp
  also have "\<bar>real n * db (w * a) - real n * (w * a)\<bar> \<le> real n * (\<bar>w * a\<bar> / 2 ^ 53)"
    unfolding right_diff_distrib [symmetric] abs_mult using db_error [of "w * a"] by (intro mult_mono) (auto simp: abs_mult)
  also have "\<bar>real n * (w * a) - w\<bar> = \<bar>w\<bar> * \<bar>real n * a - 1\<bar>"
    by (simp add: abs_mult [symmetric] algebra_simps)
  also have "real n * (\<bar>w * a\<bar> / 2 ^ 53) + \<bar>w\<bar> * \<bar>real n * a - 1\<bar> \<le> \<bar>w\<bar> * (2 / 2 ^ 53) + \<bar>w\<bar> * (1 / 2 ^ 53)"
  proof (intro add_mono mult_left_mono)
    have "(1 :: real) / 2 ^ 53 \<le> 1" by simp
    then have "\<bar>real n * a\<bar> \<le> 2" using e1 by linarith
    then have "\<bar>w\<bar> * \<bar>real n * a\<bar> \<le> \<bar>w\<bar> * 2" by (intro mult_left_mono) auto
    then show "real n * (\<bar>w * a\<bar> / 2 ^ 53) \<le> \<bar>w\<bar> * (2 / 2 ^ 53)" by (simp add: abs_mult field_simps)
  qed (use e1 in auto)
  also have "\<dots> \<le> \<bar>w\<bar> / 2 ^ 51" by (simp add: field_simps)
  finally show ?thesis by (simp add: sum)
qed

text \<open>
  C27. When \<open>emit_rays\<close> succeeds, the rays in use are sorted by kind and origin, exactly \<open>nray\<close> of them
  come from sources, every ray carries the photons of its source (the weight of the tick) or of
  its recombination pool divided by the number of rays with the same origin, the rays of one
  origin together carry these photons up to rounding, and no recombination pool that was not
  negative becomes negative.
\<close>

theorem emit_rays_shares_photons:
  assumes "emit_rays e l = Inr l'" and "pools_ok (l_psys l)"
  shows "\<exists>ws s. psystem_weight_srcs db (l_psys l) = Inr (ws, s)
    \<and> ray_order.sorted_keys (l_rays l')
    \<and> length (filter (\<lambda>p. r_type p = -1) (l_rays l')) = ep_nray (psys_epoch s)
    \<and> (\<forall>p \<in> set (l_rays l').
          r_Nph p = db (ray_photons (e_units e) s ws p * db (1 / real (twins p (l_rays l'))))
        \<and> \<bar>(\<Sum>q\<leftarrow>filter (\<lambda>q. r_t_compare p q = 0) (l_rays l'). r_Nph q) - ray_photons (e_units e) s ws p\<bar>
            \<le> \<bar>ray_photons (e_units e) s ws p\<bar> / 2 ^ 51)
    \<and> pools_ok (l_psys l')"
proof -
  obtain ws s blk n ps where ws: "psystem_weight_srcs db (l_psys l) = Inr (ws, s)"
    and ch: "chosen (ep_nray (psys_epoch s)) (blk, n)"
    and lp: "list_all2 (filled (e_units e) s ws) (qsort r_t_compare (take n blk)) ps"
    and rays: "l_rays l' = map (shared ps) ps" and sorted: "ray_order.sorted_keys ps"
    and pools: "pools_ok s \<longrightarrow> pools_ok (l_psys l')"
    using emit_rays_result [OF assms(1)] by metis
  let ?key = "\<lambda>p. (r_type p, r_ipar p)"
  have keys: "map ?key (l_rays l') = map ?key ps" by (simp add: rays shared_def scale_Nph_def)
  have "pools_ok s" using ws assms(2) by (auto simp: psystem_weight_srcs_def rbind_Inr_iff Let_def pools_ok_def split: if_splits)
  then have pools': "pools_ok (l_psys l')" using pools by blast
  have count: "length (filter (\<lambda>p. r_type p = -1) (l_rays l')) = ep_nray (psys_epoch s)"
  proof -
    have by_key: "length (filter (\<lambda>p. r_type p = -1) xs) = length (filter (\<lambda>k. fst k = -1) (map ?key xs))" for xs
      by (induction xs) auto
    have "length (filter (\<lambda>p. r_type p = -1) (l_rays l'))
        = length (filter (\<lambda>p. r_type p = -1) (qsort r_t_compare (take n blk)))"
      unfolding by_key keys filled_keys [OF lp] ..
    also have "\<dots> = size (filter_mset (\<lambda>p. r_type p = -1) (mset (qsort r_t_compare (take n blk))))"
      by (metis mset_filter size_mset)
    also have "\<dots> = length (filter (\<lambda>p. r_type p = -1) (take n blk))"
      unfolding ray_order.mset_qsort by (metis mset_filter size_mset)
    finally show ?thesis using chosen_count [OF ch] by simp
  qed
  have Nph: "r_Nph p = db (ray_photons (e_units e) s ws p * db (1 / real (twins p (l_rays l'))))"
    if p: "p \<in> set (l_rays l')" for p
  proof -
    obtain q where q: "q \<in> set ps" "p = shared ps q" using p by (auto simp: rays)
    then obtain q0 where "filled (e_units e) s ws q0 q"
      using lp by (metis in_set_conv_nth list_all2_conv_all_nth)
    then have "r_Nph q = ray_photons (e_units e) s ws q" by (simp add: filled_def ray_photons_def)
    moreover have "twins p (l_rays l') = twins q ps"
      using twins_same_keys [OF keys, of p] q(2)
      by (simp add: twins_def shared_def scale_Nph_def r_t_compare_0)
    ultimately show ?thesis using q(2) by (simp add: shared_def scale_Nph_def ray_photons_def)
  qed
  have "\<bar>(\<Sum>q\<leftarrow>filter (\<lambda>q. r_t_compare p q = 0) (l_rays l'). r_Nph q) - ray_photons (e_units e) s ws p\<bar>
      \<le> \<bar>ray_photons (e_units e) s ws p\<bar> / 2 ^ 51" if p: "p \<in> set (l_rays l')" for p
  proof (rule share_sum [OF _ p], intro ballI impI)
    fix q assume "q \<in> set (l_rays l')" and same: "r_t_compare p q = 0"
    moreover have "twins q (l_rays l') = twins p (l_rays l')" "ray_photons (e_units e) s ws q = ray_photons (e_units e) s ws p"
      using same by (simp_all add: twins_def ray_photons_def r_t_compare_0)
    ultimately show "r_Nph q = db (ray_photons (e_units e) s ws p * db (1 / real (twins p (l_rays l'))))"
      using Nph by simp
  qed
  then show ?thesis
    using ws sorted_same_keys [OF keys sorted] count Nph pools' by blast
qed

section \<open>The active set\<close>

lemma bitmask_cleared:
  assumes "bm_inv m"
  shows "bm_inv (bitmask_clear_all m)" and "bm_bits (bitmask_clear_all m) = bm_bits m"
    and "bm_set (bitmask_clear_all m) = {}"
proof -
  show "bm_inv (bitmask_clear_all m)" "bm_bits (bitmask_clear_all m) = bm_bits m"
    using assms by (simp_all add: bm_inv_def bitmask_clear_all_def)
  show "bm_set (bitmask_clear_all m) = {}"
    using block_at_shuffle(2) [OF assms]
    by (auto simp: bm_set_def bm_test_def bitmask_clear_all_def)
qed

lemma merge_rays_result:
  "bm_inv m \<Longrightarrow> set (concat (map ray_pars ps)) \<subseteq> {..<bm_bits m} \<Longrightarrow>
   \<exists>m' x'. merge_rays nray i ps acc x m = Inr (acc @ firsts (bm_set m) (concat (map ray_pars ps)), x', m')
     \<and> bm_inv m' \<and> bm_bits m' = bm_bits m \<and> bm_set m' = bm_set m - set (concat (map ray_pars ps))
     \<and> x' = (if ps = [] \<or> nray < i then x
             else length acc + length (firsts (bm_set m) (concat (map ray_pars (take (Suc nray - i) ps)))))"
proof (induction ps arbitrary: i acc x m)
  case (Cons p ps)
  let ?f = "firsts (bm_set m) (ray_pars p)"
  obtain m1 where m1: "collect_marked bitmask_test bitmask_clear_unsafe (ray_pars p) acc m = Inr (acc @ ?f, m1)"
      "bm_inv m1" "bm_bits m1 = bm_bits m" "bm_set m1 = bm_set m - set (ray_pars p)"
    using bm.collect_marked_firsts [OF Cons.prems(1), of "ray_pars p" acc] Cons.prems(2)
    by (auto simp: bitmask_variants)
  obtain m2 x2 where m2: "merge_rays nray (i + 1) ps (acc @ ?f) (if i \<le> nray then length (acc @ ?f) else x) m1
        = Inr ((acc @ ?f) @ firsts (bm_set m1) (concat (map ray_pars ps)), x2, m2)"
      "bm_inv m2" "bm_bits m2 = bm_bits m1" "bm_set m2 = bm_set m1 - set (concat (map ray_pars ps))"
    and x2: "x2 = (if ps = [] \<or> nray < i + 1 then (if i \<le> nray then length (acc @ ?f) else x)
       else length (acc @ ?f) + length (firsts (bm_set m1) (concat (map ray_pars (take (Suc nray - (i + 1)) ps)))))"
    using Cons.IH [OF m1(2), where i = "i + 1" and acc = "acc @ ?f" and x = "if i \<le> nray then length (acc @ ?f) else x"]
      Cons.prems(2) m1(3) by auto
  have "x2 = (if nray < i then x
      else length acc + length (firsts (bm_set m) (concat (map ray_pars (take (Suc nray - i) (p # ps))))))"
  proof (cases "nray < i")
    case False
    then have "take (Suc nray - i) (p # ps) = p # take (Suc nray - (i + 1)) ps" by (simp add: Suc_diff_le)
    then show ?thesis using False x2 m1(4) by (auto simp: firsts_append)
  qed (simp add: x2)
  then show ?case
    using m1 m2 by (auto simp: firsts_append)
qed simp

definition met :: "ray list \<Rightarrow> nat set" where
  "met rs = (\<Union>p \<in> set rs. x_ipar ` set (r_x p))"

text \<open>
  C28. \<open>merge_pars\<close> never leaves the bit mask: when the mask is clear and covers the particles the rays
  met, it returns the particles that at least one ray met, each once, and leaves the mask clear for
  the next tick. The first \<open>x_src_length\<close> of them are the particles met by the first \<open>nray + 1\<close> rays
  (one more than the \<open>nray\<close> rays from sources).
\<close>

theorem merge_pars_active_set:
  assumes inv: "bm_inv (l_active l)" and clear: "bm_set (l_active l) = {}"
    and range: "\<And>p x. p \<in> set (l_rays l) \<Longrightarrow> x \<in> set (r_x p) \<Longrightarrow> x_ipar x < unat (bm_bits (l_active l))"
  shows "\<exists>l'. merge_pars l = Inr l' \<and> distinct (l_active_set l') \<and> set (l_active_set l') = met (l_rays l)
    \<and> bm_inv (l_active l') \<and> bm_bits (l_active l') = bm_bits (l_active l) \<and> bm_set (l_active l') = {}
    \<and> l_psys l' = l_psys l \<and> l_rays l' = l_rays l
    \<and> (l_rays l \<noteq> [] \<longrightarrow> set (take (l_x_src_length l') (l_active_set l'))
         = met (take (ep_nray (psys_epoch (l_psys l)) + 1) (l_rays l)))"
proof -
  let ?rs = "l_rays l" and ?nray = "ep_nray (psys_epoch (l_psys l))"
  let ?pars = "\<lambda>rs. concat (map ray_pars rs)"
  have small: "unat (of_nat (x_ipar x) :: 64 word) = x_ipar x \<and> (of_nat (x_ipar x) :: 64 word) < bm_bits (l_active l)"
    if "p \<in> set ?rs" "x \<in> set (r_x p)" for p x
  proof -
    have "x_ipar x < 2 ^ 64"
      using range [OF that] unsigned_less [of "bm_bits (l_active l)", where ?'a = nat] by simp
    then show ?thesis using range [OF that] by (simp add: word_less_nat_alt unat_of_nat)
  qed
  have sub: "set (?pars ?rs) \<subseteq> {..<bm_bits (l_active l)}"
    using small by (auto simp: ray_pars_def)
  obtain m where m: "mark_all bitmask_set (?pars ?rs) (l_active l) = Inr m" "bm_inv m"
      "bm_bits m = bm_bits (l_active l)" "bm_set m = set (?pars ?rs)"
    using bm.mark_all_elems [OF inv sub] clear by (auto simp: lessThan_eq_iff)
  obtain m' x where m': "merge_rays ?nray 0 ?rs [] (l_x_src_length l) m
        = Inr (firsts (bm_set m) (?pars ?rs), x, m')"
      "bm_inv m'" "bm_bits m' = bm_bits m" "bm_set m' = bm_set m - set (?pars ?rs)"
    and x: "x = (if ?rs = [] then l_x_src_length l
               else length (firsts (bm_set m) (?pars (take (Suc ?nray) ?rs))))"
    using merge_rays_result [OF m(2), of ?rs ?nray 0 "[]" "l_x_src_length l"] sub m(3) by auto
  let ?acc = "firsts (bm_set m) (?pars ?rs)"
  have unat_pars: "unat ` set (?pars rs) = met rs" if "set rs \<subseteq> set ?rs" for rs
    using that small by (force simp: met_def ray_pars_def image_Union image_image)
  have take: "take x ?acc = firsts (bm_set m) (?pars (take (Suc ?nray) ?rs))" if "?rs \<noteq> []"
  proof -
    have "?pars ?rs = ?pars (take (Suc ?nray) ?rs) @ ?pars (drop (Suc ?nray) ?rs)"
      by (metis append_take_drop_id concat_append map_append)
    then show ?thesis using that x by (simp add: firsts_append)
  qed
  have "set (take x (map unat ?acc)) = met (take (Suc ?nray) ?rs)" if "?rs \<noteq> []"
  proof -
    have "set (?pars (take (Suc ?nray) ?rs)) \<subseteq> set (?pars ?rs)" by (auto dest: in_set_takeD)
    then have "set (take x ?acc) = set (?pars (take (Suc ?nray) ?rs))"
      unfolding take [OF that] set_firsts by (metis inf.absorb2 inf_commute m(4))
    then show ?thesis
      using unat_pars [of "take (Suc ?nray) ?rs"] by (simp add: take_map set_take_subset)
  qed
  moreover have "distinct (map unat ?acc)" by (simp add: distinct_map inj_on_def) (simp add: word_unat_eq_iff)
  moreover have "set (map unat ?acc) = met ?rs" using unat_pars [of ?rs] m(4) by simp
  moreover have "merge_pars l = Inr (l\<lparr>l_active_set := map unat ?acc, l_x_src_length := x, l_active := m'\<rparr>)"
    by (simp add: merge_pars_def m(1) m'(1))
  ultimately show ?thesis
    using m' m by (simp add: l_rays_def)
qed

section \<open>A small run\<close>

definition demo_source :: source where
  "demo_source = \<lparr>src_pos = (1, 1, 1), src_dir = (1, 0, 0), src_lastemit = 0, src_specid = 0,
     src_type = PSYS_SRC_POINT, src_ray_length_hint = 1, src_radius = 0, src_a = (0, 0, 0), src_b = (0, 0, 0),
     src_ticks = [0], src_Ngamma_dots = [8], src_cursor = 0\<rparr>"

definition demo_psys :: psystem where
  "demo_psys = (let s = psys_of [particle_at (1, 1, 1) 0] 16
     in s\<lparr>psys_srcs := [demo_source], psys_tick := 1,
          psys_epoch := (psys_epoch s)\<lparr>ep_nray := 2, ep_packet_size := 4\<rparr>\<rparr>)"

definition demo_env :: "unit env" where
  "demo_env = \<lparr>e_config = config_defaults, e_units = (units_init db config_defaults)\<lparr>u_ev := 1\<rparr>,
     e_specs = [(spec_zero ''mono'')\<lparr>sp_type := 1, sp_eng := [1]\<rparr>], e_ltes = [],
     e_physics = \<lparr>ph_atomic = atomic_start,
       ph_secion = \<lparr>si_tab = tabfun2_zero, SECION_PHI_HI = 0, SECION_PHI_HEI = 0, SECION_EH = 0\<rparr>,
       ph_eos = \<lparr>eos_tab = tabfun_zero, EOS_X = 0, EOS_EGYHOT = 0\<rparr>, ph_kernel = []\<rparr>,
     e_rng = \<lparr>gsl_ran_discrete = (\<lambda>w g. (0, g)), gsl_ran_flat = (\<lambda>a b g. (0, g)),
       gsl_ran_dir_3d = (\<lambda>g. ((1, 0, 0), g))\<rparr>,
     e_conv = (\<lambda>w. 0),
     e_lsoda = (\<lambda>f opt x t tout. rbind (f x) (\<lambda>d. Inr (map2 (\<lambda>y h. db (y + h)) x d, tout, 2)))\<rparr>"

definition demo_loop :: "unit loop" where
  "demo_loop = \<lparr>l_psys = demo_psys, l_block = [], l_r_length = 0, l_active_set = [], l_x_src_length = 0,
     l_active = bitmask_clear_all (bitmask_alloc 1 []), l_stat = stat_zero, l_rng = (),
     l_mxstep = 1000\<rparr>"

lemma demo_weights: "psystem_weight_srcs db demo_psys = Inr ([8], demo_psys)"
  by (simp add: psystem_weight_srcs_def demo_psys_def demo_source_def Let_def weight_src_def
      advance_cursor.simps psys_of_def PSYS_SRC_POINT_def)

lemma demo_rec_count: "rec_count config_defaults (psys_epoch demo_psys) = 0"
  by (simp add: rec_count_def demo_psys_def Let_def psys_of_def)

definition demo_ray :: ray where
  "demo_ray = zero_ray\<lparr>r_type := -1\<rparr>"

lemma demo_block: "ensure0 2 [] = zero_ray # zero_ray # replicate 126 zero_ray"
proof -
  have "doubled 128 2 = 128" by (subst doubled.simps) simp
  then show ?thesis by (simp add: ensure0_def) (simp add: numeral_eq_Suc)
qed

lemma demo_epoch [simp]: "ep_nray (psys_epoch demo_psys) = 2" "ep_packet_size (psys_epoch demo_psys) = 4"
  "psys_tick demo_psys = 1" "psys_boxsize demo_psys = 16" "psys_srcs demo_psys = [demo_source]"
  by (simp_all add: demo_psys_def Let_def psys_of_def)

lemma demo_source_rays:
  "source_rays (e_rng demo_env) [8] 2 0 (zero_ray # zero_ray # blk) () = Inr (demo_ray # demo_ray # blk, ())"
  by (simp add: eval_nat_numeral draw_def demo_env_def demo_ray_def set_ray_def zero_ray_def)

lemma demo_choose:
  "choose_rays demo_env demo_loop demo_psys [8]
     = Inr ((demo_ray # demo_ray # replicate 126 zero_ray, 2), ())"
proof -
  have c: "e_config demo_env = config_defaults" by (simp add: demo_env_def)
  have l: "l_block demo_loop = []" "l_rng demo_loop = ()" by (simp_all add: demo_loop_def)
  have n: "unat (of_nat 2 + 0 :: 64 word) = 2" by simp
  show ?thesis
    unfolding choose_rays_def Let_def c demo_rec_count l demo_epoch n demo_block demo_source_rays
    by simp
qed

definition demo_filled :: ray where
  "demo_filled = demo_ray\<lparr>r_s := (1, 1, 1), r_dir := (1, 0, 0), r_Nph := 8, r_freq := 1, r_length := 32\<rparr>"

lemma demo_fill: "fill_ray demo_env demo_psys [8] m demo_ray () = Inr (demo_filled, ())"
proof -
  have "spec_gen_freq (e_rng demo_env) (e_specs demo_env) 0 () = Inr (1, ())"
    by (simp add: spec_gen_freq_def demo_env_def draw_def spec_zero_def)
  moreover have "gsl_ran_dir_3d (e_rng demo_env) () = ((1, 0, 0), ())" "u_ev (e_units demo_env) = 1"
    by (simp_all add: demo_env_def)
  ultimately show ?thesis
    by (simp add: fill_ray_def fill_source_def demo_filled_def demo_ray_def demo_source_def zero_ray_def
        PSYS_SRC_POINT_def point_ray_def fl3_def Let_def)
qed

lemma demo_account: "\<exists>r. account u [shared ps demo_filled, shared ps demo_filled] demo_psys stat_zero = Inr r"
  by (simp add: shared_def scale_Nph_def demo_filled_def demo_ray_def zero_ray_def demo_source_def)

lemma demo_emits: "\<exists>l'. emit_rays demo_env demo_loop = Inr l'"
proof -
  let ?ps = "[demo_filled, demo_filled]"
  have q: "qsort r_t_compare [demo_ray, demo_ray] = [demo_ray, demo_ray]"
    by (simp add: qsort_def r_t_compare_def three_way_def eval_nat_numeral)
  have s: "share_photons ?ps = map (shared ?ps) ?ps"
    by (rule share_photons_shared) (simp add: ray_order.sorted_keys_def r_t_compare_def three_way_def)
  have n: "ray_estimate (e_conv demo_env) 8 4 = 2"
    by (simp add: ray_estimate_def trunc_def)
  obtain r where "account (e_units demo_env) (share_photons ?ps) demo_psys (l_stat demo_loop) = Inr r"
    unfolding s using demo_account by (force simp: demo_loop_def)
  moreover have "l_psys demo_loop = demo_psys" by (simp add: demo_loop_def)
  ultimately show ?thesis
    using demo_weights
    by (simp add: emit_rays_def Let_def demo_choose n q demo_fill case_prod_beta)
qed

lemma emit_rays_shares_photons_witness:
  "pools_ok (l_psys demo_loop)
   \<and> (\<exists>l'. emit_rays demo_env demo_loop = Inr l' \<and> length (filter (\<lambda>p. r_type p = -1) (l_rays l')) = 2
        \<and> pools_ok (l_psys l'))"
proof -
  obtain l' where l': "emit_rays demo_env demo_loop = Inr l'" using demo_emits by blast
  have pools: "pools_ok (l_psys demo_loop)"
    by (simp add: pools_ok_def demo_loop_def demo_psys_def Let_def psys_of_def particle_at_def)
  have "ep_nray (psys_epoch demo_psys) = 2" by (simp add: demo_psys_def Let_def)
  then show ?thesis
    using emit_rays_shares_photons [OF l' pools] l' pools demo_weights by (auto simp: demo_loop_def)
qed

definition demo_met :: "unit loop" where
  "demo_met = demo_loop\<lparr>l_block := [zero_ray\<lparr>r_x := [\<lparr>x_ipar = 0, x_d = 1, x_b = 0\<rparr>]\<rparr>], l_r_length := 1\<rparr>"

lemma merge_pars_active_set_witness:
  "bm_inv (l_active demo_met) \<and> bm_set (l_active demo_met) = {}
   \<and> (\<exists>l'. merge_pars demo_met = Inr l' \<and> set (l_active_set l') = {0::nat} \<and> bm_set (l_active l') = {})"
proof -
  have m: "bm_inv (bitmask_alloc 1 [])" "bm_bits (bitmask_alloc 1 []) = 1"
    using bitmask_alloc_shape [of 1 "[]"] by simp_all
  have inv: "bm_inv (l_active demo_met)" "bm_set (l_active demo_met) = {}" "bm_bits (l_active demo_met) = 1"
    using bitmask_cleared [OF m(1)] m(2) by (simp_all add: demo_met_def demo_loop_def)
  have rays: "l_rays demo_met = [zero_ray\<lparr>r_x := [\<lparr>x_ipar = 0, x_d = 1, x_b = 0\<rparr>]\<rparr>]"
    by (simp add: l_rays_def demo_met_def)
  show ?thesis
    using merge_pars_active_set [OF inv(1,2)] inv by (auto simp: rays met_def)
qed

end
