(* ===== verification/Photon_Deposit.thy ===== *)
theory Photon_Deposit imports Ray_Emission begin

text \<open>
  The deposition of photons: \<open>deposit\<close> of \<open>src/src/loop.c\<close>. Along a ray, each intersection takes
  from the remaining photons (\<open>TM\<close>) what the column of its particle absorbs and adds it to the
  pools \<open>yGdep*\<close> and the heat of the particle, until the ray is exhausted.

  The constants of a ray (cross sections, energies above the thresholds) are a record \<open>beam\<close>,
  those of an intersection a record \<open>column\<close>. The reduction variables of the parallel loop are a
  record \<open>tally\<close>, added to \<open>stat\<close> after the loop; the rays are taken in the order of the array.
  The three expression statements that begin with \<open>+\<close> (lines 531, 541 and 548) have no effect and
  are not part of the model. The records of hits written to a file and the timers are left out.
\<close>

section \<open>The constants of a ray\<close>

record beam =
  be_sigmaHI :: real
  be_sigmaHeI :: real
  be_sigmaHeII :: real
  be_dEHI :: real
  be_dEHeI :: real
  be_dEHeII :: real
  be_heatHI :: real
  be_heatHeI :: real
  be_heatHeII :: real

definition beam_of :: "'g env \<Rightarrow> real \<Rightarrow> beam res" where
  "beam_of e freq =
     (let a = ph_atomic (e_physics e); u = e_units e;
          dEHI = fdim db freq (c_hi_energy u); dEHeI = fdim db freq (c_hei_energy u);
          dEHeII = fdim db freq (c_heii_energy u)
      in rbind (xs_get a (XS_HI a) freq) (\<lambda>sHI.
         rbind (xs_get a (XS_HEI a) freq) (\<lambda>sHeI.
         rbind (xs_get a (XS_HEII a) freq) (\<lambda>sHeII.
           Inr \<lparr>be_sigmaHI = sHI, be_sigmaHeI = sHeI, be_sigmaHeII = sHeII,
                be_dEHI = dEHI, be_dEHeI = dEHeI, be_dEHeII = dEHeII,
                be_heatHI = db (c_h_per_mass u * dEHI), be_heatHeI = db (c_he_per_mass u * dEHeI),
                be_heatHeII = db (c_he_per_mass u * dEHeII)\<rparr>))))"

text \<open>\<open>scaling_fac\<close>, and the inverses of its square and cube.\<close>

definition scaling_fac :: "config \<Rightarrow> psystem \<Rightarrow> real res" where
  "scaling_fac c s =
     (if cfg_comoving c then fdiv db 1 (db (ep_redshift (psys_epoch s) + 1)) else Inr 1)"

definition scaling_fac2_inv :: "real \<Rightarrow> real res" where
  "scaling_fac2_inv f = fdiv db 1 (db (f * f))"

definition scaling_fac3_inv :: "real \<Rightarrow> real res" where
  "scaling_fac3_inv f = fdiv db 1 (db (db (f * f) * f))"

section \<open>The column of an intersection\<close>

record column =
  co_NH :: real
  co_NHe :: real
  co_NHI :: real
  co_NHeI :: real
  co_NHeII :: real
  co_tauHI :: real
  co_tauHeI :: real
  co_tauHeII :: real
  co_tausum :: real

text \<open>The multiphase model removes the cold clouds from the gas.\<close>

definition thin :: "'g env \<Rightarrow> real \<Rightarrow> real \<Rightarrow> real res" where
  "thin e rho N =
     (if cfg_enable_eos (e_config e) then
        rbind (eos_get_cloud_fraction (ph_eos (e_physics e)) rho) (\<lambda>x. Inr (db (N * db (1 - x))))
      else Inr N)"

definition helium :: "config \<Rightarrow> real \<Rightarrow> bool" where
  "helium c NHe \<longleftrightarrow> \<not> cfg_h_only c \<and> NHe \<noteq> 0"

definition depths :: "config \<Rightarrow> beam \<Rightarrow> real \<Rightarrow> real \<Rightarrow> real \<Rightarrow> real \<Rightarrow> real \<Rightarrow> real \<Rightarrow> column" where
  "depths c be kern NH NHe xHI xHeI xHeII =
     (let NHI = db (xHI * NH); NHeI = db (xHeI * NHe); NHeII = db (xHeII * NHe);
          tauHI = db (be_sigmaHI be * db (kern * NHI));
          tauHeI = (if helium c NHe then db (be_sigmaHeI be * db (kern * NHeI)) else 0);
          tauHeII = (if helium c NHe then db (be_sigmaHeII be * db (kern * NHeII)) else 0);
          tausum = (if helium c NHe then db (db (db (0 + tauHI) + tauHeI) + tauHeII) else db (0 + tauHI))
      in \<lparr>co_NH = NH, co_NHe = NHe, co_NHI = NHI, co_NHeI = NHeI, co_NHeII = NHeII,
          co_tauHI = tauHI, co_tauHeI = tauHeI, co_tauHeII = tauHeII, co_tausum = tausum\<rparr>)"

definition column_of :: "'g env \<Rightarrow> psystem \<Rightarrow> real \<Rightarrow> real \<Rightarrow> beam \<Rightarrow> xtype \<Rightarrow> column res" where
  "column_of e s fac2 fac3 be x =
     (let k = x_ipar x; u = e_units e; rho = db (psys_rho s ! k * fac3)
      in rbind (fdiv db 1 (psys_sml s ! k)) (\<lambda>sml_inv.
         rbind (thin e rho (psys_NH u s k)) (\<lambda>NH.
         rbind (thin e rho (psys_NHe u s k)) (\<lambda>NHe.
           let kern = db (db (sph_depth (ph_kernel (e_physics e)) (db (x_b x * sml_inv))
                          * db (sml_inv * sml_inv)) * fac2)
           in Inr (depths (e_config e) be kern NH NHe (psys_xHI s k) (psys_xHeI s k) (psys_xHeII s k))))))"

section \<open>Absorption\<close>

text \<open>The photons one species absorbs, at most one per atom, and whether the cut was applied.\<close>

definition absorb_one :: "real \<Rightarrow> real \<Rightarrow> real \<Rightarrow> real \<Rightarrow> real \<times> nat" where
  "absorb_one tau tausum absorb_est N =
     (let a = db (db (tau / tausum) * absorb_est) in if N < a then (N, 1) else (a, 0))"

record absorbed =
  ab_HI :: real
  ab_HeI :: real
  ab_HeII :: real
  ab_total :: real
  ab_saturated :: nat

definition absorb_step :: "config \<Rightarrow> column \<Rightarrow> real \<Rightarrow> absorbed" where
  "absorb_step c co TM =
     (let absorb_est = db (- TM * db (exp (- co_tausum co) - 1));
          (aHI, n) = absorb_one (co_tauHI co) (co_tausum co) absorb_est (co_NHI co);
          (aHeI, n1) = absorb_one (co_tauHeI co) (co_tausum co) absorb_est (co_NHeI co);
          (aHeII, n2) = absorb_one (co_tauHeII co) (co_tausum co) absorb_est (co_NHeII co)
      in if helium c (co_NHe co) then
           \<lparr>ab_HI = aHI, ab_HeI = aHeI, ab_HeII = aHeII, ab_total = db (aHI + db (aHeI + aHeII)),
            ab_saturated = n + n1 + n2\<rparr>
         else \<lparr>ab_HI = aHI, ab_HeI = 0, ab_HeII = 0, ab_total = aHI, ab_saturated = n\<rparr>)"

section \<open>What an intersection changes\<close>

record tally =
  d_first_HI :: real
  d_first_HeI :: real
  d_first_HeII :: real
  d_secondary_HI :: real
  d_secondary_HeI :: real
  d_saturated :: nat
  d_total :: nat

definition tally_zero :: tally where
  "tally_zero = \<lparr>d_first_HI = 0, d_first_HeI = 0, d_first_HeII = 0, d_secondary_HI = 0,
     d_secondary_HeI = 0, d_saturated = 0, d_total = 0\<rparr>"

text \<open>\<open>PSYS(field, ipar) += v\<close> on an array of \<open>float\<close>.\<close>

definition add_at :: "nat \<Rightarrow> real \<Rightarrow> real list \<Rightarrow> real list" where
  "add_at k v ys = ys[k := fl (db (ys ! k + v))]"

text \<open>The share of the energy of fast electrons: into ionizations of one species, or into heat.\<close>

definition secion_share :: "'g env \<Rightarrow> int \<Rightarrow> real \<Rightarrow> real \<Rightarrow> real \<Rightarrow> real \<Rightarrow> real res" where
  "secion_share e col energy delta dE log10x =
     rbind (fdiv db (db (delta * dE)) energy) (\<lambda>n.
     rbind (secion_get (ph_secion (e_physics e)) col dE log10x) (\<lambda>phi. Inr (db (n * phi))))"

definition deposit_secondary :: "'g env \<Rightarrow> beam \<Rightarrow> column \<Rightarrow> nat \<Rightarrow> real \<Rightarrow> real \<Rightarrow> real \<Rightarrow> real
    \<Rightarrow> psystem \<Rightarrow> tally \<Rightarrow> (psystem \<times> tally) res" where
  "deposit_secondary e be co k x dHI dHeI dHeII s t =
     (let si = ph_secion (e_physics e); u = e_units e; NH = co_NH co; NHe = co_NHe co
      in rbind (flog10 db x) (\<lambda>log10x.
         rbind (secion_share e (SECION_PHI_HI si) (c_hi_energy u) dHI (be_dEHI be) log10x) (\<lambda>n1.
         rbind (secion_share e (SECION_PHI_HI si) (c_hi_energy u) dHeI (be_dEHeI be) log10x) (\<lambda>n2.
         rbind (secion_get si (SECION_EH si) (be_dEHI be) log10x) (\<lambda>heat1.
           let secHI = db (n1 + n2);
               s1 = s\<lparr>psys_yGdepHI := add_at k secHI (add_at k dHI (psys_yGdepHI s)),
                      psys_heat := add_at k (db (db (be_heatHI be * dHI) * heat1)) (psys_heat s)\<rparr>;
               t1 = t\<lparr>d_first_HI := db (d_first_HI t + db (dHI * NH)),
                      d_secondary_HI := db (d_secondary_HI t + db (secHI * NH))\<rparr>
           in if \<not> helium (e_config e) NHe then Inr (s1, t1)
              else
                rbind (secion_share e (SECION_PHI_HEI si) (c_hei_energy u) dHI (be_dEHI be) log10x) (\<lambda>m1.
                rbind (secion_share e (SECION_PHI_HEI si) (c_hei_energy u) dHeI (be_dEHeI be) log10x) (\<lambda>m2.
                rbind (secion_get si (SECION_EH si) (be_dEHeI be) log10x) (\<lambda>heat2.
                  let secHeI = db (m1 + m2)
                  in Inr (s1\<lparr>psys_yGdepHeI := add_at k (db (dHeI + secHeI)) (psys_yGdepHeI s1),
                             psys_heat := add_at k (db (db (be_heatHeI be * dHeI) * heat2)) (psys_heat s1),
                             psys_yGdepHeII := add_at k dHeII (psys_yGdepHeII s1)\<rparr>,
                          t1\<lparr>d_secondary_HeI := db (d_secondary_HeI t1 + db (secHeI * NHe)),
                             d_first_HeI := db (d_first_HeI t1 + db (dHeI * NHe)),
                             d_first_HeII := db (d_first_HeII t1 + db (dHeII * NHe))\<rparr>)))))))))"

definition deposit_primary :: "'g env \<Rightarrow> beam \<Rightarrow> column \<Rightarrow> nat \<Rightarrow> real \<Rightarrow> real \<Rightarrow> real
    \<Rightarrow> psystem \<Rightarrow> psystem" where
  "deposit_primary e be co k dHI dHeI dHeII s =
     (let s1 = s\<lparr>psys_yGdepHI := add_at k dHI (psys_yGdepHI s),
                 psys_heat := add_at k (db (be_heatHI be * dHI)) (psys_heat s)\<rparr>
      in if \<not> helium (e_config e) (co_NHe co) then s1
         else s1\<lparr>psys_yGdepHeI := add_at k dHeI (psys_yGdepHeI s1),
                 psys_yGdepHeII := add_at k dHeII (psys_yGdepHeII s1),
                 psys_heat := add_at k (db (dHeII * be_heatHeII be))
                   (add_at k (db (dHeI * be_heatHeI be)) (psys_heat s1))\<rparr>)"

text \<open>The degree of ionization that decides about the fast electrons.\<close>

definition ionized :: "config \<Rightarrow> psystem \<Rightarrow> column \<Rightarrow> nat \<Rightarrow> real res" where
  "ionized c s co k =
     rbind (fdiv db (db (psys_ye c s k * co_NH co)) (db (co_NH co + co_NHe co))) (\<lambda>x.
       Inr (if 1 < x then 1 else x))"

definition deposit_deltas :: "'g env \<Rightarrow> beam \<Rightarrow> column \<Rightarrow> nat \<Rightarrow> real \<Rightarrow> real \<Rightarrow> real
    \<Rightarrow> psystem \<Rightarrow> tally \<Rightarrow> (psystem \<times> tally) res" where
  "deposit_deltas e be co k dHI dHeI dHeII s t =
     (if dHI < 0 then Inl (Trap ''deltaHI < 0'')
      else if dHeI < 0 then Inl (Trap ''deltaHeI < 0'')
      else if dHeII < 0 then Inl (Trap ''deltaHeII < 0'')
      else if psys_heat s ! k < 0 then Inl (Trap ''heat < 0'')
      else
        rbind (ionized (e_config e) s co k) (\<lambda>x.
        rbind (if cfg_secondary_ionization (e_config e) \<and> 0 < x
               then deposit_secondary e be co k x dHI dHeI dHeII s t
               else Inr (deposit_primary e be co k dHI dHeI dHeII s, t)) (\<lambda>(s1, t1).
          if psys_heat s1 ! k < 0 then Inl (Trap ''heat < 0'')
          else Inr (s1\<lparr>psys_hits := (psys_hits s1)[k := psys_hits s1 ! k + 1]\<rparr>, t1))))"

text \<open>The photons left after an intersection, and whether the ray ends there.\<close>

definition transmit :: "real \<Rightarrow> real \<Rightarrow> real \<Rightarrow> (real \<times> bool) res" where
  "transmit Nph TM absorb =
     (let TM' = db (TM - absorb); rest = db (TM' / Nph)
      in if rest < db (- 1 / 10) then Inl (Trap ''TM < 0'')
         else Inr (TM', TM' < 0 \<or> rest < db (1 / 10 ^ 10)))"

definition deposit_hit :: "'g env \<Rightarrow> real \<Rightarrow> real \<Rightarrow> beam \<Rightarrow> real \<Rightarrow> xtype \<Rightarrow> real \<Rightarrow> psystem \<Rightarrow> tally
    \<Rightarrow> (real \<times> bool \<times> psystem \<times> tally) res" where
  "deposit_hit e fac2 fac3 be Nph x TM s t =
     (if x_ipar x \<ge> psys_npar s then Inl Out_of_bounds
      else
        rbind (column_of e s fac2 fac3 be x) (\<lambda>co.
          if co_tausum co = 0 then Inr (TM, False, s, t)
          else
            let ab = absorb_step (e_config e) co TM
            in rbind (fdiv db 1 (co_NH co)) (\<lambda>NH_inv.
               rbind (deposit_deltas e be co (x_ipar x) (db (ab_HI ab * NH_inv))
                   (if helium (e_config e) (co_NHe co) then db (ab_HeI ab * db (1 / co_NHe co)) else 0)
                   (if helium (e_config e) (co_NHe co) then db (ab_HeII ab * db (1 / co_NHe co)) else 0)
                   s (t\<lparr>d_saturated := d_saturated t + ab_saturated ab\<rparr>)) (\<lambda>(s', t').
               rbind (transmit Nph TM (ab_total ab)) (\<lambda>(TM', stop). Inr (TM', stop, s', t'))))))"

section \<open>Along a ray, and all rays\<close>

fun deposit_hits :: "'g env \<Rightarrow> real \<Rightarrow> real \<Rightarrow> beam \<Rightarrow> real \<Rightarrow> xtype list \<Rightarrow> real \<Rightarrow> real \<Rightarrow> psystem \<Rightarrow> tally
    \<Rightarrow> (real \<times> real \<times> psystem \<times> tally) res" where
  "deposit_hits e fac2 fac3 be Nph [] TM len s t = Inr (TM, len, s, t)"
| "deposit_hits e fac2 fac3 be Nph (x # xs) TM len s t =
     rbind (deposit_hit e fac2 fac3 be Nph x TM s t) (\<lambda>(TM', stop, s', t').
       if stop then Inr (TM', x_d x, s', t')
       else deposit_hits e fac2 fac3 be Nph xs TM' (x_d x) s' t')"

definition deposit_ray :: "'g env \<Rightarrow> real \<Rightarrow> real \<Rightarrow> ray \<Rightarrow> psystem \<Rightarrow> stat \<Rightarrow> tally
    \<Rightarrow> (ray \<times> psystem \<times> stat \<times> tally) res" where
  "deposit_ray e fac2 fac3 p s st t =
     (if r_x p = [] \<or> r_Nph p = 0 then Inr (p, s, st, t)
      else
        let TM = (if cfg_no_photon (e_config e) \<and> r_type p < 0 then 0 else r_Nph p)
        in rbind (beam_of e (r_freq p)) (\<lambda>be.
           rbind (deposit_hits e fac2 fac3 be (r_Nph p) (r_x p) TM (r_length p) s
                    (t\<lparr>d_total := d_total t + length (r_x p)\<rparr>)) (\<lambda>(TM', len, s', t').
             Inr (p\<lparr>r_length := len\<rparr>, s', st\<lparr>lost_photon_sum := db (lost_photon_sum st + TM')\<rparr>, t'))))"

fun deposit_rays :: "'g env \<Rightarrow> real \<Rightarrow> real \<Rightarrow> ray list \<Rightarrow> psystem \<Rightarrow> stat \<Rightarrow> tally
    \<Rightarrow> (ray list \<times> psystem \<times> stat \<times> tally) res" where
  "deposit_rays e fac2 fac3 [] s st t = Inr ([], s, st, t)"
| "deposit_rays e fac2 fac3 (p # ps) s st t =
     rbind (deposit_ray e fac2 fac3 p s st t) (\<lambda>(p', s', st', t').
     rbind (deposit_rays e fac2 fac3 ps s' st' t') (\<lambda>(ps', s'', st'', t'').
       Inr (p' # ps', s'', st'', t'')))"

definition add_tally :: "tally \<Rightarrow> stat \<Rightarrow> stat" where
  "add_tally t st = st\<lparr>total_deposits := total_deposits st + d_total t,
     saturated_deposits := saturated_deposits st + d_saturated t,
     secondary_HI := db (secondary_HI st + d_secondary_HI t),
     secondary_HeI := db (secondary_HeI st + d_secondary_HeI t),
     first_HI := db (first_HI st + d_first_HI t),
     first_HeI := db (first_HeI st + d_first_HeI t),
     first_HeII := db (first_HeII st + d_first_HeII t)\<rparr>"

definition deposit :: "'g env \<Rightarrow> 'g loop \<Rightarrow> 'g loop res" where
  "deposit e l =
     rbind (scaling_fac (e_config e) (l_psys l)) (\<lambda>f.
     rbind (scaling_fac2_inv f) (\<lambda>fac2.
     rbind (scaling_fac3_inv f) (\<lambda>fac3.
     rbind (deposit_rays e fac2 fac3 (l_rays l) (l_psys l) (l_stat l) tally_zero) (\<lambda>(rs, s, st, t).
       Inr (l\<lparr>l_psys := s, l_block := rs @ drop (l_r_length l) (l_block l), l_stat := add_tally t st\<rparr>)))))"


section \<open>Bounds of the absorption\<close>

lemma db_bounds: "0 \<le> x \<Longrightarrow> x * (1 - 1 / 2 ^ 53) \<le> db x \<and> db x \<le> x * (1 + 1 / 2 ^ 53)"
proof -
  assume "0 \<le> x"
  define e where "e = x / 2 ^ 53"
  have "\<bar>db x - x\<bar> \<le> e" using db_error [of x] \<open>0 \<le> x\<close> by (simp add: e_def)
  then have *: "x - e \<le> db x \<and> db x \<le> x + e" by (simp add: abs_le_iff)
  have "x * (1 - 1 / 2 ^ 53) = x - e" "x * (1 + 1 / 2 ^ 53) = x + e"
    by (simp_all add: e_def algebra_simps)
  then show ?thesis using * by (simp only:)
qed

lemma db_le: "0 \<le> x \<Longrightarrow> x \<le> y \<Longrightarrow> db x \<le> y * (1 + 1 / 2 ^ 53)"
  using db_bounds [of x] by (smt (verit, best) divide_nonneg_nonneg mult_right_mono zero_le_power)

lemma db_ge: "0 \<le> x \<Longrightarrow> x \<le> y \<Longrightarrow> x * (1 - 1 / 2 ^ 53) \<le> db y"
  using db_bounds [of x] db.mono [of x y] by linarith

lemma db_pos: "0 < x \<Longrightarrow> 0 < db x"
  using db_twice [of x] by simp

lemma fl_pos: "0 < x \<Longrightarrow> 0 < fl x"
  using fl_twice [of x] by simp

lemma db_eq_0: "db x = 0 \<Longrightarrow> x = 0"
  using db_pos [of x] db_pos [of "- x"] by (cases "x < 0") (auto simp: not_less le_less)

text \<open>A column as \<open>depths\<close> yields it, with what its numbers satisfy.\<close>

definition column_ok :: "config \<Rightarrow> column \<Rightarrow> bool" where
  "column_ok c co \<longleftrightarrow> 0 \<le> co_NHI co \<and> 0 \<le> co_NHeI co \<and> 0 \<le> co_NHeII co
     \<and> 0 \<le> co_tauHI co \<and> 0 \<le> co_tauHeI co \<and> 0 \<le> co_tauHeII co \<and> 0 \<le> co_tausum co
     \<and> (co_tauHI co + co_tauHeI co + co_tauHeII co) * (1 - 1 / 2 ^ 51) \<le> co_tausum co"

lemma column_ok_depths:
  assumes "0 \<le> be_sigmaHI be" "0 \<le> be_sigmaHeI be" "0 \<le> be_sigmaHeII be" "0 \<le> kern"
    "0 \<le> NH" "0 \<le> NHe" "0 \<le> xHI" "0 \<le> xHeI" "0 \<le> xHeII"
  shows "column_ok c (depths c be kern NH NHe xHI xHeI xHeII)"
proof -
  have sums: "(a + b + d) * (1 - 1 / 2 ^ 51) \<le> db (db (db (0 + a) + b) + d)" "0 \<le> db (db (db (0 + a) + b) + d)"
    if "0 \<le> a" "0 \<le> b" "0 \<le> d" "db a = a" for a b d
  proof -
    have "(a + b) * (1 - 1 / 2 ^ 53) \<le> db (a + b)" using db_bounds [of "a + b"] that by simp
    then have "(a + b + d) * (1 - 1 / 2 ^ 53) \<le> db (a + b) + d" using that by (simp add: field_simps)
    then have "(a + b + d) * (1 - 1 / 2 ^ 53) * (1 - 1 / 2 ^ 53) \<le> db (db (a + b) + d)"
      using that by (intro db_ge) simp_all
    moreover have "(a + b + d) * (1 - 1 / 2 ^ 51) \<le> (a + b + d) * ((1 - 1 / 2 ^ 53) * (1 - 1 / 2 ^ 53))"
      using that by (intro mult_left_mono) (simp_all add: field_simps)
    ultimately show "(a + b + d) * (1 - 1 / 2 ^ 51) \<le> db (db (db (0 + a) + b) + d)" using that by (simp add: mult.assoc)
    show "0 \<le> db (db (db (0 + a) + b) + d)" using that by (intro db.nonneg add_nonneg_nonneg) simp_all
  qed
  have 1: "a * (1 - 1 / 2 ^ 51) \<le> a" if "0 \<le> a" for a :: real using that by (simp add: field_simps)
  show ?thesis
    unfolding column_ok_def depths_def Let_def
    using assms sums 1 by (simp add: db.nonneg)
qed

lemma absorb_one_bounds:
  assumes "0 \<le> tau" "0 \<le> tausum" "0 \<le> est" "0 \<le> N"
  shows "0 \<le> fst (absorb_one tau tausum est N)" and "fst (absorb_one tau tausum est N) \<le> N"
    and "fst (absorb_one tau tausum est N) \<le> tau / tausum * est * (1 + 1 / 2 ^ 51)"
    and "snd (absorb_one tau tausum est N) \<le> 1"
proof -
  let ?a = "db (db (tau / tausum) * est)"
  have q: "0 \<le> tau / tausum" using assms by simp
  have "0 \<le> ?a" using q assms by (intro db.nonneg mult_nonneg_nonneg) simp_all
  moreover have "?a \<le> tau / tausum * est * (1 + 1 / 2 ^ 51)"
  proof -
    have "db (tau / tausum) * est \<le> tau / tausum * (1 + 1 / 2 ^ 53) * est"
      using db_bounds [OF q] assms by (intro mult_right_mono) simp_all
    then have "?a \<le> tau / tausum * (1 + 1 / 2 ^ 53) * est * (1 + 1 / 2 ^ 53)"
      using q assms by (intro db_le mult_nonneg_nonneg db.nonneg) simp_all
    also have "\<dots> = tau / tausum * est * ((1 + 1 / 2 ^ 53) * (1 + 1 / 2 ^ 53))" by simp
    also have "\<dots> \<le> tau / tausum * est * (1 + 1 / 2 ^ 51)"
      using q assms by (intro mult_left_mono mult_nonneg_nonneg) (simp_all add: field_simps)
    finally show ?thesis .
  qed
  ultimately show "0 \<le> fst (absorb_one tau tausum est N)" "fst (absorb_one tau tausum est N) \<le> N"
    "fst (absorb_one tau tausum est N) \<le> tau / tausum * est * (1 + 1 / 2 ^ 51)"
    "snd (absorb_one tau tausum est N) \<le> 1"
    using assms(4) by (auto simp: absorb_one_def Let_def)
qed


definition absorption_in_bounds :: "column \<Rightarrow> real \<Rightarrow> absorbed \<Rightarrow> bool" where
  "absorption_in_bounds co TM ab \<longleftrightarrow>
     0 \<le> ab_HI ab \<and> ab_HI ab \<le> co_NHI co \<and> 0 \<le> ab_HeI ab \<and> ab_HeI ab \<le> co_NHeI co
     \<and> 0 \<le> ab_HeII ab \<and> ab_HeII ab \<le> co_NHeII co
     \<and> 0 \<le> ab_total ab \<and> ab_total ab \<le> TM * (1 + 1 / 2 ^ 48) \<and> ab_saturated ab \<le> 3"

lemma absorb_est_bounds:
  assumes "0 \<le> TM" "0 \<le> ts"
  shows "0 \<le> db (- TM * db (exp (- ts) - 1))" and "db (- TM * db (exp (- ts) - 1)) \<le> TM * (1 + 1 / 2 ^ 53)"
proof -
  have m: "db (exp (- ts) - 1) \<le> 0" "-1 \<le> db (exp (- ts) - 1)"
    using db.nonpos [of "exp (- ts) - 1"] db.mono [of "-1" "exp (- ts) - 1"] assms(2) by simp_all
  have p: "0 \<le> - TM * db (exp (- ts) - 1)" using m assms(1) by (simp add: mult_nonneg_nonpos)
  have "TM * (- db (exp (- ts) - 1)) \<le> TM * 1" using m assms(1) by (intro mult_left_mono) simp_all
  then show "db (- TM * db (exp (- ts) - 1)) \<le> TM * (1 + 1 / 2 ^ 53)" using p by (intro db_le) simp_all
  show "0 \<le> db (- TM * db (exp (- ts) - 1))" using p by (rule db.nonneg)
qed

lemma share_est:
  fixes est TM T ts :: real
  assumes "0 \<le> est" "est \<le> TM * (1 + 1 / 2 ^ 53)" "0 \<le> T" "T * (1 - 1 / 2 ^ 51) \<le> ts" "0 \<le> ts" "0 \<le> TM"
  shows "T / ts * est * (1 + 1 / 2 ^ 51) \<le> TM * (1 + 1 / 2 ^ 49)"
proof -
  have "T / ts * (1 - 1 / 2 ^ 51) \<le> 1" using assms(4,5) by (cases "ts = 0") (simp_all add: field_simps)
  then have q: "T / ts \<le> 1 / (1 - 1 / 2 ^ 51)" by (intro iffD2 [OF pos_le_divide_eq]) simp_all
  have "T / ts * est * (1 + 1 / 2 ^ 51) \<le> 1 / (1 - 1 / 2 ^ 51) * (TM * (1 + 1 / 2 ^ 53)) * (1 + 1 / 2 ^ 51)"
    using assms q by (intro mult_right_mono mult_mono) simp_all
  also have "\<dots> = TM * (1 / (1 - 1 / 2 ^ 51) * (1 + 1 / 2 ^ 53) * (1 + 1 / 2 ^ 51))" by simp
  also have "\<dots> \<le> TM * (1 + 1 / 2 ^ 49)" using assms(6) by (intro mult_left_mono) (simp_all add: field_simps)
  finally show ?thesis .
qed

lemma absorb_total:
  assumes "0 \<le> a" "0 \<le> b" "0 \<le> d" "a + b + d \<le> TM * (1 + 1 / 2 ^ 49)" "0 \<le> TM"
  shows "0 \<le> db (a + db (b + d))" and "db (a + db (b + d)) \<le> TM * (1 + 1 / 2 ^ 48)"
proof -
  have "db (b + d) \<le> (b + d) * (1 + 1 / 2 ^ 53)" using db_bounds [of "b + d"] assms by simp
  then have "a + db (b + d) \<le> (a + b + d) * (1 + 1 / 2 ^ 53)" using assms(1) by (simp add: algebra_simps)
  also have "\<dots> \<le> TM * (1 + 1 / 2 ^ 49) * (1 + 1 / 2 ^ 53)" using assms(4) by (intro mult_right_mono) simp_all
  finally have "db (a + db (b + d)) \<le> TM * (1 + 1 / 2 ^ 49) * (1 + 1 / 2 ^ 53) * (1 + 1 / 2 ^ 53)"
    using assms by (intro db_le add_nonneg_nonneg db.nonneg) simp_all
  also have "\<dots> = TM * ((1 + 1 / 2 ^ 49) * (1 + 1 / 2 ^ 53) * (1 + 1 / 2 ^ 53))" by simp
  also have "\<dots> \<le> TM * (1 + 1 / 2 ^ 48)" using assms(5) by (intro mult_left_mono) (simp_all add: field_simps)
  finally show "db (a + db (b + d)) \<le> TM * (1 + 1 / 2 ^ 48)" .
  show "0 \<le> db (a + db (b + d))" using assms by (intro db.nonneg add_nonneg_nonneg) simp_all
qed

lemma absorb_step_in_bounds:
  assumes ok: "column_ok c co" and TM: "0 \<le> TM"
  shows "absorption_in_bounds co TM (absorb_step c co TM)"
proof -
  define est where "est = db (- TM * db (exp (- co_tausum co) - 1))"
  note co = ok [unfolded column_ok_def]
  have est': "- db (TM * db (exp (- co_tausum co) - 1)) = est" by (simp add: est_def)
  have est: "0 \<le> est" "est \<le> TM * (1 + 1 / 2 ^ 53)"
    using absorb_est_bounds [OF TM, of "co_tausum co"] co by (simp_all only: est_def)
  define T where "T = co_tauHI co + co_tauHeI co + co_tauHeII co"
  let ?ts = "co_tausum co"
  let ?one = "\<lambda>tau N. fst (absorb_one tau ?ts est N)"
  let ?a = "?one (co_tauHI co) (co_NHI co)" and ?b = "?one (co_tauHeI co) (co_NHeI co)"
    and ?d = "?one (co_tauHeII co) (co_NHeII co)"
  have one: "0 \<le> ?one tau N" "?one tau N \<le> N" "?one tau N \<le> tau / ?ts * est * (1 + 1 / 2 ^ 51)"
    "snd (absorb_one tau ?ts est N) \<le> 1" if "0 \<le> tau" "0 \<le> N" for tau N
    using absorb_one_bounds [of tau ?ts est N] that est(1) co by blast+
  have share: "T / ?ts * est * (1 + 1 / 2 ^ 51) \<le> TM * (1 + 1 / 2 ^ 49)"
    by (rule share_est [OF est]) (use co TM in \<open>simp_all add: T_def\<close>)
  have split: "T / ?ts * est * (1 + 1 / 2 ^ 51) = co_tauHI co / ?ts * est * (1 + 1 / 2 ^ 51)
      + co_tauHeI co / ?ts * est * (1 + 1 / 2 ^ 51) + co_tauHeII co / ?ts * est * (1 + 1 / 2 ^ 51)"
    by (simp only: T_def add_divide_distrib distrib_right)
  have sum: "?a + ?b + ?d \<le> TM * (1 + 1 / 2 ^ 49)"
  proof -
    have "?a + ?b + ?d \<le> T / ?ts * est * (1 + 1 / 2 ^ 51)"
      unfolding split by (intro add_mono one(3)) (use co in simp_all)
    then show ?thesis using share by (rule order_trans)
  qed
  have pos: "0 \<le> ?a" "0 \<le> ?b" "0 \<le> ?d" and le: "?a \<le> co_NHI co" "?b \<le> co_NHeI co" "?d \<le> co_NHeII co"
    using one(1,2) co by simp_all
  have n: "snd (absorb_one (co_tauHI co) ?ts est (co_NHI co)) \<le> 1"
    "snd (absorb_one (co_tauHeI co) ?ts est (co_NHeI co)) \<le> 1"
    "snd (absorb_one (co_tauHeII co) ?ts est (co_NHeII co)) \<le> 1"
    using one(4) co by simp_all
  have alone: "?a \<le> TM * (1 + 1 / 2 ^ 48)"
  proof -
    have "?a \<le> TM * (1 + 1 / 2 ^ 49)" using sum pos by linarith
    also have "\<dots> \<le> TM * (1 + 1 / 2 ^ 48)" using TM by (intro mult_left_mono) simp_all
    finally show ?thesis .
  qed
  have he: "0 \<le> co_NHeI co" "0 \<le> co_NHeII co" using co by simp_all
  show ?thesis
  proof (cases "helium c (co_NHe co)")
    case True
    then show ?thesis
      using pos le n absorb_total [OF pos sum TM]
      by (simp add: absorption_in_bounds_def absorb_step_def case_prod_beta Let_def est')
  next
    case False
    then show ?thesis
      using pos le n alone he
      by (simp add: absorption_in_bounds_def absorb_step_def case_prod_beta Let_def est')
  qed
qed


text \<open>
  C29. One intersection never takes more than there is: for a column computed from quantities that
  are not negative, each species absorbs at least nothing and at most one photon per atom of its
  column, and all together absorb no more than the photons left in the ray (up to rounding).
\<close>

theorem absorption_bounded:
  assumes "0 \<le> be_sigmaHI be" "0 \<le> be_sigmaHeI be" "0 \<le> be_sigmaHeII be" "0 \<le> kern"
    "0 \<le> NH" "0 \<le> NHe" "0 \<le> xHI" "0 \<le> xHeI" "0 \<le> xHeII" "0 \<le> TM"
  shows "let ab = absorb_step c (depths c be kern NH NHe xHI xHeI xHeII) TM
    in 0 \<le> ab_HI ab \<and> ab_HI ab \<le> db (xHI * NH) \<and> 0 \<le> ab_HeI ab \<and> ab_HeI ab \<le> db (xHeI * NHe)
       \<and> 0 \<le> ab_HeII ab \<and> ab_HeII ab \<le> db (xHeII * NHe)
       \<and> 0 \<le> ab_total ab \<and> ab_total ab \<le> TM * (1 + 1 / 2 ^ 48)"
proof -
  have "column_ok c (depths c be kern NH NHe xHI xHeI xHeII)"
    using assms by (intro column_ok_depths) simp_all
  from absorb_step_in_bounds [OF this \<open>0 \<le> TM\<close>] show ?thesis
    by (simp add: absorption_in_bounds_def Let_def depths_def)
qed

lemma absorption_bounded_witness:
  "let ab = absorb_step config_defaults
      (depths config_defaults \<lparr>be_sigmaHI = 1, be_sigmaHeI = 0, be_sigmaHeII = 0, be_dEHI = 0, be_dEHeI = 0,
         be_dEHeII = 0, be_heatHI = 0, be_heatHeI = 0, be_heatHeII = 0\<rparr> 1 2 0 1 0 0) 8
   in 0 \<le> ab_HI ab \<and> ab_HI ab \<le> 2 \<and> ab_total ab \<le> 8 * (1 + 1 / 2 ^ 48)"
  using absorption_bounded [of "\<lparr>be_sigmaHI = 1, be_sigmaHeI = 0, be_sigmaHeII = 0, be_dEHI = 0, be_dEHeI = 0,
      be_dEHeII = 0, be_heatHI = 0, be_heatHeI = 0, be_heatHeII = 0\<rparr>" 1 2 0 1 0 0 8 config_defaults]
  by (simp add: Let_def)

section \<open>A deposit never fails\<close>

text \<open>What the deposits may change: the pools, the heat and the count of hits.\<close>

definition only_pools :: "psystem \<Rightarrow> psystem \<Rightarrow> bool" where
  "only_pools s s' \<longleftrightarrow> psys_ok s' \<and>
     (\<exists>hi hei heii heat hits. s' = s\<lparr>psys_yGdepHI := hi, psys_yGdepHeI := hei, psys_yGdepHeII := heii,
        psys_heat := heat, psys_hits := hits\<rparr>)"

definition pools_at :: "psystem \<Rightarrow> nat \<Rightarrow> real list \<times> int" where
  "pools_at s k = ([psys_yGdepHI s ! k, psys_yGdepHeI s ! k, psys_yGdepHeII s ! k, psys_heat s ! k], psys_hits s ! k)"

text \<open>The particles as the deposits need them.\<close>

definition absorber :: "psystem \<Rightarrow> nat \<Rightarrow> bool" where
  "absorber s k \<longleftrightarrow> 0 < psys_mass s ! k \<and> 0 < psys_sml s ! k
     \<and> 0 \<le> psys_lambdaH s ! k \<and> 0 \<le> psys_lambdaHeI s ! k \<and> 0 \<le> psys_lambdaHeII s ! k"

definition depositable :: "psystem \<Rightarrow> bool" where
  "depositable s \<longleftrightarrow> psys_ok s \<and> (\<forall>k < psys_npar s. absorber s k \<and> list_all (\<lambda>y. 0 \<le> y) (fst (pools_at s k)))"

definition beam_ok :: "beam \<Rightarrow> bool" where
  "beam_ok be \<longleftrightarrow> 0 \<le> be_sigmaHI be \<and> 0 \<le> be_sigmaHeI be \<and> 0 \<le> be_sigmaHeII be
     \<and> 0 \<le> be_heatHI be \<and> 0 \<le> be_heatHeI be \<and> 0 \<le> be_heatHeII be"

text \<open>The run: neither the multiphase model nor fast electrons, and physical constants.\<close>

definition plain_physics :: "'g env \<Rightarrow> bool" where
  "plain_physics e \<longleftrightarrow> \<not> cfg_enable_eos (e_config e) \<and> \<not> cfg_secondary_ionization (e_config e)
     \<and> 0 < c_h_per_mass (e_units e) \<and> 0 \<le> c_he_per_mass (e_units e)
     \<and> list_all (\<lambda>y. 0 \<le> y) (ph_kernel (e_physics e))"

lemma only_poolsE:
  assumes "only_pools s s'"
  obtains hi hei heii heat hits where "psys_ok s'"
    "s' = s\<lparr>psys_yGdepHI := hi, psys_yGdepHeI := hei, psys_yGdepHeII := heii, psys_heat := heat, psys_hits := hits\<rparr>"
  using assms unfolding only_pools_def by blast

lemma only_poolsI:
  "psys_ok (s\<lparr>psys_yGdepHI := hi, psys_yGdepHeI := hei, psys_yGdepHeII := heii, psys_heat := heat, psys_hits := hits\<rparr>)
   \<Longrightarrow> only_pools s (s\<lparr>psys_yGdepHI := hi, psys_yGdepHeI := hei, psys_yGdepHeII := heii, psys_heat := heat, psys_hits := hits\<rparr>)"
  unfolding only_pools_def by blast

lemma only_pools_refl: "psys_ok s \<Longrightarrow> only_pools s s"
  using only_poolsI [where s = s and hi = "psys_yGdepHI s" and hei = "psys_yGdepHeI s" and heii = "psys_yGdepHeII s"
    and heat = "psys_heat s" and hits = "psys_hits s"] by simp

lemma only_pools_trans: "only_pools s s' \<Longrightarrow> only_pools s' s'' \<Longrightarrow> only_pools s s''"
  by (elim only_poolsE, hypsubst) (simp add: only_poolsI)

lemma only_pools_absorber: "only_pools s s' \<Longrightarrow> absorber s' k = absorber s k"
  by (elim only_poolsE) (simp add: absorber_def)

lemma only_pools_npar: "only_pools s s' \<Longrightarrow> psys_npar s' = psys_npar s"
  by (elim only_poolsE) simp


lemma psys_ok_pools:
  assumes "psys_ok s" "length hi = psys_npar_max s" "length hei = psys_npar_max s" "length heii = psys_npar_max s"
    "length heat = psys_npar_max s" "length hits = psys_npar_max s"
  shows "psys_ok (s\<lparr>psys_yGdepHI := hi, psys_yGdepHeI := hei, psys_yGdepHeII := heii, psys_heat := heat, psys_hits := hits\<rparr>)"
  using assms by (simp add: psys_ok_def arrays_length_def)

lemma length_add_at [simp]: "length (add_at k v ys) = length ys"
  by (simp add: add_at_def)

lemma nth_add_at: "add_at k v ys ! j = (if j = k \<and> k < length ys then fl (db (ys ! k + v)) else ys ! j)"
  by (cases "k < length ys") (simp_all add: add_at_def nth_list_update not_less list_update_beyond)

lemma add_at_nonneg: "0 \<le> ys ! k \<Longrightarrow> 0 \<le> v \<Longrightarrow> 0 \<le> add_at k v ys ! k"
  by (simp add: nth_add_at fl.nonneg db.nonneg)

lemma add_at_other [simp]: "j \<noteq> k \<Longrightarrow> add_at k v ys ! j = ys ! j"
  by (simp add: nth_add_at)

text \<open>The plain deposit, then the count of the hit.\<close>

definition plain_deposit :: "'g env \<Rightarrow> beam \<Rightarrow> column \<Rightarrow> nat \<Rightarrow> real \<Rightarrow> real \<Rightarrow> real \<Rightarrow> psystem \<Rightarrow> psystem" where
  "plain_deposit e be co k dHI dHeI dHeII s =
     (let s1 = deposit_primary e be co k dHI dHeI dHeII s
      in s1\<lparr>psys_hits := (psys_hits s1)[k := psys_hits s1 ! k + 1]\<rparr>)"

lemma plain_deposit_pools:
  assumes ok: "depositable s" and k: "k < psys_npar s" and be: "beam_ok be"
    and d: "0 \<le> dHI" "0 \<le> dHeI" "0 \<le> dHeII"
  shows "only_pools s (plain_deposit e be co k dHI dHeI dHeII s)"
    and "depositable (plain_deposit e be co k dHI dHeI dHeII s)"
    and "j \<noteq> k \<Longrightarrow> pools_at (plain_deposit e be co k dHI dHeI dHeII s) j = pools_at s j"
proof -
  let ?s = "plain_deposit e be co k dHI dHeI dHeII s"
  have "psys_ok s" using ok by (simp add: depositable_def)
  then have len: "length (psys_yGdepHI s) = psys_npar_max s" "length (psys_yGdepHeI s) = psys_npar_max s"
    "length (psys_yGdepHeII s) = psys_npar_max s" "length (psys_heat s) = psys_npar_max s"
    "length (psys_hits s) = psys_npar_max s"
    by (simp_all add: psys_ok_def arrays_length_def)
  let ?he = "helium (e_config e) (co_NHe co)"
  have shape: "?s = s\<lparr>psys_yGdepHI := add_at k dHI (psys_yGdepHI s),
      psys_yGdepHeI := if ?he then add_at k dHeI (psys_yGdepHeI s) else psys_yGdepHeI s,
      psys_yGdepHeII := if ?he then add_at k dHeII (psys_yGdepHeII s) else psys_yGdepHeII s,
      psys_heat := let h = add_at k (db (be_heatHI be * dHI)) (psys_heat s)
        in if ?he then add_at k (db (dHeII * be_heatHeII be)) (add_at k (db (dHeI * be_heatHeI be)) h) else h,
      psys_hits := (psys_hits s)[k := psys_hits s ! k + 1]\<rparr>"
    by (cases ?he) (simp_all add: plain_deposit_def deposit_primary_def Let_def)
  show pools: "only_pools s ?s"
    unfolding shape by (rule only_poolsI, rule psys_ok_pools [OF \<open>psys_ok s\<close>]) (simp_all add: len Let_def)
  show other: "pools_at ?s j = pools_at s j" if "j \<noteq> k" for j
    using that by (simp add: plain_deposit_def deposit_primary_def Let_def pools_at_def)
  have here: "list_all (\<lambda>y. 0 \<le> y) (fst (pools_at s k))" using ok k by (simp add: depositable_def)
  have "list_all (\<lambda>y. 0 \<le> y) (fst (pools_at ?s k))"
    using here d be
    by (simp add: plain_deposit_def deposit_primary_def Let_def pools_at_def beam_ok_def add_at_nonneg db.nonneg)
  then show "depositable ?s"
    using ok pools other only_pools_absorber [OF pools] only_pools_npar [OF pools]
    unfolding depositable_def by (metis only_pools_def)
qed


lemma transmit_result:
  assumes "0 < Nph" "0 \<le> TM" "TM \<le> Nph" "db TM = TM" "0 \<le> a" "a \<le> TM * (1 + 1 / 2 ^ 48)"
  shows "\<exists>stop. transmit Nph TM a = Inr (db (TM - a), stop) \<and> (\<not> stop \<longrightarrow> 0 \<le> db (TM - a))"
    and "db (TM - a) \<le> TM"
proof -
  show "db (TM - a) \<le> TM" by (rule db.le_exact) (use assms in simp_all)
  have "- (TM / 2 ^ 48) \<le> TM - a" using assms(6) by (simp add: algebra_simps)
  then have "- (Nph / 2 ^ 48) \<le> TM - a" using assms(3) by (smt (verit, best) divide_right_mono zero_le_power)
  then have "db (- (Nph / 2 ^ 48)) \<le> db (TM - a)" by (rule db.mono)
  moreover have "db (Nph / 2 ^ 48) \<le> 2 * (Nph / 2 ^ 48)" using db_twice [of "Nph / 2 ^ 48"] assms(1) by simp
  ultimately have "- (2 * (Nph / 2 ^ 48)) \<le> db (TM - a)" by simp
  then have "- (2 * (Nph / 2 ^ 48)) / Nph \<le> db (TM - a) / Nph" by (rule divide_right_mono) (use assms(1) in simp)
  then have "- 1 / 10 \<le> db (TM - a) / Nph" using assms(1) by (simp add: field_simps)
  then have "\<not> db (db (TM - a) / Nph) < db (- 1 / 10)" using db.mono by (simp only: not_less)
  then show "\<exists>stop. transmit Nph TM a = Inr (db (TM - a), stop) \<and> (\<not> stop \<longrightarrow> 0 \<le> db (TM - a))"
    by (auto simp: transmit_def Let_def)
qed

lemma sph_depth_nonneg: "list_all (\<lambda>y. 0 \<le> y) ks \<Longrightarrow> 0 \<le> sph_depth ks r"
  by (auto simp: sph_depth_def Let_def list_all_length)

lemma column_of_result:
  assumes "plain_physics e" "depositable s" "x_ipar x < psys_npar s" "beam_ok be" "0 \<le> fac2"
  shows "\<exists>co. column_of e s fac2 fac3 be x = Inr co \<and> column_ok (e_config e) co \<and> 0 < co_NH co \<and> 0 \<le> co_NHe co"
proof -
  have ab: "absorber s (x_ipar x)" using assms(2,3) by (simp add: depositable_def)
  have N: "0 < psys_NH (e_units e) s (x_ipar x)" "0 \<le> psys_NHe (e_units e) s (x_ipar x)"
    using ab assms(1) by (simp_all add: psys_NH_def psys_NHe_def absorber_def plain_physics_def db_pos db.nonneg)
  have thin: "thin e rho N = Inr N" for rho N using assms(1) by (simp add: thin_def plain_physics_def)
  have "fdiv db 1 (psys_sml s ! x_ipar x) = Inr (db (1 / psys_sml s ! x_ipar x))"
    using ab by (simp add: fdiv_def absorber_def)
  moreover have "0 \<le> db (db (sph_depth (ph_kernel (e_physics e)) r * db (i * i)) * fac2)" for r i
  proof -
    have "0 \<le> db (i * i)" by (rule db.nonneg) simp
    moreover have "0 \<le> sph_depth (ph_kernel (e_physics e)) r"
      by (rule sph_depth_nonneg) (use assms(1) in \<open>simp add: plain_physics_def\<close>)
    ultimately show ?thesis using assms(5) by (simp add: db.nonneg)
  qed
  moreover have "0 \<le> psys_xHI s (x_ipar x)" "0 \<le> psys_xHeI s (x_ipar x)" "0 \<le> psys_xHeII s (x_ipar x)"
    using ab by (simp_all add: absorber_def psys_xHI_def psys_xHeI_def psys_xHeII_def lambdaH_to_xHI_def
        lambdaHe_to_xHeI_def lambdaHe_to_xHeII_def)
  ultimately show ?thesis
    using N assms(4)
    by (simp add: column_of_def Let_def thin column_ok_depths beam_ok_def) (simp add: depths_def Let_def)
qed

lemma deposit_deltas_plain:
  assumes e: "plain_physics e" and s: "depositable s" and k: "k < psys_npar s" and be: "beam_ok be"
    and d: "0 \<le> dHI" "0 \<le> dHeI" "0 \<le> dHeII" and co: "0 < co_NH co" "0 \<le> co_NHe co"
  shows "deposit_deltas e be co k dHI dHeI dHeII s t = Inr (plain_deposit e be co k dHI dHeI dHeII s, t)"
proof -
  have heat: "0 \<le> psys_heat s ! k" using s k by (auto simp: depositable_def pools_at_def)
  have after: "0 \<le> psys_heat (plain_deposit e be co k dHI dHeI dHeII s) ! k"
    using plain_deposit_pools(2) [OF s k be d, of e co] only_pools_npar [OF plain_deposit_pools(1) [OF s k be d, of e co]] k
    by (simp add: depositable_def pools_at_def)
  have "db (co_NH co + co_NHe co) \<noteq> 0" using db_eq_0 [of "co_NH co + co_NHe co"] co by auto
  then obtain x where x: "ionized (e_config e) s co k = Inr x" by (simp add: ionized_def fdiv_def)
  have off: "\<not> cfg_secondary_ionization (e_config e)" using e by (simp add: plain_physics_def)
  show ?thesis
    using d heat after by (simp add: deposit_deltas_def x off plain_deposit_def Let_def)
qed

definition spent :: "real \<Rightarrow> real \<Rightarrow> real \<Rightarrow> bool" where
  "spent Nph TM TM' \<longleftrightarrow> TM' \<le> TM \<and> db TM' = TM' \<and> TM \<le> Nph"

lemma deposit_hit_result:
  assumes e: "plain_physics e" and s: "depositable s" and k: "x_ipar x < psys_npar s" and be: "beam_ok be"
    and f: "0 \<le> fac2" and N: "0 < Nph" and TM: "0 \<le> TM" "TM \<le> Nph" "db TM = TM"
  shows "\<exists>TM' stop s' t'. deposit_hit e fac2 fac3 be Nph x TM s t = Inr (TM', stop, s', t')
    \<and> only_pools s s' \<and> depositable s' \<and> (\<forall>j. j \<noteq> x_ipar x \<longrightarrow> pools_at s' j = pools_at s j)
    \<and> TM' \<le> TM \<and> db TM' = TM' \<and> (\<not> stop \<longrightarrow> 0 \<le> TM')"
proof -
  let ?k = "x_ipar x"
  obtain co where co: "column_of e s fac2 fac3 be x = Inr co" "column_ok (e_config e) co" "0 < co_NH co" "0 \<le> co_NHe co"
    using column_of_result [OF e s k be f] by blast
  show ?thesis
  proof (cases "co_tausum co = 0")
    case True
    then have "deposit_hit e fac2 fac3 be Nph x TM s t = Inr (TM, False, s, t)"
      using co(1) k by (simp add: deposit_hit_def)
    then show ?thesis using TM s only_pools_refl [of s] by (simp add: depositable_def ex_bool_eq)
  next
    case False
    define ab where "ab = absorb_step (e_config e) co TM"
    have ab: "absorption_in_bounds co TM ab"
      unfolding ab_def by (rule absorb_step_in_bounds [OF co(2) TM(1)])
    define he where "he = helium (e_config e) (co_NHe co)"
    define dHI where "dHI = db (ab_HI ab * db (1 / co_NH co))"
    define dHeI where "dHeI = (if he then db (ab_HeI ab * db (1 / co_NHe co)) else 0)"
    define dHeII where "dHeII = (if he then db (ab_HeII ab * db (1 / co_NHe co)) else 0)"
    have d: "0 \<le> dHI" "0 \<le> dHeI" "0 \<le> dHeII"
      using ab co(3,4) by (simp_all add: dHI_def dHeI_def dHeII_def absorption_in_bounds_def db.nonneg)
    let ?s = "plain_deposit e be co ?k dHI dHeI dHeII s"
    obtain stop where tr: "transmit Nph TM (ab_total ab) = Inr (db (TM - ab_total ab), stop)"
        "\<not> stop \<longrightarrow> 0 \<le> db (TM - ab_total ab)" and le: "db (TM - ab_total ab) \<le> TM"
      using transmit_result [OF N TM, of "ab_total ab"] ab by (auto simp: absorption_in_bounds_def)
    have "deposit_hit e fac2 fac3 be Nph x TM s t
        = Inr (db (TM - ab_total ab), stop, ?s, t\<lparr>d_saturated := d_saturated t + ab_saturated ab\<rparr>)"
      using deposit_deltas_plain [OF e s k be d co(3,4)] k co(1,3) False
      by (simp add: deposit_hit_def fdiv_def tr(1) flip: ab_def he_def dHI_def dHeI_def dHeII_def)
    then show ?thesis
      using plain_deposit_pools [OF s k be d, where e = e and co = co] tr(2) le by simp
  qed
qed


lemma deposit_hits_result:
  assumes e: "plain_physics e" and be: "beam_ok be" and f: "0 \<le> fac2" and N: "0 < Nph"
  shows "depositable s \<Longrightarrow> \<forall>x \<in> set xs. x_ipar x < psys_npar s \<Longrightarrow> 0 \<le> TM \<Longrightarrow> TM \<le> Nph \<Longrightarrow> db TM = TM \<Longrightarrow>
    \<exists>TM' len' s' t'. deposit_hits e fac2 vol be Nph xs TM len s t = Inr (TM', len', s', t')
    \<and> only_pools s s' \<and> depositable s' \<and> (\<forall>j. j \<notin> x_ipar ` set xs \<longrightarrow> pools_at s' j = pools_at s j)
    \<and> TM' \<le> Nph \<and> (xs \<noteq> [] \<longrightarrow> len' \<in> x_d ` set xs)"
proof (induction xs arbitrary: TM len s t)
  case (Cons x xs)
  have k: "x_ipar x < psys_npar s" using Cons.prems(2) by simp
  obtain TM1 stop s1 t1 where hit: "deposit_hit e fac2 vol be Nph x TM s t = Inr (TM1, stop, s1, t1)"
      "only_pools s s1" "depositable s1" "\<forall>j. j \<noteq> x_ipar x \<longrightarrow> pools_at s1 j = pools_at s j"
      "TM1 \<le> TM" "db TM1 = TM1" "\<not> stop \<longrightarrow> 0 \<le> TM1"
    using deposit_hit_result [OF e Cons.prems(1) k be f N Cons.prems(3-5)] by metis
  show ?case
  proof (cases stop)
    case True
    then show ?thesis using hit Cons.prems(4) by auto
  next
    case False
    obtain TM2 len2 s2 t2 where rest: "deposit_hits e fac2 vol be Nph xs TM1 (x_d x) s1 t1 = Inr (TM2, len2, s2, t2)"
        "only_pools s1 s2" "depositable s2" "\<forall>j. j \<notin> x_ipar ` set xs \<longrightarrow> pools_at s2 j = pools_at s1 j"
        "TM2 \<le> Nph" "xs \<noteq> [] \<longrightarrow> len2 \<in> x_d ` set xs"
      using Cons.IH [OF hit(3), of TM1 "x_d x" t1] False hit only_pools_npar [OF hit(2)] Cons.prems(2,4)
      by fastforce
    have "len2 \<in> x_d ` set (x # xs)" using rest(1,6) by (cases xs) auto
    then show ?thesis
      using hit rest False only_pools_trans [OF hit(2) rest(2)] by auto
  qed
qed (simp add: only_pools_refl depositable_def)

text \<open>What a deposit leaves of a ray: all but its length, which becomes the distance of a hit.\<close>

definition shortened :: "ray \<Rightarrow> ray \<Rightarrow> bool" where
  "shortened p p' \<longleftrightarrow> p' = p\<lparr>r_length := r_length p'\<rparr>
     \<and> (r_length p' \<in> x_d ` set (r_x p) \<or> r_length p' = r_length p \<and> (r_x p = [] \<or> r_Nph p = 0))"

definition bright :: "'g env \<Rightarrow> psystem \<Rightarrow> ray \<Rightarrow> bool" where
  "bright e s p \<longleftrightarrow> 0 \<le> r_Nph p \<and> db (r_Nph p) = r_Nph p \<and> (\<forall>x \<in> set (r_x p). x_ipar x < psys_npar s)
     \<and> (\<exists>be. beam_of e (r_freq p) = Inr be \<and> beam_ok be)"

lemma deposit_ray_result:
  assumes e: "plain_physics e" and s: "depositable s" and p: "bright e s p" and f: "0 \<le> fac2"
  shows "\<exists>p' s' st' t'. deposit_ray e fac2 fac3 p s st t = Inr (p', s', st', t') \<and> shortened p p'
    \<and> only_pools s s' \<and> depositable s' \<and> (\<forall>j. j \<notin> x_ipar ` set (r_x p) \<longrightarrow> pools_at s' j = pools_at s j)"
proof (cases "r_x p = [] \<or> r_Nph p = 0")
  case True
  then show ?thesis using s by (auto simp: deposit_ray_def shortened_def only_pools_refl depositable_def)
next
  case False
  obtain be where be: "beam_of e (r_freq p) = Inr be" "beam_ok be" using p by (auto simp: bright_def)
  let ?TM = "if cfg_no_photon (e_config e) \<and> r_type p < 0 then 0 else r_Nph p"
  have N: "0 < r_Nph p" and TM: "0 \<le> ?TM" "?TM \<le> r_Nph p" "db ?TM = ?TM"
    using p False by (auto simp: bright_def)
  obtain TM' len s' t' where hits: "deposit_hits e fac2 fac3 be (r_Nph p) (r_x p) ?TM (r_length p) s
        (t\<lparr>d_total := d_total t + length (r_x p)\<rparr>) = Inr (TM', len, s', t')"
      "only_pools s s'" "depositable s'" "\<forall>j. j \<notin> x_ipar ` set (r_x p) \<longrightarrow> pools_at s' j = pools_at s j"
      "r_x p \<noteq> [] \<longrightarrow> len \<in> x_d ` set (r_x p)"
    using deposit_hits_result [OF e be(2) f N s _ TM, where xs = "r_x p" and len = "r_length p"
        and t = "t\<lparr>d_total := d_total t + length (r_x p)\<rparr>" and vol = fac3] p
    by (auto simp: bright_def)
  then show ?thesis
    using False be(1) unfolding deposit_ray_def Let_def by (auto simp: shortened_def)
qed

lemma deposit_rays_result:
  assumes e: "plain_physics e" and f: "0 \<le> fac2"
  shows "depositable s \<Longrightarrow> \<forall>p \<in> set ps. bright e s p \<Longrightarrow>
    \<exists>ps' s' st' t'. deposit_rays e fac2 fac3 ps s st t = Inr (ps', s', st', t') \<and> list_all2 shortened ps ps'
    \<and> only_pools s s' \<and> depositable s' \<and> (\<forall>j. j \<notin> met ps \<longrightarrow> pools_at s' j = pools_at s j)"
proof (induction ps arbitrary: s st t)
  case (Cons p ps)
  obtain p1 s1 st1 t1 where ray: "deposit_ray e fac2 fac3 p s st t = Inr (p1, s1, st1, t1)" "shortened p p1"
      "only_pools s s1" "depositable s1" "\<forall>j. j \<notin> x_ipar ` set (r_x p) \<longrightarrow> pools_at s1 j = pools_at s j"
    using deposit_ray_result [OF e Cons.prems(1) _ f] Cons.prems(2) by (metis list.set_intros(1))
  have "\<forall>q \<in> set ps. bright e s1 q"
    using Cons.prems(2) only_pools_npar [OF ray(3)] by (simp add: bright_def)
  then obtain ps2 s2 st2 t2 where rest: "deposit_rays e fac2 fac3 ps s1 st1 t1 = Inr (ps2, s2, st2, t2)"
      "list_all2 shortened ps ps2" "only_pools s1 s2" "depositable s2"
      "\<forall>j. j \<notin> met ps \<longrightarrow> pools_at s2 j = pools_at s1 j"
    using Cons.IH [OF ray(4)] by metis
  then show ?case
    using ray only_pools_trans [OF ray(3) rest(3)] by (simp add: met_def)
qed (simp add: only_pools_refl depositable_def)

text \<open>
  C30. Without the multiphase model and fast electrons, \<open>deposit\<close> never fails: none of the errors
  about negative deposits, negative heat or negative transmission can occur. Every ray keeps
  everything but its length, which becomes the distance of one of its intersections; of the
  particle system only the pools, the heat and the hits change, only of particles that a ray
  met, and none of them becomes negative.
\<close>

theorem deposit_never_fails:
  assumes "plain_physics e" and "depositable (l_psys l)" and "\<forall>p \<in> set (l_rays l). bright e (l_psys l) p"
    and "l_r_length l \<le> length (l_block l)"
    and "cfg_comoving (e_config e) \<longrightarrow> 0 < db (1 + ep_redshift (psys_epoch (l_psys l)))"
  shows "\<exists>l'. deposit e l = Inr l' \<and> list_all2 shortened (l_rays l) (l_rays l')
    \<and> only_pools (l_psys l) (l_psys l') \<and> depositable (l_psys l')
    \<and> (\<forall>k. k \<notin> met (l_rays l) \<longrightarrow> pools_at (l_psys l') k = pools_at (l_psys l) k)
    \<and> l' = l\<lparr>l_psys := l_psys l', l_block := l_block l', l_stat := l_stat l'\<rparr>"
proof -
  obtain f where f: "scaling_fac (e_config e) (l_psys l) = Inr f" "0 < f"
  proof (cases "cfg_comoving (e_config e)")
    case True
    let ?d = "db (ep_redshift (psys_epoch (l_psys l)) + 1)"
    have "0 < ?d" using assms(5) True by (simp add: add.commute)
    then show ?thesis using that [of "db (1 / ?d)"] True by (simp add: scaling_fac_def fdiv_def db_pos)
  qed (use that [of 1] in \<open>simp add: scaling_fac_def\<close>)
  have pos: "0 < db (f * f)" "0 < db (db (f * f) * f)" using f(2) by (simp_all add: db_pos)
  obtain fac2 fac3 where fac: "scaling_fac2_inv f = Inr fac2" "scaling_fac3_inv f = Inr fac3" "0 \<le> fac2"
    using pos by (simp add: scaling_fac2_inv_def scaling_fac3_inv_def fdiv_def db.nonneg)
  obtain rs s st t where rays: "deposit_rays e fac2 fac3 (l_rays l) (l_psys l) (l_stat l) tally_zero = Inr (rs, s, st, t)"
      "list_all2 shortened (l_rays l) rs" "only_pools (l_psys l) s" "depositable s"
      "\<forall>j. j \<notin> met (l_rays l) \<longrightarrow> pools_at s j = pools_at (l_psys l) j"
    using deposit_rays_result [OF assms(1) fac(3) assms(2,3)] by metis
  have "length rs = l_r_length l" using list_all2_lengthD [OF rays(2)] assms(4) by (simp add: l_rays_def)
  then show ?thesis
    using rays by (simp add: deposit_def f(1) fac(1,2)) (simp add: l_rays_def)
qed


section \<open>A small deposit\<close>

definition deposit_env :: "unit env" where
  "deposit_env = demo_env\<lparr>e_config := config_defaults\<lparr>cfg_enable_eos := False, cfg_secondary_ionization := False\<rparr>,
     e_units := (e_units demo_env)\<lparr>c_h_per_mass := 1, c_he_per_mass := 1\<rparr>,
     e_physics := (e_physics demo_env)\<lparr>ph_kernel := [1],
       ph_atomic := atomic_start\<lparr>xs_tab := tabfun_zero\<lparr>tf_nrows := 1, tf_data := [[1], [2], [3], [4]]\<rparr>,
         XS_HI := 1, XS_HEI := 2, XS_HEII := 3\<rparr>\<rparr>\<rparr>"

definition deposit_loop :: "unit loop" where
  "deposit_loop = demo_met\<lparr>l_block := [zero_ray\<lparr>r_Nph := 8, r_freq := 1, r_x := [\<lparr>x_ipar = 0, x_d = 1, x_b = 0\<rparr>]\<rparr>]\<rparr>"

lemma deposit_never_fails_witness:
  "\<exists>l'. deposit deposit_env deposit_loop = Inr l' \<and> map r_length (l_rays l') = [1]
     \<and> only_pools (l_psys deposit_loop) (l_psys l') \<and> depositable (l_psys l')"
proof -
  let ?e = deposit_env and ?l = deposit_loop
  have xs: "xs_get (ph_atomic (e_physics ?e)) k 1 = Inr (of_int k + 1)" if "k \<in> {1, 2, 3}" for k
    using that by (auto simp: xs_get_def deposit_env_def tabfun_get_def tabfun_zero_def atomic_start_def entry_def trunc_def)
  have cols: "XS_HI (ph_atomic (e_physics ?e)) = 1" "XS_HEI (ph_atomic (e_physics ?e)) = 2" "XS_HEII (ph_atomic (e_physics ?e)) = 3"
    "c_h_per_mass (e_units ?e) = 1" "c_he_per_mass (e_units ?e) = 1"
    by (simp_all add: deposit_env_def)
  have dim: "0 \<le> fdim db a b" for a b by (simp add: fdim_def db.nonneg)
  obtain be where be: "beam_of ?e 1 = Inr be" "beam_ok be"
    by (simp add: beam_of_def xs cols Let_def) (simp add: beam_ok_def dim db.nonneg)
  have s: "psys_npar (l_psys ?l) = 1" "psys_epoch (l_psys ?l) = psys_epoch demo_psys"
    by (simp_all add: deposit_loop_def demo_met_def demo_loop_def demo_psys_def Let_def psys_of_def)
  have dep: "depositable (l_psys ?l)"
    by (simp add: depositable_def deposit_loop_def demo_met_def demo_loop_def demo_psys_def Let_def psys_of_def
        psys_ok_def arrays_length_def absorber_def pools_at_def particle_at_def)
  have rays: "l_rays ?l = [zero_ray\<lparr>r_Nph := 8, r_freq := 1, r_x := [\<lparr>x_ipar = 0, x_d = 1, x_b = 0\<rparr>]\<rparr>]"
    by (simp add: l_rays_def deposit_loop_def demo_met_def)
  have e: "plain_physics ?e" by (simp add: plain_physics_def cols) (simp add: deposit_env_def)
  have z: "ep_redshift (psys_epoch demo_psys) = 0" by (simp add: demo_psys_def Let_def psys_of_def)
  have bright: "\<forall>p \<in> set (l_rays ?l). bright ?e (l_psys ?l) p"
    using be by (simp add: rays bright_def s)
  have len: "l_r_length ?l \<le> length (l_block ?l)" by (simp add: deposit_loop_def demo_met_def)
  have red: "cfg_comoving (e_config ?e) \<longrightarrow> 0 < db (1 + ep_redshift (psys_epoch (l_psys ?l)))" by (simp add: s z)
  obtain l' where l': "deposit ?e ?l = Inr l'" "list_all2 shortened (l_rays ?l) (l_rays l')"
      "only_pools (l_psys ?l) (l_psys l')" "depositable (l_psys l')"
    by (rule exE [OF deposit_never_fails [OF e dep bright len red]]) (elim conjE, rule that)
  have "map r_length (l_rays l') = [1]"
    using l'(2) by (auto simp: rays shortened_def list_all2_Cons1)
  then show ?thesis by (intro exI [of _ l'] conjI l')
qed

end
