(* ===== verification/Evolution.thy ===== *)
theory Evolution imports Photon_Deposit begin

text \<open>
  The evolution of the particles: \<open>src/src/solve.c\<close> with both integrators (the build defines
  \<open>USE_LSODA\<close>) and \<open>update_pars\<close> of \<open>src/src/loop.c\<close>. LSODA itself is the parameter \<open>e_lsoda\<close>.

  \<open>fetch_vars\<close> is the macro \<open>FETCH_VARS\<close>, its variables the record \<open>fetched\<close>. The vector \<open>x\<close> is a
  list of seven numbers. A reciprocal of a rate may be infinite (the rate is zero); \<open>fmin\<close> ignores
  it, so the time scales are options with \<open>None\<close> for infinity. The conversion of a quotient beyond
  the range of \<open>int\<close> is undefined in C and ends in \<open>No_number\<close> here. The threads share the active
  particles out among them; here one thread takes them in the order of the array, so that its
  \<open>opt.mxstep\<close> and the file-level \<open>mxstep\<close> of \<open>solve.c\<close>, which follows it, are one number.
\<close>

section \<open>The rates\<close>

record evolve =
  ev_lambdaH :: real
  ev_lambdaHeI :: real
  ev_lambdaHeII :: real
  ev_ie :: real
  ev_yeMET :: real
  ev_yGdepHI :: real
  ev_yGdepHeI :: real
  ev_yGdepHeII :: real
  ev_heat :: real
  ev_time :: real
  ev_nH :: real
  ev_T :: real
  ev_yGrecHII :: real
  ev_yGrecHeII :: real
  ev_yGrecHeIII :: real
  ev_step_remain :: real
  ev_refined :: bool
  ev_ipar :: nat

record fetched =
  fv_xHI :: real
  fv_xHII :: real
  fv_xHeI :: real
  fv_xHeII :: real
  fv_xHeIII :: real
  fv_ye :: real
  fv_gamma_HI :: real
  fv_alpha_HII_A :: real
  fv_alpha_HII_B :: real
  fv_alpha_HII_AB :: real
  fv_gamma_HeI :: real
  fv_gamma_HeII :: real
  fv_alpha_HeII_A :: real
  fv_alpha_HeII_B :: real
  fv_alpha_HeII_AB :: real
  fv_alpha_HeIII_A :: real
  fv_alpha_HeIII_B :: real
  fv_alpha_HeIII_AB :: real
  fv_eta_HII :: real
  fv_psi_HI :: real
  fv_zeta_HI :: real
  fv_beta :: real
  fv_chi :: real

definition rate :: "atomic \<Rightarrow> int \<Rightarrow> real \<Rightarrow> real \<Rightarrow> real res" where
  "rate a col logT nH = rbind (ar_get a col logT) (\<lambda>r. Inr (db (r * nH)))"

definition fetch_vars :: "config \<Rightarrow> units \<Rightarrow> atomic \<Rightarrow> evolve \<Rightarrow> real list \<Rightarrow> fetched res" where
  "fetch_vars c u a st x =
     (let ye = db (lambda_to_ye db c (x ! 0) (x ! 1) (x ! 2) + ev_yeMET st); nH = ev_nH st;
          T = (if cfg_isothermal c then ev_T st else ieye2T db c u (x ! 6) ye)
      in rbind (flog10 db T) (\<lambda>logT.
         rbind (rate a (AR_HI_CI a) logT nH) (\<lambda>gamma_HI.
         rbind (rate a (AR_HII_RC_A a) logT nH) (\<lambda>alpha_HII_A.
         rbind (rate a (AR_HII_RC_B a) logT nH) (\<lambda>alpha_HII_B.
         rbind (rate a (AR_HEI_CI a) logT nH) (\<lambda>gamma_HeI.
         rbind (rate a (AR_HEII_CI a) logT nH) (\<lambda>gamma_HeII.
         rbind (rate a (AR_HEII_RC_A a) logT nH) (\<lambda>alpha_HeII_A.
         rbind (rate a (AR_HEII_RC_B a) logT nH) (\<lambda>alpha_HeII_B.
         rbind (rate a (AR_HEIII_RC_A a) logT nH) (\<lambda>alpha_HeIII_A.
         rbind (rate a (AR_HEIII_RC_B a) logT nH) (\<lambda>alpha_HeIII_B.
         rbind (rate a (if cfg_on_the_spot c then AR_HII_RCC_B a else AR_HII_RCC_A a) logT nH) (\<lambda>eta_HII.
         rbind (rate a (AR_HI_CEC a) logT nH) (\<lambda>psi_HI.
         rbind (rate a (AR_HI_CIC a) logT nH) (\<lambda>zeta_HI.
         rbind (rate a (AR_E_BREMC a) logT nH) (\<lambda>beta.
         rbind (ar_get a (AR_E_COMPC a) logT) (\<lambda>chi.
           Inr \<lparr>fv_xHI = lambdaH_to_xHI (x ! 0), fv_xHII = lambdaH_to_xHII db (x ! 0),
             fv_xHeI = lambdaHe_to_xHeI (x ! 1) (x ! 1), fv_xHeII = lambdaHe_to_xHeII (x ! 1) (x ! 2),
             fv_xHeIII = lambdaHe_to_xHeIII db (x ! 1) (x ! 2), fv_ye = ye, fv_gamma_HI = gamma_HI,
             fv_alpha_HII_A = alpha_HII_A, fv_alpha_HII_B = alpha_HII_B,
             fv_alpha_HII_AB = fdim db alpha_HII_A alpha_HII_B,
             fv_gamma_HeI = gamma_HeI, fv_gamma_HeII = gamma_HeII,
             fv_alpha_HeII_A = alpha_HeII_A, fv_alpha_HeII_B = alpha_HeII_B,
             fv_alpha_HeII_AB = fdim db alpha_HeII_A alpha_HeII_B,
             fv_alpha_HeIII_A = alpha_HeIII_A, fv_alpha_HeIII_B = alpha_HeIII_B,
             fv_alpha_HeIII_AB = fdim db alpha_HeIII_A alpha_HeIII_B,
             fv_eta_HII = eta_HII, fv_psi_HI = psi_HI, fv_zeta_HI = zeta_HI, fv_beta = beta,
             fv_chi = chi\<rparr>))))))))))))))))"

text \<open>Products of three factors, and the cooling.\<close>

definition mul3 :: "real \<Rightarrow> real \<Rightarrow> real \<Rightarrow> real" where
  "mul3 x y z = db (db (x * y) * z)"

definition cooling :: "units \<Rightarrow> fetched \<Rightarrow> real" where
  "cooling u v =
     db (c_h_per_mass u
       * db (db (db (mul3 (db (fv_zeta_HI v + fv_psi_HI v)) (fv_ye v) (fv_xHI v)
                     + mul3 (fv_eta_HII v) (fv_ye v) (fv_xHII v))
                 + mul3 (fv_beta v) (fv_ye v) (fv_xHII v))
             + db (fv_chi v * fv_ye v)))"

text \<open>The derivatives before they are multiplied by the time step.\<close>

definition derivatives :: "config \<Rightarrow> units \<Rightarrow> evolve \<Rightarrow> fetched \<Rightarrow> real list res" where
  "derivatives c u st v =
     (let ye = fv_ye v; spot = cfg_on_the_spot c;
          aHII = (if spot then fv_alpha_HII_B v else fv_alpha_HII_A v);
          aHeII = (if spot then fv_alpha_HeII_B v else fv_alpha_HeII_A v);
          aHeIII = (if spot then fv_alpha_HeIII_B v else fv_alpha_HeIII_A v);
          x1 = (if spot then fv_xHI v else fv_xHeI v); x2 = (if spot then fv_xHI v else fv_xHeII v);
          over = (\<lambda>y. fdiv db (- y) (ev_time st));
          d3 = (if spot then 0 else mul3 (fv_alpha_HII_AB v) ye (fv_xHII v));
          d4 = (if spot \<or> cfg_h_only c then 0 else mul3 (fv_alpha_HeII_AB v) ye (fv_xHeII v));
          d5 = (if spot \<or> cfg_h_only c then 0 else mul3 (fv_alpha_HeIII_AB v) ye (fv_xHeIII v))
      in rbind (over (ev_yGdepHI st)) (\<lambda>q0.
         rbind (over (ev_yGdepHeI st)) (\<lambda>q1.
         rbind (over (ev_yGdepHeII st)) (\<lambda>q2.
         rbind (fdiv db (ev_heat st) (ev_time st)) (\<lambda>h.
           let d0 = db (q0 + db (mul3 (- fv_gamma_HI v) ye (fv_xHI v) + mul3 aHII ye (fv_xHII v)));
               d1 = (if cfg_h_only c then 0
                     else db (q1 + db (mul3 (- fv_gamma_HeI v) ye x1 + mul3 aHeII ye (fv_xHeII v))));
               d2 = (if cfg_h_only c then 0
                     else db (q2 + db (db (mul3 (- fv_gamma_HeII v) ye x2 - mul3 aHeII ye (fv_xHeII v))
                                       + mul3 aHeIII ye (fv_xHeIII v))));
               d6 = (if cfg_adiabatic c \<or> cfg_isothermal c then 0 else db (h - cooling u v))
           in Inr [d0, d1, d2, d3, d4, d5, d6])))))"

definition function_rhs :: "config \<Rightarrow> units \<Rightarrow> atomic \<Rightarrow> evolve \<Rightarrow> real list \<Rightarrow> real list res" where
  "function_rhs c u a st x =
     rbind (fetch_vars c u a st x) (\<lambda>v.
     rbind (derivatives c u st v) (\<lambda>ds.
       let dxdt = map (\<lambda>d. db (d * ev_time st)) ds
       in if db (x ! 6 + dxdt ! 6) < 0 then Inl (Trap ''x[6] < 0'') else Inr dxdt))"

section \<open>The Euler integrator\<close>

definition recip :: "real \<Rightarrow> real option" where
  "recip r = (if r = 0 then None else Some (db (1 / r)))"

definition fmin_inf :: "real option \<Rightarrow> real option \<Rightarrow> real option" where
  "fmin_inf p q = (case p of None \<Rightarrow> q | Some x \<Rightarrow> (case q of None \<Rightarrow> p | Some y \<Rightarrow> Some (min x y)))"

definition internal_time :: "config \<Rightarrow> fetched \<Rightarrow> real \<Rightarrow> real" where
  "internal_time c v time =
     (let rectime = recip (fv_alpha_HII_A v); iontime = recip (fv_gamma_HI v);
          rectime = (if cfg_h_only c then rectime
            else fmin_inf (fmin_inf rectime (recip (fv_alpha_HeII_A v))) (recip (fv_alpha_HeIII_A v)));
          iontime = (if cfg_h_only c then iontime
            else fmin_inf (fmin_inf iontime (recip (fv_gamma_HeI v))) (recip (fv_gamma_HeII v)))
      in case fmin_inf rectime iontime of None \<Rightarrow> time | Some r \<Rightarrow> min (db (r / 200)) time)"

definition step_count :: "real \<Rightarrow> real \<Rightarrow> int res" where
  "step_count time internal =
     rbind (fdiv db time internal) (\<lambda>q.
       if trunc q < - (2 ^ 31) \<or> 2 ^ 31 \<le> trunc q then Inl No_number
       else Inr (min (trunc q) 10000))"

text \<open>The test after a step of the integrator: the ionization left its range.\<close>

definition out_of_range :: "real list \<Rightarrow> bool" where
  "out_of_range x \<longleftrightarrow>
     list_ex (\<lambda>y. y < 0 \<or> 1 < y) (take 3 x) \<or> db (db (1 - x ! 1) - x ! 2) < 0"

fun euler_steps :: "(real list \<Rightarrow> real list res) \<Rightarrow> real \<Rightarrow> nat \<Rightarrow> nat \<Rightarrow> real list \<Rightarrow> (real list \<times> nat) res" where
  "euler_steps f internal_step 0 k x = Inr (x, k)"
| "euler_steps f internal_step (Suc n) k x =
     rbind (f x) (\<lambda>dxdt.
       let x' = map2 (\<lambda>y d. db (y + db (d * internal_step))) x dxdt
       in if out_of_range x' then Inr (x', k + 1) else euler_steps f internal_step n (k + 1) x')"

definition start_vector :: "evolve \<Rightarrow> real list" where
  "start_vector st = [ev_lambdaH st, ev_lambdaHeI st, ev_lambdaHeII st,
     ev_yGrecHII st, ev_yGrecHeII st, ev_yGrecHeIII st, ev_ie st]"

definition step_evolve_euler :: "config \<Rightarrow> units \<Rightarrow> atomic \<Rightarrow> evolve \<Rightarrow> (bool \<times> evolve) res" where
  "step_evolve_euler c u a st =
     (if 1 < ev_yGrecHII st then Inl (Trap ''ygrecHII too big to start with'')
      else
        rbind (fetch_vars c u a st (start_vector st)) (\<lambda>v.
        rbind (step_count (ev_time st) (internal_time c v (ev_time st))) (\<lambda>nsteps.
        rbind (fdiv db 1 (of_int nsteps)) (\<lambda>internal_step.
        rbind (euler_steps (function_rhs c u a st) internal_step (nat nsteps) 0 (start_vector st)) (\<lambda>(x, k).
          if 1 < x ! 3 then Inl (Trap ''yGrecHII grows > 1.0 after'')
          else Inr (True, st\<lparr>ev_refined := ev_refined st \<or> 1 < nsteps,
                 ev_lambdaH := x ! 0, ev_lambdaHeI := x ! 1, ev_lambdaHeII := x ! 2,
                 ev_yGrecHII := x ! 3, ev_yGrecHeII := x ! 4, ev_yGrecHeIII := x ! 5, ev_ie := x ! 6,
                 ev_step_remain := db (1 - fl (fl (real k) / fl (of_int nsteps)))\<rparr>))))))"

section \<open>LSODA\<close>

definition step_evolve_prepare :: "nat \<Rightarrow> lsoda_opt" where
  "step_evolve_prepare mxstep = \<lparr>lo_ixpr = 0, lo_mxstep = mxstep, lo_itask = 1,
     lo_rtol = replicate 7 (db (1 / 10 ^ 4)), lo_atol = replicate 6 (db (1 / 10 ^ 7)) @ [1]\<rparr>"

text \<open>
  The calls of LSODA with more and more steps. \<open>mxstep\<close> is an \<open>int\<close> that starts at 1000 and is only
  ever doubled, so it is never zero, and its overflow ends the loop. The rates are fetched again
  for a message.
\<close>

function lsoda_loop :: "lsoda \<Rightarrow> (real list \<Rightarrow> real list res) \<Rightarrow> (real list \<Rightarrow> fetched res) \<Rightarrow> nat
    \<Rightarrow> real list \<Rightarrow> real \<Rightarrow> (real list \<times> nat) res" where
  "lsoda_loop solver f fetch mxstep x t =
     rbind (solver f (step_evolve_prepare mxstep) x t 1) (\<lambda>(x', t', state).
       if state = - 1 then
         rbind (fetch x') (\<lambda>_.
           if mxstep = 0 \<or> 2 ^ 31 \<le> 2 * mxstep then Inl No_number
           else if t' < 1 then lsoda_loop solver f fetch (2 * mxstep) x' t'
           else Inl (Trap ''lsoda failed''))
       else if state = 2 then Inr (x', mxstep)
       else Inl (Trap ''lsoda failed''))"
  by pat_completeness auto
termination by (relation "measure (\<lambda>(_, _, _, mxstep, _, _). 2 ^ 31 - mxstep)") auto

declare lsoda_loop.simps [simp del]

definition lsoda_clamped :: "real list \<Rightarrow> real list" where
  "lsoda_clamped x =
     (let x1 = min 1 (max 0 (x ! 1))
      in [min 1 (max 0 (x ! 0)), x1, min (db (1 - x1)) (max 0 (x ! 2)), max 0 (x ! 3), max 0 (x ! 4),
          max 0 (x ! 5), x ! 6])"

definition step_evolve_lsoda :: "config \<Rightarrow> units \<Rightarrow> atomic \<Rightarrow> lsoda \<Rightarrow> nat \<Rightarrow> evolve
    \<Rightarrow> (bool \<times> evolve \<times> nat) res" where
  "step_evolve_lsoda c u a solver mxstep st =
     rbind (lsoda_loop solver (function_rhs c u a st) (fetch_vars c u a st) mxstep (start_vector st) 0) (\<lambda>(x, m).
       let x = lsoda_clamped x
       in Inr (True, st\<lparr>ev_lambdaH := x ! 0, ev_lambdaHeI := x ! 1, ev_lambdaHeII := x ! 2,
                 ev_yGrecHII := x ! 3, ev_yGrecHeII := x ! 4, ev_yGrecHeIII := x ! 5, ev_ie := x ! 6,
                 ev_step_remain := 0\<rparr>, m))"

definition USE_LSODA :: bool where "USE_LSODA = True"

definition step_evolve :: "config \<Rightarrow> units \<Rightarrow> atomic \<Rightarrow> lsoda \<Rightarrow> nat \<Rightarrow> evolve \<Rightarrow> (bool \<times> evolve \<times> nat) res" where
  "step_evolve c u a solver mxstep st =
     (if USE_LSODA then step_evolve_lsoda c u a solver mxstep st
      else rbind (step_evolve_euler c u a st) (\<lambda>(ok, st'). Inr (ok, st', mxstep)))"

section \<open>Updating the particles\<close>

definition step_temperature :: "'g env \<Rightarrow> psystem \<Rightarrow> nat \<Rightarrow> real \<Rightarrow> real res" where
  "step_temperature e s k rho =
     (let c = e_config e; u = e_units e; eos = ph_eos (e_physics e)
      in if 0 < cfg_fake_temperature c then
           rbind (if cfg_enable_eos c then eos_get_cloud_fraction eos rho else Inr 0)
             (\<lambda>_. Inr (cfg_fake_temperature c))
         else if cfg_enable_eos c then
           rbind (eos_get_cloud_fraction eos rho) (\<lambda>x.
             if 0 < x then rbind (eos_get_egyhot eos rho) (\<lambda>hot. Inr (ieye2T db c u hot (psys_ye c s k)))
             else Inr (psys_T c u s k))
         else Inr (psys_T c u s k))"

definition load_step :: "'g env \<Rightarrow> psystem \<Rightarrow> nat \<Rightarrow> real \<Rightarrow> real \<Rightarrow> evolve" where
  "load_step e s k rho T =
     \<lparr>ev_lambdaH = psys_lambdaH s ! k, ev_lambdaHeI = psys_lambdaHeI s ! k, ev_lambdaHeII = psys_lambdaHeII s ! k,
      ev_ie = psys_ie s ! k, ev_yeMET = psys_yeMET s ! k, ev_yGdepHI = psys_yGdepHI s ! k,
      ev_yGdepHeI = psys_yGdepHeI s ! k, ev_yGdepHeII = psys_yGdepHeII s ! k, ev_heat = psys_heat s ! k,
      ev_time = db (of_int (psys_tick s - psys_lasthit s ! k) * psys_tick_time s),
      ev_nH = db (c_h_per_mass (e_units e) * rho), ev_T = T, ev_yGrecHII = psys_yGrecHII s ! k,
      ev_yGrecHeII = psys_yGrecHeII s ! k, ev_yGrecHeIII = psys_yGrecHeIII s ! k,
      ev_step_remain = 0, ev_refined = False, ev_ipar = k\<rparr>"

definition clamp :: "real \<Rightarrow> real \<Rightarrow> real" where
  "clamp hi y = max 0 (min hi y)"

definition store_step :: "config \<Rightarrow> units \<Rightarrow> nat \<Rightarrow> evolve \<Rightarrow> psystem \<Rightarrow> psystem" where
  "store_step c u k st s =
     (let scale = (\<lambda>ys. ys[k := fl (db (ys ! k * ev_step_remain st))]);
          heI = clamp 1 (ev_lambdaHeI st);
          s1 = s\<lparr>psys_yGdepHI := scale (psys_yGdepHI s), psys_yGdepHeI := scale (psys_yGdepHeI s),
             psys_yGdepHeII := scale (psys_yGdepHeII s),
             psys_yGrecHII := (psys_yGrecHII s)[k := fl (ev_yGrecHII st)],
             psys_yGrecHeII := (psys_yGrecHeII s)[k := fl (ev_yGrecHeII st)],
             psys_yGrecHeIII := (psys_yGrecHeIII s)[k := fl (ev_yGrecHeIII st)],
             psys_lambdaH := (psys_lambdaH s)[k := clamp 1 (ev_lambdaH st)],
             psys_lambdaHeI := (psys_lambdaHeI s)[k := heI],
             psys_lambdaHeII := (psys_lambdaHeII s)[k := clamp (db (1 - heI)) (ev_lambdaHeII st)],
             psys_ie := (if cfg_adiabatic c then psys_ie s else (psys_ie s)[k := fl (ev_ie st)]),
             psys_lasthit := (psys_lasthit s)[k := psys_tick s]\<rparr>
      in s1\<lparr>psys_ie := (if cfg_isothermal c then (psys_ie s1)[k := fl (Tye2ie db c u (ev_T st) (psys_ye c s1 k))]
                       else psys_ie s1),
            psys_heat := (psys_heat s1)[k := 0]\<rparr>)"

definition recombined :: "psystem \<Rightarrow> nat \<Rightarrow> evolve \<Rightarrow> real \<Rightarrow> real \<Rightarrow> real \<Rightarrow> real" where
  "recombined s k st NH NHe recs =
     (let more = (\<lambda>acc new old N. db (acc + db (db (new - old) * N)))
      in more (more (more recs (ev_yGrecHII st) (psys_yGrecHII s ! k) NH)
               (ev_yGrecHeII st) (psys_yGrecHeII s ! k) NHe) (ev_yGrecHeIII st) (psys_yGrecHeIII s ! k) NHe)"

text \<open>The counters of the loop (failures, particles, recombination photons) and the step limit of LSODA.\<close>

record update_tally =
  ut_failed :: nat
  ut_done :: nat
  ut_recombined :: real
  ut_refined :: nat
  ut_mxstep :: nat

definition update_par :: "'g env \<Rightarrow> real \<Rightarrow> nat \<Rightarrow> psystem \<Rightarrow> update_tally \<Rightarrow> (psystem \<times> update_tally) res" where
  "update_par e fac3 k s t =
     (let c = e_config e; u = e_units e; rho = db (psys_rho s ! k * fac3)
      in if k \<ge> psys_npar s then Inl Out_of_bounds
         else
           rbind (thin e rho (psys_NH u s k)) (\<lambda>NH.
           rbind (thin e rho (psys_NHe u s k)) (\<lambda>NHe.
           rbind (step_temperature e s k rho) (\<lambda>T.
           rbind (step_evolve c u (ph_atomic (e_physics e)) (e_lsoda e) (ut_mxstep t) (load_step e s k rho T)) (\<lambda>(ok, st, m).
             if \<not> ok then Inr (s, t\<lparr>ut_failed := ut_failed t + 1, ut_done := ut_done t + 1, ut_mxstep := m\<rparr>)
             else Inr (store_step c u k st s,
                    t\<lparr>ut_refined := (if ev_refined st then ut_refined t + 1 else ut_refined t),
                      ut_recombined := recombined s k st NH NHe (ut_recombined t),
                      ut_done := ut_done t + 1, ut_mxstep := m\<rparr>))))))"

fun update_all :: "'g env \<Rightarrow> real \<Rightarrow> nat list \<Rightarrow> psystem \<Rightarrow> update_tally \<Rightarrow> (psystem \<times> update_tally) res" where
  "update_all e fac3 [] s t = Inr (s, t)"
| "update_all e fac3 (k # ks) s t =
     rbind (update_par e fac3 k s t) (\<lambda>(s', t'). update_all e fac3 ks s' t')"

definition update_pars :: "'g env \<Rightarrow> 'g loop \<Rightarrow> 'g loop res" where
  "update_pars e l =
     rbind (scaling_fac (e_config e) (l_psys l)) (\<lambda>f.
     rbind (scaling_fac3_inv f) (\<lambda>fac3.
     rbind (update_all e fac3 (l_active_set l) (l_psys l)
              \<lparr>ut_failed = 0, ut_done = 0, ut_recombined = 0, ut_refined = 0, ut_mxstep = l_mxstep l\<rparr>) (\<lambda>(s, t).
       let st = l_stat l
       in Inr (l\<lparr>l_psys := s, l_stat := st\<lparr>gsl_errors := gsl_errors st + ut_failed t,
            evolves := evolves st + ut_done t, rec_photon_sum := db (rec_photon_sum st + ut_recombined t),
            fast_recombinations := fast_recombinations st + ut_refined t\<rparr>, l_mxstep := ut_mxstep t\<rparr>))))"


section \<open>What an update preserves\<close>

text \<open>The part of the system that no tick of the run changes.\<close>

definition fixed_part where
  "fixed_part s = (psys_pos s, psys_yeMET s, psys_mass s, psys_sml s, psys_rho s, psys_flag s,
     (psys_npar s, psys_npar_max s, psys_id s, psys_boxsize s, psys_periodic s, psys_tick_time s, psys_epoch s))"

definition ionization_ok :: "psystem \<Rightarrow> bool" where
  "ionization_ok s \<longleftrightarrow> (\<forall>k < psys_npar s. 0 \<le> psys_lambdaH s ! k \<and> psys_lambdaH s ! k \<le> 1
     \<and> 0 \<le> psys_lambdaHeI s ! k \<and> psys_lambdaHeI s ! k \<le> 1
     \<and> 0 \<le> psys_lambdaHeII s ! k \<and> psys_lambdaHeII s ! k \<le> db (1 - psys_lambdaHeI s ! k))"

text \<open>No pool is negative, and every pool is a \<open>float\<close>.\<close>

definition pools_nonneg :: "psystem \<Rightarrow> bool" where
  "pools_nonneg s \<longleftrightarrow> (\<forall>k < psys_npar s. list_all (\<lambda>y. 0 \<le> y \<and> fl y = y) (fst (pools_at s k)))"

lemma clamp_bounds: "0 \<le> hi \<Longrightarrow> 0 \<le> clamp hi y \<and> clamp hi y \<le> hi"
  by (simp add: clamp_def)

lemma store_step_result:
  assumes ok: "psys_ok s" and k: "k < psys_npar s"
  shows "psys_ok (store_step c u k st s)" and "fixed_part (store_step c u k st s) = fixed_part s"
    and "psys_tick (store_step c u k st s) = psys_tick s" and "psys_srcs (store_step c u k st s) = psys_srcs s"
    and "j \<noteq> k \<Longrightarrow> par (store_step c u k st s) j = par s j"
    and "psys_lasthit (store_step c u k st s) ! k = psys_tick s"
    and "psys_lambdaH (store_step c u k st s) ! k = clamp 1 (ev_lambdaH st)"
    and "psys_lambdaHeI (store_step c u k st s) ! k = clamp 1 (ev_lambdaHeI st)"
    and "psys_lambdaHeII (store_step c u k st s) ! k = clamp (db (1 - clamp 1 (ev_lambdaHeI st))) (ev_lambdaHeII st)"
    and "pools_at (store_step c u k st s) k =
      ([fl (db (psys_yGdepHI s ! k * ev_step_remain st)), fl (db (psys_yGdepHeI s ! k * ev_step_remain st)),
        fl (db (psys_yGdepHeII s ! k * ev_step_remain st)), 0], psys_hits s ! k)"
proof -
  have len: "arrays_length s (psys_npar_max s)" "k < psys_npar_max s"
    using ok k by (simp_all add: psys_ok_def)
  show "psys_ok (store_step c u k st s)"
    using ok by (simp add: store_step_def Let_def psys_ok_def arrays_length_def)
  show "fixed_part (store_step c u k st s) = fixed_part s" "psys_tick (store_step c u k st s) = psys_tick s"
    "psys_srcs (store_step c u k st s) = psys_srcs s"
    by (simp_all add: store_step_def Let_def fixed_part_def)
  show "par (store_step c u k st s) j = par s j" if "j \<noteq> k"
    using that by (simp add: store_step_def Let_def par_def)
  show "psys_lasthit (store_step c u k st s) ! k = psys_tick s"
    "psys_lambdaH (store_step c u k st s) ! k = clamp 1 (ev_lambdaH st)"
    "psys_lambdaHeI (store_step c u k st s) ! k = clamp 1 (ev_lambdaHeI st)"
    "psys_lambdaHeII (store_step c u k st s) ! k = clamp (db (1 - clamp 1 (ev_lambdaHeI st))) (ev_lambdaHeII st)"
    "pools_at (store_step c u k st s) k =
      ([fl (db (psys_yGdepHI s ! k * ev_step_remain st)), fl (db (psys_yGdepHeI s ! k * ev_step_remain st)),
        fl (db (psys_yGdepHeII s ! k * ev_step_remain st)), 0], psys_hits s ! k)"
    using len by (simp_all add: store_step_def Let_def pools_at_def arrays_length_def)
qed

lemma euler_steps_count:
  "euler_steps f h n k x = Inr (x', k') \<Longrightarrow> k \<le> k' \<and> k' \<le> k + n \<and> (0 < n \<longrightarrow> k < k')"
proof (induction n arbitrary: k x)
  case (Suc n)
  then obtain d where "f x = Inr d" by (auto simp: rbind_Inr_iff)
  with Suc.prems show ?case
    using Suc.IH [of "Suc k"] by (fastforce simp: Let_def split: if_split_asm)
qed simp

lemma euler_remain:
  assumes "step_evolve_euler c u a st = Inr (ok, st')"
  shows "ok" and "0 \<le> ev_step_remain st'" and "ev_step_remain st' \<le> 1" and "ev_yGrecHII st' \<le> 1"
proof -
  obtain v nsteps h x k where n: "step_count (ev_time st) (internal_time c v (ev_time st)) = Inr nsteps"
      "fdiv db 1 (of_int nsteps) = Inr h"
      and steps: "euler_steps (function_rhs c u a st) h (nat nsteps) 0 (start_vector st) = Inr (x, k)"
      and le: "\<not> 1 < x ! 3" and ok: "ok"
      and st': "st' = st\<lparr>ev_refined := ev_refined st \<or> 1 < nsteps,
                 ev_lambdaH := x ! 0, ev_lambdaHeI := x ! 1, ev_lambdaHeII := x ! 2,
                 ev_yGrecHII := x ! 3, ev_yGrecHeII := x ! 4, ev_yGrecHeIII := x ! 5, ev_ie := x ! 6,
                 ev_step_remain := db (1 - fl (fl (real k) / fl (of_int nsteps)))\<rparr>"
    using assms by (auto simp: step_evolve_euler_def rbind_Inr_iff split: if_split_asm)
  have k: "real k \<le> real (nat nsteps)" using euler_steps_count [OF steps] by simp
  have "0 \<le> fl (fl (real k) / fl (of_int nsteps)) \<and> fl (fl (real k) / fl (of_int nsteps)) \<le> 1"
  proof (cases "0 < nsteps")
    case True
    have "0 < fl (of_int nsteps)" using True by (intro fl_pos) simp
    moreover have "fl (real k) \<le> fl (of_int nsteps)" using k True by (intro fl.mono) simp
    moreover have "0 \<le> fl (real k)" by (rule fl.nonneg) simp
    ultimately have "0 \<le> fl (real k) / fl (of_int nsteps)" "fl (real k) / fl (of_int nsteps) \<le> 1" by simp_all
    then show ?thesis by (simp add: fl.nonneg fl.le_one)
  qed (use k in simp)
  then show "0 \<le> ev_step_remain st'" "ev_step_remain st' \<le> 1"
    by (simp_all add: st' db.nonneg db.le_one)
  show "ok" "ev_yGrecHII st' \<le> 1" using ok le by (simp_all add: st')
qed

text \<open>What \<open>update_pars\<close> relies on, for either integrator.\<close>

lemma step_evolve_remain:
  assumes "step_evolve c u a solver mxstep st = Inr (ok, st', m)"
  shows "ok" and "0 \<le> ev_step_remain st'" and "ev_step_remain st' \<le> 1"
  using assms euler_remain [of c u a st ok st']
  by (auto simp: step_evolve_def step_evolve_lsoda_def rbind_Inr_iff Let_def split: if_split_asm)

lemma fl_shrink:
  assumes "0 \<le> y" "fl y = y" "0 \<le> r" "r \<le> 1"
  shows "0 \<le> fl (db (y * r))" and "fl (db (y * r)) \<le> y"
proof -
  have "y * r \<le> y" using mult_left_mono [of r 1 y] assms by simp
  then have "db (y * r) \<le> y" using fl_exact_db [OF assms(2)] by (intro db.le_exact) simp_all
  then show "fl (db (y * r)) \<le> y" using assms(2) by (intro fl.le_exact) simp_all
  show "0 \<le> fl (db (y * r))" using assms by (intro fl.nonneg db.nonneg) simp
qed

text \<open>One update, as a relation between the systems before and after.\<close>

definition shrunk :: "psystem \<Rightarrow> psystem \<Rightarrow> bool" where
  "shrunk s s' \<longleftrightarrow> (\<forall>k < psys_npar s. list_all2 (\<le>) (fst (pools_at s' k)) (fst (pools_at s k)))"

definition updated :: "nat set \<Rightarrow> psystem \<Rightarrow> psystem \<Rightarrow> bool" where
  "updated K s s' \<longleftrightarrow> psys_ok s' \<and> fixed_part s' = fixed_part s \<and> psys_tick s' = psys_tick s \<and> psys_srcs s' = psys_srcs s
     \<and> ionization_ok s' \<and> pools_nonneg s' \<and> shrunk s s'
     \<and> (\<forall>k \<in> K. psys_heat s' ! k = 0 \<and> psys_lasthit s' ! k = psys_tick s)
     \<and> (\<forall>k. k \<notin> K \<longrightarrow> par s' k = par s k)"

lemma fixed_part_npar: "fixed_part s' = fixed_part s \<Longrightarrow> psys_npar s' = psys_npar s"
  by (simp add: fixed_part_def)

lemma par_fields:
  assumes "par s' k = par s k"
  shows "pools_at s' k = pools_at s k" "psys_lambdaH s' ! k = psys_lambdaH s ! k"
    "psys_lambdaHeI s' ! k = psys_lambdaHeI s ! k" "psys_lambdaHeII s' ! k = psys_lambdaHeII s ! k"
    "psys_heat s' ! k = psys_heat s ! k" "psys_lasthit s' ! k = psys_lasthit s ! k"
  using assms by (simp_all add: par_def pools_at_def)

lemma update_par_stores:
  assumes up: "update_par e fac3 k s t = Inr (s', t')"
  shows "k < psys_npar s" and "\<exists>st. s' = store_step (e_config e) (e_units e) k st s
    \<and> 0 \<le> ev_step_remain st \<and> ev_step_remain st \<le> 1"
proof -
  show "k < psys_npar s" using up by (auto simp: update_par_def Let_def split: if_split_asm)
  obtain T good st m where st: "step_evolve (e_config e) (e_units e) (ph_atomic (e_physics e)) (e_lsoda e)
        (ut_mxstep t) (load_step e s k (db (psys_rho s ! k * fac3)) T) = Inr (good, st, m)"
      and s': "good \<Longrightarrow> s' = store_step (e_config e) (e_units e) k st s"
    using up by (auto simp: update_par_def Let_def rbind_Inr_iff split: if_split_asm)
  note remain = step_evolve_remain [OF st]
  show "\<exists>st. s' = store_step (e_config e) (e_units e) k st s \<and> 0 \<le> ev_step_remain st \<and> ev_step_remain st \<le> 1"
    using s' [OF remain(1)] remain(2,3) by blast
qed

lemma store_step_ionization:
  assumes "psys_ok s" "k < psys_npar s" "ionization_ok s"
  shows "ionization_ok (store_step c u k st s)"
  unfolding ionization_ok_def
proof (intro allI impI)
  note store = store_step_result [OF assms(1,2), where c = c and u = u and st = st]
  fix j assume "j < psys_npar (store_step c u k st s)"
  then have j: "j < psys_npar s" using fixed_part_npar [OF store(2)] by simp
  show "0 \<le> psys_lambdaH (store_step c u k st s) ! j \<and> psys_lambdaH (store_step c u k st s) ! j \<le> 1
     \<and> 0 \<le> psys_lambdaHeI (store_step c u k st s) ! j \<and> psys_lambdaHeI (store_step c u k st s) ! j \<le> 1
     \<and> 0 \<le> psys_lambdaHeII (store_step c u k st s) ! j
     \<and> psys_lambdaHeII (store_step c u k st s) ! j \<le> db (1 - psys_lambdaHeI (store_step c u k st s) ! j)"
  proof (cases "j = k")
    case True
    have "0 \<le> db (1 - clamp 1 (ev_lambdaHeI st))" by (rule db.nonneg) (simp add: clamp_def)
    then show ?thesis unfolding True store(7-9) by (simp add: clamp_bounds)
  next
    case False
    then show ?thesis using assms(3) j by (simp add: ionization_ok_def par_fields [OF store(5) [OF False]])
  qed
qed

lemma update_par_result:
  assumes up: "update_par e fac3 k s t = Inr (s', t')" and ok: "psys_ok s" "ionization_ok s" "pools_nonneg s"
  shows "updated {k} s s'"
proof -
  note k = update_par_stores(1) [OF up]
  obtain st where s': "s' = store_step (e_config e) (e_units e) k st s"
      and remain: "0 \<le> ev_step_remain st" "ev_step_remain st \<le> 1"
    using update_par_stores(2) [OF up] by blast
  note store = store_step_result [OF ok(1) k, where c = "e_config e" and u = "e_units e" and st = st, folded s']
  have npar: "psys_npar s' = psys_npar s" by (rule fixed_part_npar [OF store(2)])
  have ion: "ionization_ok s'" unfolding s' by (rule store_step_ionization [OF ok(1) k ok(2)])
  have here: "list_all (\<lambda>y. 0 \<le> y \<and> fl y = y) (fst (pools_at s' k))"
    "list_all2 (\<le>) (fst (pools_at s' k)) (fst (pools_at s k))"
    unfolding store(10) fst_conv
    using ok(3) k remain by (simp_all add: pools_nonneg_def pools_at_def fl_shrink)
  have pools: "pools_nonneg s'"
    unfolding pools_nonneg_def npar
    using here(1) ok(3) store(5) by (metis pools_nonneg_def par_fields(1))
  have "shrunk s s'"
    unfolding shrunk_def using here(2) store(5) by (metis par_fields(1) list_all2_refl order_refl)
  moreover have "psys_heat s' ! k = 0" using store(10) by (simp add: pools_at_def)
  ultimately show "updated {k} s s'"
    using store ion pools by (simp add: updated_def)
qed


lemma updated_trans:
  assumes "updated K s s1" and "updated K' s1 s2"
  shows "updated (K \<union> K') s s2"
proof -
  have s1: "fixed_part s1 = fixed_part s" "psys_tick s1 = psys_tick s" "psys_srcs s1 = psys_srcs s"
    "\<And>k. k \<notin> K \<Longrightarrow> par s1 k = par s k"
    "\<And>k. k \<in> K \<Longrightarrow> psys_heat s1 ! k = 0 \<and> psys_lasthit s1 ! k = psys_tick s"
    and le1: "\<And>k. k < psys_npar s \<Longrightarrow> list_all2 (\<le>) (fst (pools_at s1 k)) (fst (pools_at s k))"
    using assms(1) unfolding updated_def shrunk_def by blast+
  have npar: "psys_npar s1 = psys_npar s" by (rule fixed_part_npar [OF s1(1)])
  have s2: "psys_ok s2" "ionization_ok s2" "pools_nonneg s2" "fixed_part s2 = fixed_part s" "psys_tick s2 = psys_tick s"
    "psys_srcs s2 = psys_srcs s" "\<And>k. k \<notin> K' \<Longrightarrow> par s2 k = par s1 k"
    "\<And>k. k \<in> K' \<Longrightarrow> psys_heat s2 ! k = 0 \<and> psys_lasthit s2 ! k = psys_tick s"
    and le2: "\<And>k. k < psys_npar s \<Longrightarrow> list_all2 (\<le>) (fst (pools_at s2 k)) (fst (pools_at s1 k))"
    using assms(2) unfolding updated_def shrunk_def npar s1(1-3) by blast+
  have "shrunk s s2"
    unfolding shrunk_def
  proof (intro allI impI)
    fix k assume k: "k < psys_npar s"
    show "list_all2 (\<le>) (fst (pools_at s2 k)) (fst (pools_at s k))"
      by (rule list_all2_trans [OF _ le2 [OF k] le1 [OF k]]) (rule order_trans)
  qed
  moreover have "psys_heat s2 ! k = 0 \<and> psys_lasthit s2 ! k = psys_tick s" if "k \<in> K \<union> K'" for k
  proof (cases "k \<in> K'")
    case False
    then show ?thesis using that s1(5) par_fields(5,6) [OF s2(7) [OF False]] by simp
  qed (rule s2(8))
  moreover have "par s2 k = par s k" if "k \<notin> K \<union> K'" for k using that s1(4) s2(7) by simp
  ultimately show ?thesis unfolding updated_def using s2(1-6) by blast
qed

lemma update_all_result:
  "update_all e fac3 ks s t = Inr (s', t') \<Longrightarrow> psys_ok s \<Longrightarrow> ionization_ok s \<Longrightarrow> pools_nonneg s \<Longrightarrow>
   updated (set ks) s s' \<and> set ks \<subseteq> {..<psys_npar s}"
proof (induction ks arbitrary: s t)
  case (Cons k ks)
  obtain s1 t1 where one: "update_par e fac3 k s t = Inr (s1, t1)" and rest: "update_all e fac3 ks s1 t1 = Inr (s', t')"
    using Cons.prems(1) by (auto simp: rbind_Inr_iff)
  have u: "updated {k} s s1" "k < psys_npar s"
    using update_par_result [OF one] update_par_stores(1) [OF one] Cons.prems(2-4) by blast+
  then have ok: "psys_ok s1" "ionization_ok s1" "pools_nonneg s1" "psys_npar s1 = psys_npar s"
    unfolding updated_def by (blast dest: fixed_part_npar)+
  have r: "updated (set ks) s1 s' \<and> set ks \<subseteq> {..<psys_npar s1}"
    by (rule Cons.IH [OF rest ok(1-3)])
  have "updated ({k} \<union> set ks) s s'" by (rule updated_trans [OF u(1)]) (use r in blast)
  then show ?case using r u(2) ok(4) by simp
qed (simp add: updated_def shrunk_def list_all2_refl)

text \<open>Without any assumption about the pools: the ionization stays in range.\<close>

lemma update_all_keeps:
  "update_all e fac3 ks s t = Inr (s', t') \<Longrightarrow> psys_ok s \<Longrightarrow>
   psys_ok s' \<and> (ionization_ok s \<longrightarrow> ionization_ok s') \<and> fixed_part s' = fixed_part s \<and> psys_tick s' = psys_tick s"
proof (induction ks arbitrary: s t)
  case (Cons k ks)
  obtain s1 t1 where one: "update_par e fac3 k s t = Inr (s1, t1)" and rest: "update_all e fac3 ks s1 t1 = Inr (s', t')"
    using Cons.prems(1) by (auto simp: rbind_Inr_iff)
  note k = update_par_stores(1) [OF one]
  obtain st where s1: "s1 = store_step (e_config e) (e_units e) k st s"
    using update_par_stores(2) [OF one] by blast
  note store = store_step_result(1-3) [OF Cons.prems(2) k, where c = "e_config e" and u = "e_units e" and st = st, folded s1]
  have "ionization_ok s \<longrightarrow> ionization_ok s1" unfolding s1 using store_step_ionization [OF Cons.prems(2) k] by blast
  then show ?case using Cons.IH [OF rest store(1)] store(2,3) by simp
qed simp

text \<open>
  C31. Whenever \<open>update_pars\<close> ends without an error, the ionization of every particle is in its range
  (whatever either integrator returned), no pool of absorbed photons has become negative or has
  grown, every active particle has its heat consumed and its last hit set to the present tick,
  every other particle is unchanged in all its fields, and so are positions, masses and the rest
  of the system.
\<close>

theorem update_pars_keeps_state:
  assumes "update_pars e l = Inr l'" and "psys_ok (l_psys l)" "ionization_ok (l_psys l)" "pools_nonneg (l_psys l)"
  shows "updated (set (l_active_set l)) (l_psys l) (l_psys l') \<and> set (l_active_set l) \<subseteq> {..<psys_npar (l_psys l)}
    \<and> l' = l\<lparr>l_psys := l_psys l', l_stat := l_stat l', l_mxstep := l_mxstep l'\<rparr>"
proof -
  obtain f fac3 s t where up: "update_all e fac3 (l_active_set l) (l_psys l)
        \<lparr>ut_failed = 0, ut_done = 0, ut_recombined = 0, ut_refined = 0, ut_mxstep = l_mxstep l\<rparr> = Inr (s, t)"
      and l': "l' = l\<lparr>l_psys := s, l_stat := l_stat l', l_mxstep := l_mxstep l'\<rparr>"
    using assms(1) by (auto simp: update_pars_def rbind_Inr_iff Let_def)
  have "l_psys l' = s" by (subst l') simp
  then show ?thesis using update_all_result [OF up assms(2-4)] l' by simp
qed

section \<open>A small update\<close>

definition evolve_env :: "unit env" where
  "evolve_env = deposit_env\<lparr>e_config := (e_config deposit_env)\<lparr>cfg_isothermal := True, cfg_fake_temperature := 1\<rparr>,
     e_physics := (e_physics deposit_env)\<lparr>ph_atomic := (ph_atomic (e_physics deposit_env))\<lparr>
       ar_tab := tabfun_zero\<lparr>tf_nrows := 1, tf_data := [[0]]\<rparr>, AR_HI_CI := 0, AR_HII_RC_A := 0, AR_HII_RCC_A := 0,
       AR_HII_RC_B := 0, AR_HII_RCC_B := 0, AR_HI_CIC := 0, AR_HI_CEC := 0, AR_E_BREMC := 0, AR_E_COMPC := 0,
       AR_HEI_CI := 0, AR_HEII_CI := 0, AR_HEII_RC_A := 0, AR_HEII_RC_B := 0, AR_HEIII_RC_A := 0, AR_HEIII_RC_B := 0\<rparr>\<rparr>\<rparr>"

definition evolve_loop :: "unit loop" where
  "evolve_loop = deposit_loop\<lparr>l_psys := (l_psys deposit_loop)\<lparr>psys_yGdepHI := [1]\<rparr>, l_active_set := [0]\<rparr>"

lemma evolve_rates: "ar_get (ph_atomic (e_physics evolve_env)) 0 0 = Inr 0"
  by (simp add: ar_get_def evolve_env_def tabfun_get_def tabfun_zero_def entry_def trunc_def)

lemma evolve_fetch:
  assumes "ev_T st = 1"
  shows "\<exists>ye xHII xHeIII. fetch_vars (e_config evolve_env) u (ph_atomic (e_physics evolve_env)) st x =
    Inr \<lparr>fv_xHI = x ! 0, fv_xHII = xHII, fv_xHeI = x ! 1, fv_xHeII = x ! 2, fv_xHeIII = xHeIII, fv_ye = ye,
      fv_gamma_HI = 0, fv_alpha_HII_A = 0, fv_alpha_HII_B = 0, fv_alpha_HII_AB = 0, fv_gamma_HeI = 0,
      fv_gamma_HeII = 0, fv_alpha_HeII_A = 0, fv_alpha_HeII_B = 0, fv_alpha_HeII_AB = 0, fv_alpha_HeIII_A = 0,
      fv_alpha_HeIII_B = 0, fv_alpha_HeIII_AB = 0, fv_eta_HII = 0, fv_psi_HI = 0, fv_zeta_HI = 0,
      fv_beta = 0, fv_chi = 0\<rparr>"
proof -
  have "cfg_isothermal (e_config evolve_env)" by (simp add: evolve_env_def)
  moreover have "AR_HI_CI a = 0" "AR_HII_RC_A a = 0" "AR_HII_RCC_A a = 0" "AR_HII_RC_B a = 0" "AR_HII_RCC_B a = 0"
    "AR_HI_CIC a = 0" "AR_HI_CEC a = 0" "AR_E_BREMC a = 0" "AR_E_COMPC a = 0" "AR_HEI_CI a = 0" "AR_HEII_CI a = 0"
    "AR_HEII_RC_A a = 0" "AR_HEII_RC_B a = 0" "AR_HEIII_RC_A a = 0" "AR_HEIII_RC_B a = 0"
    if "a = ph_atomic (e_physics evolve_env)" for a
    using that by (simp_all add: evolve_env_def)
  ultimately show ?thesis
    using assms evolve_rates
    by (simp add: fetch_vars_def Let_def flog10_def rate_def fdim_def lambdaH_to_xHI_def lambdaHe_to_xHeI_def
        lambdaHe_to_xHeII_def)
qed


lemma evolve_psys:
  "psys_npar (l_psys evolve_loop) = 1" "psys_tick (l_psys evolve_loop) = 1" "psys_tick_time (l_psys evolve_loop) = 1"
  "psys_lambdaH (l_psys evolve_loop) = [1]" "psys_lambdaHeI (l_psys evolve_loop) = [1]" "psys_lambdaHeII (l_psys evolve_loop) = [0]"
  "psys_yGdepHI (l_psys evolve_loop) = [1]" "psys_yGdepHeI (l_psys evolve_loop) = [0]" "psys_yGdepHeII (l_psys evolve_loop) = [0]"
  "psys_yGrecHII (l_psys evolve_loop) = [0]" "psys_yGrecHeII (l_psys evolve_loop) = [0]" "psys_yGrecHeIII (l_psys evolve_loop) = [0]"
  "psys_heat (l_psys evolve_loop) = [0]" "psys_lasthit (l_psys evolve_loop) = [0]" "psys_ie (l_psys evolve_loop) = [1]"
  by (simp_all add: evolve_loop_def deposit_loop_def demo_met_def demo_loop_def demo_psys_def Let_def psys_of_def particle_at_def)

lemma evolve_config:
  "cfg_isothermal (e_config evolve_env)" "cfg_fake_temperature (e_config evolve_env) = 1"
  "\<not> cfg_enable_eos (e_config evolve_env)" "\<not> cfg_on_the_spot (e_config evolve_env)"
  by (simp_all add: evolve_env_def deposit_env_def config_defaults_def)

lemma evolve_step:
  assumes "st = load_step evolve_env (l_psys evolve_loop) 0 rho 1"
  shows "\<exists>st'. step_evolve (e_config evolve_env) u (ph_atomic (e_physics evolve_env)) (e_lsoda evolve_env) m st
    = Inr (True, st', m) \<and> ev_lambdaH st' = 0"
proof -
  have st: "ev_T st = 1" "ev_time st = 1" "start_vector st = [1, 1, 0, 0, 0, 0, 1]" "ev_yGrecHII st = 0"
    "ev_yGdepHI st = 1" "ev_yGdepHeI st = 0" "ev_yGdepHeII st = 0" "ev_heat st = 0"
    by (simp_all add: assms load_step_def start_vector_def evolve_psys)
  have rhs: "function_rhs (e_config evolve_env) u (ph_atomic (e_physics evolve_env)) st [1, 1, 0, 0, 0, 0, 1]
      = Inr [-1, 0, 0, 0, 0, 0, 0]"
    using evolve_fetch [OF st(1), where u = u and x = "[1, 1, 0, 0, 0, 0, 1]"]
    by (auto simp: function_rhs_def derivatives_def Let_def fdiv_def st mul3_def evolve_config)
  have "e_lsoda evolve_env = (\<lambda>f opt x t tout. rbind (f x) (\<lambda>d. Inr (map2 (\<lambda>y h. db (y + h)) x d, tout, 2)))"
    by (simp add: evolve_env_def deposit_env_def demo_env_def)
  then show ?thesis
    by (simp add: step_evolve_def USE_LSODA_def step_evolve_lsoda_def lsoda_loop.simps st rhs lsoda_clamped_def Let_def)
qed

lemma update_pars_keeps_state_witness:
  "\<exists>l'. update_pars evolve_env evolve_loop = Inr l' \<and> updated {0} (l_psys evolve_loop) (l_psys l')"
proof -
  let ?s = "l_psys evolve_loop" and ?e = evolve_env
  have act: "l_active_set evolve_loop = [0]" by (simp add: evolve_loop_def)
  have T: "step_temperature ?e ?s 0 rho = Inr 1" for rho
    by (simp add: step_temperature_def Let_def evolve_config)
  have thin: "thin ?e rho N = Inr N" for rho N by (simp add: thin_def evolve_config)
  have par: "\<exists>s' t'. update_par ?e fac3 0 ?s t = Inr (s', t')" for fac3 t
    using evolve_step [OF refl, where u = "e_units ?e" and rho = "db (psys_rho ?s ! 0 * fac3)" and m = "ut_mxstep t"]
    by (auto simp: update_par_def Let_def thin T evolve_psys)
  obtain f fac3 where f: "scaling_fac (e_config ?e) ?s = Inr f" "scaling_fac3_inv f = Inr fac3"
    by (simp add: scaling_fac_def scaling_fac3_inv_def fdiv_def evolve_env_def deposit_env_def evolve_loop_def
        deposit_loop_def demo_met_def demo_loop_def demo_psys_def Let_def psys_of_def config_defaults_def)
  obtain s' t' where "update_par ?e fac3 0 ?s \<lparr>ut_failed = 0, ut_done = 0, ut_recombined = 0, ut_refined = 0,
      ut_mxstep = l_mxstep evolve_loop\<rparr> = Inr (s', t')"
    using par by blast
  then obtain l' where l': "update_pars ?e evolve_loop = Inr l'" by (simp add: update_pars_def f act Let_def)
  have ok: "psys_ok ?s" "ionization_ok ?s" "pools_nonneg ?s"
    by (simp_all add: ionization_ok_def pools_nonneg_def evolve_psys pools_at_def)
      (simp add: evolve_loop_def deposit_loop_def demo_met_def demo_loop_def demo_psys_def Let_def psys_of_def
        psys_ok_def arrays_length_def)
  show ?thesis using update_pars_keeps_state [OF l' ok] l' by (auto simp: act)
qed

end
