(* ===== verification/Run_Epoch.thy ===== *)
theory Run_Epoch imports Evolution begin

text \<open>
  The loop of ticks: \<open>run_epoch\<close> of \<open>src/src/loop.c\<close> and \<open>stat_write\<close> of \<open>src/src/stat.c\<close>. A tick emits
  the rays, traces them through the octree, deposits their photons, collects the particles they
  met and updates these; the loop may run forever, so it is a partial function.

  An output is recorded as its number and the system at that moment (what \<open>psystem_write_output\<close>
  does with it is in another theory). The statistics that \<open>psystem_stat\<close> prints, the log files of
  rays and the timers are left out. \<open>x_src_length\<close> is a static variable that no epoch resets.
\<close>

section \<open>The loop of ticks\<close>

text \<open>\<open>stat_write\<close>: totals take in the subtotals, which start again at zero.\<close>

definition stat_write :: "stat \<Rightarrow> stat" where
  "stat_write st = st\<lparr>src_ray_total := src_ray_total st + src_ray_subtotal st,
     rec_ray_total := rec_ray_total st + rec_ray_subtotal st,
     src_photon_total := db (src_photon_total st + src_photon_subtotal st),
     rec_photon_total := db (rec_photon_total st + rec_photon_subtotal st),
     src_ray_subtotal := 0, rec_ray_subtotal := 0, src_photon_subtotal := 0, rec_photon_subtotal := 0,
     rec_photon_subtotalHII := 0, rec_photon_subtotalHeII := 0, rec_photon_subtotalHeIII := 0,
     ticks_subtotal := 0\<rparr>"

definition begin_tick :: "'g loop \<Rightarrow> 'g loop" where
  "begin_tick l = l\<lparr>l_stat := (l_stat l)\<lparr>ticks_subtotal := ticks_subtotal (l_stat l) + 1\<rparr>,
     l_psys := (l_psys l)\<lparr>psys_tick := psys_tick (l_psys l) + 1\<rparr>\<rparr>"

definition finish_tick :: "'g env \<Rightarrow> 'g loop \<Rightarrow> 'g loop res" where
  "finish_tick e l =
     rbind (if cfg_trace_only (e_config e) then Inr l else deposit e l) (\<lambda>l1.
     rbind (merge_pars l1) (\<lambda>l2.
       if cfg_trace_only (e_config e) then Inr l2 else update_pars e l2))"

definition run_tick :: "'g env \<Rightarrow> raytrace \<Rightarrow> 'g loop \<Rightarrow> 'g loop res option" where
  "run_tick e rt l =
     (case emit_rays e (begin_tick l) of
        Inl err \<Rightarrow> Some (Inl err)
      | Inr l1 \<Rightarrow> (case trace rt l1 of
          None \<Rightarrow> None
        | Some r \<Rightarrow> Some (rbind r (finish_tick e))))"

text \<open>An output is its number and the system as it is written.\<close>

definition output_due :: "nat \<Rightarrow> psystem \<Rightarrow> bool" where
  "output_due istep s \<longleftrightarrow> istep < length (ep_output_steps (psys_epoch s))
     \<and> psys_tick s = ep_output_steps (psys_epoch s) ! istep"

partial_function (option) run_ticks :: "'g env \<Rightarrow> raytrace \<Rightarrow> nat \<Rightarrow> (nat \<times> psystem) list \<Rightarrow> 'g loop
    \<Rightarrow> ('g loop \<times> (nat \<times> psystem) list) res option" where
  "run_ticks e rt istep outs l =
     (let due = output_due istep (l_psys l);
          istep' = (if due then istep + 1 else istep);
          outs' = (if due then outs @ [(istep + 1, l_psys l)] else outs);
          l' = (if due then l\<lparr>l_stat := stat_write (l_stat l)\<rparr> else l)
      in if psys_tick (l_psys l) = int (ep_nticks (psys_epoch (l_psys l))) then Some (Inr (l', outs'))
         else (case run_tick e rt l' of
                 None \<Rightarrow> None
               | Some (Inl err) \<Rightarrow> Some (Inl err)
               | Some (Inr l'') \<Rightarrow> run_ticks e rt istep' outs' l''))"

definition run_epoch :: "'g env \<Rightarrow> raytrace \<Rightarrow> 32 word list \<Rightarrow> 'g loop
    \<Rightarrow> ('g loop \<times> (nat \<times> psystem) list) res option" where
  "run_epoch e rt junk l =
     (let l0 = l\<lparr>l_active := bitmask_clear_all (bitmask_alloc (of_nat (psys_npar (l_psys l))) junk),
                 l_stat := stat_zero\<rparr>
      in case run_ticks e rt 0 [] l0 of
           None \<Rightarrow> None
         | Some r \<Rightarrow> Some (rbind r (\<lambda>(l', outs).
             Inr (l'\<lparr>l_active_set := [], l_block := [], l_r_length := 0\<rparr>, outs))))"

section \<open>What every step of a tick keeps\<close>

text \<open>
  Between two systems: the fixed part and the tick are the same, arrays keep their lengths and
  ionizations stay in range.
\<close>

definition keeps :: "psystem \<Rightarrow> psystem \<Rightarrow> bool" where
  "keeps s s' \<longleftrightarrow> fixed_part s' = fixed_part s \<and> psys_tick s' = psys_tick s
     \<and> (psys_ok s \<longrightarrow> psys_ok s') \<and> (psys_ok s \<longrightarrow> ionization_ok s \<longrightarrow> ionization_ok s')"

lemma keeps_refl [simp]: "keeps s s"
  by (simp add: keeps_def)

lemma keeps_trans [trans]: "keeps s s' \<Longrightarrow> keeps s' s'' \<Longrightarrow> keeps s s''"
  unfolding keeps_def by simp

lemma keeps_srcs: "keeps s (s\<lparr>psys_srcs := xs\<rparr>)"
  by (simp add: keeps_def fixed_part_def psys_ok_def arrays_length_def ionization_ok_def)

lemma keeps_yGrec: "keeps s (set_yGrec ty (\<lambda>ys. ys[k := y]) s)"
  by (simp add: keeps_def fixed_part_def psys_ok_def arrays_length_def ionization_ok_def set_yGrec_def)

lemma keeps_pools:
  assumes "length hi = length (psys_yGdepHI s)" "length hei = length (psys_yGdepHeI s)"
    "length heii = length (psys_yGdepHeII s)" "length heat = length (psys_heat s)" "length hs = length (psys_hits s)"
  shows "keeps s (s\<lparr>psys_yGdepHI := hi, psys_yGdepHeI := hei, psys_yGdepHeII := heii, psys_heat := heat, psys_hits := hs\<rparr>)"
  using assms by (simp add: keeps_def fixed_part_def psys_ok_def arrays_length_def ionization_ok_def)

lemma keeps_fields:
  "length hs = length (psys_hits s) \<Longrightarrow> keeps s (s\<lparr>psys_hits := hs\<rparr>)"
  "length hi = length (psys_yGdepHI s) \<Longrightarrow> length heat = length (psys_heat s) \<Longrightarrow>
   keeps s (s\<lparr>psys_yGdepHI := hi, psys_heat := heat\<rparr>)"
  "length hi = length (psys_yGdepHI s) \<Longrightarrow> length hei = length (psys_yGdepHeI s) \<Longrightarrow>
   length heii = length (psys_yGdepHeII s) \<Longrightarrow> length heat = length (psys_heat s) \<Longrightarrow>
   keeps s (s\<lparr>psys_yGdepHI := hi, psys_yGdepHeI := hei, psys_yGdepHeII := heii, psys_heat := heat\<rparr>)"
  "length hi = length (psys_yGdepHI s) \<Longrightarrow> length hei = length (psys_yGdepHeI s) \<Longrightarrow>
   length heii = length (psys_yGdepHeII s) \<Longrightarrow> length heat = length (psys_heat s) \<Longrightarrow>
   keeps s (s\<lparr>psys_yGdepHI := hi, psys_yGdepHeI := hei, psys_heat := heat, psys_yGdepHeII := heii\<rparr>)"
  by (simp_all add: keeps_def fixed_part_def psys_ok_def arrays_length_def ionization_ok_def)

section \<open>Emission\<close>

lemma weight_keeps: "psystem_weight_srcs rd s = Inr (ws, s') \<Longrightarrow> keeps s s'"
  by (auto simp: psystem_weight_srcs_def Let_def rbind_Inr_iff keeps_srcs split: if_split_asm)

lemma purge_keeps: "purge u ty k n s = Inr s' \<Longrightarrow> keeps s s'"
  by (auto simp: purge_def Let_def rbind_Inr_iff keeps_yGrec split: if_split_asm)

lemma account_keeps: "account u ps s st = Inr (s', st') \<Longrightarrow> keeps s s'"
proof (induction ps arbitrary: s st)
  case (Cons p ps)
  show ?case
  proof (cases "r_type p = -1")
    case True
    with Cons.prems obtain srcs where "account u ps (s\<lparr>psys_srcs := srcs\<rparr>) (count_src (r_Nph p) st) = Inr (s', st')"
      by (auto split: if_splits)
    then show ?thesis using Cons.IH keeps_srcs keeps_trans by blast
  next
    case False
    with Cons.prems obtain s1 where "purge u (r_type p) (r_ipar p) (r_Nph p) s = Inr s1"
      "account u ps s1 (count_rec (r_type p) (r_Nph p) st) = Inr (s', st')"
      by (auto simp: rbind_Inr_iff split: if_splits)
    then show ?thesis using Cons.IH purge_keeps keeps_trans by blast
  qed
qed simp

section \<open>Deposition\<close>

lemma deposit_secondary_keeps:
  "deposit_secondary e be co k x dHI dHeI dHeII s t = Inr (s', t') \<Longrightarrow> keeps s s'"
  unfolding deposit_secondary_def Let_def rbind_Inr_iff
  by (elim exE conjE) (auto simp: rbind_Inr_iff split: if_split_asm intro!: keeps_fields)

lemma deposit_primary_keeps: "keeps s (deposit_primary e be co k dHI dHeI dHeII s)"
  by (auto simp: deposit_primary_def Let_def intro!: keeps_fields)

lemma keeps_hits: "keeps s a \<Longrightarrow> keeps s (a\<lparr>psys_hits := (psys_hits a)[k := v]\<rparr>)"
  by (erule keeps_trans) (simp add: keeps_fields(1))

lemma deposit_deltas_keeps: "deposit_deltas e be co k dHI dHeI dHeII s t = Inr (s', t') \<Longrightarrow> keeps s s'"
  unfolding deposit_deltas_def
  by (auto simp: rbind_Inr_iff split: if_split_asm dest: deposit_secondary_keeps
      intro!: keeps_hits deposit_primary_keeps)

lemma deposit_hit_keeps: "deposit_hit e fac2 fac3 be Nph x TM s t = Inr (TM', stop, s', t') \<Longrightarrow> keeps s s'"
  unfolding deposit_hit_def
  by (auto simp: rbind_Inr_iff Let_def split: if_split_asm dest: deposit_deltas_keeps)

lemma deposit_hits_keeps:
  "deposit_hits e fac2 fac3 be Nph xs TM len s t = Inr (TM', len', s', t') \<Longrightarrow> keeps s s'"
proof (induction xs arbitrary: TM len s t)
  case (Cons x xs)
  then obtain TM1 stop s1 t1 where hit: "deposit_hit e fac2 fac3 be Nph x TM s t = Inr (TM1, stop, s1, t1)"
    and rest: "(if stop then Inr (TM1, x_d x, s1, t1) else deposit_hits e fac2 fac3 be Nph xs TM1 (x_d x) s1 t1)
      = Inr (TM', len', s', t')"
    by (auto simp: rbind_Inr_iff)
  have "keeps s1 s'" using rest Cons.IH by (auto split: if_split_asm)
  then show ?case using deposit_hit_keeps [OF hit] keeps_trans by blast
qed simp

lemma deposit_rays_keeps:
  "deposit_rays e fac2 fac3 ps s st t = Inr (ps', s', st', t') \<Longrightarrow>
   keeps s s' \<and> map r_x_size ps' = map r_x_size ps"
proof (induction ps arbitrary: ps' s st t)
  case (Cons p ps)
  then obtain p1 s1 st1 t1 ps1 where one: "deposit_ray e fac2 fac3 p s st t = Inr (p1, s1, st1, t1)"
    and rest: "deposit_rays e fac2 fac3 ps s1 st1 t1 = Inr (ps1, s', st', t')" and ps': "ps' = p1 # ps1"
    by (auto simp: rbind_Inr_iff)
  have "keeps s s1 \<and> r_x_size p1 = r_x_size p"
    using one unfolding deposit_ray_def
    by (auto simp: rbind_Inr_iff Let_def split: if_split_asm dest: deposit_hits_keeps)
  then show ?case using Cons.IH [OF rest] keeps_trans by (auto simp: ps')
qed simp
section \<open>The buffers of the rays\<close>

text \<open>A ray that was traced before keeps its array of intersections, which is never of size 0.\<close>

definition sized :: "ray list \<Rightarrow> bool" where
  "sized ps \<longleftrightarrow> (\<forall>p \<in> set ps. r_x_size p \<noteq> Some 0)"

lemma sized_map: "map r_x_size ps = map r_x_size qs \<Longrightarrow> sized ps = sized qs"
  unfolding sized_def by (metis (mono_tags, lifting) image_iff list.set_map)

lemma sized_simps [simp]: "sized []" "sized (p # ps) \<longleftrightarrow> r_x_size p \<noteq> Some 0 \<and> sized ps"
  "sized (ps @ qs) \<longleftrightarrow> sized ps \<and> sized qs"
  by (auto simp: sized_def)

lemma sized_subset: "set ps \<subseteq> set qs \<Longrightarrow> sized qs \<Longrightarrow> sized ps"
  unfolding sized_def by blast

lemma sized_take_drop: "sized ps \<Longrightarrow> sized (take n ps)" "sized ps \<Longrightarrow> sized (drop n ps)"
  by (auto elim!: sized_subset [rotated] dest: in_set_takeD in_set_dropD)

lemma sized_set_ray: "sized blk \<Longrightarrow> sized (blk[i := set_ray ty k (blk ! i)])"
proof (cases "i < length blk")
  case True
  assume "sized blk"
  with True show ?thesis
    by (auto simp: sized_def set_ray_def dest!: set_update_subset_insert [THEN subsetD])
qed (simp add: list_update_beyond)

lemma sized_ensure0: "sized blk \<Longrightarrow> sized (ensure0 n blk)"
  by (auto simp: ensure0_def Let_def sized_def zero_ray_def)

lemma sized_source_rays: "source_rays r ws n i blk g = Inr (blk', g') \<Longrightarrow> sized blk \<Longrightarrow> sized blk'"
proof (induction n arbitrary: i blk g)
  case (Suc n)
  then obtain k g1 where "source_rays r ws n (Suc i) (blk[i := set_ray (-1) k (blk ! i)]) g1 = Inr (blk', g')"
    by (auto simp: rbind_Inr_iff split: if_splits)
  then show ?case using Suc sized_set_ray by blast
qed simp

lemma sized_append_ray: "sized (fst rs) \<Longrightarrow> sized (fst (append_ray ty i rs))"
  by (simp add: append_ray_def Let_def case_prod_beta sized_set_ray sized_ensure0)

lemma sized_rec_draws:
  "rec_draws r ws act sp n rs g = Inr (rs', g') \<Longrightarrow> sized (fst rs) \<Longrightarrow> sized (fst rs')"
proof (induction n arbitrary: rs g)
  case (Suc n)
  then obtain ix g1 where "rec_draws r ws act sp n (append_ray sp (act ! ix) rs) g1 = Inr (rs', g')"
    by (auto simp: rbind_Inr_iff split: if_splits)
  then show ?case using Suc sized_append_ray by blast
qed simp

lemma sized_fold_append: "sized (fst rs) \<Longrightarrow> sized (fst (fold (append_ray sp) is rs))"
  by (induction "is" arbitrary: rs) (simp_all add: sized_append_ray)

lemma sized_species_rays:
  "species_rays e s act sp rs g = Inr (rs', g') \<Longrightarrow> sized (fst rs) \<Longrightarrow> sized (fst rs')"
  unfolding species_rays_def using sized_rec_draws sized_fold_append
  by (metis (no_types, lifting) Inl_Inr_False Inr_inject prod.inject)

lemma sized_all_species:
  "all_species e s act sps rs g = Inr (rs', g') \<Longrightarrow> sized (fst rs) \<Longrightarrow> sized (fst rs')"
proof (induction sps arbitrary: rs g)
  case (Cons sp sps)
  then obtain rs1 g1 where one: "species_rays e s act sp rs g = Inr (rs1, g1)"
    and rest: "all_species e s act sps rs1 g1 = Inr (rs', g')"
    by (auto simp: rbind_Inr_iff)
  show ?case by (rule Cons.IH [OF rest sized_species_rays [OF one Cons.prems(2)]])
qed simp

lemma sized_choose:
  assumes "choose_rays e l s ws = Inr ((blk, n), g)" and "sized (l_block l)"
  shows "sized blk"
proof -
  define sps where "sps = [0..<if cfg_h_only (e_config e) then 1 else 3 :: nat]"
  obtain x where
      src: "source_rays (e_rng e) ws (ep_nray (psys_epoch s)) 0
        (ensure0 (unat (of_nat (ep_nray (psys_epoch s)) + rec_count (e_config e) (psys_epoch s))) (l_block l))
        (l_rng l) = Inr (fst x, snd x)"
    and rec: "(if rec_count (e_config e) (psys_epoch s) \<noteq> 0 \<and> 1 < psys_tick s
        then all_species e s (take (l_x_src_length l) (l_active_set l)) sps (fst x, ep_nray (psys_epoch s)) (snd x)
        else Inr ((fst x, ep_nray (psys_epoch s)), snd x)) = Inr ((blk, n), g)"
    using assms(1) unfolding choose_rays_def Let_def rbind_Inr_iff case_prod_beta sps_def [symmetric] by (elim exE conjE) simp
  have "sized (fst x)" using sized_source_rays [OF src] sized_ensure0 assms(2) by blast
  then show ?thesis using rec sized_all_species [of e s _ sps] by (fastforce split: if_split_asm)
qed

lemma fill_keeps_sizes: "fill_rays (fill_ray e s ws mx) ps g = Inr (ps', g') \<Longrightarrow> map r_x_size ps' = map r_x_size ps"
proof (induction ps arbitrary: g ps')
  case (Cons p ps)
  from Cons.prems obtain p1 g1 ps1 where one: "fill_ray e s ws mx p g = Inr (p1, g1)"
    and "fill_rays (fill_ray e s ws mx) ps g1 = Inr (ps1, g')" and "ps' = p1 # ps1"
    by (auto simp: rbind_Inr_iff)
  moreover have "r_x_size p1 = r_x_size p"
    using one by (auto simp: fill_ray_def fill_source_def fill_rec_def rbind_Inr_iff Let_def
        point_ray_def plane_ray_def case_prod_beta split: if_splits)
  ultimately show ?case using Cons.IH by fastforce
qed simp

lemma scale_run_sizes: "map r_x_size (scale_run f i c rs) = map r_x_size rs"
proof (induction c arbitrary: rs)
  case (Suc c)
  have "map r_x_size (rs[k := scale_Nph f (rs ! k)]) = map r_x_size rs" for k
    by (cases "k < length rs") (auto simp: map_update scale_Nph_def list_update_beyond intro: list_update_same_conv [THEN iffD2])
  then show ?case using Suc by simp
qed simp

lemma share_loop_sizes: "map r_x_size (share_loop is c rs) = map r_x_size rs"
  by (induction "is" c rs rule: share_loop.induct) (simp_all add: scale_run_sizes)

lemma emit_rays_keeps:
  assumes "emit_rays e l = Inr l'"
  shows "keeps (l_psys l) (l_psys l')" and "sized (l_block l) \<Longrightarrow> sized (l_block l')"
proof -
  from assms obtain ws s where ws: "psystem_weight_srcs db (l_psys l) = Inr (ws, s)"
    by (auto simp: emit_rays_def rbind_Inr_iff)
  let ?mx = "db (db (psys_boxsize s * 2) * db (1 / 10))"
  from assms ws obtain blk n g2 ps g3 s' st where
      choose: "choose_rays e l s ws = Inr ((blk, n), g2)"
    and fill: "fill_rays (fill_ray e s ws ?mx) (qsort r_t_compare (take n blk)) g2 = Inr (ps, g3)"
    and acc: "account (e_units e) (share_photons ps) s (l_stat l) = Inr (s', st)"
    and l': "l' = l\<lparr>l_psys := s', l_block := share_photons ps @ drop n blk, l_r_length := n, l_stat := st,
                    l_rng := g3\<rparr>"
    unfolding emit_rays_def Let_def by (auto simp: rbind_Inr_iff split: if_split_asm)
  show "keeps (l_psys l) (l_psys l')"
    using keeps_trans [OF weight_keeps [OF ws] account_keeps [OF acc]] by (simp add: l')
  assume "sized (l_block l)"
  then have blk: "sized blk" by (rule sized_choose [OF choose])
  have "sized (share_photons ps) = sized (qsort r_t_compare (take n blk))"
    by (rule sized_map) (simp add: share_photons_def share_loop_sizes fill_keeps_sizes [OF fill])
  also have "\<dots>" using blk by (auto elim!: sized_subset [rotated] dest: in_set_takeD)
  finally show "sized (l_block l')" using sized_take_drop(2) [OF blk] by (simp add: l')
qed

section \<open>A tick\<close>

lemma trace_pre_fixed: "fixed_part s' = fixed_part s \<Longrightarrow> trace_pre s' rt L = trace_pre s rt L"
  by (simp add: trace_pre_def fixed_part_def)

lemma trace_ray_sized:
  assumes "trace_pre s rt L" and "r_x_size p \<noteq> Some 0"
  shows "\<exists>p'. trace_ray s rt p = Some (Inr p') \<and> r_x_size p' \<noteq> Some 0"
  using rt_trace_result [OF assms, of "r_s p" "r_dir p" "fl (r_length p)"] by (auto simp: trace_ray_def)

lemma trace_rays_sized: "trace_pre s rt L \<Longrightarrow> sized ps \<Longrightarrow> \<exists>ps'. trace_rays s rt ps = Some (Inr ps') \<and> sized ps'"
proof (induction ps)
  case (Cons p ps)
  obtain p' where "trace_ray s rt p = Some (Inr p')" "r_x_size p' \<noteq> Some 0"
    using trace_ray_sized [OF Cons.prems(1)] Cons.prems(2) by auto
  moreover obtain ps' where "trace_rays s rt ps = Some (Inr ps')" "sized ps'" using Cons by auto
  ultimately show ?case by auto
qed simp

lemma trace_sized:
  assumes "trace_pre (l_psys l) rt L" and "sized (l_block l)"
  shows "\<exists>l'. trace rt l = Some (Inr l') \<and> sized (l_block l')"
proof -
  have "sized (l_rays l)" using assms(2) by (simp add: l_rays_def sized_take_drop)
  then obtain ps where "trace_rays (l_psys l) rt (l_rays l) = Some (Inr ps)" "sized ps"
    using trace_rays_sized [OF assms(1)] by blast
  then show ?thesis using assms(2) by (simp add: trace_def sized_take_drop)
qed

lemma deposit_keeps:
  assumes "deposit e l = Inr l'"
  shows "keeps (l_psys l) (l_psys l')" and "sized (l_block l) \<Longrightarrow> sized (l_block l')"
proof -
  obtain fac2 fac3 rs s st t where dep: "deposit_rays e fac2 fac3 (l_rays l) (l_psys l) (l_stat l) tally_zero = Inr (rs, s, st, t)"
    and l': "l' = l\<lparr>l_psys := s, l_block := rs @ drop (l_r_length l) (l_block l), l_stat := add_tally t st\<rparr>"
    using assms by (auto simp: deposit_def rbind_Inr_iff)
  show "keeps (l_psys l) (l_psys l')" using deposit_rays_keeps [OF dep] by (simp add: l')
  assume "sized (l_block l)"
  then show "sized (l_block l')"
    using sized_map [of rs "l_rays l"] deposit_rays_keeps [OF dep] by (simp add: l' l_rays_def sized_take_drop)
qed

lemma merge_keeps: "merge_pars l = Inr l' \<Longrightarrow> l_psys l' = l_psys l \<and> l_block l' = l_block l"
  by (auto simp: merge_pars_def rbind_Inr_iff)

lemma update_keeps:
  assumes "update_pars e l = Inr l'"
  shows "psys_ok (l_psys l) \<Longrightarrow> keeps (l_psys l) (l_psys l')" and "l_block l' = l_block l"
proof -
  obtain fac3 s t where up: "update_all e fac3 (l_active_set l) (l_psys l)
        \<lparr>ut_failed = 0, ut_done = 0, ut_recombined = 0, ut_refined = 0, ut_mxstep = l_mxstep l\<rparr> = Inr (s, t)"
      and l': "l_psys l' = s" "l_block l' = l_block l"
    using assms by (auto simp: update_pars_def rbind_Inr_iff Let_def)
  show "psys_ok (l_psys l) \<Longrightarrow> keeps (l_psys l) (l_psys l')"
    using update_all_keeps [OF up] by (simp add: keeps_def l')
  show "l_block l' = l_block l" by (rule l')
qed

lemma finish_tick_keeps:
  assumes "finish_tick e l = Inr l'" and "psys_ok (l_psys l)"
  shows "keeps (l_psys l) (l_psys l')" and "sized (l_block l) \<Longrightarrow> sized (l_block l')"
proof -
  obtain l1 l2 where l1: "(if cfg_trace_only (e_config e) then Inr l else deposit e l) = Inr l1"
    and l2: "merge_pars l1 = Inr l2"
    and l': "(if cfg_trace_only (e_config e) then Inr l2 else update_pars e l2) = Inr l'"
    using assms(1) by (auto simp: finish_tick_def rbind_Inr_iff simp del: if_split)
  have k1: "keeps (l_psys l) (l_psys l1)" "sized (l_block l) \<Longrightarrow> sized (l_block l1)"
    using l1 deposit_keeps by (auto split: if_split_asm)
  have ok: "psys_ok (l_psys l2)"
    using k1(1) assms(2) merge_keeps [OF l2] by (simp_all add: keeps_def)
  have "keeps (l_psys l2) (l_psys l') \<and> l_block l' = l_block l2"
    using l' update_keeps(1) [OF _ ok] update_keeps(2) by (auto split: if_split_asm)
  then show "keeps (l_psys l) (l_psys l')" "sized (l_block l) \<Longrightarrow> sized (l_block l')"
    using k1 merge_keeps [OF l2] keeps_trans by fastforce+
qed

text \<open>What holds between ticks of an epoch that starts from \<open>s0\<close>.\<close>

definition steady :: "psystem \<Rightarrow> psystem \<Rightarrow> bool" where
  "steady s0 s \<longleftrightarrow> psys_ok s \<and> (ionization_ok s0 \<longrightarrow> ionization_ok s) \<and> fixed_part s = fixed_part s0"

lemma steady_keeps: "keeps s s' \<Longrightarrow> steady s0 s \<Longrightarrow> steady s0 s' \<and> psys_tick s' = psys_tick s"
  by (simp add: keeps_def steady_def)

lemma steady_tick: "steady s0 (s\<lparr>psys_tick := t\<rparr>) = steady s0 s"
proof -
  have "psys_ok (s\<lparr>psys_tick := t\<rparr>) = psys_ok s" by (simp add: psys_ok_def arrays_length_def)
  moreover have "ionization_ok (s\<lparr>psys_tick := t\<rparr>) = ionization_ok s" by (simp add: ionization_ok_def)
  moreover have "fixed_part (s\<lparr>psys_tick := t\<rparr>) = fixed_part s" by (simp add: fixed_part_def)
  ultimately show ?thesis by (simp only: steady_def)
qed

lemma steady_begin:
  "steady s0 (l_psys l) \<Longrightarrow> steady s0 (l_psys (begin_tick l)) \<and> psys_tick (l_psys (begin_tick l)) = psys_tick (l_psys l) + 1
     \<and> l_block (begin_tick l) = l_block l"
  by (simp add: begin_tick_def steady_tick)

lemma run_tick_steady:
  assumes "run_tick e rt l = Some (Inr l')" and "steady s0 (l_psys l)"
  shows "steady s0 (l_psys l') \<and> psys_tick (l_psys l') = psys_tick (l_psys l) + 1"
proof -
  obtain l1 l2 where l1: "emit_rays e (begin_tick l) = Inr l1" and l2: "trace rt l1 = Some (Inr l2)"
    and l': "finish_tick e l2 = Inr l'"
    using assms(1) by (auto simp: run_tick_def rbind_Inr_iff split: sum.splits option.splits)
  have s1: "steady s0 (l_psys l1)" "psys_tick (l_psys l1) = psys_tick (l_psys l) + 1"
    using steady_begin [OF assms(2)] steady_keeps [OF emit_rays_keeps(1) [OF l1], of s0] by simp_all
  have "l_psys l2 = l_psys l1" using l2 by (auto simp: trace_def rbind_Inr_iff split: option.splits)
  then have s2: "steady s0 (l_psys l2)" "psys_tick (l_psys l2) = psys_tick (l_psys l) + 1" using s1 by simp_all
  have "keeps (l_psys l2) (l_psys l')"
    by (rule finish_tick_keeps(1) [OF l']) (use s2(1) in \<open>simp_all add: steady_def\<close>)
  then show ?thesis using steady_keeps s2 by fastforce
qed

lemma run_tick_returns:
  assumes "steady s0 (l_psys l)" and "sized (l_block l)" and "trace_pre (l_psys l) rt L"
  shows "\<exists>r. run_tick e rt l = Some r \<and> (\<forall>l'. r = Inr l' \<longrightarrow> sized (l_block l'))"
proof (cases "emit_rays e (begin_tick l)")
  case (Inr l1)
  have s1: "steady s0 (l_psys l1)" "sized (l_block l1)"
    using steady_begin [OF assms(1)] steady_keeps [OF emit_rays_keeps(1) [OF Inr], of s0] emit_rays_keeps(2) [OF Inr] assms(2)
    by simp_all
  have "fixed_part (l_psys l1) = fixed_part (l_psys l)" using s1(1) assms(1) by (simp add: steady_def)
  then have "trace_pre (l_psys l1) rt L" using assms(3) trace_pre_fixed by blast
  then obtain l2 where l2: "trace rt l1 = Some (Inr l2)" "sized (l_block l2)" using trace_sized s1(2) by blast
  have "l_psys l2 = l_psys l1" using l2(1) by (auto simp: trace_def rbind_Inr_iff split: option.splits)
  then have ok: "psys_ok (l_psys l2)" using s1(1) by (simp add: steady_def)
  have "run_tick e rt l = Some (finish_tick e l2)" by (simp add: run_tick_def Inr l2)
  then show ?thesis using finish_tick_keeps(2) [OF _ ok] l2(2) by blast
qed (simp add: run_tick_def)

section \<open>The ticks of an epoch\<close>

text \<open>The outputs still to come: those at the steps from \<open>istep\<close> on.\<close>

definition steps_ahead :: "int list \<Rightarrow> int \<Rightarrow> int \<Rightarrow> bool" where
  "steps_ahead steps now until \<longleftrightarrow> sorted_wrt (<) steps \<and> (\<forall>t \<in> set steps. now \<le> t \<and> t \<le> until)"

lemma steps_ahead_Cons: "steps_ahead (t # ts) now until \<Longrightarrow> now \<le> t \<and> t \<le> until \<and> steps_ahead ts (t + 1) until"
  by (auto simp: steps_ahead_def)

lemma steps_ahead_later: "steps_ahead (t # ts) now until \<Longrightarrow> now < t \<Longrightarrow> steps_ahead (t # ts) (now + 1) until"
  by (force simp: steps_ahead_def)

lemma steps_ahead_none: "steps_ahead ts now until \<Longrightarrow> until < now \<Longrightarrow> ts = []"
  by (cases ts) (auto simp: steps_ahead_def)

lemma run_ticks_end:
  assumes "psys_tick (l_psys l) = int (ep_nticks (psys_epoch (l_psys l)))"
  shows "run_ticks e rt istep outs l = Some (Inr
    (if output_due istep (l_psys l)
     then (l\<lparr>l_stat := stat_write (l_stat l)\<rparr>, outs @ [(istep + 1, l_psys l)]) else (l, outs)))"
  by (subst run_ticks.simps) (simp add: Let_def assms)

lemma run_ticks_tick:
  assumes "psys_tick (l_psys l) \<noteq> int (ep_nticks (psys_epoch (l_psys l)))"
  shows "\<exists>l1. l_psys l1 = l_psys l \<and> l_block l1 = l_block l \<and> run_ticks e rt istep outs l =
    (case run_tick e rt l1 of
       None \<Rightarrow> None
     | Some (Inl err) \<Rightarrow> Some (Inl err)
     | Some (Inr l2) \<Rightarrow>
         if output_due istep (l_psys l) then run_ticks e rt (istep + 1) (outs @ [(istep + 1, l_psys l)]) l2
         else run_ticks e rt istep outs l2)"
  by (intro exI [of _ "if output_due istep (l_psys l) then l\<lparr>l_stat := stat_write (l_stat l)\<rparr> else l"])
    (subst run_ticks.simps, simp add: Let_def assms split: option.split sum.split)

lemma steady_epoch: "steady s s' \<Longrightarrow> psys_epoch s' = psys_epoch s"
  by (simp add: steady_def fixed_part_def)

lemma run_ticks_returns:
  assumes "psys_tick (l_psys l) \<le> int (ep_nticks (psys_epoch s0))" and "steady s0 (l_psys l)"
    and "sized (l_block l)" and "trace_pre s0 rt L"
  shows "run_ticks e rt istep outs l \<noteq> None"
  using assms(1-3)
proof (induction "nat (int (ep_nticks (psys_epoch s0)) - psys_tick (l_psys l))" arbitrary: l istep outs)
  case 0
  then have "psys_tick (l_psys l) = int (ep_nticks (psys_epoch (l_psys l)))" using steady_epoch [OF 0(3)] by simp
  then show ?case by (simp add: run_ticks_end)
next
  case (Suc n)
  note ep = steady_epoch [OF Suc.prems(2)]
  have "psys_tick (l_psys l) \<noteq> int (ep_nticks (psys_epoch (l_psys l)))" using Suc.hyps(2) ep by simp
  then obtain l1 where l1: "l_psys l1 = l_psys l" "l_block l1 = l_block l"
      and run: "run_ticks e rt istep outs l =
    (case run_tick e rt l1 of
       None \<Rightarrow> None
     | Some (Inl err) \<Rightarrow> Some (Inl err)
     | Some (Inr l2) \<Rightarrow>
         if output_due istep (l_psys l) then run_ticks e rt (istep + 1) (outs @ [(istep + 1, l_psys l)]) l2
         else run_ticks e rt istep outs l2)"
    using run_ticks_tick by blast
  have st: "steady s0 (l_psys l1)" "sized (l_block l1)" using Suc.prems l1 by simp_all
  have "fixed_part (l_psys l1) = fixed_part s0" using st(1) by (simp add: steady_def)
  then have tp: "trace_pre (l_psys l1) rt L" using assms(4) trace_pre_fixed by blast
  obtain r where r: "run_tick e rt l1 = Some r" "\<forall>l'. r = Inr l' \<longrightarrow> sized (l_block l')"
    using run_tick_returns [OF st tp] by blast
  show ?case
  proof (cases r)
    case (Inr l2)
    have l2: "steady s0 (l_psys l2)" "psys_tick (l_psys l2) = psys_tick (l_psys l) + 1" "sized (l_block l2)"
      using run_tick_steady [OF _ st(1), of e rt l2] r Inr l1 by simp_all
    have "run_ticks e rt k os l2 \<noteq> None" for k os
      by (rule Suc.hyps(1)) (use l2 Suc.hyps(2) in simp_all)
    then show ?thesis using run r Inr by simp
  qed (simp add: run r)
qed

text \<open>Whether an output is due, by the steps that are left.\<close>

lemma output_due_cases:
  assumes "steady s0 s" and "steps_ahead (drop istep (ep_output_steps (psys_epoch s0))) (psys_tick s) until"
  shows "(output_due istep s \<and> istep < length (ep_output_steps (psys_epoch s0))
      \<and> drop istep (ep_output_steps (psys_epoch s0)) = psys_tick s # drop (Suc istep) (ep_output_steps (psys_epoch s0))
      \<and> steps_ahead (drop (Suc istep) (ep_output_steps (psys_epoch s0))) (psys_tick s + 1) until)
    \<or> (\<not> output_due istep s
      \<and> steps_ahead (drop istep (ep_output_steps (psys_epoch s0))) (psys_tick s + 1) until)"
proof -
  let ?steps = "ep_output_steps (psys_epoch s0)"
  note ep = steady_epoch [OF assms(1)]
  show ?thesis
  proof (cases "istep < length ?steps")
    case True
    have dr: "drop istep ?steps = ?steps ! istep # drop (Suc istep) ?steps" by (simp add: Cons_nth_drop_Suc True)
    show ?thesis
      using steps_ahead_Cons [OF assms(2) [unfolded dr]] steps_ahead_later [OF assms(2) [unfolded dr]] True ep dr
      by (cases "psys_tick s = ?steps ! istep") (simp_all add: output_due_def)
  qed (use ep in \<open>simp add: output_due_def steps_ahead_def\<close>)
qed

lemma run_ticks_outputs:
  assumes "run_ticks e rt istep outs l = Some (Inr (l', outs'))"
    and "psys_tick (l_psys l) \<le> int (ep_nticks (psys_epoch s0))" and "steady s0 (l_psys l)"
    and "steps_ahead (drop istep (ep_output_steps (psys_epoch s0))) (psys_tick (l_psys l)) (int (ep_nticks (psys_epoch s0)))"
  shows "steady s0 (l_psys l') \<and> psys_tick (l_psys l') = int (ep_nticks (psys_epoch s0))
    \<and> (\<exists>more. outs' = outs @ more \<and> map fst more = [istep + 1..<length (ep_output_steps (psys_epoch s0)) + 1]
         \<and> map (\<lambda>p. psys_tick (snd p)) more = drop istep (ep_output_steps (psys_epoch s0))
         \<and> (\<forall>p \<in> set more. steady s0 (snd p)))"
  using assms
proof (induction "nat (int (ep_nticks (psys_epoch s0)) - psys_tick (l_psys l))" arbitrary: l istep outs)
  case 0
  let ?steps = "ep_output_steps (psys_epoch s0)"
  note ep = steady_epoch [OF 0(4)]
  have tick: "psys_tick (l_psys l) = int (ep_nticks (psys_epoch s0))" using 0(1,3) by simp
  consider "output_due istep (l_psys l)" "istep < length ?steps" "drop istep ?steps = psys_tick (l_psys l) # drop (Suc istep) ?steps"
      "drop (Suc istep) ?steps = []"
    | "\<not> output_due istep (l_psys l)" "drop istep ?steps = []"
    using output_due_cases [OF 0(4,5)] steps_ahead_none [of _ "psys_tick (l_psys l) + 1"] tick by fastforce
  then show ?case
  proof cases
    case 1
    then have "length ?steps = Suc istep" by simp
    then show ?thesis using 1 0(2,4) tick ep by (auto simp: run_ticks_end)
  next
    case 2
    then show ?thesis using 0(2,4) tick ep by (auto simp: run_ticks_end)
  qed
next
  case (Suc n)
  let ?steps = "ep_output_steps (psys_epoch s0)"
  note ep = steady_epoch [OF Suc.prems(3)]
  have "psys_tick (l_psys l) \<noteq> int (ep_nticks (psys_epoch (l_psys l)))" using Suc.hyps(2) ep by simp
  then obtain l1 where l1: "l_psys l1 = l_psys l"
      and run: "run_ticks e rt istep outs l =
    (case run_tick e rt l1 of
       None \<Rightarrow> None
     | Some (Inl err) \<Rightarrow> Some (Inl err)
     | Some (Inr l2) \<Rightarrow>
         if output_due istep (l_psys l) then run_ticks e rt (istep + 1) (outs @ [(istep + 1, l_psys l)]) l2
         else run_ticks e rt istep outs l2)"
    using run_ticks_tick by blast
  then obtain l2 where l2: "run_tick e rt l1 = Some (Inr l2)"
      and rest: "(if output_due istep (l_psys l) then run_ticks e rt (istep + 1) (outs @ [(istep + 1, l_psys l)]) l2
         else run_ticks e rt istep outs l2) = Some (Inr (l', outs'))"
    using Suc.prems(1) by (auto split: option.splits sum.splits)
  have st: "steady s0 (l_psys l2)" "psys_tick (l_psys l2) = psys_tick (l_psys l) + 1"
    using run_tick_steady [OF l2, of s0] Suc.prems(3) l1 by simp_all
  have n: "n = nat (int (ep_nticks (psys_epoch s0)) - psys_tick (l_psys l2))"
      "psys_tick (l_psys l2) \<le> int (ep_nticks (psys_epoch s0))"
    using Suc.hyps(2) st(2) by simp_all
  note IH = Suc.hyps(1) [OF n(1) _ n(2) st(1), unfolded st(2)]
  from output_due_cases [OF Suc.prems(3,4)] show ?case
  proof
    assume due: "output_due istep (l_psys l) \<and> istep < length ?steps
      \<and> drop istep ?steps = psys_tick (l_psys l) # drop (Suc istep) ?steps
      \<and> steps_ahead (drop (Suc istep) ?steps) (psys_tick (l_psys l) + 1) (int (ep_nticks (psys_epoch s0)))"
    then have "run_ticks e rt (istep + 1) (outs @ [(istep + 1, l_psys l)]) l2 = Some (Inr (l', outs'))"
      using rest by simp
    from IH [OF this] obtain more where more: "steady s0 (l_psys l')"
        "psys_tick (l_psys l') = int (ep_nticks (psys_epoch s0))"
        "outs' = (outs @ [(istep + 1, l_psys l)]) @ more"
        "map fst more = [istep + 1 + 1..<length ?steps + 1]" "map (\<lambda>p. psys_tick (snd p)) more = drop (istep + 1) ?steps"
        "\<forall>p \<in> set more. steady s0 (snd p)"
      using due by auto
    have "[istep + 1..<length ?steps + 1] = (istep + 1) # [istep + 1 + 1..<length ?steps + 1]"
      using upt_conv_Cons [of "istep + 1" "length ?steps + 1"] due by (simp del: upt_Suc)
    then have "map fst ((istep + 1, l_psys l) # more) = [istep + 1..<length ?steps + 1]"
      using more(4) by (simp only: list.map fst_conv)
    then show ?case
      using more Suc.prems(3) due by (intro conjI exI [of _ "(istep + 1, l_psys l) # more"]) simp_all
  next
    assume "\<not> output_due istep (l_psys l)
      \<and> steps_ahead (drop istep ?steps) (psys_tick (l_psys l) + 1) (int (ep_nticks (psys_epoch s0)))"
    then show ?case using rest IH by simp
  qed
qed

text \<open>
  C32. \<open>run_epoch\<close> returns: on the tree \<open>rt_switch_epoch\<close> built for the system, with a tick that is not
  beyond the last tick of the epoch and buffers that are not of size zero (as after the previous
  epoch, which frees them), the loop of ticks ends after \<open>nticks\<close> ticks or with one of the errors
  of the program; no ray is traced forever.
\<close>

theorem run_epoch_returns:
  assumes "psys_ok (l_psys l)" and "0 \<le> psys_boxsize (l_psys l)"
    and "r0 = (if i = 0 then rt_alloc ppc (l_psys l) fresh rt0 else rt0)"
    and "psys_npar (l_psys l) \<le> length (rt_next r0)" "length (rt_next r0) \<le> psys_npar_max (l_psys l)" "0 < rt_pool_size r0"
    and "rt_switch_epoch ppc i (l_psys l) fresh rt0 = Some (Inr rt)"
    and "psys_tick (l_psys l) \<le> int (ep_nticks (psys_epoch (l_psys l)))" and "l_block l = []"
  shows "run_epoch e rt junk l \<noteq> None"
proof -
  obtain L where "trace_pre (l_psys l) rt L"
    using rt_switch_epoch_result [OF assms(1-6)] assms(7) by auto
  then have "run_ticks e rt 0 [] (l\<lparr>l_active := m, l_stat := st\<rparr>) \<noteq> None" for m st
    by (intro run_ticks_returns [where ?s0.0 = "l_psys l" and L = L]) (use assms in \<open>simp_all add: steady_def\<close>)
  then show ?thesis by (auto simp: run_epoch_def Let_def split: option.split)
qed

text \<open>The steps of an epoch that ends.\<close>

lemma run_epoch_steps:
  assumes "run_epoch e rt junk l = Some (Inr (l', outs))"
    and "psys_ok (l_psys l)"
    and "psys_tick (l_psys l) \<le> int (ep_nticks (psys_epoch (l_psys l)))"
    and "sorted_wrt (<) (ep_output_steps (psys_epoch (l_psys l)))"
    and "\<forall>t \<in> set (ep_output_steps (psys_epoch (l_psys l))). psys_tick (l_psys l) \<le> t \<and> t \<le> int (ep_nticks (psys_epoch (l_psys l)))"
  shows "steady (l_psys l) (l_psys l')" "psys_tick (l_psys l') = int (ep_nticks (psys_epoch (l_psys l)))"
    "map fst outs = [1..<length (ep_output_steps (psys_epoch (l_psys l))) + 1]"
    "map (\<lambda>p. psys_tick (snd p)) outs = ep_output_steps (psys_epoch (l_psys l))"
    "\<forall>p \<in> set outs. steady (l_psys l) (snd p)" "l_block l' = []" "l_r_length l' = 0" "l_active_set l' = []"
proof -
  obtain m l1 where run: "run_ticks e rt 0 [] (l\<lparr>l_active := m, l_stat := stat_zero\<rparr>) = Some (Inr (l1, outs))"
    and l': "l' = l1\<lparr>l_active_set := [], l_block := [], l_r_length := 0\<rparr>"
    using assms(1) by (auto simp: run_epoch_def Let_def rbind_Inr_iff split: option.splits)
  have start: "steps_ahead (drop 0 (ep_output_steps (psys_epoch (l_psys l)))) (psys_tick (l_psys l)) (int (ep_nticks (psys_epoch (l_psys l))))"
    using assms(4,5) by (simp add: steps_ahead_def)
  have st: "steady (l_psys l) (l_psys l)" using assms(2) by (simp add: steady_def)
  from run_ticks_outputs [OF run, of "l_psys l"] have
      "steady (l_psys l) (l_psys l1) \<and> psys_tick (l_psys l1) = int (ep_nticks (psys_epoch (l_psys l)))
       \<and> map fst outs = [1..<length (ep_output_steps (psys_epoch (l_psys l))) + 1]
       \<and> map (\<lambda>p. psys_tick (snd p)) outs = ep_output_steps (psys_epoch (l_psys l))
       \<and> (\<forall>p \<in> set outs. steady (l_psys l) (snd p))"
    using start st assms(3) by (auto simp del: upt_Suc)
  then show "steady (l_psys l) (l_psys l')" "psys_tick (l_psys l') = int (ep_nticks (psys_epoch (l_psys l)))"
    "map fst outs = [1..<length (ep_output_steps (psys_epoch (l_psys l))) + 1]"
    "map (\<lambda>p. psys_tick (snd p)) outs = ep_output_steps (psys_epoch (l_psys l))"
    "\<forall>p \<in> set outs. steady (l_psys l) (snd p)" "l_block l' = []" "l_r_length l' = 0" "l_active_set l' = []"
    unfolding l' by simp_all
qed

lemma outputs_zip: "map (\<lambda>(k, s). (k, f s)) outs = zip (map fst outs) (map (\<lambda>p. f (snd p)) outs)"
  by (induction outs) auto

text \<open>
  C33. Where the output steps are strictly increasing and lie between the tick at the start and the
  last tick, the following holds when \<open>run_epoch\<close> ends without an error: the tick is the last tick of the epoch, the outputs
  are numbered from 1 in order and are written exactly at the steps of the epoch, and the final
  system and every system written has the particles, positions, masses, densities, flags, ids and
  epoch of the start, arrays of the same size, and ionizations in range if they were at the start; rays and the active set
  are freed.
\<close>

theorem run_epoch_outputs:
  assumes "run_epoch e rt junk l = Some (Inr (l', outs))"
    and "psys_ok (l_psys l)"
    and "psys_tick (l_psys l) \<le> int (ep_nticks (psys_epoch (l_psys l)))"
    and "sorted_wrt (<) (ep_output_steps (psys_epoch (l_psys l)))"
    and "\<forall>t \<in> set (ep_output_steps (psys_epoch (l_psys l))). psys_tick (l_psys l) \<le> t \<and> t \<le> int (ep_nticks (psys_epoch (l_psys l)))"
  shows "psys_tick (l_psys l') = int (ep_nticks (psys_epoch (l_psys l)))
    \<and> map (\<lambda>(k, s). (k, psys_tick s)) outs = zip [1..<length (ep_output_steps (psys_epoch (l_psys l))) + 1]
        (ep_output_steps (psys_epoch (l_psys l)))
    \<and> (\<forall>s \<in> insert (l_psys l') (snd ` set outs). steady (l_psys l) s)
    \<and> l_block l' = [] \<and> l_r_length l' = 0 \<and> l_active_set l' = []"
  using run_epoch_steps [OF assms] outputs_zip [of psys_tick outs] by (simp del: upt_Suc)

section \<open>A small epoch\<close>

lemma run_epoch_returns_witness:
  "\<exists>rt. rt_switch_epoch 1 0 one_particle (\<lambda>_. None) no_tree = Some (Inr rt)
     \<and> run_epoch demo_env rt [] (demo_loop\<lparr>l_psys := one_particle\<rparr>) \<noteq> None"
proof -
  let ?r0 = "if (0::int) = 0 then rt_alloc 1 one_particle (\<lambda>_. None) no_tree else no_tree"
  have h: "psys_ok one_particle" "0 \<le> psys_boxsize one_particle" "psys_npar one_particle \<le> length (rt_next ?r0)"
      "length (rt_next ?r0) \<le> psys_npar_max one_particle" "0 < rt_pool_size ?r0"
    by (simp_all add: rt_alloc_def) (simp add: one_particle_def)
  obtain rt where rt: "rt_switch_epoch 1 0 one_particle (\<lambda>_. None) no_tree = Some (Inr rt)"
    using rt_switch_epoch_result [OF h(1,2) refl h(3-5)] one_particle_tree by blast
  have l: "ionization_ok one_particle" "psys_tick one_particle \<le> int (ep_nticks (psys_epoch one_particle))"
    by (simp_all add: one_particle_def ionization_ok_def psys_of_def particle_at_def)
  have "l_block demo_loop = []" by (simp add: demo_loop_def)
  then show ?thesis
    using run_epoch_returns [where l = "demo_loop\<lparr>l_psys := one_particle\<rparr>" and rt = rt and junk = "[]" and e = demo_env
        and ppc = 1 and i = 0 and fresh = "\<lambda>_. None" and ?rt0.0 = no_tree and ?r0.0 = ?r0]
      h l rt by auto
qed

definition quiet_loop :: "unit loop" where
  "quiet_loop = demo_loop\<lparr>l_psys := demo_psys\<lparr>psys_srcs := [], psys_tick := 0,
     psys_epoch := (psys_epoch demo_psys)\<lparr>ep_nray := 0, ep_nticks := 1, ep_output_steps := [0, 1]\<rparr>\<rparr>\<rparr>"

lemma quiet_psys:
  "psys_tick (l_psys quiet_loop) = 0" "psys_srcs (l_psys quiet_loop) = []" "psys_npar (l_psys quiet_loop) = 1"
  "ep_nray (psys_epoch (l_psys quiet_loop)) = 0" "ep_nticks (psys_epoch (l_psys quiet_loop)) = 1"
  "ep_output_steps (psys_epoch (l_psys quiet_loop)) = [0, 1]" "l_block quiet_loop = []" "l_active_set quiet_loop = []"
  "ep_packet_size (psys_epoch (l_psys quiet_loop)) = 4" "ep_nrec (psys_epoch (l_psys quiet_loop)) = 0"
  "ep_redshift (psys_epoch (l_psys quiet_loop)) = 0"
  "l_x_src_length quiet_loop = 0"
  by (simp_all add: quiet_loop_def demo_loop_def demo_psys_def Let_def psys_of_def)

lemma quiet_tick:
  assumes "l_psys l = l_psys quiet_loop" "l_block l = []" "l_active_set l = []" "l_x_src_length l = 0"
  shows "\<exists>l'. run_tick demo_env rt l = Some (Inr l')"
proof -
  define l0 where "l0 = begin_tick l"
  have l0: "psys_srcs (l_psys l0) = []" "psys_epoch (l_psys l0) = psys_epoch (l_psys quiet_loop)" "l_block l0 = []"
      "psys_tick (l_psys l0) = 1"
    using assms quiet_psys by (simp_all add: l0_def begin_tick_def)
  have ws: "psystem_weight_srcs db (l_psys l0) = Inr ([], l_psys l0)"
    using l0(1) by (simp add: psystem_weight_srcs_def)
  have n: "ray_estimate conv 0 4 = 0" for conv by (simp add: ray_estimate_def trunc_def)
  have choose: "\<exists>blk. choose_rays demo_env l0 (l_psys l0) [] = Inr ((blk, 0), l_rng l0)"
    using l0 quiet_psys by (simp add: choose_rays_def Let_def rec_count_def)
  have est: "ray_estimate (e_conv demo_env) 0 (ep_packet_size (psys_epoch (l_psys l0))) = 0"
    using l0(2) quiet_psys(9) n by simp
  obtain l1 where l1: "emit_rays demo_env l0 = Inr l1" "l_r_length l1 = 0" "l_psys l1 = l_psys l0"
    using choose ws est l0(2) quiet_psys(4)
    by (auto simp: emit_rays_def Let_def qsort_def share_photons_def)
  have trace: "trace rt l1 = Some (Inr l1)" by (simp add: trace_def l_rays_def l1)
  have fac: "\<exists>f3. scaling_fac (e_config demo_env) s = Inr 1 \<and> scaling_fac3_inv 1 = Inr f3"
    if "psys_epoch s = psys_epoch (l_psys quiet_loop)" for s
    using that quiet_psys(11) by (simp add: scaling_fac_def scaling_fac3_inv_def fdiv_def)
  obtain l2 where l2: "deposit demo_env l1 = Inr l2" "l_r_length l2 = 0" "l_psys l2 = l_psys l0"
    using l1(2,3) fac [OF l0(2)] by (auto simp: deposit_def scaling_fac2_inv_def fdiv_def l_rays_def)
  obtain l3 where l3: "merge_pars l2 = Inr l3" "l_active_set l3 = []" "l_psys l3 = l_psys l0"
    using l2 by (auto simp: merge_pars_def l_rays_def)
  obtain l4 where l4: "update_pars demo_env l3 = Inr l4"
    using l3(2,3) fac [OF l0(2)] by (auto simp: update_pars_def Let_def)
  have "\<not> cfg_trace_only (e_config demo_env)" by (simp add: demo_env_def config_defaults_def)
  then have "finish_tick demo_env l1 = Inr l4" by (simp add: finish_tick_def l2 l3 l4)
  then show ?thesis by (simp add: run_tick_def l0_def [symmetric] l1 trace)
qed

lemma run_epoch_outputs_witness:
  "\<exists>l' outs. run_epoch demo_env no_tree [] quiet_loop = Some (Inr (l', outs))
     \<and> map (\<lambda>(k, s). (k, psys_tick s)) outs = [(1, 0), (2, 1)] \<and> psys_tick (l_psys l') = 1"
proof -
  let ?q = "l_psys quiet_loop"
  define l0 where "l0 = quiet_loop\<lparr>l_active := bitmask_clear_all (bitmask_alloc (of_nat (psys_npar ?q)) []), l_stat := stat_zero\<rparr>"
  have l0: "l_psys l0 = ?q" "l_block l0 = []" "l_active_set l0 = []" "l_x_src_length l0 = 0"
    by (simp_all add: l0_def quiet_psys)
  have ok: "psys_ok ?q" "ionization_ok ?q"
    by (simp_all add: quiet_loop_def demo_loop_def demo_psys_def Let_def psys_of_def particle_at_def psys_ok_def
        arrays_length_def ionization_ok_def)
  obtain l1 where l1: "run_tick demo_env no_tree (l0\<lparr>l_stat := stat_write (l_stat l0)\<rparr>) = Some (Inr l1)"
    using quiet_tick [of "l0\<lparr>l_stat := stat_write (l_stat l0)\<rparr>"] l0 by auto
  have "steady ?q (l_psys l1) \<and> psys_tick (l_psys l1) = 1"
    using run_tick_steady [OF l1, of ?q] ok l0 by (simp add: steady_def quiet_psys)
  then have l1': "psys_tick (l_psys l1) = 1" "psys_epoch (l_psys l1) = psys_epoch ?q"
    using steady_epoch by blast+
  have due: "output_due 0 (l_psys l0)" by (simp add: output_due_def l0 quiet_psys)
  have "run_ticks demo_env no_tree 0 [] l0 = run_ticks demo_env no_tree (0 + 1) ([] @ [(0 + 1, l_psys l0)]) l1"
    by (subst run_ticks.simps) (simp add: Let_def due l1, simp add: l0 quiet_psys)
  moreover have "\<exists>p. run_ticks demo_env no_tree (0 + 1) ([] @ [(0 + 1, l_psys l0)]) l1 = Some (Inr p)"
    using run_ticks_end [of l1] l1' quiet_psys(5) by simp
  ultimately obtain l2 outs2 where "run_ticks demo_env no_tree 0 [] l0 = Some (Inr (l2, outs2))" by fastforce
  then obtain l' outs where run: "run_epoch demo_env no_tree [] quiet_loop = Some (Inr (l', outs))"
    by (simp add: run_epoch_def Let_def l0_def [symmetric])
  have "psys_tick ?q \<le> int (ep_nticks (psys_epoch ?q))" "sorted_wrt (<) (ep_output_steps (psys_epoch ?q))"
    "\<forall>t \<in> set (ep_output_steps (psys_epoch ?q)). psys_tick ?q \<le> t \<and> t \<le> int (ep_nticks (psys_epoch ?q))"
    by (simp_all add: quiet_psys)
  from run_epoch_outputs [OF run ok(1) this] show ?thesis
    using run by (intro exI [of _ l'] exI [of _ outs]) (simp add: quiet_psys upt_rec)
qed

end
