(* ===== verification/Byte_File.thy ===== *)
theory Byte_File imports Prelude begin

text \<open>
  Files as lists of bytes with a position, and numbers as bytes: what \<open>src/src/reader-psphray.inc\<close>
  and \<open>src/src/reader-massiveblack.inc\<close> use of \<open>stdio\<close> (\<open>fseek\<close>, \<open>fread\<close>, \<open>fwrite\<close>) and of the layout of
  integers in memory. The main laws: what is written is read back, and nothing else changes.
\<close>

section \<open>Numbers as bytes\<close>

text \<open>The bytes of an unsigned number of \<open>n\<close> bytes, lowest first, as on the machines the program runs on.\<close>

definition le_bytes :: "nat \<Rightarrow> nat \<Rightarrow> 8 word list" where
  "le_bytes n v = map (\<lambda>i. of_nat (v div 256 ^ i)) [0..<n]"

definition le_value :: "8 word list \<Rightarrow> nat" where
  "le_value bs = foldr (\<lambda>b v. unat b + 256 * v) bs 0"

definition bytes32 :: "32 word \<Rightarrow> 8 word list" where
  "bytes32 w = le_bytes 4 (unat w)"

definition word32 :: "8 word list \<Rightarrow> 32 word" where
  "word32 bs = of_nat (le_value bs)"

definition bytes64 :: "64 word \<Rightarrow> 8 word list" where
  "bytes64 w = le_bytes 8 (unat w)"

definition word64 :: "8 word list \<Rightarrow> 64 word" where
  "word64 bs = of_nat (le_value bs)"

text \<open>An array of items of \<open>n\<close> bytes.\<close>

fun chunks :: "nat \<Rightarrow> nat \<Rightarrow> 'a list \<Rightarrow> 'a list list" where
  "chunks n 0 bs = []"
| "chunks n (Suc k) bs = take n bs # chunks n k (drop n bs)"

section \<open>Files\<close>

record cfile =
  f_bytes :: "8 word list"
  f_pos :: nat

text \<open>\<open>fseek\<close> with \<open>SEEK_SET\<close> and \<open>SEEK_CUR\<close>; a seek before the start fails and changes nothing.\<close>

definition fseek_set :: "int \<Rightarrow> cfile \<Rightarrow> cfile" where
  "fseek_set off f = (if off < 0 then f else f\<lparr>f_pos := nat off\<rparr>)"

definition fseek_cur :: "int \<Rightarrow> cfile \<Rightarrow> cfile" where
  "fseek_cur off f = fseek_set (int (f_pos f) + off) f"

text \<open>\<open>fread\<close> stops at the end of the file; what it does not read of the buffer stays as it is.\<close>

definition fread :: "nat \<Rightarrow> cfile \<Rightarrow> 8 word list \<times> cfile" where
  "fread n f = (let got = take n (drop (f_pos f) (f_bytes f)) in (got, f\<lparr>f_pos := f_pos f + length got\<rparr>))"

definition into_buffer :: "8 word list \<Rightarrow> 8 word list \<Rightarrow> 8 word list" where
  "into_buffer got buf = got @ drop (length got) buf"

text \<open>\<open>fwrite\<close> beyond the end fills the gap with zeros.\<close>

definition put_bytes :: "nat \<Rightarrow> 8 word list \<Rightarrow> 8 word list \<Rightarrow> 8 word list" where
  "put_bytes p ys bs =
     (if ys = [] then bs
      else take p (bs @ replicate (p - length bs) 0) @ ys @ drop (p + length ys) bs)"

definition fwrite :: "8 word list \<Rightarrow> cfile \<Rightarrow> cfile" where
  "fwrite ys f = f\<lparr>f_bytes := put_bytes (f_pos f) ys (f_bytes f), f_pos := f_pos f + length ys\<rparr>"

section \<open>Laws\<close>

lemma length_le_bytes [simp]: "length (le_bytes n v) = n"
  by (simp add: le_bytes_def)

lemma le_bytes_Suc: "le_bytes (Suc n) v = of_nat v # le_bytes n (v div 256)"
  unfolding le_bytes_def upt_conv_Cons [OF zero_less_Suc]
  by (simp add: map_Suc_upt [symmetric] div_mult2_eq mult.commute del: upt_Suc)

lemma le_value_bytes: "le_value (le_bytes n v) = v mod 256 ^ n"
proof (induction n arbitrary: v)
  case (Suc n)
  have "unat (of_nat v :: 8 word) = v mod 256" by (simp add: unat_of_nat)
  then show ?case
    using Suc [of "v div 256"] mod_mult2_eq [of v 256 "256 ^ n"] by (simp add: le_bytes_Suc le_value_def)
qed (simp add: le_bytes_def le_value_def)

lemma length_bytes [simp]: "length (bytes32 w) = 4" "length (bytes64 x) = 8"
  by (simp_all add: bytes32_def bytes64_def)

lemma word32_bytes32 [simp]: "word32 (bytes32 w) = w"
proof -
  have "unat w < 2 ^ 32" by (rule order_less_le_trans [OF unsigned_less]) simp
  then show ?thesis by (simp add: word32_def bytes32_def le_value_bytes)
qed

lemma word64_bytes64 [simp]: "word64 (bytes64 w) = w"
proof -
  have "unat w < 2 ^ 64" by (rule order_less_le_trans [OF unsigned_less]) simp
  then show ?thesis by (simp add: word64_def bytes64_def le_value_bytes)
qed

lemma length_concat_const: "\<forall>x \<in> set xs. length (f x) = n \<Longrightarrow> length (concat (map f xs)) = n * length xs"
  by (induction xs) simp_all

lemma chunks_concat: "\<forall>x \<in> set xs. length (f x) = n \<Longrightarrow> chunks n (length xs) (concat (map f xs) @ rest) = map f xs"
  by (induction xs) simp_all

lemma length_chunks [simp]: "length (chunks n k bs) = k"
  by (induction k arbitrary: bs) simp_all

lemma length_put_bytes: "ys \<noteq> [] \<Longrightarrow> length (put_bytes p ys bs) = max (p + length ys) (length bs)"
  by (simp add: put_bytes_def)

lemma length_put_bytes_ge: "length bs \<le> length (put_bytes p ys bs)"
  by (cases "ys = []") (simp_all add: length_put_bytes put_bytes_def)

lemma get_put_same: "ys \<noteq> [] \<Longrightarrow> take (length ys) (drop p (put_bytes p ys bs)) = ys"
  by (simp add: put_bytes_def)

text \<open>Writing elsewhere does not change what was within the file.\<close>

lemma get_put_other:
  assumes "q + n \<le> length bs" and "q + n \<le> p \<or> p + length ys \<le> q"
  shows "take n (drop q (put_bytes p ys bs)) = take n (drop q bs)"
proof (rule nth_equalityI)
  show len: "length (take n (drop q (put_bytes p ys bs))) = length (take n (drop q bs))"
    using assms(1) length_put_bytes_ge [of bs p ys] by simp
  fix i assume "i < length (take n (drop q (put_bytes p ys bs)))"
  then have i: "i < n" using assms(1) length_put_bytes_ge [of bs p ys] by simp
  have "put_bytes p ys bs ! (q + i) = bs ! (q + i)"
    using assms i by (auto simp: put_bytes_def nth_append min_def)
  then show "take n (drop q (put_bytes p ys bs)) ! i = take n (drop q bs) ! i"
    using i assms(1) length_put_bytes_ge [of bs p ys] by simp
qed

end
