(* ===== verification/Snapshot_Format.thy ===== *)
theory Snapshot_Format imports Byte_File Float_Model begin

text \<open>
  The two snapshot formats: \<open>src/src/reader-psphray.inc\<close> and \<open>src/src/reader-massiveblack.inc\<close>. A file is
  a sequence of blocks, each framed by its size; the first is the image of the header.

  The functions of a format are a record, as in \<open>src/src/reader-internal.h\<close>, and the locale
  \<open>snapshot_format\<close> states what reading and writing rely on: names in the order of the file, a size
  and a length for each. Its laws (a block is read back as written, all others stay) are
  interpreted for both formats; \<open>snapshot_header\<close> adds the header. Errors reported through \<open>char ** error\<close>
  end the program in \<open>src/src/reader.c\<close>, so they are traps here.
\<close>

section \<open>The header\<close>

text \<open>
  The struct of a snapshot, whose image in memory is the first block of a file. The numbers are
  kept at their width; how the machine represents a \<open>double\<close> is the parameter \<open>codec\<close>.
\<close>

record codec =
  enc32 :: "real \<Rightarrow> 32 word"
  dec32 :: "32 word \<Rightarrow> real"
  enc64 :: "real \<Rightarrow> 64 word"
  dec64 :: "64 word \<Rightarrow> real"

record header =
  hd_N :: "32 word list"
  hd_mass :: "real list"
  hd_time :: real
  hd_redshift :: real
  flag_sfr :: "32 word"
  flag_feedback :: "32 word"
  hd_total_low :: "32 word list"
  flag_cool :: "32 word"
  hd_Nfiles :: "32 word"
  hd_boxsize :: real
  hd_OmegaM :: real
  hd_OmegaL :: real
  hd_h :: real
  flag_sft :: "32 word"
  flag_met :: "32 word"
  hd_total_high :: "32 word list"
  flag_entropy :: "32 word"

record psphray_header = header +
  hd_OmegaB :: real
  hd_nrays :: "64 word"
  flag_Hmf :: "32 word"
  flag_Hemf :: "32 word"
  flag_Helium :: "32 word"
  flag_gammaHI :: "32 word"
  flag_cloudy :: "32 word"
  flag_eos :: "32 word"
  psphray_unused :: "32 word list"

record massiveblack_header = header +
  flag_double :: "32 word"
  flag_ic_info :: "32 word"
  flag_lpt_scalingfactor :: "32 word"
  massiveblack_unused :: "32 word list"

definition f64 :: "codec \<Rightarrow> real \<Rightarrow> 8 word list" where
  "f64 cod x = bytes64 (enc64 cod x)"

definition header_image :: "codec \<Rightarrow> 'a header_scheme \<Rightarrow> 8 word list" where
  "header_image cod h =
     concat (map bytes32 (hd_N h)) @ concat (map (f64 cod) (hd_mass h)) @ f64 cod (hd_time h) @ f64 cod (hd_redshift h)
     @ bytes32 (flag_sfr h) @ bytes32 (flag_feedback h) @ concat (map bytes32 (hd_total_low h))
     @ bytes32 (flag_cool h) @ bytes32 (hd_Nfiles h) @ f64 cod (hd_boxsize h) @ f64 cod (hd_OmegaM h)
     @ f64 cod (hd_OmegaL h) @ f64 cod (hd_h h) @ bytes32 (flag_sft h) @ bytes32 (flag_met h)
     @ concat (map bytes32 (hd_total_high h)) @ bytes32 (flag_entropy h)"

definition psphray_image :: "codec \<Rightarrow> psphray_header \<Rightarrow> 8 word list" where
  "psphray_image cod h =
     header_image cod h @ f64 cod (hd_OmegaB h) @ bytes64 (hd_nrays h) @ bytes32 (flag_Hmf h) @ bytes32 (flag_Hemf h)
     @ bytes32 (flag_Helium h) @ bytes32 (flag_gammaHI h) @ bytes32 (flag_cloudy h) @ bytes32 (flag_eos h)
     @ concat (map bytes32 (psphray_unused h))"

definition massiveblack_image :: "codec \<Rightarrow> massiveblack_header \<Rightarrow> 8 word list" where
  "massiveblack_image cod h =
     header_image cod h @ bytes32 (flag_double h) @ bytes32 (flag_ic_info h) @ bytes32 (flag_lpt_scalingfactor h)
     @ concat (map bytes32 (massiveblack_unused h))"

text \<open>Reading the image back, field by field.\<close>

definition at32 :: "nat \<Rightarrow> 8 word list \<Rightarrow> 32 word" where
  "at32 p bs = word32 (take 4 (drop p bs))"

definition at64 :: "codec \<Rightarrow> nat \<Rightarrow> 8 word list \<Rightarrow> real" where
  "at64 cod p bs = dec64 cod (word64 (take 8 (drop p bs)))"

definition psphray_of_image :: "codec \<Rightarrow> 8 word list \<Rightarrow> psphray_header" where
  "psphray_of_image cod bs =
     \<lparr>hd_N = map (\<lambda>k. at32 (4 * k) bs) [0..<6], hd_mass = map (\<lambda>k. at64 cod (24 + 8 * k) bs) [0..<6],
      hd_time = at64 cod 72 bs, hd_redshift = at64 cod 80 bs, flag_sfr = at32 88 bs, flag_feedback = at32 92 bs,
      hd_total_low = map (\<lambda>k. at32 (96 + 4 * k) bs) [0..<6], flag_cool = at32 120 bs, hd_Nfiles = at32 124 bs,
      hd_boxsize = at64 cod 128 bs, hd_OmegaM = at64 cod 136 bs, hd_OmegaL = at64 cod 144 bs, hd_h = at64 cod 152 bs,
      flag_sft = at32 160 bs, flag_met = at32 164 bs, hd_total_high = map (\<lambda>k. at32 (168 + 4 * k) bs) [0..<6],
      flag_entropy = at32 192 bs, hd_OmegaB = at64 cod 196 bs, hd_nrays = word64 (take 8 (drop 204 bs)),
      flag_Hmf = at32 212 bs, flag_Hemf = at32 216 bs, flag_Helium = at32 220 bs, flag_gammaHI = at32 224 bs,
      flag_cloudy = at32 228 bs, flag_eos = at32 232 bs,
      psphray_unused = map (\<lambda>k. at32 (236 + 4 * k) bs) [0..<5]\<rparr>"

definition massiveblack_of_image :: "codec \<Rightarrow> 8 word list \<Rightarrow> massiveblack_header" where
  "massiveblack_of_image cod bs =
     \<lparr>hd_N = map (\<lambda>k. at32 (4 * k) bs) [0..<6], hd_mass = map (\<lambda>k. at64 cod (24 + 8 * k) bs) [0..<6],
      hd_time = at64 cod 72 bs, hd_redshift = at64 cod 80 bs, flag_sfr = at32 88 bs, flag_feedback = at32 92 bs,
      hd_total_low = map (\<lambda>k. at32 (96 + 4 * k) bs) [0..<6], flag_cool = at32 120 bs, hd_Nfiles = at32 124 bs,
      hd_boxsize = at64 cod 128 bs, hd_OmegaM = at64 cod 136 bs, hd_OmegaL = at64 cod 144 bs, hd_h = at64 cod 152 bs,
      flag_sft = at32 160 bs, flag_met = at32 164 bs, hd_total_high = map (\<lambda>k. at32 (168 + 4 * k) bs) [0..<6],
      flag_entropy = at32 192 bs, flag_double = at32 196 bs, flag_ic_info = at32 200 bs,
      flag_lpt_scalingfactor = at32 204 bs, massiveblack_unused = map (\<lambda>k. at32 (208 + 4 * k) bs) [0..<12]\<rparr>"

text \<open>A header after \<open>calloc\<close>.\<close>

definition psphray_blank :: psphray_header where
  "psphray_blank =
     \<lparr>hd_N = replicate 6 0, hd_mass = replicate 6 0, hd_time = 0, hd_redshift = 0, flag_sfr = 0, flag_feedback = 0,
      hd_total_low = replicate 6 0, flag_cool = 0, hd_Nfiles = 0, hd_boxsize = 0, hd_OmegaM = 0, hd_OmegaL = 0, hd_h = 0,
      flag_sft = 0, flag_met = 0, hd_total_high = replicate 6 0, flag_entropy = 0, hd_OmegaB = 0, hd_nrays = 0,
      flag_Hmf = 0, flag_Hemf = 0, flag_Helium = 0, flag_gammaHI = 0, flag_cloudy = 0, flag_eos = 0,
      psphray_unused = replicate 5 0\<rparr>"

definition massiveblack_blank :: massiveblack_header where
  "massiveblack_blank =
     \<lparr>hd_N = replicate 6 0, hd_mass = replicate 6 0, hd_time = 0, hd_redshift = 0, flag_sfr = 0, flag_feedback = 0,
      hd_total_low = replicate 6 0, flag_cool = 0, hd_Nfiles = 0, hd_boxsize = 0, hd_OmegaM = 0, hd_OmegaL = 0, hd_h = 0,
      flag_sft = 0, flag_met = 0, hd_total_high = replicate 6 0, flag_entropy = 0, flag_double = 0, flag_ic_info = 0,
      flag_lpt_scalingfactor = 0, massiveblack_unused = replicate 12 0\<rparr>"

section \<open>Constants\<close>

record constants =
  rc_N :: "64 word list"
  rc_Ntot :: "64 word list"
  rc_Nfiles :: "64 word"
  rc_mass :: "real list"
  rc_boxsize :: real
  rc_redshift :: real
  rc_time :: real
  rc_OmegaL :: real
  rc_OmegaM :: real
  rc_OmegaB :: real
  rc_h :: real
  rc_PhysDensThresh :: real
  rc_hasHe :: "32 word"
  rc_hasgammaHI :: "32 word"

definition constants_blank :: constants where
  "constants_blank = \<lparr>rc_N = replicate 6 0, rc_Ntot = replicate 6 0, rc_Nfiles = 0, rc_mass = replicate 6 0,
     rc_boxsize = 0, rc_redshift = 0, rc_time = 0, rc_OmegaL = 0, rc_OmegaM = 0, rc_OmegaB = 0, rc_h = 0,
     rc_PhysDensThresh = 0, rc_hasHe = 0, rc_hasgammaHI = 0\<rparr>"

text \<open>What both formats copy: the first six lines of each routine, and the common fields.\<close>

definition get_common :: "'a header_scheme \<Rightarrow> constants \<Rightarrow> constants" where
  "get_common h c = c\<lparr>rc_N := map ucast (hd_N h),
     rc_Ntot := map2 (\<lambda>lo hi. ucast lo + push_bit 32 (ucast hi)) (hd_total_low h) (hd_total_high h),
     rc_mass := hd_mass h, rc_redshift := hd_redshift h, rc_boxsize := hd_boxsize h, rc_OmegaM := hd_OmegaM h,
     rc_OmegaL := hd_OmegaL h, rc_h := hd_h h, rc_time := hd_time h, rc_Nfiles := scast (hd_Nfiles h)\<rparr>"

definition set_common :: "constants \<Rightarrow> 'a header_scheme \<Rightarrow> 'a header_scheme" where
  "set_common c h = h\<lparr>hd_N := map ucast (rc_N c), hd_total_low := map ucast (rc_Ntot c),
     hd_total_high := map (\<lambda>w. ucast (drop_bit 32 w)) (rc_Ntot c), hd_mass := rc_mass c,
     hd_redshift := rc_redshift c, hd_boxsize := rc_boxsize c, hd_OmegaM := rc_OmegaM c,
     hd_OmegaL := rc_OmegaL c, hd_h := rc_h c, hd_time := rc_time c, hd_Nfiles := ucast (rc_Nfiles c)\<rparr>"

definition psphray_get_constants :: "psphray_header \<Rightarrow> constants \<Rightarrow> constants" where
  "psphray_get_constants h c = (get_common h c)
     \<lparr>rc_hasgammaHI := flag_gammaHI h, rc_hasHe := flag_Helium h, rc_OmegaB := hd_OmegaB h\<rparr>"

definition psphray_set_constants :: "psphray_header \<Rightarrow> constants \<Rightarrow> psphray_header" where
  "psphray_set_constants h c = (set_common c h)
     \<lparr>flag_gammaHI := rc_hasgammaHI c, flag_Helium := rc_hasHe c, hd_OmegaB := rc_OmegaB c\<rparr>"

definition massiveblack_get_constants :: "massiveblack_header \<Rightarrow> constants \<Rightarrow> constants" where
  "massiveblack_get_constants h c = (get_common h c)
     \<lparr>rc_PhysDensThresh := db (831188 / 10 ^ 9), rc_OmegaB := db (44 / 1000)\<rparr>"

definition massiveblack_set_constants :: "massiveblack_header \<Rightarrow> constants \<Rightarrow> massiveblack_header" where
  "massiveblack_set_constants h c = set_common c h"

definition psphray_def_header :: "psphray_header \<Rightarrow> psphray_header" where
  "psphray_def_header h = h\<lparr>flag_entropy := 0, flag_cloudy := 0, flag_cool := 1, flag_eos := 0, flag_met := 1,
     flag_Hemf := 0, flag_sft := 1, flag_sfr := 1, flag_Helium := 0, flag_gammaHI := 0, flag_feedback := 1,
     flag_Hmf := 0\<rparr>"

definition massiveblack_def_header :: "massiveblack_header \<Rightarrow> massiveblack_header" where
  "massiveblack_def_header h = h\<lparr>flag_entropy := 0, flag_sft := 1, flag_sfr := 1, flag_double := 0, flag_cool := 1,
     flag_feedback := 1, flag_ic_info := 0, flag_met := 1\<rparr>"

section \<open>The tables of the formats\<close>

definition hN :: "'a header_scheme \<Rightarrow> nat \<Rightarrow> nat" where
  "hN h k = unat (hd_N h ! k)"

text \<open>
  The conditional expressions of \<open>_pstart\<close>: \<open>a < ptype ? N[a] : 0 + b < ptype ? N[b] : ...\<close> is a chain of
  alternatives, so only the first type below \<open>ptype\<close> counts.
\<close>

fun start_of :: "'a header_scheme \<Rightarrow> int \<Rightarrow> nat list \<Rightarrow> nat" where
  "start_of h ptype [] = 0"
| "start_of h ptype (k # ks) = (if int k < ptype then hN h k else start_of h ptype ks)"

text \<open>A chain of \<open>strcmp\<close>.\<close>

definition row :: "(string \<times> 'b) list \<Rightarrow> string \<Rightarrow> 'b res" where
  "row table blk = (case map_of table blk of None \<Rightarrow> Inl (Trap ''block is unknown'') | Some v \<Rightarrow> Inr v)"

definition psphray_ids :: "(string \<times> nat) list" where
  "psphray_ids =
     [(''pos'', 1), (''id'', 2), (''mass'', 3), (''ie'', 4), (''rho'', 5), (''ye'', 6), (''xHI'', 7),
      (''sml'', 8), (''Hmf'', 9), (''Hemf'', 10), (''xHeI'', 11), (''xHeII'', 12), (''gammaHI'', 13),
      (''HIa_cloudy'', 14), (''eos'', 15), (''lasthit'', 16), (''hits'', 17), (''sft'', 18),
      (''ngammas'', 19), (''spec'', 20), (''header'', 0)]"

definition psphray_names :: "string list" where
  "psphray_names =
     [''header'', ''pos'', ''id'', ''mass'', ''ie'', ''rho'', ''ye'', ''xHI'', ''sml'', ''Hmf'',
      ''Hemf'', ''xHeI'', ''xHeII'', ''gammaHI'', ''HIa_cloudy'', ''eos'', ''lasthit'', ''hits'',
      ''sft'', ''ngammas'', ''spec'']"

definition psphray_itemsizes :: "(string \<times> nat) list" where
  "psphray_itemsizes =
     [(''pos'', 12), (''id'', 8), (''mass'', 4), (''ie'', 4), (''rho'', 4), (''ye'', 4),
      (''xHI'', 4), (''sml'', 4), (''Hmf'', 4), (''Hemf'', 4), (''xHeI'', 4), (''xHeII'', 4),
      (''gammaHI'', 4), (''HIa_cloudy'', 4), (''eos'', 4), (''lasthit'', 8), (''hits'', 4),
      (''sft'', 4), (''ngammas'', 8), (''spec'', 8), (''header'', 256)]"

definition psphray_pstarts :: "psphray_header \<Rightarrow> int \<Rightarrow> (string \<times> nat) list" where
  "psphray_pstarts h ptype =
     [(''pos'', start_of h ptype [0, 4, 5]), (''id'', start_of h ptype [0, 4, 5]),
      (''mass'', start_of h ptype [0, 4, 5]), (''ie'', start_of h ptype [0]),
      (''rho'', start_of h ptype [0]), (''ye'', start_of h ptype [0]),
      (''xHI'', start_of h ptype [0]), (''sml'', start_of h ptype [0]),
      (''Hmf'', start_of h ptype [0]), (''Hemf'', start_of h ptype [0]),
      (''xHeI'', start_of h ptype [0]), (''xHeII'', start_of h ptype [0]),
      (''gammaHI'', start_of h ptype [0]), (''HIa_cloudy'', start_of h ptype [0]),
      (''eos'', start_of h ptype [0]), (''lasthit'', start_of h ptype [0]),
      (''hits'', start_of h ptype [0]), (''sft'', start_of h ptype [4]),
      (''ngammas'', start_of h ptype [5]), (''spec'', start_of h ptype [5])]"

definition psphray_lengths :: "psphray_header \<Rightarrow> (string \<times> nat) list" where
  "psphray_lengths h =
     [(''pos'', hN h 0 + hN h 4 + hN h 5), (''id'', hN h 0 + hN h 4 + hN h 5),
      (''mass'', hN h 0 + hN h 4 + hN h 5), (''ie'', hN h 0), (''rho'', hN h 0), (''ye'', hN h 0),
      (''xHI'', hN h 0), (''sml'', hN h 0), (''Hmf'', if flag_Hmf h \<noteq> 0 then hN h 0 else 0),
      (''Hemf'', if flag_Hemf h \<noteq> 0 then hN h 0 else 0),
      (''xHeI'', if flag_Helium h \<noteq> 0 then hN h 0 else 0),
      (''xHeII'', if flag_Helium h \<noteq> 0 then hN h 0 else 0),
      (''gammaHI'', if flag_gammaHI h \<noteq> 0 then hN h 0 else 0),
      (''HIa_cloudy'', if flag_cloudy h \<noteq> 0 then hN h 0 else 0),
      (''eos'', if flag_eos h \<noteq> 0 then hN h 0 else 0), (''lasthit'', hN h 0),
      (''hits'', hN h 0), (''sft'', hN h 4), (''ngammas'', hN h 5), (''spec'', hN h 5),
      (''header'', 1)]"

definition massiveblack_ids :: "(string \<times> nat) list" where
  "massiveblack_ids =
     [(''pos'', 1), (''vel'', 2), (''id'', 3), (''mass'', 4), (''ie'', 5), (''rho'', 6), (''ye'', 7),
      (''xHI'', 8), (''sml'', 9), (''sfr'', 10), (''sft'', 11), (''met'', 12), (''bhmass'', 13),
      (''bhmdot'', 14), (''header'', 0)]"

definition massiveblack_names :: "string list" where
  "massiveblack_names =
     [''header'', ''pos'', ''vel'', ''id'', ''mass'', ''ie'', ''rho'', ''ye'', ''xHI'', ''sml'',
      ''sfr'', ''sft'', ''met'', ''bhmass'', ''bhmdot'']"

definition massiveblack_itemsizes :: "(string \<times> nat) list" where
  "massiveblack_itemsizes =
     [(''pos'', 12), (''vel'', 12), (''id'', 8), (''mass'', 4), (''ie'', 4), (''rho'', 4),
      (''ye'', 4), (''xHI'', 4), (''sml'', 4), (''sfr'', 4), (''sft'', 4), (''met'', 4),
      (''bhmass'', 4), (''bhmdot'', 4), (''header'', 256)]"

definition massiveblack_pstarts :: "massiveblack_header \<Rightarrow> int \<Rightarrow> (string \<times> nat) list" where
  "massiveblack_pstarts h ptype =
     [(''pos'', start_of h ptype [0, 1, 4, 5]), (''vel'', start_of h ptype [0, 1, 4, 5]),
      (''id'', start_of h ptype [0, 1, 4, 5]), (''mass'', start_of h ptype [0, 4, 5]),
      (''ie'', start_of h ptype [0]), (''rho'', start_of h ptype [0]),
      (''ye'', start_of h ptype [0]), (''xHI'', start_of h ptype [0]),
      (''sml'', start_of h ptype [0]), (''sfr'', start_of h ptype [0]),
      (''sft'', start_of h ptype [4]), (''met'', start_of h ptype [0, 4]),
      (''bhmass'', start_of h ptype [5]), (''bhmdot'', start_of h ptype [5])]"

definition massiveblack_lengths :: "massiveblack_header \<Rightarrow> (string \<times> nat) list" where
  "massiveblack_lengths h =
     [(''pos'', hN h 0 + hN h 1 + hN h 4 + hN h 5), (''vel'', hN h 0 + hN h 1 + hN h 4 + hN h 5),
      (''id'', hN h 0 + hN h 1 + hN h 4 + hN h 5), (''mass'', hN h 0 + hN h 4 + hN h 5),
      (''ie'', hN h 0), (''rho'', hN h 0), (''ye'', hN h 0), (''xHI'', hN h 0), (''sml'', hN h 0),
      (''sfr'', if flag_sfr h \<noteq> 0 then hN h 0 else 0),
      (''sft'', if flag_sft h \<noteq> 0 then hN h 4 else 0),
      (''met'', if flag_met h \<noteq> 0 then hN h 0 + hN h 4 else 0), (''bhmass'', hN h 5),
      (''bhmdot'', hN h 5), (''header'', 1)]"


section \<open>Blocks\<close>

text \<open>
  The functions of a format (\<open>ReaderFuncs\<close>) with the image of its header. The code of \<open>_offset\<close>,
  \<open>_read\<close> and \<open>_write\<close> is the same in both formats.
\<close>

record 'h reader_funcs =
  rf_blockid :: "string \<Rightarrow> nat res"
  rf_blockname :: "nat \<Rightarrow> string res"
  rf_itemsize :: "string \<Rightarrow> nat res"
  rf_pstart :: "'h \<Rightarrow> string \<Rightarrow> int \<Rightarrow> nat res"
  rf_length :: "'h \<Rightarrow> string \<Rightarrow> nat res"
  rf_get_constants :: "'h \<Rightarrow> constants \<Rightarrow> constants"
  rf_set_constants :: "'h \<Rightarrow> constants \<Rightarrow> 'h"
  rf_def_header :: "'h \<Rightarrow> 'h"
  rf_blank :: 'h
  rf_image :: "codec \<Rightarrow> 'h \<Rightarrow> 8 word list"
  rf_of_image :: "codec \<Rightarrow> 8 word list \<Rightarrow> 'h"

definition name_at :: "string list \<Rightarrow> nat \<Rightarrow> string res" where
  "name_at names k = (if k \<ge> length names then Inl (Trap ''blockid is unknown'') else Inr (names ! k))"

definition psphray_funcs :: "psphray_header reader_funcs" where
  "psphray_funcs =
     \<lparr>rf_blockid = row psphray_ids, rf_blockname = name_at psphray_names, rf_itemsize = row psphray_itemsizes,
      rf_pstart = (\<lambda>h blk ptype. row (psphray_pstarts h ptype) blk), rf_length = (\<lambda>h. row (psphray_lengths h)),
      rf_get_constants = psphray_get_constants, rf_set_constants = psphray_set_constants,
      rf_def_header = psphray_def_header, rf_blank = psphray_blank, rf_image = psphray_image,
      rf_of_image = psphray_of_image\<rparr>"

definition massiveblack_funcs :: "massiveblack_header reader_funcs" where
  "massiveblack_funcs =
     \<lparr>rf_blockid = row massiveblack_ids, rf_blockname = name_at massiveblack_names, rf_itemsize = row massiveblack_itemsizes,
      rf_pstart = (\<lambda>h blk ptype. row (massiveblack_pstarts h ptype) blk), rf_length = (\<lambda>h. row (massiveblack_lengths h)),
      rf_get_constants = massiveblack_get_constants, rf_set_constants = massiveblack_set_constants,
      rf_def_header = massiveblack_def_header, rf_blank = massiveblack_blank, rf_image = massiveblack_image,
      rf_of_image = massiveblack_of_image\<rparr>"

fun offset_loop :: "'h reader_funcs \<Rightarrow> 'h \<Rightarrow> nat list \<Rightarrow> nat \<Rightarrow> nat res" where
  "offset_loop F h [] off = Inr off"
| "offset_loop F h (i # is) off =
     rbind (rf_blockname F i) (\<lambda>blknm.
     rbind (rf_length F h blknm) (\<lambda>l.
     rbind (rf_itemsize F blknm) (\<lambda>b.
       offset_loop F h is (if l * b > 0 then off + (l * b + 8) else off))))"

definition block_offset :: "'h reader_funcs \<Rightarrow> 'h \<Rightarrow> string \<Rightarrow> nat res" where
  "block_offset F h blk = rbind (rf_blockid F blk) (\<lambda>k. offset_loop F h [0..<k] 0)"

text \<open>\<open>fread(&blksize, sizeof(int), 1, fp)\<close> into a variable that is 0 before.\<close>

definition read_mark :: "cfile \<Rightarrow> 32 word \<times> cfile" where
  "read_mark f = (let (got, f') = fread 4 f in (word32 (into_buffer got [0, 0, 0, 0]), f'))"

definition block_read :: "'h reader_funcs \<Rightarrow> codec \<Rightarrow> 'h \<Rightarrow> string \<Rightarrow> 8 word list \<Rightarrow> int \<Rightarrow> int \<Rightarrow> cfile
    \<Rightarrow> ('h \<times> 8 word list \<times> cfile) res" where
  "block_read F cod h blk buf start len fp =
     rbind (block_offset F h blk) (\<lambda>off.
     rbind (rf_length F h blk) (\<lambda>l.
     rbind (rf_itemsize F blk) (\<lambda>b.
       if l = 0 then Inr (h, buf, fp)
       else
         let (mark, f1) = read_mark (fseek_set (int off) fp)
         in if mark \<noteq> of_nat (l * b) then Inl (Trap ''block start size mismatch'')
            else
              let target = (if blk = ''header'' then rf_image F cod h else buf)
              in if len < 0 \<or> int (length target) < int b * len then Inl Out_of_bounds
                 else
                   let (got, f2) = fread (b * nat len) (fseek_cur (start * int b) f1);
                       (mark', f3) = read_mark (fseek_cur ((int l - len - start) * int b) f2);
                       new = into_buffer got target
                   in if mark' \<noteq> of_nat (l * b) then Inl (Trap ''block end size mismatch'')
                      else Inr (if blk = ''header'' then (rf_of_image F cod new, buf, f3) else (h, new, f3)))))"

definition block_write :: "'h reader_funcs \<Rightarrow> codec \<Rightarrow> 'h \<Rightarrow> string \<Rightarrow> 8 word list \<Rightarrow> int \<Rightarrow> int \<Rightarrow> cfile \<Rightarrow> cfile res" where
  "block_write F cod h blk buf start len fp =
     rbind (block_offset F h blk) (\<lambda>off.
     rbind (rf_length F h blk) (\<lambda>l.
       if l = 0 then Inr fp
       else
         rbind (rf_itemsize F blk) (\<lambda>b.
           let data = (if blk = ''header'' then rf_image F cod h else buf); mark = bytes32 (of_nat (l * b))
           in if len < 0 \<or> int (length data) < int b * len then Inl Out_of_bounds
              else Inr (fwrite mark (fseek_cur ((int l - len - start) * int b)
                     (fwrite (take (b * nat len) data) (fseek_cur (start * int b)
                       (fwrite mark (fseek_set (int off) fp)))))))))"

section \<open>Framed blocks in a file\<close>

text \<open>A block of \<open>n\<close> bytes at \<open>off\<close>: its size in four bytes before and after its data.\<close>

definition framed :: "nat \<Rightarrow> nat \<Rightarrow> 8 word list \<Rightarrow> bool" where
  "framed off n bs \<longleftrightarrow> off + n + 8 \<le> length bs \<and> take 4 (drop off bs) = bytes32 (of_nat n)
     \<and> take 4 (drop (off + 4 + n) bs) = bytes32 (of_nat n)"

definition block_data :: "nat \<Rightarrow> nat \<Rightarrow> nat \<Rightarrow> 8 word list \<Rightarrow> 8 word list" where
  "block_data off p n bs = take n (drop (off + 4 + p) bs)"

definition write_frame :: "nat \<Rightarrow> nat \<Rightarrow> nat \<Rightarrow> 8 word list \<Rightarrow> 8 word list \<Rightarrow> 8 word list" where
  "write_frame off n p data bs =
     put_bytes (off + 4 + n) (bytes32 (of_nat n)) (put_bytes (off + 4 + p) data (put_bytes off (bytes32 (of_nat n)) bs))"

lemma bytes32_nonempty [simp]: "bytes32 w \<noteq> []"
  using length_bytes(1) [of w] by (metis list.size(3) zero_neq_numeral)

lemma length_write_frame: "length bs \<le> length (write_frame off n p data bs) \<and> off + n + 8 \<le> length (write_frame off n p data bs)"
  unfolding write_frame_def
  by (auto simp: length_put_bytes intro: order_trans [OF _ length_put_bytes_ge] length_put_bytes_ge le_max_iff_disj [THEN iffD2])

lemma write_frame_framed:
  assumes "p + length data \<le> n"
  shows "framed off n (write_frame off n p data bs)" and "block_data off p (length data) (write_frame off n p data bs) = data"
proof -
  let ?m = "bytes32 (of_nat n)" and ?b1 = "put_bytes off (bytes32 (of_nat n)) bs"
  let ?b2 = "put_bytes (off + 4 + p) data ?b1"
  have l1: "off + 4 \<le> length ?b1" by (simp add: length_put_bytes)
  then have l2: "off + 4 \<le> length ?b2" using length_put_bytes_ge order_trans by blast
  have "take 4 (drop off (write_frame off n p data bs)) = take 4 (drop off ?b2)"
    unfolding write_frame_def by (rule get_put_other) (use l2 in simp_all)
  also have "\<dots> = take 4 (drop off ?b1)" by (rule get_put_other) (use l1 in simp_all)
  also have "\<dots> = ?m" using get_put_same [of ?m off bs] by simp
  finally have 1: "take 4 (drop off (write_frame off n p data bs)) = ?m" .
  have "take 4 (drop (off + 4 + n) (write_frame off n p data bs)) = ?m"
    unfolding write_frame_def using get_put_same [of ?m "off + 4 + n" ?b2] by simp
  then show "framed off n (write_frame off n p data bs)"
    using 1 length_write_frame [of bs off n p data] by (simp add: framed_def)
  show "block_data off p (length data) (write_frame off n p data bs) = data"
  proof (cases "data = []")
    case False
    then have "off + 4 + p + length data \<le> length ?b2" by (simp add: length_put_bytes)
    then have "take (length data) (drop (off + 4 + p) (write_frame off n p data bs)) = take (length data) (drop (off + 4 + p) ?b2)"
      unfolding write_frame_def by (rule get_put_other) (use assms in simp)
    then show ?thesis using get_put_same [OF False, of "off + 4 + p" ?b1] by (simp add: block_data_def)
  qed (simp add: block_data_def)
qed

lemma write_frame_other:
  assumes "q + k \<le> length bs" and "q + k \<le> off \<or> off + n + 8 \<le> q" and "p + length data \<le> n"
  shows "take k (drop q (write_frame off n p data bs)) = take k (drop q bs)"
proof -
  let ?b1 = "put_bytes off (bytes32 (of_nat n)) bs"
  let ?b2 = "put_bytes (off + 4 + p) data ?b1"
  have "length bs \<le> length ?b1" "length ?b1 \<le> length ?b2" by (rule length_put_bytes_ge)+
  then have l: "q + k \<le> length ?b1" "q + k \<le> length ?b2" using assms(1) by simp_all
  have "take k (drop q (write_frame off n p data bs)) = take k (drop q ?b2)"
    unfolding write_frame_def by (rule get_put_other [OF l(2)]) (use assms in auto)
  also have "\<dots> = take k (drop q ?b1)" by (rule get_put_other [OF l(1)]) (use assms in auto)
  also have "\<dots> = take k (drop q bs)" by (rule get_put_other [OF assms(1)]) (use assms in auto)
  finally show ?thesis .
qed

lemma write_frame_same_block:
  assumes "framed off n bs" and "p' + k \<le> n" and "p' + k \<le> p \<or> p + length data \<le> p'" and "p + length data \<le> n"
  shows "block_data off p' k (write_frame off n p data bs) = block_data off p' k bs"
proof -
  let ?b1 = "put_bytes off (bytes32 (of_nat n)) bs"
  let ?b2 = "put_bytes (off + 4 + p) data ?b1" and ?q = "off + 4 + p'"
  have l0: "?q + k \<le> length bs" using assms(1,2) by (simp add: framed_def)
  have "length bs \<le> length ?b1" "length ?b1 \<le> length ?b2" by (rule length_put_bytes_ge)+
  then have l: "?q + k \<le> length ?b1" "?q + k \<le> length ?b2" using l0 by linarith+
  have "take k (drop ?q (write_frame off n p data bs)) = take k (drop ?q ?b2)"
    unfolding write_frame_def by (rule get_put_other [OF l(2)]) (use assms in auto)
  also have "\<dots> = take k (drop ?q ?b1)" by (rule get_put_other [OF l(1)]) (use assms in auto)
  also have "\<dots> = take k (drop ?q bs)" by (rule get_put_other [OF l0]) (use assms in auto)
  finally show ?thesis by (simp add: block_data_def)
qed

lemma framed_cong:
  assumes "framed off n bs" and "length bs \<le> length bs'"
    and "take 4 (drop off bs') = take 4 (drop off bs)" "take 4 (drop (off + 4 + n) bs') = take 4 (drop (off + 4 + n) bs)"
  shows "framed off n bs'"
  using assms by (simp add: framed_def)

section \<open>Formats\<close>

definition block_span :: "nat \<Rightarrow> nat" where
  "block_span n = (if n > 0 then n + 8 else 0)"

definition block_start :: "(string \<Rightarrow> nat) \<Rightarrow> string list \<Rightarrow> nat \<Rightarrow> nat" where
  "block_start bsize names k = (\<Sum>blk\<leftarrow>take k names. block_span (bsize blk))"

lemma block_start_Suc: "k < length names \<Longrightarrow> block_start bsize names (Suc k) = block_start bsize names k + block_span (bsize (names ! k))"
  by (simp add: block_start_def take_Suc_conv_app_nth)

lemma block_start_mono: "j \<le> k \<Longrightarrow> k \<le> length names \<Longrightarrow> block_start bsize names j \<le> block_start bsize names k"
proof (induction k)
  case (Suc k)
  then show ?case by (cases "j = Suc k") (simp_all add: block_start_Suc)
qed simp

text \<open>The interface of a format: names in the order of the file, sizes and lengths by name.\<close>

locale snapshot_format =
  fixes F :: "'h reader_funcs" and names :: "string list" and isz :: "string \<Rightarrow> nat" and len :: "'h \<Rightarrow> string \<Rightarrow> nat"
  assumes distinct: "distinct names"
    and positive: "k < length names \<Longrightarrow> 0 < isz (names ! k)"
    and ids: "k < length names \<Longrightarrow> rf_blockid F (names ! k) = Inr k"
    and nms: "k < length names \<Longrightarrow> rf_blockname F k = Inr (names ! k)"
    and sizes: "k < length names \<Longrightarrow> rf_itemsize F (names ! k) = Inr (isz (names ! k))"
    and lens: "k < length names \<Longrightarrow> rf_length F h (names ! k) = Inr (len h (names ! k))"
begin

lemma offset_loop_result:
  "j + n \<le> length names \<Longrightarrow>
   offset_loop F h [j..<j + n] (block_start (\<lambda>blk. len h blk * isz blk) names j)
     = Inr (block_start (\<lambda>blk. len h blk * isz blk) names (j + n))"
proof (induction n arbitrary: j)
  case (Suc n)
  have j: "j < length names" using Suc.prems by simp
  have up: "[j..<j + Suc n] = j # [Suc j..<Suc j + n]" using upt_conv_Cons [of j "j + Suc n"] by simp
  let ?b = "\<lambda>blk. len h blk * isz blk"
  have "offset_loop F h [j..<j + Suc n] (block_start ?b names j) = offset_loop F h [Suc j..<Suc j + n] (block_start ?b names (Suc j))"
    unfolding up by (simp add: nms [OF j] sizes [OF j] lens [OF j] block_start_Suc [OF j] block_span_def del: upt_Suc)
  also have "\<dots> = Inr (block_start ?b names (Suc j + n))" by (rule Suc.IH) (use Suc.prems in simp)
  finally show ?case by simp
qed (simp add: block_start_def)

lemma block_offset_result:
  "k < length names \<Longrightarrow> block_offset F h (names ! k) = Inr (block_start (\<lambda>blk. len h blk * isz blk) names k)"
  using offset_loop_result [of 0 k h] by (simp add: block_offset_def ids block_start_def)

lemma blocks_apart:
  assumes "j < length names" "k < length names" "j \<noteq> k"
  shows "block_start bsize names j + block_span (bsize (names ! j)) \<le> block_start bsize names k
    \<or> block_start bsize names k + block_span (bsize (names ! k)) \<le> block_start bsize names j"
proof (cases "j < k")
  case True
  then show ?thesis using block_start_mono [of "Suc j" k names bsize] assms by (simp add: block_start_Suc)
next
  case False
  then show ?thesis using block_start_mono [of "Suc k" j names bsize] assms by (simp add: block_start_Suc)
qed

end

section \<open>What reading and writing do\<close>

lemma fseek_simps [simp]: "fseek_set (int off) f = f\<lparr>f_pos := off\<rparr>"
  by (simp add: fseek_set_def)

lemma seek_forward: "0 \<le> d \<Longrightarrow> fseek_cur d f = f\<lparr>f_pos := f_pos f + nat d\<rparr>"
  by (simp add: fseek_cur_def fseek_set_def nat_add_distrib)

lemma gap: "p + n \<le> l \<Longrightarrow> (int l - int n - int p) * int b = int ((l - n - p) * b)"
  by (simp add: of_nat_diff)

lemma block_write_result:
  assumes "block_offset F h blk = Inr off" "rf_length F h blk = Inr l" "rf_itemsize F blk = Inr b"
    and "0 < l" "p + n \<le> l" "data = (if blk = ''header'' then rf_image F cod h else buf)" "b * n \<le> length data"
  shows "block_write F cod h blk buf (int p) (int n) fp =
    Inr (fp\<lparr>f_bytes := write_frame off (l * b) (p * b) (take (b * n) data) (f_bytes fp), f_pos := off + l * b + 8\<rparr>)"
proof -
  have size: "p * b + n * b + (l - n - p) * b = l * b"
    using assms(5) by (metis add.assoc add.commute add_mult_distrib diff_diff_left le_add_diff_inverse)
  have pos: "off + 4 + p * b + b * n + (l - n - p) * b = off + 4 + l * b" using size by (simp add: mult.commute)
  have data: "length (take (b * n) data) = b * n" using assms(7) by simp
  have le: "\<not> int (length data) < int b * int n" using assms(7) by (simp flip: of_nat_mult)
  show ?thesis
    unfolding block_write_def assms(1-3) rbind_simps Let_def assms(6) [symmetric]
    using assms(4) le data pos
    by (simp add: gap [OF assms(5)] seek_forward fwrite_def write_frame_def nat_mult_distrib add.assoc)
qed

lemma read_mark_result:
  assumes "p + 4 \<le> length (f_bytes f)" "f_pos f = p"
  shows "read_mark f = (word32 (take 4 (drop p (f_bytes f))), f\<lparr>f_pos := p + 4\<rparr>)"
  using assms by (simp add: read_mark_def fread_def Let_def into_buffer_def)

lemma block_read_result:
  assumes "block_offset F h blk = Inr off" "rf_length F h blk = Inr l" "rf_itemsize F blk = Inr b"
    and "0 < l" "p + n \<le> l" "target = (if blk = ''header'' then rf_image F cod h else buf)" "b * n \<le> length target"
    and "framed off (l * b) (f_bytes fp)"
    and "new = into_buffer (block_data off (p * b) (b * n) (f_bytes fp)) target"
  shows "block_read F cod h blk buf (int p) (int n) fp =
    Inr (if blk = ''header'' then (rf_of_image F cod new, buf, fp\<lparr>f_pos := off + l * b + 8\<rparr>)
         else (h, new, fp\<lparr>f_pos := off + l * b + 8\<rparr>))"
proof -
  let ?bs = "f_bytes fp"
  have size: "p * b + n * b + (l - n - p) * b = l * b"
    using assms(5) by (metis add.assoc add.commute add_mult_distrib diff_diff_left le_add_diff_inverse)
  have pos: "off + 4 + p * b + b * n + (l - n - p) * b = off + 4 + l * b" using size by (simp add: mult.commute)
  have fr: "off + l * b + 8 \<le> length ?bs" "take 4 (drop off ?bs) = bytes32 (of_nat (l * b))"
      "take 4 (drop (off + 4 + l * b) ?bs) = bytes32 (of_nat (l * b))"
    using assms(8) by (simp_all add: framed_def)
  have le: "\<not> int (length target) < int b * int n" using assms(7) by (simp flip: of_nat_mult)
  have m1: "read_mark (fp\<lparr>f_pos := off\<rparr>) = (of_nat (l * b), fp\<lparr>f_pos := off + 4\<rparr>)"
    using fr(1,2) by (subst read_mark_result [of off]) simp_all
  have inside: "off + 4 + p * b + b * n \<le> length ?bs" using size fr(1) by (simp add: mult.commute)
  have rd: "fread (b * n) (fp\<lparr>f_pos := off + 4 + p * b\<rparr>) = (block_data off (p * b) (b * n) ?bs, fp\<lparr>f_pos := off + 4 + p * b + b * n\<rparr>)"
    using inside by (simp add: fread_def Let_def block_data_def)
  have m2: "read_mark (fp\<lparr>f_pos := off + 4 + l * b\<rparr>) = (of_nat (l * b), fp\<lparr>f_pos := off + l * b + 8\<rparr>)"
    using fr(1,3) by (subst read_mark_result [of "off + 4 + l * b"]) (simp_all add: add.assoc)
  have s1: "fseek_cur (int p * int b) (fp\<lparr>f_pos := off + 4\<rparr>) = fp\<lparr>f_pos := off + 4 + p * b\<rparr>"
    by (subst seek_forward) (simp_all add: nat_mult_distrib)
  have s2: "fseek_cur ((int l - int n - int p) * int b) (fp\<lparr>f_pos := off + 4 + p * b + b * n\<rparr>) = fp\<lparr>f_pos := off + 4 + l * b\<rparr>"
    unfolding gap [OF assms(5)] seek_forward [OF of_nat_0_le_iff] nat_int using pos by simp
  show ?thesis
    unfolding block_read_def assms(1-3) rbind_simps Let_def assms(6) [symmetric] assms(9)
    using assms(4) le
    by (simp add: m1 s1 rd s2 m2)
qed

section \<open>Laws of a format\<close>

text \<open>A block is there: its frame is in place. The frame and what is read of it are a pair.\<close>

definition block_there :: "'h reader_funcs \<Rightarrow> 'h \<Rightarrow> string \<Rightarrow> 8 word list \<Rightarrow> bool" where
  "block_there F h blk bs \<longleftrightarrow> (case (block_offset F h blk, rf_length F h blk, rf_itemsize F blk) of
     (Inr off, Inr l, Inr b) \<Rightarrow> framed off (l * b) bs | _ \<Rightarrow> False)"

definition block_items :: "'h reader_funcs \<Rightarrow> 'h \<Rightarrow> string \<Rightarrow> nat \<Rightarrow> nat \<Rightarrow> 8 word list \<Rightarrow> 8 word list" where
  "block_items F h blk p n bs = (case (block_offset F h blk, rf_itemsize F blk) of
     (Inr off, Inr b) \<Rightarrow> block_data off (p * b) (b * n) bs | _ \<Rightarrow> [])"

context snapshot_format
begin

lemma name_index:
  assumes "blk \<in> set names"
  obtains k where "k < length names" "names ! k = blk" "block_offset F h blk = Inr (block_start (\<lambda>blk. len h blk * isz blk) names k)"
    "rf_length F h blk = Inr (len h blk)" "rf_itemsize F blk = Inr (isz blk)"
proof -
  obtain k where k: "k < length names" "names ! k = blk" using assms by (auto simp: in_set_conv_nth)
  show ?thesis using that [OF k] block_offset_result [OF k(1)] lens [OF k(1)] sizes [OF k(1)] k by simp
qed

lemma write_result:
  assumes "blk \<in> set names" "0 < len h blk" "p + n \<le> len h blk" "blk \<noteq> ''header''" "isz blk * n \<le> length buf"
  shows "\<exists>f'. block_write F cod h blk buf (int p) (int n) f = Inr f' \<and> length (f_bytes f) \<le> length (f_bytes f')
    \<and> block_there F h blk (f_bytes f') \<and> block_items F h blk p n (f_bytes f') = take (isz blk * n) buf
    \<and> (\<forall>q m. block_there F h blk (f_bytes f) \<and> q + m \<le> len h blk \<and> (q + m \<le> p \<or> p + n \<le> q)
          \<longrightarrow> block_items F h blk q m (f_bytes f') = block_items F h blk q m (f_bytes f))
    \<and> (\<forall>blk' \<in> set names. blk' \<noteq> blk \<and> 0 < len h blk' * isz blk' \<and> block_there F h blk' (f_bytes f)
          \<longrightarrow> block_there F h blk' (f_bytes f') \<and> (\<forall>q m. q + m \<le> len h blk'
             \<longrightarrow> block_items F h blk' q m (f_bytes f') = block_items F h blk' q m (f_bytes f)))"
proof -
  let ?size = "\<lambda>blk. len h blk * isz blk"
  obtain k where k: "k < length names" "names ! k = blk" "block_offset F h blk = Inr (block_start ?size names k)"
    "rf_length F h blk = Inr (len h blk)" "rf_itemsize F blk = Inr (isz blk)" by (rule name_index [OF assms(1), where h = h])
  let ?off = "block_start ?size names k" and ?data = "take (isz blk * n) buf"
  let ?new = "write_frame ?off (?size blk) (p * isz blk) ?data (f_bytes f)"
  have w: "block_write F cod h blk buf (int p) (int n) f = Inr (f\<lparr>f_bytes := ?new, f_pos := ?off + ?size blk + 8\<rparr>)"
    by (rule block_write_result [OF k(3-5) assms(2,3) _ assms(5)]) (simp add: assms(4))
  have fit: "p * isz blk + length ?data \<le> ?size blk"
    using mult_le_mono1 [OF assms(3), of "isz blk"] assms(5) by (simp add: algebra_simps)
  have same: "block_items F h blk q m ?new = block_items F h blk q m (f_bytes f)"
    if "block_there F h blk (f_bytes f)" "q + m \<le> len h blk" "q + m \<le> p \<or> p + n \<le> q" for q m
  proof -
    have "framed ?off (?size blk) (f_bytes f)" using that(1) by (simp add: block_there_def k)
    moreover have "q * isz blk + isz blk * m \<le> ?size blk"
      using mult_le_mono1 [OF that(2), of "isz blk"] by (simp add: algebra_simps)
    moreover have "q * isz blk + isz blk * m \<le> p * isz blk \<or> p * isz blk + length ?data \<le> q * isz blk"
      using that(3) mult_le_mono1 [of "q + m" p "isz blk"] mult_le_mono1 [of "p + n" q "isz blk"] assms(5)
      by (auto simp: algebra_simps)
    ultimately show ?thesis using write_frame_same_block [OF _ _ _ fit] by (simp add: block_items_def k)
  qed
  have other: "block_there F h blk' ?new \<and> (\<forall>q m. q + m \<le> len h blk' \<longrightarrow> block_items F h blk' q m ?new = block_items F h blk' q m (f_bytes f))"
    if blk': "blk' \<in> set names" "blk' \<noteq> blk" "0 < ?size blk'" "block_there F h blk' (f_bytes f)" for blk'
  proof -
    obtain j where j: "j < length names" "names ! j = blk'" "block_offset F h blk' = Inr (block_start ?size names j)"
      "rf_length F h blk' = Inr (len h blk')" "rf_itemsize F blk' = Inr (isz blk')" by (rule name_index [OF blk'(1), where h = h])
    let ?o = "block_start ?size names j"
    have fr: "framed ?o (?size blk') (f_bytes f)" using blk'(4) by (simp add: block_there_def j)
    have "j \<noteq> k" using blk'(2) j(2) k(2) by auto
    then have "?o + (?size blk' + 8) \<le> ?off \<or> ?off + ?size blk + 8 \<le> ?o"
      using blocks_apart [OF j(1) k(1), of ?size] blk'(2,3) j(2) k(2) assms(2) positive [OF k(1)] by (auto simp: block_span_def split: if_split_asm)
    then have keep: "take m (drop q ?new) = take m (drop q (f_bytes f))" if "?o \<le> q" "q + m \<le> ?o + (?size blk' + 8)" for q m
      by (intro write_frame_other [OF _ _ fit]) (use that fr in \<open>auto simp: framed_def\<close>)
    have "framed ?o (?size blk') ?new"
      by (rule framed_cong [OF fr]) (use length_write_frame keep in simp_all)
    moreover have "block_data ?o (q * isz blk') (isz blk' * m) ?new = block_data ?o (q * isz blk') (isz blk' * m) (f_bytes f)"
      if "q + m \<le> len h blk'" for q m
      unfolding block_data_def by (rule keep) (use mult_le_mono1 [OF that, of "isz blk'"] in \<open>simp_all add: algebra_simps\<close>)
    ultimately show ?thesis by (simp add: block_there_def block_items_def j)
  qed
  have len: "length ?data = isz blk * n" using assms(5) by simp
  have "block_there F h blk ?new" "block_items F h blk p n ?new = ?data"
    using write_frame_framed [OF fit, of ?off "f_bytes f"] len by (simp_all add: block_there_def block_items_def k)
  then show ?thesis
    unfolding w using same other length_write_frame [of "f_bytes f" ?off "?size blk" "p * isz blk" ?data] by auto
qed

lemma read_result:
  assumes "blk \<in> set names" "0 < len h blk" "p + n \<le> len h blk" "blk \<noteq> ''header''" "isz blk * n \<le> length buf"
    and "block_there F h blk (f_bytes f)"
  shows "\<exists>pos. block_read F cod h blk buf (int p) (int n) f
    = Inr (h, into_buffer (block_items F h blk p n (f_bytes f)) buf, f\<lparr>f_pos := pos\<rparr>)"
proof -
  let ?size = "\<lambda>blk. len h blk * isz blk"
  obtain k where k: "k < length names" "names ! k = blk" "block_offset F h blk = Inr (block_start ?size names k)"
    "rf_length F h blk = Inr (len h blk)" "rf_itemsize F blk = Inr (isz blk)" by (rule name_index [OF assms(1), where h = h])
  have "framed (block_start ?size names k) (?size blk) (f_bytes f)" using assms(6) by (simp add: block_there_def k)
  from block_read_result [OF k(3-5) assms(2,3) _ _ this refl, where buf = buf and target = buf and cod = cod] show ?thesis
    using assms(4,5) by (intro exI [of _ "block_start ?size names k + ?size blk + 8"]) (simp add: block_items_def k)
qed

end

section \<open>The header as a block\<close>

locale snapshot_header = snapshot_format F names isz len
  for F :: "'h reader_funcs" and names :: "string list" and isz :: "string \<Rightarrow> nat" and len :: "'h \<Rightarrow> string \<Rightarrow> nat" +
  fixes shape :: "'h \<Rightarrow> bool" and exact :: "codec \<Rightarrow> 'h \<Rightarrow> bool"
  assumes first: "0 < length names" "names ! 0 = ''header''"
    and head_size: "isz ''header'' = 256" "len h ''header'' = 1"
    and image_length: "shape h \<Longrightarrow> length (rf_image F cod h) = 256"
    and image_back: "shape h \<Longrightarrow> exact cod h \<Longrightarrow> rf_of_image F cod (rf_image F cod h) = h"
begin

lemma header_place:
  "block_offset F h ''header'' = Inr 0" "rf_length F h ''header'' = Inr 1" "rf_itemsize F ''header'' = Inr 256"
  using block_offset_result [OF first(1), of h] lens [OF first(1), of h] sizes [OF first(1)]
  by (simp_all add: first(2) head_size block_start_def)

text \<open>Writing the header and reading it into another one; the other blocks stay as they are.\<close>

lemma write_header_result:
  assumes "shape h" and "exact cod h"
  shows "\<exists>f'. block_write F cod h ''header'' [] 0 1 f = Inr f' \<and> length (f_bytes f) \<le> length (f_bytes f')
    \<and> (\<forall>g g0. f_bytes g = f_bytes f' \<and> shape g0 \<longrightarrow> (\<exists>pos. block_read F cod g0 ''header'' [] 0 1 g = Inr (h, [], g\<lparr>f_pos := pos\<rparr>)))
    \<and> (\<forall>blk \<in> set names. blk \<noteq> ''header'' \<and> 0 < len h blk * isz blk \<and> block_there F h blk (f_bytes f)
          \<longrightarrow> block_there F h blk (f_bytes f') \<and> (\<forall>q m. q + m \<le> len h blk
             \<longrightarrow> block_items F h blk q m (f_bytes f') = block_items F h blk q m (f_bytes f)))"
proof -
  let ?size = "\<lambda>blk. len h blk * isz blk" and ?img = "rf_image F cod h"
  let ?new = "write_frame 0 (1 * 256) (0 * 256) (take (256 * 1) ?img) (f_bytes f)"
  have img: "length ?img = 256" by (rule image_length [OF assms(1)])
  have w: "block_write F cod h ''header'' [] (int 0) (int 1) f = Inr (f\<lparr>f_bytes := ?new, f_pos := 0 + 1 * 256 + 8\<rparr>)"
    by (rule block_write_result [OF header_place]) (simp_all add: img)
  have fit: "0 * 256 + length (take (256 * 1) ?img) \<le> 1 * 256" by (simp add: img)
  note new = write_frame_framed [OF fit, of 0 "f_bytes f"]
  have again: "\<exists>pos. block_read F cod g0 ''header'' [] (int 0) (int 1) g = Inr (h, [], g\<lparr>f_pos := pos\<rparr>)"
    if g: "f_bytes g = ?new" "shape g0" for g g0
  proof -
    have new': "framed 0 (1 * 256) (f_bytes g)" using new(1) by (simp only: g)
    have data: "into_buffer (block_data 0 0 256 (f_bytes g)) (rf_image F cod g0) = ?img"
      using new(2) image_length [OF g(2)] img by (simp add: into_buffer_def g(1))
    show ?thesis
      using block_read_result [OF header_place _ _ refl _ new' refl, where buf = "[]" and cod = cod and p = 0 and n = 1 and h = g0]
        image_length [OF g(2)] image_back [OF assms] by (intro exI [of _ 264]) (simp add: data)
  qed
  have other: "block_there F h blk ?new \<and> (\<forall>q m. q + m \<le> len h blk \<longrightarrow> block_items F h blk q m ?new = block_items F h blk q m (f_bytes f))"
    if blk: "blk \<in> set names" "blk \<noteq> ''header''" "0 < ?size blk" "block_there F h blk (f_bytes f)" for blk
  proof -
    obtain j where j: "j < length names" "names ! j = blk" "block_offset F h blk = Inr (block_start ?size names j)"
      "rf_length F h blk = Inr (len h blk)" "rf_itemsize F blk = Inr (isz blk)" by (rule name_index [OF blk(1), where h = h])
    let ?o = "block_start ?size names j"
    have fr: "framed ?o (?size blk) (f_bytes f)" using blk(4) by (simp add: block_there_def j)
    have "j \<noteq> 0" using blk(2) j(2) first(2) by (cases j) auto
    then have "block_start ?size names 1 \<le> ?o" using j(1) by (intro block_start_mono) simp_all
    then have "264 \<le> ?o" using block_start_Suc [OF first(1), of ?size] by (simp add: first(2) head_size block_start_def block_span_def)
    then have keep: "take m (drop q ?new) = take m (drop q (f_bytes f))" if "?o \<le> q" "q + m \<le> ?o + (?size blk + 8)" for q m
      by (intro write_frame_other [OF _ _ fit]) (use that fr in \<open>auto simp: framed_def\<close>)
    have "framed ?o (?size blk) ?new"
      by (rule framed_cong [OF fr]) (use length_write_frame keep in simp_all)
    moreover have "block_data ?o (q * isz blk) (isz blk * m) ?new = block_data ?o (q * isz blk) (isz blk * m) (f_bytes f)"
      if "q + m \<le> len h blk" for q m
      unfolding block_data_def by (rule keep) (use mult_le_mono1 [OF that, of "isz blk"] in \<open>simp_all add: algebra_simps\<close>)
    ultimately show ?thesis by (simp add: block_there_def block_items_def j)
  qed
  show ?thesis
    using w again other length_write_frame [of "f_bytes f" 0 "1 * 256" "0 * 256" "take (256 * 1) ?img"] by auto
qed

end

section \<open>The two formats\<close>

definition psphray_shape :: "psphray_header \<Rightarrow> bool" where
  "psphray_shape h \<longleftrightarrow> length (hd_N h) = 6 \<and> length (hd_mass h) = 6 \<and> length (hd_total_low h) = 6
     \<and> length (hd_total_high h) = 6 \<and> length (psphray_unused h) = 5"

definition massiveblack_shape :: "massiveblack_header \<Rightarrow> bool" where
  "massiveblack_shape h \<longleftrightarrow> length (hd_N h) = 6 \<and> length (hd_mass h) = 6 \<and> length (hd_total_low h) = 6
     \<and> length (hd_total_high h) = 6 \<and> length (massiveblack_unused h) = 12"

definition exact64 :: "codec \<Rightarrow> real \<Rightarrow> bool" where
  "exact64 cod x \<longleftrightarrow> dec64 cod (enc64 cod x) = x"

definition header_exact :: "codec \<Rightarrow> 'a header_scheme \<Rightarrow> bool" where
  "header_exact cod h \<longleftrightarrow> list_all (exact64 cod) (hd_mass h) \<and> list_all (exact64 cod)
     [hd_time h, hd_redshift h, hd_boxsize h, hd_OmegaM h, hd_OmegaL h, hd_h h]"

lemma length_f64 [simp]: "length (f64 cod x) = 8"
  by (simp add: f64_def)

lemma at_skip32: "4 \<le> p \<Longrightarrow> drop p (bytes32 w @ bs) = drop (p - 4) bs" "4 \<le> p \<Longrightarrow> drop p (bytes32 w) = []"
  by simp_all

lemma at_skip64: "8 \<le> p \<Longrightarrow> drop p (f64 cod x @ bs) = drop (p - 8) bs" "8 \<le> p \<Longrightarrow> drop p (bytes64 w @ bs) = drop (p - 8) bs"
  by simp_all

lemma list_of_6: "length xs = 6 \<Longrightarrow> xs = [xs ! 0, xs ! 1, xs ! 2, xs ! 3, xs ! 4, xs ! 5]"
  by (simp add: list_eq_iff_nth_eq eval_nat_numeral less_Suc_eq all_conj_distrib nth_Cons split: nat.split)

lemma list_of_5: "length xs = 5 \<Longrightarrow> xs = [xs ! 0, xs ! 1, xs ! 2, xs ! 3, xs ! 4]"
  by (simp add: list_eq_iff_nth_eq eval_nat_numeral less_Suc_eq all_conj_distrib nth_Cons split: nat.split)

lemma list_of_12: "length xs = 12 \<Longrightarrow> xs = [xs ! 0, xs ! 1, xs ! 2, xs ! 3, xs ! 4, xs ! 5, xs ! 6, xs ! 7, xs ! 8, xs ! 9, xs ! 10, xs ! 11]"
  by (simp add: list_eq_iff_nth_eq eval_nat_numeral less_Suc_eq all_conj_distrib nth_Cons split: nat.split)

lemma psphray_image_length: "psphray_shape h \<Longrightarrow> length (psphray_image cod h) = 256"
  by (simp add: psphray_shape_def psphray_image_def header_image_def length_concat_const [where n = 4] length_concat_const [where n = 8])

lemma massiveblack_image_length: "massiveblack_shape h \<Longrightarrow> length (massiveblack_image cod h) = 256"
  by (simp add: massiveblack_shape_def massiveblack_image_def header_image_def length_concat_const [where n = 4] length_concat_const [where n = 8])

lemma row_total: "blk \<in> set (map fst table) \<Longrightarrow> row table blk = Inr (the (map_of table blk))"
  by (cases "map_of table blk") (auto simp: row_def map_of_eq_None_iff)

lemma psphray_tables:
  "distinct psphray_names"
  "list_all (\<lambda>k. row psphray_ids (psphray_names ! k) = Inr k) [0..<21]"
  "list_all (\<lambda>blk. 0 < the (map_of psphray_itemsizes blk)) psphray_names"
  "set psphray_names \<subseteq> set (map fst psphray_itemsizes)"
  by code_simp+

lemma massiveblack_tables:
  "distinct massiveblack_names"
  "list_all (\<lambda>k. row massiveblack_ids (massiveblack_names ! k) = Inr k) [0..<15]"
  "list_all (\<lambda>blk. 0 < the (map_of massiveblack_itemsizes blk)) massiveblack_names"
  "set massiveblack_names \<subseteq> set (map fst massiveblack_itemsizes)"
  by code_simp+

lemma table_format:
  assumes "distinct names" and "list_all (\<lambda>k. row ids (names ! k) = Inr k) [0..<length names]"
    and "list_all (\<lambda>blk. 0 < the (map_of sizes blk)) names"
    and "set names \<subseteq> set (map fst sizes)" and "\<And>h. set names \<subseteq> set (map fst (lens h))"
    and "rf_blockid F = row ids" "rf_blockname F = name_at names" "rf_itemsize F = row sizes" "rf_length F = (\<lambda>h. row (lens h))"
  shows "snapshot_format F names (\<lambda>blk. the (map_of sizes blk)) (\<lambda>h blk. the (map_of (lens h) blk))"
proof
  show "distinct names" by (rule assms(1))
  fix k h assume k: "k < length names"
  then have in_names: "names ! k \<in> set names" by simp
  show "0 < the (map_of sizes (names ! k))" using assms(3) in_names by (simp add: list_all_iff)
  show "rf_blockid F (names ! k) = Inr k" using assms(2) k by (simp add: list_all_iff assms(6))
  show "rf_blockname F k = Inr (names ! k)" using k by (simp add: assms(7) name_at_def)
  show "rf_itemsize F (names ! k) = Inr (the (map_of sizes (names ! k)))"
    unfolding assms(8) by (rule row_total [OF subsetD [OF assms(4) in_names]])
  show "rf_length F h (names ! k) = Inr (the (map_of (lens h) (names ! k)))"
    unfolding assms(9) by (rule row_total [OF subsetD [OF assms(5) in_names]])
qed

text \<open>The item size and the number of items of a block, by name.\<close>

definition psphray_item :: "string \<Rightarrow> nat" where
  "psphray_item blk = the (map_of psphray_itemsizes blk)"

definition psphray_count :: "psphray_header \<Rightarrow> string \<Rightarrow> nat" where
  "psphray_count h blk = the (map_of (psphray_lengths h) blk)"

definition massiveblack_item :: "string \<Rightarrow> nat" where
  "massiveblack_item blk = the (map_of massiveblack_itemsizes blk)"

definition massiveblack_count :: "massiveblack_header \<Rightarrow> string \<Rightarrow> nat" where
  "massiveblack_count h blk = the (map_of (massiveblack_lengths h) blk)"

lemma names_length [simp]: "length psphray_names = 21" "length massiveblack_names = 15"
  by (simp_all add: psphray_names_def massiveblack_names_def)

lemma psphray_lengths_names: "set psphray_names \<subseteq> set (map fst (psphray_lengths h))"
  by (simp add: psphray_lengths_def psphray_names_def)

lemma massiveblack_lengths_names: "set massiveblack_names \<subseteq> set (map fst (massiveblack_lengths h))"
  by (simp add: massiveblack_lengths_def massiveblack_names_def)

lemma psphray_is_format: "snapshot_format psphray_funcs psphray_names psphray_item psphray_count"
  unfolding psphray_item_def psphray_count_def
  by (rule table_format [OF psphray_tables(1) _ psphray_tables(3,4) psphray_lengths_names])
    (simp_all add: psphray_tables(2) psphray_funcs_def)

lemma massiveblack_is_format: "snapshot_format massiveblack_funcs massiveblack_names massiveblack_item massiveblack_count"
  unfolding massiveblack_item_def massiveblack_count_def
  by (rule table_format [OF massiveblack_tables(1) _ massiveblack_tables(3,4) massiveblack_lengths_names])
    (simp_all add: massiveblack_tables(2) massiveblack_funcs_def)

text \<open>Taking a header image apart: fields of four and eight bytes.\<close>

lemma at32_simps:
  "at32 0 (bytes32 w @ bs) = w" "at32 0 (bytes32 w) = w"
  "4 \<le> p \<Longrightarrow> at32 p (bytes32 v @ bs) = at32 (p - 4) bs" "8 \<le> p \<Longrightarrow> at32 p (f64 cod x @ bs) = at32 (p - 8) bs"
  "8 \<le> p \<Longrightarrow> at32 p (bytes64 y @ bs) = at32 (p - 8) bs"
  by (simp_all add: at32_def)

lemma at64_simps:
  "at64 cod 0 (f64 cod z @ bs) = dec64 cod (enc64 cod z)"
  "4 \<le> p \<Longrightarrow> at64 cod p (bytes32 v @ bs) = at64 cod (p - 4) bs" "8 \<le> p \<Longrightarrow> at64 cod p (f64 cod x @ bs) = at64 cod (p - 8) bs"
  by (simp_all add: at64_def f64_def)

lemma upt_6: "[0..<6] = [0, 1, 2, 3, 4, 5 :: nat]" and upt_5: "[0..<5] = [0, 1, 2, 3, 4 :: nat]"
  and upt_12: "[0..<12] = [0, 1, 2, 3, 4, 5, 6, 7, 8, 9, 10, 11 :: nat]"
  by (simp_all add: upt_rec)

lemma psphray_image_back:
  assumes "psphray_shape h" and "header_exact cod h" and "exact64 cod (hd_OmegaB h)"
  shows "psphray_of_image cod (psphray_image cod h) = h"
proof (cases h)
  case (fields N mass time redshift f1 f2 low f3 nf box om ol hh f4 f5 high f6 ob nr g1 g2 g3 g4 g5 g6 un)
  obtain n0 n1 n2 n3 n4 n5 where N: "N = [n0, n1, n2, n3, n4, n5]" using list_of_6 [of N] assms(1) by (auto simp: psphray_shape_def fields)
  obtain m0 m1 m2 m3 m4 m5 where M: "mass = [m0, m1, m2, m3, m4, m5]" using list_of_6 [of mass] assms(1) by (auto simp: psphray_shape_def fields)
  obtain l0 l1 l2 l3 l4 l5 where L: "low = [l0, l1, l2, l3, l4, l5]" using list_of_6 [of low] assms(1) by (auto simp: psphray_shape_def fields)
  obtain i0 i1 i2 i3 i4 i5 where H: "high = [i0, i1, i2, i3, i4, i5]" using list_of_6 [of high] assms(1) by (auto simp: psphray_shape_def fields)
  obtain u0 u1 u2 u3 u4 where U: "un = [u0, u1, u2, u3, u4]"
    using list_of_5 [of un] assms(1) by (auto simp: psphray_shape_def fields)
  show ?thesis
    using assms(2,3) unfolding fields N M L H U
    by (simp add: psphray_of_image_def psphray_image_def header_image_def at32_simps at64_simps upt_6 upt_5 header_exact_def exact64_def)
qed

lemma massiveblack_image_back:
  assumes "massiveblack_shape h" and "header_exact cod h"
  shows "massiveblack_of_image cod (massiveblack_image cod h) = h"
proof (cases h)
  case (fields N mass time redshift f1 f2 low f3 nf box om ol hh f4 f5 high f6 g1 g2 g3 un)
  obtain n0 n1 n2 n3 n4 n5 where N: "N = [n0, n1, n2, n3, n4, n5]" using list_of_6 [of N] assms(1) by (auto simp: massiveblack_shape_def fields)
  obtain m0 m1 m2 m3 m4 m5 where M: "mass = [m0, m1, m2, m3, m4, m5]" using list_of_6 [of mass] assms(1) by (auto simp: massiveblack_shape_def fields)
  obtain l0 l1 l2 l3 l4 l5 where L: "low = [l0, l1, l2, l3, l4, l5]" using list_of_6 [of low] assms(1) by (auto simp: massiveblack_shape_def fields)
  obtain i0 i1 i2 i3 i4 i5 where H: "high = [i0, i1, i2, i3, i4, i5]" using list_of_6 [of high] assms(1) by (auto simp: massiveblack_shape_def fields)
  obtain u0 u1 u2 u3 u4 u5 u6 u7 u8 u9 ua ub where U: "un = [u0, u1, u2, u3, u4, u5, u6, u7, u8, u9, ua, ub]"
    using list_of_12 [of un] assms(1) by (auto simp: massiveblack_shape_def fields)
  show ?thesis
    using assms(2) unfolding fields N M L H U
    by (simp add: massiveblack_of_image_def massiveblack_image_def header_image_def at32_simps at64_simps upt_6 upt_12 header_exact_def exact64_def)
qed

interpretation psphray: snapshot_header psphray_funcs psphray_names psphray_item psphray_count psphray_shape
  "\<lambda>cod h. header_exact cod h \<and> exact64 cod (hd_OmegaB h)"
proof (intro snapshot_header.intro snapshot_header_axioms.intro psphray_is_format)
  show "0 < length psphray_names" "psphray_names ! 0 = ''header''" by (simp_all add: psphray_names_def)
  show "psphray_item ''header'' = 256" by code_simp
  show "psphray_count h ''header'' = 1" for h by (simp add: psphray_count_def psphray_lengths_def)
qed (simp_all add: psphray_funcs_def psphray_image_length psphray_image_back)

interpretation massiveblack: snapshot_header massiveblack_funcs massiveblack_names massiveblack_item massiveblack_count
  massiveblack_shape header_exact
proof (intro snapshot_header.intro snapshot_header_axioms.intro massiveblack_is_format)
  show "0 < length massiveblack_names" "massiveblack_names ! 0 = ''header''" by (simp_all add: massiveblack_names_def)
  show "massiveblack_item ''header'' = 256" by code_simp
  show "massiveblack_count h ''header'' = 1" for h by (simp add: massiveblack_count_def massiveblack_lengths_def)
qed (simp_all add: massiveblack_funcs_def massiveblack_image_length massiveblack_image_back)

definition zero_codec :: codec where
  "zero_codec = \<lparr>enc32 = (\<lambda>_. 0), dec32 = (\<lambda>_. 0), enc64 = (\<lambda>_. 0), dec64 = (\<lambda>_. 0)\<rparr>"

text \<open>
  C34. Writing items to a block of a snapshot and reading them back gives the items, and no other
  block, and no other item of the block, changes: whatever could be read before can be read
  after. The header and the file are arbitrary; a block counts as readable when its frame of two
  sizes is there.
\<close>

theorem snapshot_block_roundtrip:
  assumes "blk \<in> set psphray_names" and "blk \<noteq> ''header''" and "0 < psphray_count h blk"
    and "p + n \<le> psphray_count h blk" and "psphray_item blk * n \<le> length data" "psphray_item blk * n \<le> length buf"
  shows "\<exists>f'. block_write psphray_funcs cod h blk data (int p) (int n) f = Inr f'
    \<and> (\<exists>pos. block_read psphray_funcs cod h blk buf (int p) (int n) f'
         = Inr (h, into_buffer (take (psphray_item blk * n) data) buf, f'\<lparr>f_pos := pos\<rparr>))
    \<and> (\<forall>blk' \<in> set psphray_names. \<forall>q m buf'. blk' \<noteq> ''header'' \<and> 0 < psphray_count h blk' \<and> q + m \<le> psphray_count h blk'
         \<and> psphray_item blk' * m \<le> length buf' \<and> block_there psphray_funcs h blk' (f_bytes f)
         \<and> (blk' \<noteq> blk \<or> q + m \<le> p \<or> p + n \<le> q)
         \<longrightarrow> (\<exists>b pos pos'. block_read psphray_funcs cod h blk' buf' (int q) (int m) f = Inr (h, b, f\<lparr>f_pos := pos\<rparr>)
               \<and> block_read psphray_funcs cod h blk' buf' (int q) (int m) f' = Inr (h, b, f'\<lparr>f_pos := pos'\<rparr>)))"
proof -
  obtain f' where w: "block_write psphray_funcs cod h blk data (int p) (int n) f = Inr f'"
      "block_there psphray_funcs h blk (f_bytes f')"
      "block_items psphray_funcs h blk p n (f_bytes f') = take (psphray_item blk * n) data"
      "\<And>q m. block_there psphray_funcs h blk (f_bytes f) \<Longrightarrow> q + m \<le> psphray_count h blk \<Longrightarrow> (q + m \<le> p \<or> p + n \<le> q)
          \<Longrightarrow> block_items psphray_funcs h blk q m (f_bytes f') = block_items psphray_funcs h blk q m (f_bytes f)"
      "\<And>blk'. blk' \<in> set psphray_names \<Longrightarrow> blk' \<noteq> blk \<Longrightarrow> 0 < psphray_count h blk' * psphray_item blk' \<Longrightarrow> block_there psphray_funcs h blk' (f_bytes f)
          \<Longrightarrow> block_there psphray_funcs h blk' (f_bytes f') \<and> (\<forall>q m. q + m \<le> psphray_count h blk'
             \<longrightarrow> block_items psphray_funcs h blk' q m (f_bytes f') = block_items psphray_funcs h blk' q m (f_bytes f))"
    using psphray.write_result [OF assms(1,3,4,2,5), of cod f] by blast
  have rd: "\<exists>pos. block_read psphray_funcs cod h blk' buf' (int q) (int m) g
        = Inr (h, into_buffer (block_items psphray_funcs h blk' q m (f_bytes g)) buf', g\<lparr>f_pos := pos\<rparr>)"
    if "blk' \<in> set psphray_names" "blk' \<noteq> ''header''" "0 < psphray_count h blk'" "q + m \<le> psphray_count h blk'"
      "psphray_item blk' * m \<le> length buf'" "block_there psphray_funcs h blk' (f_bytes g)" for blk' q m buf' g
    by (rule psphray.read_result) (use that in simp_all)
  have keep: "\<exists>b pos pos'. block_read psphray_funcs cod h blk' buf' (int q) (int m) f = Inr (h, b, f\<lparr>f_pos := pos\<rparr>)
        \<and> block_read psphray_funcs cod h blk' buf' (int q) (int m) f' = Inr (h, b, f'\<lparr>f_pos := pos'\<rparr>)"
    if b: "blk' \<in> set psphray_names" "blk' \<noteq> ''header''" "0 < psphray_count h blk'" "q + m \<le> psphray_count h blk'"
      "psphray_item blk' * m \<le> length buf'" "block_there psphray_funcs h blk' (f_bytes f)"
      "blk' \<noteq> blk \<or> q + m \<le> p \<or> p + n \<le> q" for blk' q m buf'
  proof -
    have "0 < psphray_item blk'" using psphray_tables(3) b(1) by (simp add: list_all_iff psphray_item_def)
    then have "block_there psphray_funcs h blk' (f_bytes f')
        \<and> block_items psphray_funcs h blk' q m (f_bytes f') = block_items psphray_funcs h blk' q m (f_bytes f)"
      using w(2,4,5) b by (cases "blk' = blk") simp_all
    then show ?thesis using rd [OF b(1-6)] rd [OF b(1-5), of f'] by auto
  qed
  show ?thesis
    using w(1) rd [OF assms(1,2,3,4,6) w(2)] w(3) keep by (intro exI [of _ f'] conjI ballI allI impI) auto
qed

lemma snapshot_block_roundtrip_witness:
  "\<exists>f'. block_write psphray_funcs zero_codec (psphray_blank\<lparr>hd_N := [3, 0, 0, 0, 0, 0]\<rparr>) ''hits'' [1, 2, 3, 4] 1 1 \<lparr>f_bytes = [], f_pos = 0\<rparr> = Inr f'
     \<and> (\<exists>pos. block_read psphray_funcs zero_codec (psphray_blank\<lparr>hd_N := [3, 0, 0, 0, 0, 0]\<rparr>) ''hits'' [0, 0, 0, 0] 1 1 f'
         = Inr (psphray_blank\<lparr>hd_N := [3, 0, 0, 0, 0, 0]\<rparr>, [1, 2, 3, 4], f'\<lparr>f_pos := pos\<rparr>))"
proof -
  let ?h = "psphray_blank\<lparr>hd_N := [3, 0, 0, 0, 0, 0]\<rparr>"
  have n: "''hits'' \<in> set psphray_names" "''hits'' \<noteq> ''header''" by code_simp+
  have c: "psphray_count ?h ''hits'' = 3" by (simp add: psphray_count_def psphray_lengths_def hN_def)
  have i: "psphray_item ''hits'' = 4" by code_simp
  have "0 < psphray_count ?h ''hits''" "1 + 1 \<le> psphray_count ?h ''hits''" "psphray_item ''hits'' * 1 \<le> length [1, 2, 3, 4 :: 8 word]"
    "psphray_item ''hits'' * 1 \<le> length [0, 0, 0, 0 :: 8 word]" by (simp_all add: c i)
  from snapshot_block_roundtrip [OF n this, of zero_codec "\<lparr>f_bytes = [], f_pos = 0\<rparr>"] show ?thesis
    by (auto simp: i into_buffer_def)
qed

section \<open>The constants of a snapshot\<close>

lemma halves: "ucast (ucast w :: 32 word) + push_bit 32 (ucast (ucast (drop_bit 32 w) :: 32 word)) = w" for w :: "64 word"
proof -
  let ?lo = "ucast (ucast w :: 32 word) :: 64 word" and ?hi = "push_bit 32 (ucast (ucast (drop_bit 32 w) :: 32 word)) :: 64 word"
  have "?lo AND ?hi = 0" by (rule bit_word_eqI) (auto simp: bit_simps)
  then have "?lo + ?hi = ?lo OR ?hi" by (rule disjunctive_add_eq_or)
  also have "\<dots> = w" by (rule bit_word_eqI) (auto simp: bit_simps)
  finally show ?thesis .
qed

lemma small_word_bits: "unat w < 2 ^ k \<Longrightarrow> bit w n \<Longrightarrow> n < k" for w :: "64 word"
  using bit_less_exp [of "unat w" k n] by (simp add: bit_unsigned_iff)

lemma narrow32:
  fixes w :: "64 word" assumes "unat w < 2 ^ 32"
  shows "ucast (ucast w :: 32 word) = w"
proof (rule bit_word_eqI)
  fix n
  have "bit w n \<Longrightarrow> n < 32" by (rule small_word_bits [OF assms])
  then show "bit (ucast (ucast w :: 32 word) :: 64 word) n = bit w n" if "n < LENGTH(64)" using that by (auto simp: bit_simps)
qed

lemma narrow31:
  fixes w :: "64 word" assumes "unat w < 2 ^ 31"
  shows "scast (ucast w :: 32 word) = w"
proof (rule bit_word_eqI)
  fix n
  have "\<not> bit w k" if "31 \<le> k" for k using small_word_bits [OF assms, of k] that by auto
  then show "bit (scast (ucast w :: 32 word) :: 64 word) n = bit w n" if "n < LENGTH(64)"
    using that by (auto simp: bit_simps min_def)
qed

text \<open>
  C35. The constants a program puts into the header of a snapshot come back from the bytes of the
  file: all of them except \<open>PhysDensThresh\<close>, which the format does not store, as long as the
  numbers of particles of the file are below 2^32, the number of files is below 2^31 and the
  machine's format keeps the doubles. The total numbers of particles are 64-bit numbers and are
  not truncated.
\<close>

theorem snapshot_constants_roundtrip:
  assumes "psphray_shape h" and "exact64 cod (rc_OmegaB c)"
    and "list_all (exact64 cod) (rc_mass c)" and "list_all (exact64 cod)
      [rc_time c, rc_redshift c, rc_boxsize c, rc_OmegaM c, rc_OmegaL c, rc_h c]"
    and "length (rc_N c) = 6" "length (rc_Ntot c) = 6" "length (rc_mass c) = 6"
    and "list_all (\<lambda>w. unat w < 2 ^ 32) (rc_N c)" and "unat (rc_Nfiles c) < 2 ^ 31"
  shows "psphray_get_constants (psphray_of_image cod (psphray_image cod (psphray_set_constants h c))) c0
    = c\<lparr>rc_PhysDensThresh := rc_PhysDensThresh c0\<rparr>"
proof -
  have "psphray_shape (psphray_set_constants h c)" "header_exact cod (psphray_set_constants h c)"
    "exact64 cod (hd_OmegaB (psphray_set_constants h c))"
    using assms by (simp_all add: psphray_shape_def psphray_set_constants_def set_common_def header_exact_def)
  then have "psphray_of_image cod (psphray_image cod (psphray_set_constants h c)) = psphray_set_constants h c"
    by (rule psphray_image_back)
  moreover have "map (ucast \<circ> (ucast :: 64 word \<Rightarrow> 32 word)) (rc_N c) = rc_N c"
    using assms(8) by (simp add: map_idI list_all_iff narrow32)
  moreover have "map2 (\<lambda>lo hi. ucast lo + push_bit 32 (ucast hi)) (map (ucast :: 64 word \<Rightarrow> 32 word) (rc_Ntot c))
      (map (\<lambda>w. ucast (drop_bit 32 w) :: 32 word) (rc_Ntot c)) = rc_Ntot c"
    by (simp add: zip_map1 zip_map2 zip_same_conv_map comp_def halves)
  ultimately show ?thesis
    by (simp add: psphray_get_constants_def psphray_set_constants_def get_common_def set_common_def narrow31 [OF assms(9)])
qed

lemma snapshot_constants_roundtrip_witness:
  "psphray_get_constants (psphray_of_image zero_codec (psphray_image zero_codec (psphray_set_constants psphray_blank
     (constants_blank\<lparr>rc_N := [5, 0, 0, 0, 0, 2], rc_Ntot := [2 ^ 40 + 1, 0, 0, 0, 0, 2], rc_Nfiles := 3\<rparr>)))) constants_blank
   = constants_blank\<lparr>rc_N := [5, 0, 0, 0, 0, 2], rc_Ntot := [2 ^ 40 + 1, 0, 0, 0, 0, 2], rc_Nfiles := 3\<rparr>"
  (is "_ = ?c")
proof -
  have "psphray_shape psphray_blank" by (simp add: psphray_shape_def psphray_blank_def)
  moreover have "exact64 zero_codec (rc_OmegaB ?c)" "list_all (exact64 zero_codec) (rc_mass ?c)"
    "list_all (exact64 zero_codec) [rc_time ?c, rc_redshift ?c, rc_boxsize ?c, rc_OmegaM ?c, rc_OmegaL ?c, rc_h ?c]"
    "length (rc_N ?c) = 6" "length (rc_Ntot ?c) = 6" "length (rc_mass ?c) = 6"
    "list_all (\<lambda>w. unat w < 2 ^ 32) (rc_N ?c)" "unat (rc_Nfiles ?c) < 2 ^ 31"
    by (simp_all add: constants_blank_def exact64_def zero_codec_def list_all_iff)
  ultimately have "psphray_get_constants (psphray_of_image zero_codec (psphray_image zero_codec
      (psphray_set_constants psphray_blank ?c))) constants_blank = ?c\<lparr>rc_PhysDensThresh := rc_PhysDensThresh constants_blank\<rparr>"
    by (rule snapshot_constants_roundtrip)
  then show ?thesis by (simp add: constants_blank_def)
qed

end
