(* ===== verification/Snapshot_Reader.thy ===== *)
theory Snapshot_Reader imports Snapshot_Format Run_Epoch begin

text \<open>
  Readers (\<open>src/src/reader.c\<close>), writing a snapshot of the particles (\<open>psystem_write_output\<close> of
  \<open>src/src/psystem.c\<close>) and reading one at the start of an epoch (\<open>psystem_read_epoch\<close>). The format of
  \<open>printf\<close> is a parameter, and so is the machine's representation of floating point numbers.

  The lemmas of the locale \<open>snapshot_format\<close> in this theory carry a sequence of writes: as long as no
  two of them touch the same items, every one of them can be read back at the end.
\<close>

section \<open>Readers\<close>

text \<open>
  A reader has a file open (a file being read or written, and its name) or not. The files of the
  machine are a map from names to bytes; a file that is written is stored when it is closed.
\<close>

record 'h reader =
  rd_filename :: string
  rd_header :: 'h
  rd_fp :: cfile
  rd_read_only :: bool
  rd_constants :: constants

type_synonym files = "string \<Rightarrow> 8 word list option"

text \<open>The conversion of a \<open>size_t\<close> to a parameter of type \<open>int\<close>.\<close>

definition int_arg :: "nat \<Rightarrow> int" where
  "int_arg n = sint (of_nat n :: 32 word)"

definition reader_open :: "'h reader_funcs \<Rightarrow> codec \<Rightarrow> files \<Rightarrow> string \<Rightarrow> 'h reader res" where
  "reader_open F cod fs filename =
     (case fs filename of
        None \<Rightarrow> Inl (Trap ''can't open'')
      | Some bs \<Rightarrow>
          rbind (block_read F cod (rf_blank F) ''header'' [] 0 1 \<lparr>f_bytes = bs, f_pos = 0\<rparr>) (\<lambda>(h, _, f).
            Inr \<lparr>rd_filename = filename, rd_header = h, rd_fp = f, rd_read_only = True,
                 rd_constants = rf_get_constants F h constants_blank\<rparr>))"

definition reader_create :: "'h reader_funcs \<Rightarrow> string \<Rightarrow> 'h reader" where
  "reader_create F filename =
     \<lparr>rd_filename = filename, rd_header = rf_def_header F (rf_blank F), rd_fp = \<lparr>f_bytes = [], f_pos = 0\<rparr>,
      rd_read_only = False, rd_constants = constants_blank\<rparr>"

definition reader_update_header :: "'h reader_funcs \<Rightarrow> 'h reader \<Rightarrow> 'h reader" where
  "reader_update_header F r = r\<lparr>rd_header := rf_set_constants F (rd_header r) (rd_constants r)\<rparr>"

definition reader_update_constants :: "'h reader_funcs \<Rightarrow> 'h reader \<Rightarrow> 'h reader" where
  "reader_update_constants F r = r\<lparr>rd_constants := rf_get_constants F (rd_header r) (rd_constants r)\<rparr>"

definition reader_close :: "'h reader_funcs \<Rightarrow> codec \<Rightarrow> 'h reader \<Rightarrow> files \<Rightarrow> files res" where
  "reader_close F cod r fs =
     (if rd_read_only r then Inr fs
      else rbind (block_write F cod (rd_header r) ''header'' [] 0 1 (rd_fp r)) (\<lambda>f.
             Inr (fs(rd_filename r \<mapsto> f_bytes f))))"

definition reader_length :: "'h reader_funcs \<Rightarrow> 'h reader \<Rightarrow> string \<Rightarrow> nat res" where
  "reader_length F r blk = rf_length F (rd_header r) blk"

definition reader_npar :: "'h reader \<Rightarrow> int \<Rightarrow> nat" where
  "reader_npar r ptype = unat (rc_N (rd_constants r) ! nat ptype)"

definition reader_itemsize :: "'h reader_funcs \<Rightarrow> string \<Rightarrow> nat res" where
  "reader_itemsize F blk = rf_itemsize F blk"

text \<open>Which items of a block belong to a particle type: their start and number.\<close>

definition reader_extent :: "'h reader_funcs \<Rightarrow> 'h reader \<Rightarrow> string \<Rightarrow> int \<Rightarrow> (nat \<times> nat) res" where
  "reader_extent F r blk ptype =
     (if ptype \<noteq> - 1 then rbind (rf_pstart F (rd_header r) blk ptype) (\<lambda>pstart. Inr (pstart, reader_npar r ptype))
      else rbind (reader_length F r blk) (\<lambda>npar. Inr (0, npar)))"

definition reader_alloc :: "'h reader_funcs \<Rightarrow> 'h reader \<Rightarrow> string \<Rightarrow> int \<Rightarrow> 8 word list res" where
  "reader_alloc F r blk ptype =
     rbind (if ptype \<noteq> - 1 then Inr (reader_npar r ptype) else reader_length F r blk) (\<lambda>npar.
     rbind (rf_itemsize F blk) (\<lambda>b. Inr (replicate (b * npar) 0)))"

definition reader_read :: "'h reader_funcs \<Rightarrow> codec \<Rightarrow> 'h reader \<Rightarrow> string \<Rightarrow> int \<Rightarrow> 8 word list
    \<Rightarrow> (8 word list \<times> 'h reader) res" where
  "reader_read F cod r blk ptype buf =
     rbind (reader_extent F r blk ptype) (\<lambda>(pstart, npar).
     rbind (block_read F cod (rd_header r) blk buf (int_arg pstart) (int_arg npar) (rd_fp r)) (\<lambda>(h, new, f).
       Inr (new, r\<lparr>rd_header := h, rd_fp := f\<rparr>)))"

definition reader_write :: "'h reader_funcs \<Rightarrow> codec \<Rightarrow> string \<Rightarrow> int \<Rightarrow> 8 word list \<Rightarrow> 'h reader \<Rightarrow> 'h reader res" where
  "reader_write F cod blk ptype buf r =
     rbind (reader_extent F r blk ptype) (\<lambda>(pstart, npar).
     rbind (block_write F cod (rd_header r) blk buf (int_arg pstart) (int_arg npar) (rd_fp r)) (\<lambda>f.
       Inr (r\<lparr>rd_fp := f\<rparr>)))"

definition reader_has :: "'h reader_funcs \<Rightarrow> string \<Rightarrow> bool" where
  "reader_has F blk = (case rf_blockid F blk of Inl _ \<Rightarrow> False | Inr _ \<Rightarrow> True)"

text \<open>File names: a \<open>%\<close> in the name of a snapshot makes it a format for the number of the file.\<close>

definition reader_make_filename :: "(string \<Rightarrow> nat \<Rightarrow> string) \<Rightarrow> string \<Rightarrow> nat \<Rightarrow> string" where
  "reader_make_filename sprintf snapshot k = (if CHR ''%'' \<in> set snapshot then sprintf snapshot k else snapshot)"

text \<open>
  Reading into the elements of an array: the bytes of each of the items stored, or \<open>None\<close> when the
  block is absent and the array is left alone. The array has room for \<open>cap\<close> items.
\<close>

definition reader_items :: "'h reader_funcs \<Rightarrow> codec \<Rightarrow> 'h reader \<Rightarrow> string \<Rightarrow> int \<Rightarrow> nat
    \<Rightarrow> (8 word list list option \<times> 'h reader) res" where
  "reader_items F cod r blk ptype cap =
     rbind (rf_itemsize F blk) (\<lambda>b.
     rbind (reader_length F r blk) (\<lambda>l.
     rbind (reader_read F cod r blk ptype (replicate (b * cap) 0)) (\<lambda>(buf, r').
       Inr (if l = 0 then None else Some (chunks b (reader_npar r ptype) buf), r'))))"

section \<open>Writing an output\<close>

definition f32 :: "codec \<Rightarrow> real \<Rightarrow> 8 word list" where
  "f32 cod x = bytes32 (enc32 cod x)"

definition vec_image :: "codec \<Rightarrow> vec3 \<Rightarrow> 8 word list" where
  "vec_image cod = (\<lambda>(x, y, z). f32 cod x @ f32 cod y @ f32 cod z)"

fun nat_text :: "nat \<Rightarrow> string" where
  "nat_text n = (if n < 10 then [char_of (48 + n)] else nat_text (n div 10) @ [char_of (48 + n mod 10)])"

declare nat_text.simps [simp del]

definition output_filename :: "string \<Rightarrow> nat \<Rightarrow> nat \<Rightarrow> string" where
  "output_filename basename nfiles fid = (if nfiles = 1 then basename else basename @ ''.'' @ nat_text fid)"

text \<open>Where the share of a file starts; it ends where the next one starts.\<close>

definition share_start :: "nat \<Rightarrow> nat \<Rightarrow> nat \<Rightarrow> nat" where
  "share_start n nfiles fid = n * fid div nfiles"

definition share_size :: "nat \<Rightarrow> nat \<Rightarrow> nat \<Rightarrow> nat" where
  "share_size n nfiles fid = share_start n nfiles (fid + 1) - share_start n nfiles fid"

definition output_constants :: "config \<Rightarrow> psystem \<Rightarrow> nat \<Rightarrow> nat \<Rightarrow> nat \<Rightarrow> constants \<Rightarrow> constants res" where
  "output_constants c s nfiles gas_size bh_size k =
     (let znow = t2z db c (db (ep_age (psys_epoch s) + db (of_int (psys_tick s) * psys_tick_time s)))
      in rbind (fdiv db 1 (db (1 + znow))) (\<lambda>time.
           Inr (k\<lparr>rc_hasHe := 1, rc_hasgammaHI := 1,
             rc_Ntot := (rc_Ntot k)[0 := of_nat (psys_npar s), 5 := of_nat (length (psys_srcs s))],
             rc_N := (rc_N k)[0 := of_nat gas_size, 5 := of_nat bh_size],
             rc_Nfiles := of_nat nfiles, rc_OmegaL := c_omega_l c, rc_OmegaM := c_omega_m c, rc_OmegaB := c_omega_b c,
             rc_time := time, rc_h := c_h c, rc_redshift := ep_redshift (psys_epoch s), rc_boxsize := psys_boxsize s\<rparr>)))"

text \<open>The arrays of a file in the order they are written: block, type, bytes from its share on.\<close>

definition output_blocks :: "codec \<Rightarrow> config \<Rightarrow> psystem \<Rightarrow> nat \<Rightarrow> nat \<Rightarrow> nat \<Rightarrow> nat \<Rightarrow> (string \<times> int \<times> 8 word list) list" where
  "output_blocks cod c s gas_start gas_size bh_start bh_size =
     (let floats = (\<lambda>xs. concat (map (f32 cod) (drop gas_start xs)));
          derived = (\<lambda>f. concat (map (\<lambda>i. f32 cod (fl (f (gas_start + i)))) [0..<gas_size]))
      in [(''pos'', 0, concat (map (vec_image cod) (drop gas_start (psys_pos s)))),
          (''sml'', 0, floats (psys_sml s)), (''rho'', 0, floats (psys_rho s)), (''mass'', 0, floats (psys_mass s)),
          (''xHI'', 0, derived (psys_xHI s)), (''xHeI'', 0, derived (psys_xHeI s)), (''xHeII'', 0, derived (psys_xHeII s)),
          (''ye'', 0, derived (psys_ye c s)), (''gammaHI'', 0, derived (\<lambda>i. psys_yGrecHII s ! i)),
          (''ie'', 0, floats (psys_ie s)),
          (''lasthit'', 0, concat (map (\<lambda>t. bytes64 (of_int t)) (drop gas_start (psys_lasthit s)))),
          (''hits'', 0, concat (map (\<lambda>n. bytes32 (of_int n)) (drop gas_start (psys_hits s)))),
          (''id'', 0, concat (map bytes64 (drop gas_start (psys_id s)))),
          (''pos'', 5, concat (map (\<lambda>x. vec_image cod (fl3 (src_pos x))) (take bh_size (drop bh_start (psys_srcs s))))),
          (''ngammas'', 5, concat (map (\<lambda>i. f64 cod (psys_Ngamma_dot s (bh_start + i))) [0..<bh_size]))])"

fun reader_writes :: "'h reader_funcs \<Rightarrow> codec \<Rightarrow> (string \<times> int \<times> 8 word list) list \<Rightarrow> 'h reader \<Rightarrow> 'h reader res" where
  "reader_writes F cod [] r = Inr r"
| "reader_writes F cod ((blk, ptype, buf) # ws) r =
     rbind (reader_write F cod blk ptype buf r) (reader_writes F cod ws)"

definition write_output_file :: "codec \<Rightarrow> config \<Rightarrow> psystem \<Rightarrow> string \<Rightarrow> nat \<Rightarrow> nat \<Rightarrow> files \<Rightarrow> files res" where
  "write_output_file cod c s basename nfiles fid fs =
     (let gas_start = share_start (psys_npar s) nfiles fid; gas_size = share_size (psys_npar s) nfiles fid;
          bh_start = share_start (length (psys_srcs s)) nfiles fid; bh_size = share_size (length (psys_srcs s)) nfiles fid;
          r = reader_create psphray_funcs (output_filename basename nfiles fid)
      in rbind (output_constants c s nfiles gas_size bh_size (rd_constants r)) (\<lambda>k.
           if list_ex (\<lambda>x. src_cursor x \<ge> length (src_Ngamma_dots x)) (take bh_size (drop bh_start (psys_srcs s)))
           then Inl Out_of_bounds
           else
             rbind (reader_writes psphray_funcs cod (output_blocks cod c s gas_start gas_size bh_start bh_size)
                      (reader_update_header psphray_funcs (r\<lparr>rd_constants := k\<rparr>))) (\<lambda>r'.
               reader_close psphray_funcs cod r' fs)))"

fun write_output_files :: "codec \<Rightarrow> config \<Rightarrow> psystem \<Rightarrow> string \<Rightarrow> nat \<Rightarrow> nat list \<Rightarrow> files \<Rightarrow> files res" where
  "write_output_files cod c s basename nfiles [] fs = Inr fs"
| "write_output_files cod c s basename nfiles (fid # fids) fs =
     rbind (write_output_file cod c s basename nfiles fid fs) (write_output_files cod c s basename nfiles fids)"

definition psystem_write_output :: "codec \<Rightarrow> (string \<Rightarrow> nat \<Rightarrow> string) \<Rightarrow> config \<Rightarrow> nat \<Rightarrow> psystem \<Rightarrow> files \<Rightarrow> files res" where
  "psystem_write_output cod sprintf c outputnum s fs =
     (case ep_output_filename (psys_epoch s) of
        None \<Rightarrow> Inl Out_of_bounds
      | Some filename \<Rightarrow>
          let nfiles = ep_output_nfiles (psys_epoch s)
          in write_output_files cod c s (sprintf filename outputnum) nfiles [0..<nfiles] fs)"

section \<open>Reading the particles of an epoch\<close>

text \<open>Items read into an array from index \<open>k\<close> on.\<close>

definition store_items :: "nat \<Rightarrow> (8 word list \<Rightarrow> 'a) \<Rightarrow> 8 word list list option \<Rightarrow> 'a list \<Rightarrow> 'a list" where
  "store_items k dec items xs =
     (case items of None \<Rightarrow> xs | Some bs \<Rightarrow> take k xs @ map dec bs @ drop (k + length bs) xs)"

definition float_of :: "codec \<Rightarrow> 8 word list \<Rightarrow> real" where
  "float_of cod bs = dec32 cod (word32 bs)"

definition vec_of :: "codec \<Rightarrow> 8 word list \<Rightarrow> vec3" where
  "vec_of cod bs = (float_of cod (take 4 bs), float_of cod (take 4 (drop 4 bs)), float_of cod (take 4 (drop 8 bs)))"

definition id_of :: "nat \<Rightarrow> 8 word list \<Rightarrow> 64 word" where
  "id_of isz bs = (if isz = 4 then ucast (word32 bs) else word64 bs)"

text \<open>The ionization a snapshot starts with, and what is left of the electrons for metals.\<close>

definition helium_start :: "config \<Rightarrow> nat \<Rightarrow> real \<Rightarrow> psystem \<Rightarrow> (psystem \<times> real) res" where
  "helium_start c k yeMET s =
     rbind (fdiv db (db (yeMET * c_hmf c)) (db (1 - c_hmf c))) (\<lambda>q.
       let xHeII = db (q * 4); xHeIII = fdim db xHeII 1; xHeII = min 1 xHeII; xHeIII = min (db (1 - xHeII)) xHeIII
       in rbind (fdiv db (db (db (xHeII + db (2 * xHeIII)) * db (1 - c_hmf c))) (c_hmf c)) (\<lambda>used.
            Inr (psys_set_lambdaHe k (db (db (1 - xHeII) - xHeIII)) xHeII xHeIII s, fdim db yeMET (db (used * (1 / 4))))))"

definition start_ionization :: "config \<Rightarrow> nat \<Rightarrow> real \<Rightarrow> psystem \<Rightarrow> psystem res" where
  "start_ionization c k xHI s =
     (let xHII = db (1 - xHI); s1 = psys_set_lambdaH k xHI xHII s; yeMET = fdim db (psys_yeMET s ! k) xHII
      in rbind (if cfg_h_only c then Inr (s1, yeMET) else helium_start c k yeMET s1) (\<lambda>(s2, yeMET').
           Inr (s2\<lparr>psys_yeMET := (psys_yeMET s2)[k := fl yeMET']\<rparr>)))"

fun start_ionizations :: "config \<Rightarrow> nat \<Rightarrow> real list \<Rightarrow> psystem \<Rightarrow> psystem res" where
  "start_ionizations c k [] s = Inr s"
| "start_ionizations c k (x # xs) s = rbind (start_ionization c k x s) (start_ionizations c (k + 1) xs)"

text \<open>One file of the snapshot, whose particles go to the arrays from \<open>nread\<close> on.\<close>

definition read_epoch_file :: "'h reader_funcs \<Rightarrow> codec \<Rightarrow> config \<Rightarrow> files \<Rightarrow> string \<Rightarrow> nat \<Rightarrow> psystem
    \<Rightarrow> (nat \<times> psystem) res" where
  "read_epoch_file F cod c fs fname nread s =
     rbind (reader_open F cod fs fname) (\<lambda>r.
       let room = psys_npar_max s - nread
       in rbind (reader_items F cod r ''pos'' 0 room) (\<lambda>(pos, r).
          rbind (reader_items F cod r ''mass'' 0 room) (\<lambda>(mass, r).
          rbind (reader_items F cod r ''sml'' 0 room) (\<lambda>(sml, r).
          rbind (reader_items F cod r ''rho'' 0 room) (\<lambda>(rho, r).
          rbind (reader_items F cod r ''ie'' 0 room) (\<lambda>(ie, r).
          rbind (reader_items F cod r ''ye'' 0 room) (\<lambda>(ye, r).
          rbind (reader_items F cod r ''xHI'' 0 (reader_npar r 0)) (\<lambda>(xHI, r).
          if reader_npar r 0 > room then Inl Out_of_bounds
          else
            let s1 = s\<lparr>psys_pos := store_items nread (vec_of cod) pos (psys_pos s),
                       psys_mass := store_items nread (float_of cod) mass (psys_mass s),
                       psys_sml := store_items nread (float_of cod) sml (psys_sml s),
                       psys_rho := store_items nread (float_of cod) rho (psys_rho s),
                       psys_ie := store_items nread (float_of cod) ie (psys_ie s),
                       psys_yeMET := store_items nread (float_of cod) ye (psys_yeMET s)\<rparr>
            in rbind (start_ionizations c nread (store_items 0 (float_of cod) xHI (replicate (reader_npar r 0) 0)) s1) (\<lambda>s2.
               rbind (reader_itemsize F ''id'') (\<lambda>isz.
               rbind (reader_items F cod r ''id'' 0 room) (\<lambda>(ids, r).
                 Inr (nread + reader_npar r 0, s2\<lparr>psys_id := store_items nread (id_of isz) ids (psys_id s2)\<rparr>))))))))))))"

fun read_epoch_files :: "'h reader_funcs \<Rightarrow> codec \<Rightarrow> config \<Rightarrow> files \<Rightarrow> (nat \<Rightarrow> string) \<Rightarrow> nat list \<Rightarrow> nat \<Rightarrow> psystem
    \<Rightarrow> psystem res" where
  "read_epoch_files F cod c fs fname [] nread s = Inr s"
| "read_epoch_files F cod c fs fname (fid # fids) nread s =
     rbind (read_epoch_file F cod c fs (fname fid) nread s) (\<lambda>(n, s'). read_epoch_files F cod c fs fname fids n s')"

text \<open>The arrays after \<open>calloc\<close>: five per cent more room than gas particles.\<close>

definition epoch_room :: "nat \<Rightarrow> nat" where
  "epoch_room ngas = nat (trunc (db (real ngas * db (105 / 100))))"

definition alloc_epoch :: "psystem \<Rightarrow> psystem" where
  "alloc_epoch s =
     (let ngas = ep_ngas (psys_epoch s); m = epoch_room ngas
      in s\<lparr>psys_npar := ngas, psys_npar_max := m, psys_pos := replicate m (0, 0, 0), psys_mass := replicate m 0,
           psys_id := replicate m 0, psys_ie := replicate m 0, psys_sml := replicate m 0, psys_rho := replicate m 0,
           psys_lambdaH := replicate m 0, psys_lambdaHeI := replicate m 0, psys_lambdaHeII := replicate m 0,
           psys_yeMET := replicate m 0, psys_yGrecHII := replicate m 0, psys_yGrecHeII := replicate m 0,
           psys_yGrecHeIII := replicate m 0, psys_yGdepHI := replicate m 0, psys_yGdepHeI := replicate m 0,
           psys_yGdepHeII := replicate m 0, psys_heat := replicate m 0, psys_lasthit := replicate m 0,
           psys_hits := replicate m 0, psys_flag := replicate m 0\<rparr>)"

definition psystem_read_epoch :: "codec \<Rightarrow> (string \<Rightarrow> nat \<Rightarrow> string) \<Rightarrow> config \<Rightarrow> files \<Rightarrow> constants \<Rightarrow> psystem
    \<Rightarrow> psystem res" where
  "psystem_read_epoch cod sprintf c fs k s =
     (let ep = psys_epoch s; fname = reader_make_filename sprintf (ep_snapshot ep); fids = [0..<unat (rc_Nfiles k)];
          s0 = alloc_epoch s
      in if ep_format ep = ''massiveblack'' \<or> ep_format ep = ''e5'' then
           read_epoch_files massiveblack_funcs cod c fs fname fids 0 s0
         else if ep_format ep = ''psphray'' then read_epoch_files psphray_funcs cod c fs fname fids 0 s0
         else Inl (Trap ''format unknown''))"

section \<open>A sequence of writes\<close>

type_synonym item_write = "string \<times> nat \<times> nat \<times> 8 word list"

fun block_writes :: "'h reader_funcs \<Rightarrow> codec \<Rightarrow> 'h \<Rightarrow> item_write list \<Rightarrow> cfile \<Rightarrow> cfile res" where
  "block_writes F cod h [] f = Inr f"
| "block_writes F cod h ((blk, p, n, buf) # ws) f =
     rbind (block_write F cod h blk buf (int p) (int n) f) (block_writes F cod h ws)"

text \<open>Two writes that do not touch the same items.\<close>

definition apart :: "item_write \<Rightarrow> item_write \<Rightarrow> bool" where
  "apart = (\<lambda>(blk, p, n, _) (blk', q, m, _). blk \<noteq> blk' \<or> p + n \<le> q \<or> q + m \<le> p)"

context snapshot_format
begin

definition fits :: "'h \<Rightarrow> item_write \<Rightarrow> bool" where
  "fits h = (\<lambda>(blk, p, n, buf). blk \<in> set names \<and> blk \<noteq> ''header''
     \<and> (0 < len h blk \<longrightarrow> p + n \<le> len h blk \<and> isz blk * n \<le> length buf))"

definition holds_items :: "'h \<Rightarrow> cfile \<Rightarrow> item_write \<Rightarrow> bool" where
  "holds_items h f = (\<lambda>(blk, p, n, buf). 0 < len h blk \<longrightarrow>
     block_there F h blk (f_bytes f) \<and> block_items F h blk p n (f_bytes f) = take (isz blk * n) buf)"

lemma write_nothing:
  assumes "blk \<in> set names" and "len h blk = 0"
  shows "block_write F cod h blk buf a b f = Inr f"
  by (rule name_index [OF assms(1), where h = h]) (simp add: block_write_def assms(2))

lemma write_one:
  assumes "fits h (blk, p, n, buf)"
  shows "\<exists>f'. block_write F cod h blk buf (int p) (int n) f = Inr f' \<and> holds_items h f' (blk, p, n, buf)
    \<and> (\<forall>w. fits h w \<and> holds_items h f w \<and> apart (blk, p, n, buf) w \<longrightarrow> holds_items h f' w)"
proof (cases "0 < len h blk")
  case True
  have fit: "blk \<in> set names" "blk \<noteq> ''header''" "p + n \<le> len h blk" "isz blk * n \<le> length buf"
    using assms True by (simp_all add: fits_def)
  obtain f' where f': "block_write F cod h blk buf (int p) (int n) f = Inr f'"
      "block_there F h blk (f_bytes f')" "block_items F h blk p n (f_bytes f') = take (isz blk * n) buf"
    and same: "\<And>q m. block_there F h blk (f_bytes f) \<Longrightarrow> q + m \<le> len h blk \<Longrightarrow> (q + m \<le> p \<or> p + n \<le> q)
          \<Longrightarrow> block_items F h blk q m (f_bytes f') = block_items F h blk q m (f_bytes f)"
    and other: "\<And>blk'. blk' \<in> set names \<Longrightarrow> blk' \<noteq> blk \<Longrightarrow> 0 < len h blk' * isz blk' \<Longrightarrow> block_there F h blk' (f_bytes f)
          \<Longrightarrow> block_there F h blk' (f_bytes f') \<and> (\<forall>q m. q + m \<le> len h blk'
             \<longrightarrow> block_items F h blk' q m (f_bytes f') = block_items F h blk' q m (f_bytes f))"
    using write_result [OF fit(1) True fit(3,2,4), of cod f] by blast
  have "holds_items h f' w" if w: "fits h w" "holds_items h f w" "apart (blk, p, n, buf) w" for w
  proof (cases w)
    case (fields blk' q m buf')
    have "holds_items h f' (blk', q, m, buf')"
      unfolding holds_items_def prod.case
    proof
      assume l: "0 < len h blk'"
      have fw: "blk' \<in> set names" "q + m \<le> len h blk'" using w(1) l by (simp_all add: fields fits_def)
      have hw: "block_there F h blk' (f_bytes f)" "block_items F h blk' q m (f_bytes f) = take (isz blk' * m) buf'"
        using w(2) l by (simp_all add: fields holds_items_def)
      have "0 < isz blk'" using fw(1) positive by (auto simp: in_set_conv_nth)
      then show "block_there F h blk' (f_bytes f') \<and> block_items F h blk' q m (f_bytes f') = take (isz blk' * m) buf'"
        using same [of q m] other [OF fw(1)] f'(2) fw hw l w(3) by (cases "blk' = blk") (auto simp: fields apart_def)
    qed
    then show ?thesis by (simp add: fields)
  qed
  then show ?thesis using f' by (auto simp: holds_items_def)
next
  case False
  then have "block_write F cod h blk buf (int p) (int n) f = Inr f"
    using write_nothing assms by (simp add: fits_def)
  then show ?thesis using False by (auto simp: holds_items_def)
qed

lemma block_writes_result:
  "list_all (fits h) ws \<Longrightarrow> sorted_wrt apart ws \<Longrightarrow>
   \<exists>f'. block_writes F cod h ws f = Inr f' \<and> list_all (holds_items h f') ws
     \<and> (\<forall>w. fits h w \<and> holds_items h f w \<and> list_all (\<lambda>w'. apart w' w) ws \<longrightarrow> holds_items h f' w)"
proof (induction ws arbitrary: f)
  case (Cons w ws)
  obtain blk p n buf where w: "w = (blk, p, n, buf)" by (cases w)
  obtain f1 where f1: "block_write F cod h blk buf (int p) (int n) f = Inr f1" "holds_items h f1 w"
      "\<And>v. fits h v \<Longrightarrow> holds_items h f v \<Longrightarrow> apart w v \<Longrightarrow> holds_items h f1 v"
    using write_one [of h blk p n buf cod f] Cons.prems(1) by (auto simp: w)
  obtain f' where f': "block_writes F cod h ws f1 = Inr f'" "list_all (holds_items h f') ws"
      "\<And>v. fits h v \<Longrightarrow> holds_items h f1 v \<Longrightarrow> list_all (\<lambda>w'. apart w' v) ws \<Longrightarrow> holds_items h f' v"
    using Cons.IH [of f1] Cons.prems by auto
  have sym: "apart a b = apart b a" for a b by (auto simp: apart_def)
  have "list_all (\<lambda>w'. apart w' w) ws" using Cons.prems(2) sym by (auto simp: list_all_iff)
  then have "holds_items h f' w" using f'(3) f1(2) Cons.prems(1) by simp
  then show ?case using f1(1,3) f'(1,2,3) by (auto simp: w)
qed simp

end

section \<open>From readers to blocks\<close>

text \<open>The reader is where it was but for the position in the file.\<close>

definition same_reader :: "'h reader \<Rightarrow> 'h reader \<Rightarrow> bool" where
  "same_reader r r' \<longleftrightarrow> (\<exists>pos. r' = r\<lparr>rd_fp := (rd_fp r)\<lparr>f_pos := pos\<rparr>\<rparr>)"

lemma same_readerD: "same_reader r r' \<Longrightarrow> rd_header r' = rd_header r \<and> rd_constants r' = rd_constants r
    \<and> f_bytes (rd_fp r') = f_bytes (rd_fp r) \<and> rd_filename r' = rd_filename r \<and> rd_read_only r' = rd_read_only r"
  by (auto simp: same_reader_def)

lemma same_reader_refl: "same_reader r r"
  unfolding same_reader_def by (intro exI [of _ "f_pos (rd_fp r)"]) simp

lemma same_reader_trans: "same_reader r r' \<Longrightarrow> same_reader r' r'' \<Longrightarrow> same_reader r r''"
  by (auto simp: same_reader_def)

lemma int_arg_small: "n < 2 ^ 31 \<Longrightarrow> int_arg n = int n"
  by (simp add: int_arg_def signed_of_nat signed_take_bit_int_eq_self)

definition extent_ok :: "'h reader_funcs \<Rightarrow> 'h \<Rightarrow> constants \<Rightarrow> string \<times> int \<times> 8 word list \<Rightarrow> item_write \<Rightarrow> bool" where
  "extent_ok F h k = (\<lambda>(blk, ptype, buf) (blk', p, n, buf'). blk' = blk \<and> buf' = buf \<and> ptype \<noteq> - 1
     \<and> rf_pstart F h blk ptype = Inr p \<and> unat (rc_N k ! nat ptype) = n \<and> p < 2 ^ 31 \<and> n < 2 ^ 31)"

lemma reader_writes_blocks:
  "list_all2 (extent_ok F (rd_header r) (rd_constants r)) ws vs \<Longrightarrow>
   reader_writes F cod ws r = rbind (block_writes F cod (rd_header r) vs (rd_fp r)) (\<lambda>f. Inr (r\<lparr>rd_fp := f\<rparr>))"
proof (induction ws arbitrary: vs r)
  case (Cons w ws)
  obtain v vs' where vs: "vs = v # vs'" "extent_ok F (rd_header r) (rd_constants r) w v"
      "list_all2 (extent_ok F (rd_header r) (rd_constants r)) ws vs'"
    using Cons.prems by (auto simp: list_all2_Cons1)
  obtain blk ptype buf where w: "w = (blk, ptype, buf)" by (cases w)
  obtain blk' p n buf' where v': "v = (blk', p, n, buf')" by (cases v)
  have v: "v = (blk, p, n, buf)" and e0: "ptype \<noteq> - 1" "rf_pstart F (rd_header r) blk ptype = Inr p"
      "unat (rc_N (rd_constants r) ! nat ptype) = n" and e: "p < 2 ^ 31" "n < 2 ^ 31"
    using vs(2) by (auto simp: w v' extent_ok_def)
  have e1: "reader_extent F r blk ptype = Inr (p, n)" using e0 by (simp add: reader_extent_def reader_npar_def)
  have step: "reader_write F cod blk ptype buf r
      = rbind (block_write F cod (rd_header r) blk buf (int p) (int n) (rd_fp r)) (\<lambda>f. Inr (r\<lparr>rd_fp := f\<rparr>))"
    using e by (simp add: reader_write_def e1 int_arg_small)
  show ?case
  proof (cases "block_write F cod (rd_header r) blk buf (int p) (int n) (rd_fp r)")
    case (Inr f)
    then show ?thesis using Cons.IH [of "r\<lparr>rd_fp := f\<rparr>" vs'] vs(3) by (simp add: w v vs(1) step)
  qed (simp add: w v vs(1) step)
qed simp

context snapshot_format
begin

lemma holds_items_cong: "f_bytes f = f_bytes g \<Longrightarrow> holds_items h f = holds_items h g"
  by (rule ext) (auto simp: holds_items_def split: prod.splits)

lemma reader_items_result:
  assumes "holds_items h (rd_fp r) (blk, 0, g, concat (map enc ys))" and "rd_header r = h" and "blk \<in> set names" "blk \<noteq> ''header''"
    and "reader_extent F r blk ptype = Inr (0, g)" "ptype \<noteq> - 1" and "g \<le> len h blk" "g \<le> length ys" "g \<le> cap" "g < 2 ^ 31"
    and "\<And>y. length (enc y) = isz blk"
  shows "\<exists>items r'. reader_items F cod r blk ptype cap = Inr (items, r') \<and> same_reader r r'
    \<and> (items = Some (map enc (take g ys)) \<or> items = None \<and> g = 0)"
proof -
  have place: "\<exists>off. block_offset F h blk = Inr off" "rf_length F h blk = Inr (len h blk)" "rf_itemsize F blk = Inr (isz blk)"
    by (rule name_index [OF assms(3), where h = h], blast)+
  have npar: "reader_npar r ptype = g"
    using assms(5,6) by (auto simp: reader_extent_def rbind_Inr_iff)
  have arg: "int_arg 0 = int 0" "int_arg g = int g" using assms(10) by (simp_all add: int_arg_small)
  show ?thesis
  proof (cases "0 < len h blk")
    case True
    have there: "block_there F h blk (f_bytes (rd_fp r))"
      and items: "block_items F h blk 0 g (f_bytes (rd_fp r)) = take (isz blk * g) (concat (map enc ys))"
      using assms(1) True by (simp_all add: holds_items_def)
    have room: "isz blk * g \<le> length (replicate (isz blk * cap) (0 :: 8 word))" using assms(9) by simp
    obtain pos where rd: "block_read F cod h blk (replicate (isz blk * cap) 0) (int 0) (int g) (rd_fp r)
        = Inr (h, into_buffer (take (isz blk * g) (concat (map enc ys))) (replicate (isz blk * cap) 0), (rd_fp r)\<lparr>f_pos := pos\<rparr>)"
      using read_result [OF assms(3) True _ assms(4) room there, of 0 cod] assms(7) unfolding items by auto
    have split: "concat (map enc ys) = concat (map enc (take g ys)) @ concat (map enc (drop g ys))"
      unfolding concat_append [symmetric] map_append [symmetric] append_take_drop_id ..
    have len_g: "length (concat (map enc (take g ys))) = isz blk * g"
      using length_concat_const [of "take g ys" enc "isz blk"] assms(8,11) by (simp add: min_absorb2)
    have data: "take (isz blk * g) (concat (map enc ys)) = concat (map enc (take g ys))" unfolding split by (simp add: len_g)
    have "chunks (isz blk) g (into_buffer (concat (map enc (take g ys))) (replicate (isz blk * cap) 0)) = map enc (take g ys)"
      using chunks_concat [of "take g ys" enc "isz blk"] assms(8,11) by (simp add: into_buffer_def min_absorb2)
    then show ?thesis
      using place True
      using arg rd data npar
      by (simp add: reader_items_def reader_length_def reader_read_def assms(2,5) same_reader_def) (rule exI [of _ pos], simp add: assms(2) [symmetric])
  next
    case False
    then have g: "g = 0" "len h blk = 0" using assms(7) by simp_all
    have "block_read F cod h blk buf a b (rd_fp r) = Inr (h, buf, rd_fp r)" for buf a b
      using place(1) by (auto simp: block_read_def place(2,3) g(2))
    then have "reader_items F cod r blk ptype cap = Inr (None, r\<lparr>rd_header := h, rd_fp := rd_fp r\<rparr>)"
      by (simp add: reader_items_def reader_length_def reader_read_def assms(2,5) place g(2))
    moreover have "r\<lparr>rd_header := h, rd_fp := rd_fp r\<rparr> = r" by (simp add: assms(2) [symmetric])
    ultimately show ?thesis using g(1) same_reader_refl by auto
  qed
qed

end

lemma store_items_result:
  assumes "items = Some (map enc (take g ys)) \<or> items = None \<and> g = 0" and "g \<le> length ys" and "\<And>y. y \<in> set (take g ys) \<Longrightarrow> dec (enc y) = y"
  shows "store_items k dec items xs = take k xs @ take g ys @ drop (k + g) xs"
proof -
  have "map dec (map enc (take g ys)) = take g ys"
    unfolding map_map by (rule map_idI) (simp add: assms(3))
  then show ?thesis using assms(1,2) by (elim disjE) (simp_all add: store_items_def)
qed

end
