(* ===== verification/Snapshot_Output.thy ===== *)
theory Snapshot_Output imports Snapshot_Reader begin

text \<open>
  An output of the particles is read back. The writes of \<open>psystem_write_output\<close> of
  \<open>Snapshot_Reader\<close> fit the blocks of the format and do not touch each other, so by the laws of the
  locale \<open>snapshot_format\<close> every block of every file holds its share (\<open>stored\<close>, \<open>file_stored\<close>); reading the files in
  order extends the arrays by one share at a time (\<open>read_upto\<close>).
\<close>

section \<open>The names of the files\<close>

definition digits_value :: "string \<Rightarrow> nat" where
  "digits_value cs = foldl (\<lambda>a d. 10 * a + (of_char d - 48)) 0 cs"

lemma digits_value_text: "digits_value (nat_text n) = n"
proof (induction n rule: nat_text.induct)
  case (1 n)
  have d: "of_char (char_of (48 + k mod 10) :: char) - 48 = k mod 10" for k :: nat by (simp add: of_char_of)
  show ?case
  proof (cases "n < 10")
    case True
    then show ?thesis using d [of n] by (simp add: nat_text.simps digits_value_def)
  next
    case False
    have "digits_value (nat_text n) = 10 * digits_value (nat_text (n div 10)) + n mod 10"
      unfolding nat_text.simps [of n] using False d [of n] by (simp add: digits_value_def)
    then show ?thesis using 1 False by simp
  qed
qed

lemma output_filename_distinct:
  assumes "output_filename basename nfiles k = output_filename basename nfiles l" and "k < nfiles" "l < nfiles"
  shows "k = l"
proof (cases "nfiles = 1")
  case False
  then have "nat_text k = nat_text l" using assms(1) by (simp add: output_filename_def)
  then show ?thesis by (metis digits_value_text)
qed (use assms in simp)

section \<open>The header of an output\<close>

definition output_header :: "config \<Rightarrow> psystem \<Rightarrow> real \<Rightarrow> nat \<Rightarrow> nat \<Rightarrow> nat \<Rightarrow> psphray_header" where
  "output_header c s time nfiles g b = psphray_set_constants (psphray_def_header psphray_blank)
     (constants_blank\<lparr>rc_hasHe := 1, rc_hasgammaHI := 1,
        rc_Ntot := (replicate 6 0)[0 := of_nat (psys_npar s), 5 := of_nat (length (psys_srcs s))],
        rc_N := (replicate 6 0)[0 := of_nat g, 5 := of_nat b],
        rc_Nfiles := of_nat nfiles, rc_OmegaL := c_omega_l c, rc_OmegaM := c_omega_m c, rc_OmegaB := c_omega_b c,
        rc_time := time, rc_h := c_h c, rc_redshift := ep_redshift (psys_epoch s), rc_boxsize := psys_boxsize s\<rparr>)"

text \<open>The expansion factor that is written, and the doubles of the header.\<close>

definition output_time :: "config \<Rightarrow> psystem \<Rightarrow> real res" where
  "output_time c s = fdiv db 1 (db (1 + t2z db c (db (ep_age (psys_epoch s) + db (of_int (psys_tick s) * psys_tick_time s)))))"

definition output_doubles :: "config \<Rightarrow> psystem \<Rightarrow> real \<Rightarrow> real list" where
  "output_doubles c s time = [0, time, ep_redshift (psys_epoch s), psys_boxsize s, c_omega_m c, c_omega_l c, c_h c, c_omega_b c]"

lemma six: "replicate 6 (x :: 'a) = [x, x, x, x, x, x]"
  by (simp add: numeral_eq_Suc)

lemma narrow_of_nat: "unat (ucast (of_nat n :: 64 word) :: 32 word) = n" "unat (of_nat n :: 64 word) = n" if "n < 2 ^ 31"
  using that by (simp_all add: unsigned_ucast_eq unat_of_nat take_bit_nat_eq_self)

lemma output_header_numbers:
  assumes "g < 2 ^ 31" and "b < 2 ^ 31"
  shows "hN (output_header c s time nfiles g b) 0 = g" "hN (output_header c s time nfiles g b) 4 = 0"
    "hN (output_header c s time nfiles g b) 5 = b"
  using assms by (simp_all add: output_header_def psphray_set_constants_def set_common_def hN_def six narrow_of_nat)

lemma output_header_flags:
  "flag_Helium (output_header c s time nfiles g b) = 1" "flag_gammaHI (output_header c s time nfiles g b) = 1"
  by (simp_all add: output_header_def psphray_set_constants_def set_common_def)

lemma output_header_shape: "psphray_shape (output_header c s time nfiles g b)"
  by (simp add: output_header_def psphray_set_constants_def set_common_def psphray_shape_def psphray_def_header_def
      psphray_blank_def constants_blank_def)

lemma output_header_exact:
  assumes "list_all (exact64 cod) (output_doubles c s time)"
  shows "header_exact cod (output_header c s time nfiles g b) \<and> exact64 cod (hd_OmegaB (output_header c s time nfiles g b))"
  using assms by (simp add: output_header_def psphray_set_constants_def set_common_def header_exact_def output_doubles_def
      psphray_def_header_def psphray_blank_def constants_blank_def six)

lemma output_constants_header:
  assumes "output_time c s = Inr time"
  shows "\<exists>k. output_constants c s nfiles g b constants_blank = Inr k
    \<and> psphray_set_constants (psphray_def_header psphray_blank) k = output_header c s time nfiles g b
    \<and> rc_N k = [of_nat g, 0, 0, 0, 0, of_nat b]"
  using assms by (simp add: output_constants_def output_time_def output_header_def constants_blank_def six)

lemma header_npar:
  assumes "g < 2 ^ 31" and "b < 2 ^ 31"
  shows "unat (rc_N (psphray_get_constants (output_header c s time nfiles g b) k) ! 0) = g"
proof -
  have "unat (of_nat g :: 64 word) < 2 ^ 32" using assms(1) by (simp add: narrow_of_nat)
  from narrow32 [OF this] show ?thesis
    using assms by (simp add: output_header_def psphray_get_constants_def get_common_def psphray_set_constants_def set_common_def
        six narrow_of_nat)
qed

section \<open>The writes of a file\<close>

definition output_items :: "codec \<Rightarrow> config \<Rightarrow> psystem \<Rightarrow> nat \<Rightarrow> nat \<Rightarrow> nat \<Rightarrow> nat \<Rightarrow> item_write list" where
  "output_items cod c s gs g bs b = map (\<lambda>(blk, ptype, buf).
     (blk, if ptype = 5 \<and> blk = ''pos'' then g else 0, if ptype = 0 then g else b, buf)) (output_blocks cod c s gs g bs b)"

lemma output_extents:
  assumes "g < 2 ^ 31" and "b < 2 ^ 31" and "rc_N k = [of_nat g, 0, 0, 0, 0, of_nat b]"
  shows "list_all2 (extent_ok psphray_funcs (output_header c s time nfiles g b) k)
    (output_blocks cod c s gs g bs b) (output_items cod c s gs g bs b)"
proof -
  let ?h = "output_header c s time nfiles g b"
  have n: "hN ?h 0 = g" "hN ?h 5 = b" using output_header_numbers [OF assms(1,2)] by simp_all
  have "list_all (\<lambda>(blk, ptype, buf). ptype \<noteq> - 1 \<and> rf_pstart psphray_funcs ?h blk ptype
          = Inr (if ptype = 5 \<and> blk = ''pos'' then g else 0) \<and> unat (rc_N k ! nat ptype) = (if ptype = 0 then g else b))
        (output_blocks cod c s gs g bs b)"
    unfolding output_blocks_def Let_def
    by (simp add: psphray_funcs_def psphray_pstarts_def row_def n assms(3) narrow_of_nat [OF assms(1)] narrow_of_nat [OF assms(2)])
  then show ?thesis
    unfolding output_items_def list_all2_map2 list_all2_same
    using assms(1,2) by (auto simp: extent_ok_def list_all_iff)
qed

lemma output_apart: "sorted_wrt apart (output_items cod c s gs g bs b)"
  by (simp add: output_items_def output_blocks_def Let_def apart_def)

lemma share_bounds:
  assumes "k < nfiles"
  shows "share_start n nfiles k + share_size n nfiles k = share_start n nfiles (k + 1)" "share_start n nfiles (k + 1) \<le> n"
proof -
  have "n * k div nfiles \<le> n * (k + 1) div nfiles" by (rule div_le_mono) simp
  then show "share_start n nfiles k + share_size n nfiles k = share_start n nfiles (k + 1)"
    by (simp add: share_size_def share_start_def)
  have "n * (k + 1) div nfiles \<le> n * nfiles div nfiles" using assms by (intro div_le_mono mult_le_mono2) simp
  then show "share_start n nfiles (k + 1) \<le> n" using assms by (simp add: share_start_def)
qed

lemma length_f32 [simp]: "length (f32 cod x) = 4"
  by (simp add: f32_def)

lemma length_vec_image [simp]: "length (vec_image cod v) = 12"
  by (simp add: vec_image_def split: prod.splits)

lemma length_images:
  "length (concat (map (f32 cod) xs)) = 4 * length xs" "length (concat (map (\<lambda>i. f32 cod (e i)) is)) = 4 * length is"
  "length (concat (map (vec_image cod) vs)) = 12 * length vs" "length (concat (map (\<lambda>x. vec_image cod (e3 x)) ss)) = 12 * length ss"
  "length (concat (map (\<lambda>t. bytes64 (w t)) ts)) = 8 * length ts" "length (concat (map (\<lambda>t. bytes32 (w' t)) us)) = 4 * length us"
  "length (concat (map bytes64 ds)) = 8 * length ds" "length (concat (map (\<lambda>i. f64 cod (e' i)) ks)) = 8 * length ks"
  by (rule length_concat_const, simp)+

text \<open>Which particles and sources a file holds, and that the arrays have them.\<close>

definition share_ok :: "psystem \<Rightarrow> nat \<Rightarrow> nat \<Rightarrow> nat \<Rightarrow> nat \<Rightarrow> bool" where
  "share_ok s gs g bs b \<longleftrightarrow> gs + g \<le> psys_npar s \<and> bs + b \<le> length (psys_srcs s) \<and> g < 2 ^ 31 \<and> b < 2 ^ 31"

definition arrays_room :: "psystem \<Rightarrow> nat \<Rightarrow> bool" where
  "arrays_room s n \<longleftrightarrow> n \<le> length (psys_pos s) \<and> n \<le> length (psys_sml s) \<and> n \<le> length (psys_rho s) \<and> n \<le> length (psys_mass s)
     \<and> n \<le> length (psys_ie s) \<and> n \<le> length (psys_lasthit s) \<and> n \<le> length (psys_hits s) \<and> n \<le> length (psys_id s)"

lemma psys_ok_room: "psys_ok s \<Longrightarrow> arrays_room s (psys_npar s)"
  by (simp add: psys_ok_def arrays_length_def arrays_room_def)

lemma psphray_item_values:
  "list_all (\<lambda>(blk, b). psphray_item blk = b \<and> blk \<in> set psphray_names)
    [(''pos'', 12), (''sml'', 4), (''rho'', 4), (''mass'', 4), (''xHI'', 4), (''xHeI'', 4), (''xHeII'', 4), (''ye'', 4),
     (''gammaHI'', 4), (''ie'', 4), (''lasthit'', 8), (''hits'', 4), (''id'', 8), (''ngammas'', 8)]"
  by code_simp

lemma output_counts:
  assumes "g < 2 ^ 31" and "b < 2 ^ 31"
  shows "list_all (\<lambda>(blk, l). psphray_count (output_header c s time nfiles g b) blk = l)
    [(''pos'', g + b), (''sml'', g), (''rho'', g), (''mass'', g + b), (''xHI'', g), (''xHeI'', g), (''xHeII'', g), (''ye'', g),
     (''gammaHI'', g), (''ie'', g), (''lasthit'', g), (''hits'', g), (''id'', g + b), (''ngammas'', b)]"
  by (simp add: psphray_count_def psphray_lengths_def output_header_numbers [OF assms(1,2)] output_header_flags)

lemma output_fits:
  assumes "share_ok s gs g bs b" and "arrays_room s (psys_npar s)"
  shows "list_all (psphray.fits (output_header c s time nfiles g b)) (output_items cod c s gs g bs b)"
proof -
  have n: "g < 2 ^ 31" "b < 2 ^ 31" using assms(1) by (simp_all add: share_ok_def)
  have "g \<le> l - gs" if "psys_npar s \<le> l" for l using assms(1) that by (auto simp: share_ok_def)
  then have "g \<le> length (psys_pos s) - gs" "g \<le> length (psys_sml s) - gs" "g \<le> length (psys_rho s) - gs"
    "g \<le> length (psys_mass s) - gs" "g \<le> length (psys_ie s) - gs" "g \<le> length (psys_lasthit s) - gs"
    "g \<le> length (psys_hits s) - gs" "g \<le> length (psys_id s) - gs"
    using assms(2) by (simp_all add: arrays_room_def)
  moreover have "b \<le> length (psys_srcs s) - bs" using assms(1) by (auto simp: share_ok_def)
  ultimately show ?thesis
    using psphray_item_values output_counts [OF n, of c s time nfiles]
    by (simp add: output_items_def output_blocks_def Let_def psphray.fits_def length_images)
qed

section \<open>A file is written\<close>

text \<open>What a stored file gives back: its header, and the items of each write.\<close>

definition stored :: "codec \<Rightarrow> psphray_header \<Rightarrow> item_write list \<Rightarrow> 8 word list \<Rightarrow> bool" where
  "stored cod h ws bs \<longleftrightarrow>
     (\<exists>pos. block_read psphray_funcs cod psphray_blank ''header'' [] 0 1 \<lparr>f_bytes = bs, f_pos = 0\<rparr>
        = Inr (h, [], \<lparr>f_bytes = bs, f_pos = pos\<rparr>)) \<and>
     list_all (psphray.holds_items h \<lparr>f_bytes = bs, f_pos = 0\<rparr>) ws"

lemma blank_shape: "psphray_shape psphray_blank"
  by (simp add: psphray_shape_def psphray_blank_def)

lemma blocks_and_header_stored:
  assumes "list_all (psphray.fits h) ws" and "sorted_wrt apart ws"
    and "psphray_shape h" and "header_exact cod h \<and> exact64 cod (hd_OmegaB h)"
  shows "\<exists>f1 f2. block_writes psphray_funcs cod h ws f = Inr f1 \<and> block_write psphray_funcs cod h ''header'' [] 0 1 f1 = Inr f2
    \<and> stored cod h ws (f_bytes f2)"
proof -
  obtain f1 where f1: "block_writes psphray_funcs cod h ws f = Inr f1" "list_all (psphray.holds_items h f1) ws"
    using psphray.block_writes_result [OF assms(1,2)] by blast
  from psphray.write_header_result [OF assms(3,4), of f1]
  obtain f2 where f2: "block_write psphray_funcs cod h ''header'' [] 0 1 f1 = Inr f2"
    and again: "\<forall>g g0. f_bytes g = f_bytes f2 \<and> psphray_shape g0 \<longrightarrow>
        (\<exists>pos. block_read psphray_funcs cod g0 ''header'' [] 0 1 g = Inr (h, [], g\<lparr>f_pos := pos\<rparr>))"
    and keep: "\<forall>blk \<in> set psphray_names. blk \<noteq> ''header'' \<and> 0 < psphray_count h blk * psphray_item blk
        \<and> block_there psphray_funcs h blk (f_bytes f1) \<longrightarrow> block_there psphray_funcs h blk (f_bytes f2) \<and> (\<forall>q m. q + m \<le> psphray_count h blk
             \<longrightarrow> block_items psphray_funcs h blk q m (f_bytes f2) = block_items psphray_funcs h blk q m (f_bytes f1))"
    by (elim exE conjE) (rule that)
  have "psphray.holds_items h \<lparr>f_bytes = f_bytes f2, f_pos = 0\<rparr> w" if w: "psphray.fits h w" "psphray.holds_items h f1 w" for w
  proof (cases w)
    case (fields blk p n buf)
    have "0 < psphray_item blk" if "blk \<in> set psphray_names"
      using psphray_tables(3) that by (simp add: list_all_iff psphray_item_def)
    then show ?thesis using w bspec [OF keep, of blk] by (auto simp: fields psphray.fits_def psphray.holds_items_def)
  qed
  then have "list_all (psphray.holds_items h \<lparr>f_bytes = f_bytes f2, f_pos = 0\<rparr>) ws"
    using assms(1) f1(2) by (simp add: list_all_iff)
  moreover have "\<exists>pos. block_read psphray_funcs cod psphray_blank ''header'' [] 0 1 \<lparr>f_bytes = f_bytes f2, f_pos = 0\<rparr>
      = Inr (h, [], \<lparr>f_bytes = f_bytes f2, f_pos = pos\<rparr>)"
    using spec [OF spec [OF again], of "\<lparr>f_bytes = f_bytes f2, f_pos = 0\<rparr>" psphray_blank] by (simp add: blank_shape)
  ultimately show ?thesis using f1(1) f2 by (intro exI [of _ f1] exI [of _ f2] conjI) (simp_all add: stored_def)
qed

definition sources_ready :: "psystem \<Rightarrow> bool" where
  "sources_ready s \<longleftrightarrow> list_all (\<lambda>x. src_cursor x < length (src_Ngamma_dots x)) (psys_srcs s)"

definition file_stored :: "codec \<Rightarrow> config \<Rightarrow> psystem \<Rightarrow> real \<Rightarrow> nat \<Rightarrow> nat \<Rightarrow> 8 word list \<Rightarrow> bool" where
  "file_stored cod c s time nfiles fid bytes =
     (let gs = share_start (psys_npar s) nfiles fid; g = share_size (psys_npar s) nfiles fid;
          bs = share_start (length (psys_srcs s)) nfiles fid; b = share_size (length (psys_srcs s)) nfiles fid
      in stored cod (output_header c s time nfiles g b) (output_items cod c s gs g bs b) bytes)"

lemma write_output_file_result:
  assumes "arrays_room s (psys_npar s)" and "sources_ready s" and "output_time c s = Inr time"
    and "list_all (exact64 cod) (output_doubles c s time)"
    and "fid < nfiles" "psys_npar s < 2 ^ 31" "length (psys_srcs s) < 2 ^ 31"
  shows "\<exists>bytes. write_output_file cod c s basename nfiles fid fs = Inr (fs(output_filename basename nfiles fid \<mapsto> bytes))
    \<and> file_stored cod c s time nfiles fid bytes"
proof -
  let ?gs = "share_start (psys_npar s) nfiles fid" and ?g = "share_size (psys_npar s) nfiles fid"
  let ?bs = "share_start (length (psys_srcs s)) nfiles fid" and ?b = "share_size (length (psys_srcs s)) nfiles fid"
  let ?h = "output_header c s time nfiles ?g ?b" and ?name = "output_filename basename nfiles fid"
  have ok: "share_ok s ?gs ?g ?bs ?b"
    using share_bounds [OF assms(5), of "psys_npar s"] share_bounds [OF assms(5), of "length (psys_srcs s)"] assms(6,7)
    by (simp add: share_ok_def)
  then have n: "?g < 2 ^ 31" "?b < 2 ^ 31" by (simp_all add: share_ok_def)
  obtain k where k: "output_constants c s nfiles ?g ?b constants_blank = Inr k"
      "psphray_set_constants (psphray_def_header psphray_blank) k = ?h" "rc_N k = [of_nat ?g, 0, 0, 0, 0, of_nat ?b]"
    using output_constants_header [OF assms(3)] by blast
  define r where "r = \<lparr>rd_filename = ?name, rd_header = ?h, rd_fp = \<lparr>f_bytes = [], f_pos = 0\<rparr>, rd_read_only = False, rd_constants = k\<rparr>"
  obtain f1 f2 where f: "block_writes psphray_funcs cod ?h (output_items cod c s ?gs ?g ?bs ?b) (rd_fp r) = Inr f1"
      "block_write psphray_funcs cod ?h ''header'' [] 0 1 f1 = Inr f2" "stored cod ?h (output_items cod c s ?gs ?g ?bs ?b) (f_bytes f2)"
    using blocks_and_header_stored [OF output_fits [OF ok assms(1)] output_apart output_header_shape output_header_exact [OF assms(4)]]
    by blast
  have ws: "reader_writes psphray_funcs cod (output_blocks cod c s ?gs ?g ?bs ?b) r = Inr (r\<lparr>rd_fp := f1\<rparr>)"
    using reader_writes_blocks [of psphray_funcs r "output_blocks cod c s ?gs ?g ?bs ?b" "output_items cod c s ?gs ?g ?bs ?b" cod]
      output_extents [OF n k(3), of c s time nfiles cod ?gs ?bs] f(1) by (simp add: r_def)
  have "\<not> list_ex (\<lambda>x. src_cursor x \<ge> length (src_Ngamma_dots x)) (take ?b (drop ?bs (psys_srcs s)))"
    using assms(2) by (auto simp: sources_ready_def list_ex_iff list_all_iff not_le dest!: in_set_takeD in_set_dropD)
  moreover have "reader_update_header psphray_funcs ((reader_create psphray_funcs ?name)\<lparr>rd_constants := k\<rparr>) = r"
    by (simp add: reader_update_header_def reader_create_def psphray_funcs_def k(2) r_def)
  moreover have "rd_constants (reader_create psphray_funcs ?name) = constants_blank" by (simp add: reader_create_def)
  moreover have "reader_close psphray_funcs cod (r\<lparr>rd_fp := f1\<rparr>) fs = Inr (fs(?name \<mapsto> f_bytes f2))"
    by (simp add: reader_close_def r_def f(2))
  ultimately have "write_output_file cod c s basename nfiles fid fs = Inr (fs(?name \<mapsto> f_bytes f2))"
    unfolding write_output_file_def Let_def by (simp add: k(1) ws)
  then show ?thesis using f(3) by (auto simp: file_stored_def Let_def)
qed

lemma write_output_files_result:
  assumes "\<And>fid fs. fid \<in> set fids \<Longrightarrow> \<exists>bytes. write_output_file cod c s basename nfiles fid fs
      = Inr (fs(output_filename basename nfiles fid \<mapsto> bytes)) \<and> P fid bytes"
    and "inj_on (output_filename basename nfiles) (set fids)" and "distinct fids"
  shows "\<exists>fs'. write_output_files cod c s basename nfiles fids fs = Inr fs'
    \<and> (\<forall>fid \<in> set fids. \<exists>bytes. fs' (output_filename basename nfiles fid) = Some bytes \<and> P fid bytes)
    \<and> (\<forall>name. name \<notin> output_filename basename nfiles ` set fids \<longrightarrow> fs' name = fs name)"
  using assms
proof (induction fids arbitrary: fs)
  case (Cons fid fids)
  let ?name = "output_filename basename nfiles"
  obtain bytes where b: "write_output_file cod c s basename nfiles fid fs = Inr (fs(?name fid \<mapsto> bytes))" "P fid bytes"
    using Cons.prems(1) [of fid fs] by (auto simp del: fun_upd_apply)
  obtain fs' where fs': "write_output_files cod c s basename nfiles fids (fs(?name fid \<mapsto> bytes)) = Inr fs'"
      "\<forall>k \<in> set fids. \<exists>bytes. fs' (?name k) = Some bytes \<and> P k bytes"
      "\<forall>name. name \<notin> ?name ` set fids \<longrightarrow> fs' name = (fs(?name fid \<mapsto> bytes)) name"
    using Cons.IH [of "fs(?name fid \<mapsto> bytes)"] Cons.prems by (auto simp: inj_on_def simp del: fun_upd_apply)
  have "?name fid \<notin> ?name ` set fids" using Cons.prems(2,3) by (auto simp: inj_on_def)
  then have "fs' (?name fid) = Some bytes" using fs'(3) by simp
  then show ?case using b fs' by (intro exI [of _ fs']) auto
qed simp

section \<open>A file is read\<close>

text \<open>A reader on a file of an output.\<close>

definition reads_from :: "codec \<Rightarrow> config \<Rightarrow> psystem \<Rightarrow> real \<Rightarrow> nat \<Rightarrow> nat \<Rightarrow> nat \<Rightarrow> nat \<Rightarrow> nat \<Rightarrow> psphray_header reader \<Rightarrow> bool" where
  "reads_from cod c s time nfiles gs g bs b r \<longleftrightarrow> rd_header r = output_header c s time nfiles g b \<and> reader_npar r 0 = g
     \<and> stored cod (output_header c s time nfiles g b) (output_items cod c s gs g bs b) (f_bytes (rd_fp r))"

lemma reads_from_same: "reads_from cod c s time nfiles gs g bs b r \<Longrightarrow> same_reader r r' \<Longrightarrow> reads_from cod c s time nfiles gs g bs b r'"
  by (auto simp: reads_from_def reader_npar_def dest: same_readerD)

lemma open_stored:
  assumes "fs fname = Some bytes" and "stored cod (output_header c s time nfiles g b) (output_items cod c s gs g bs b) bytes"
    and "g < 2 ^ 31" and "b < 2 ^ 31"
  shows "\<exists>r. reader_open psphray_funcs cod fs fname = Inr r \<and> reads_from cod c s time nfiles gs g bs b r"
proof -
  obtain pos where rd: "block_read psphray_funcs cod psphray_blank ''header'' [] 0 1 \<lparr>f_bytes = bytes, f_pos = 0\<rparr>
      = Inr (output_header c s time nfiles g b, [], \<lparr>f_bytes = bytes, f_pos = pos\<rparr>)"
    using assms(2) by (auto simp: stored_def)
  have blank: "rf_blank psphray_funcs = psphray_blank" "rf_get_constants psphray_funcs = psphray_get_constants"
    by (simp_all add: psphray_funcs_def)
  show ?thesis
    by (simp add: reader_open_def assms(1) blank rd reads_from_def reader_npar_def header_npar [OF assms(3,4)] assms(2))
qed

lemma gas_items:
  assumes "reads_from cod c s time nfiles gs g bs b r" and "share_ok s gs g bs b"
    and "(blk, 0, concat (map enc ys)) \<in> set (output_blocks cod c s gs g bs b)"
    and "psphray_item blk = isz" "\<And>y. length (enc y) = isz" "g \<le> length ys" "g \<le> cap"
  shows "\<exists>items r'. reader_items psphray_funcs cod r blk 0 cap = Inr (items, r') \<and> reads_from cod c s time nfiles gs g bs b r'
    \<and> (items = Some (map enc (take g ys)) \<or> items = None \<and> g = 0)"
proof -
  let ?h = "output_header c s time nfiles g b"
  have n: "g < 2 ^ 31" "b < 2 ^ 31" using assms(2) by (simp_all add: share_ok_def)
  have wr: "(blk, 0, g, concat (map enc ys)) \<in> set (output_items cod c s gs g bs b)"
    using imageI [OF assms(3), of "\<lambda>(blk, ptype, buf). (blk, if ptype = 5 \<and> blk = ''pos'' then g else 0, if ptype = 0 then g else b, buf)"]
    by (simp add: output_items_def)
  have "list_all (\<lambda>(blk, ptype, buf). blk \<in> set psphray_names \<and> blk \<noteq> ''header'' \<and> (ptype = 0 \<longrightarrow> g \<le> psphray_count ?h blk
      \<and> rf_pstart psphray_funcs ?h blk 0 = Inr 0)) (output_blocks cod c s gs g bs b)"
    using psphray_item_values output_counts [OF n, of c s time nfiles]
    by (simp add: output_blocks_def Let_def psphray_funcs_def psphray_pstarts_def row_def)
  then have place: "blk \<in> set psphray_names" "blk \<noteq> ''header''" "g \<le> psphray_count ?h blk" "rf_pstart psphray_funcs ?h blk 0 = Inr 0"
    using assms(3) by (auto simp: list_all_iff)
  have "psphray.holds_items ?h \<lparr>f_bytes = f_bytes (rd_fp r), f_pos = 0\<rparr> (blk, 0, g, concat (map enc ys))"
    using assms(1) wr by (auto simp: reads_from_def stored_def list_all_iff)
  then have holds: "psphray.holds_items ?h (rd_fp r) (blk, 0, g, concat (map enc ys))"
    by (simp add: psphray.holds_items_def)
  have hdr: "rd_header r = ?h" using assms(1) by (simp add: reads_from_def)
  have ext: "reader_extent psphray_funcs r blk 0 = Inr (0, g)"
    using assms(1) place(4) by (simp add: reads_from_def reader_extent_def)
  have "length (enc y) = psphray_item blk" for y by (simp add: assms(4,5))
  from psphray.reader_items_result [OF holds hdr place(1,2) ext _ place(3) assms(6,7) n(1) this, of cod]
  obtain items r' where "reader_items psphray_funcs cod r blk 0 cap = Inr (items, r')" "same_reader r r'"
      "items = Some (map enc (take g ys)) \<or> items = None \<and> g = 0" by auto
  then show ?thesis using reads_from_same [OF assms(1)] by blast
qed

text \<open>Storing the items of a share after the ones that were read before.\<close>

lemma store_share:
  assumes "items = Some (map enc (take g (drop k zs))) \<or> items = None \<and> g = 0" and "take k xs = take k zs"
    and "k + g \<le> length xs" "k + g \<le> length zs" and "\<And>y. y \<in> set (take g (drop k zs)) \<Longrightarrow> dec (enc y) = y"
  shows "length (store_items k dec items xs) = length xs \<and> take (k + g) (store_items k dec items xs) = take (k + g) zs"
proof -
  have "store_items k dec items xs = take k zs @ take g (drop k zs) @ drop (k + g) xs"
    using store_items_result [OF assms(1), of dec k xs] assms by simp
  then show ?thesis using assms(3,4) by (simp add: take_add)
qed

lemma store_any_length:
  assumes "items = Some (map enc (take g ys)) \<or> items = None \<and> g = 0" and "g \<le> length ys" "k + g \<le> length xs"
  shows "length (store_items k dec items xs) = length xs"
  using assms by (elim disjE) (simp_all add: store_items_def)

text \<open>The ionization a particle starts with changes its abundances only.\<close>

definition abundances_only :: "psystem \<Rightarrow> psystem \<Rightarrow> bool" where
  "abundances_only s t \<longleftrightarrow> (\<exists>lH lHeI lHeII ye. t = s\<lparr>psys_lambdaH := lH, psys_lambdaHeI := lHeI, psys_lambdaHeII := lHeII, psys_yeMET := ye\<rparr>
     \<and> length lH = length (psys_lambdaH s) \<and> length lHeI = length (psys_lambdaHeI s)
     \<and> length lHeII = length (psys_lambdaHeII s) \<and> length ye = length (psys_yeMET s))"

lemma abundances_onlyI:
  "length lH = length (psys_lambdaH s) \<Longrightarrow> length lHeI = length (psys_lambdaHeI s) \<Longrightarrow> length lHeII = length (psys_lambdaHeII s)
   \<Longrightarrow> length ye = length (psys_yeMET s)
   \<Longrightarrow> abundances_only s (s\<lparr>psys_lambdaH := lH, psys_lambdaHeI := lHeI, psys_lambdaHeII := lHeII, psys_yeMET := ye\<rparr>)"
  unfolding abundances_only_def by blast

lemma abundances_only_refl: "abundances_only s s"
  using abundances_onlyI [of "psys_lambdaH s" s "psys_lambdaHeI s" "psys_lambdaHeII s" "psys_yeMET s"] by simp

lemma abundances_only_trans:
  assumes "abundances_only s t" and "abundances_only t u" shows "abundances_only s u"
proof -
  obtain a b d e where t: "t = s\<lparr>psys_lambdaH := a, psys_lambdaHeI := b, psys_lambdaHeII := d, psys_yeMET := e\<rparr>"
      "length a = length (psys_lambdaH s)" "length b = length (psys_lambdaHeI s)" "length d = length (psys_lambdaHeII s)"
      "length e = length (psys_yeMET s)" using assms(1) unfolding abundances_only_def by blast
  obtain a' b' d' e' where u: "u = t\<lparr>psys_lambdaH := a', psys_lambdaHeI := b', psys_lambdaHeII := d', psys_yeMET := e'\<rparr>"
      "length a' = length (psys_lambdaH t)" "length b' = length (psys_lambdaHeI t)" "length d' = length (psys_lambdaHeII t)"
      "length e' = length (psys_yeMET t)" using assms(2) unfolding abundances_only_def by blast
  have "u = s\<lparr>psys_lambdaH := a', psys_lambdaHeI := b', psys_lambdaHeII := d', psys_yeMET := e'\<rparr>" by (simp add: t(1) u(1))
  then show ?thesis using abundances_onlyI [of a' s b' d' e'] t u by simp
qed

lemma abundances_only_fields:
  assumes "abundances_only s t"
  shows "psys_pos t = psys_pos s" "psys_mass t = psys_mass s" "psys_sml t = psys_sml s" "psys_rho t = psys_rho s"
    "psys_ie t = psys_ie s" "psys_id t = psys_id s" "psys_npar t = psys_npar s" "psys_npar_max t = psys_npar_max s"
    "psys_epoch t = psys_epoch s" "arrays_length t n = arrays_length s n"
  using assms by (auto simp: abundances_only_def arrays_length_def)

lemma start_ionization_frame:
  assumes "c_hmf c \<noteq> 0" and "db (1 - c_hmf c) \<noteq> 0"
  shows "\<exists>t. start_ionization c k x s = Inr t \<and> abundances_only s t"
proof (cases "cfg_h_only c")
  case True
  then show ?thesis
    using abundances_onlyI [of _ s "psys_lambdaHeI s" "psys_lambdaHeII s"]
    by (simp add: start_ionization_def Let_def psys_set_lambdaH_def)
next
  case False
  then show ?thesis
    using abundances_onlyI [of _ s] assms
    by (simp add: start_ionization_def helium_start_def fdiv_def Let_def psys_set_lambdaH_def psys_set_lambdaHe_def)
qed

lemma start_ionizations_frame:
  assumes "c_hmf c \<noteq> 0" and "db (1 - c_hmf c) \<noteq> 0"
  shows "\<exists>t. start_ionizations c k xs s = Inr t \<and> abundances_only s t"
proof (induction xs arbitrary: k s)
  case (Cons x xs)
  obtain t where t: "start_ionization c k x s = Inr t" "abundances_only s t" using start_ionization_frame [OF assms] by blast
  obtain u where "start_ionizations c (k + 1) xs t = Inr u" "abundances_only t u" using Cons.IH by blast
  then show ?case using t abundances_only_trans by auto
qed (simp add: abundances_only_refl)

text \<open>The machine's representation keeps the floats of the particles.\<close>

definition exact32 :: "codec \<Rightarrow> real \<Rightarrow> bool" where
  "exact32 cod x \<longleftrightarrow> dec32 cod (enc32 cod x) = x"

definition floats_exact :: "codec \<Rightarrow> psystem \<Rightarrow> bool" where
  "floats_exact cod s \<longleftrightarrow> list_all (\<lambda>(x, y, z). exact32 cod x \<and> exact32 cod y \<and> exact32 cod z) (take (psys_npar s) (psys_pos s))
     \<and> list_all (exact32 cod) (take (psys_npar s) (psys_mass s)) \<and> list_all (exact32 cod) (take (psys_npar s) (psys_sml s))
     \<and> list_all (exact32 cod) (take (psys_npar s) (psys_rho s)) \<and> list_all (exact32 cod) (take (psys_npar s) (psys_ie s))"

text \<open>The arrays that come back, up to the number of particles read so far.\<close>

definition same_gas :: "nat \<Rightarrow> psystem \<Rightarrow> psystem \<Rightarrow> bool" where
  "same_gas n s t \<longleftrightarrow> take n (psys_pos t) = take n (psys_pos s) \<and> take n (psys_mass t) = take n (psys_mass s)
     \<and> take n (psys_sml t) = take n (psys_sml s) \<and> take n (psys_rho t) = take n (psys_rho s)
     \<and> take n (psys_ie t) = take n (psys_ie s) \<and> take n (psys_id t) = take n (psys_id s)"

definition read_upto :: "nat \<Rightarrow> psystem \<Rightarrow> psystem \<Rightarrow> bool" where
  "read_upto n s t \<longleftrightarrow> same_gas n s t \<and> arrays_length t (psys_npar_max t)"

lemma decode_float: "exact32 cod x \<Longrightarrow> float_of cod (f32 cod x) = x"
  by (simp add: exact32_def float_of_def f32_def)

lemma decode_vec: "exact32 cod x \<and> exact32 cod y \<and> exact32 cod z \<Longrightarrow> vec_of cod (vec_image cod (x, y, z)) = (x, y, z)"
  by (simp add: vec_of_def vec_image_def decode_float)

lemma decode_id: "id_of 8 (bytes64 w) = w"
  by (simp add: id_of_def)

lemma in_share: "x \<in> set (take g (drop k zs)) \<Longrightarrow> k + g \<le> n \<Longrightarrow> x \<in> set (take n zs)"
  by (metis Un_iff append_take_drop_id min.absorb1 set_append take_add take_drop take_take)

text \<open>The items of a block that a file of the share gives back.\<close>

definition share_items :: "('a \<Rightarrow> 8 word list) \<Rightarrow> nat \<Rightarrow> 'a list \<Rightarrow> 8 word list list option \<Rightarrow> bool" where
  "share_items enc g ys items \<longleftrightarrow> items = Some (map enc (take g ys)) \<or> items = None \<and> g = 0"

definition store_gas :: "codec \<Rightarrow> nat \<Rightarrow> 8 word list list option \<Rightarrow> 8 word list list option \<Rightarrow> 8 word list list option
    \<Rightarrow> 8 word list list option \<Rightarrow> 8 word list list option \<Rightarrow> 8 word list list option \<Rightarrow> psystem \<Rightarrow> psystem" where
  "store_gas cod k pos mass sml rho ie ye t = t\<lparr>psys_pos := store_items k (vec_of cod) pos (psys_pos t),
      psys_mass := store_items k (float_of cod) mass (psys_mass t), psys_sml := store_items k (float_of cod) sml (psys_sml t),
      psys_rho := store_items k (float_of cod) rho (psys_rho t), psys_ie := store_items k (float_of cod) ie (psys_ie t),
      psys_yeMET := store_items k (float_of cod) ye (psys_yeMET t)\<rparr>"

lemma gas_share:
  assumes "reads_from cod c s time nfiles gs g bs b r" and "share_ok s gs g bs b"
    and "(blk, 0, concat (map enc (drop gs ys))) \<in> set (output_blocks cod c s gs g bs b)" and "psphray_item blk = isz"
    and "\<And>y. length (enc y) = isz" and "psys_npar s \<le> length ys" and "g \<le> cap"
  obtains items r' where "reader_items psphray_funcs cod r blk 0 cap = Inr (items, r')" "reads_from cod c s time nfiles gs g bs b r'"
    "share_items enc g (drop gs ys) items"
proof -
  have "g \<le> length (drop gs ys)" using assms(2,6) by (auto simp: share_ok_def)
  from gas_items [OF assms(1-5) this assms(7)] show ?thesis using that by (auto simp: share_items_def)
qed

lemma derived_share:
  assumes "reads_from cod c s time nfiles gs g bs b r" and "share_ok s gs g bs b"
    and "(blk, 0, concat (map enc [0..<g])) \<in> set (output_blocks cod c s gs g bs b)" and "psphray_item blk = isz"
    and "\<And>y. length (enc y) = isz" and "g \<le> cap"
  obtains items r' where "reader_items psphray_funcs cod r blk 0 cap = Inr (items, r')" "reads_from cod c s time nfiles gs g bs b r'"
    "share_items enc g [0..<g] items"
proof -
  have "g \<le> length [0..<g]" by simp
  from gas_items [OF assms(1-5) this assms(6)] show ?thesis using that by (auto simp: share_items_def)
qed

lemma read_epoch_file_run:
  assumes "fs fname = Some bytes" and "stored cod (output_header c s time nfiles g b) (output_items cod c s gs g bs b) bytes"
    and "share_ok s gs g bs b" and "arrays_room s (psys_npar s)" and "gs + g \<le> psys_npar_max t"
    and "c_hmf c' \<noteq> 0" "db (1 - c_hmf c') \<noteq> 0"
  obtains pos mass sml rho ie ye enc ids u
  where "share_items (vec_image cod) g (drop gs (psys_pos s)) pos" "share_items (f32 cod) g (drop gs (psys_mass s)) mass"
    "share_items (f32 cod) g (drop gs (psys_sml s)) sml" "share_items (f32 cod) g (drop gs (psys_rho s)) rho"
    "share_items (f32 cod) g (drop gs (psys_ie s)) ie" "share_items enc g [0..<g] ye"
    "share_items bytes64 g (drop gs (psys_id s)) ids" "abundances_only (store_gas cod gs pos mass sml rho ie ye t) u"
    "read_epoch_file psphray_funcs cod c' fs fname gs t = Inr (gs + g, u\<lparr>psys_id := store_items gs (id_of 8) ids (psys_id u)\<rparr>)"
proof -
  let ?from = "reads_from cod c s time nfiles gs g bs b" and ?room = "psys_npar_max t - gs"
  let ?in = "\<lambda>blk bytes. (blk, 0, bytes) \<in> set (output_blocks cod c s gs g bs b)"
  have n: "g < 2 ^ 31" "b < 2 ^ 31" and room: "g \<le> ?room" using assms(3,5) by (simp_all add: share_ok_def)
  obtain r where r: "reader_open psphray_funcs cod fs fname = Inr r" "?from r"
    using open_stored [of fs fname, OF assms(1,2) n] by blast
  have lens: "psys_npar s \<le> length (psys_pos s)" "psys_npar s \<le> length (psys_mass s)" "psys_npar s \<le> length (psys_sml s)"
    "psys_npar s \<le> length (psys_rho s)" "psys_npar s \<le> length (psys_ie s)" "psys_npar s \<le> length (psys_id s)"
    using assms(4) by (simp_all add: arrays_room_def)
  have item: "psphray_item ''pos'' = 12" "psphray_item ''mass'' = 4" "psphray_item ''sml'' = 4" "psphray_item ''rho'' = 4"
    "psphray_item ''ie'' = 4" "psphray_item ''ye'' = 4" "psphray_item ''xHI'' = 4" "psphray_item ''id'' = 8"
    using psphray_item_values by simp_all
  have blocks: "?in ''pos'' (concat (map (vec_image cod) (drop gs (psys_pos s))))"
    "?in ''mass'' (concat (map (f32 cod) (drop gs (psys_mass s))))" "?in ''sml'' (concat (map (f32 cod) (drop gs (psys_sml s))))"
    "?in ''rho'' (concat (map (f32 cod) (drop gs (psys_rho s))))" "?in ''ie'' (concat (map (f32 cod) (drop gs (psys_ie s))))"
    "?in ''ye'' (concat (map (\<lambda>i. f32 cod (fl (psys_ye c s (gs + i)))) [0..<g]))"
    "?in ''xHI'' (concat (map (\<lambda>i. f32 cod (fl (psys_xHI s (gs + i)))) [0..<g]))"
    "?in ''id'' (concat (map bytes64 (drop gs (psys_id s))))"
    by (simp_all add: output_blocks_def Let_def)
  obtain pos r1 where pos: "reader_items psphray_funcs cod r ''pos'' 0 ?room = Inr (pos, r1)" "?from r1"
      "share_items (vec_image cod) g (drop gs (psys_pos s)) pos"
    by (rule gas_share [OF r(2) assms(3) blocks(1) item(1) length_vec_image lens(1) room])
  obtain mass r2 where mass: "reader_items psphray_funcs cod r1 ''mass'' 0 ?room = Inr (mass, r2)" "?from r2"
      "share_items (f32 cod) g (drop gs (psys_mass s)) mass"
    by (rule gas_share [OF pos(2) assms(3) blocks(2) item(2) length_f32 lens(2) room])
  obtain sml r3 where sml: "reader_items psphray_funcs cod r2 ''sml'' 0 ?room = Inr (sml, r3)" "?from r3"
      "share_items (f32 cod) g (drop gs (psys_sml s)) sml"
    by (rule gas_share [OF mass(2) assms(3) blocks(3) item(3) length_f32 lens(3) room])
  obtain rho r4 where rho: "reader_items psphray_funcs cod r3 ''rho'' 0 ?room = Inr (rho, r4)" "?from r4"
      "share_items (f32 cod) g (drop gs (psys_rho s)) rho"
    by (rule gas_share [OF sml(2) assms(3) blocks(4) item(4) length_f32 lens(4) room])
  obtain ie r5 where ie: "reader_items psphray_funcs cod r4 ''ie'' 0 ?room = Inr (ie, r5)" "?from r5"
      "share_items (f32 cod) g (drop gs (psys_ie s)) ie"
    by (rule gas_share [OF rho(2) assms(3) blocks(5) item(5) length_f32 lens(5) room])
  obtain ye r6 where ye: "reader_items psphray_funcs cod r5 ''ye'' 0 ?room = Inr (ye, r6)" "?from r6"
      "share_items (\<lambda>i. f32 cod (fl (psys_ye c s (gs + i)))) g [0..<g] ye"
    by (rule derived_share [OF ie(2) assms(3) blocks(6) item(6) length_f32 room])
  obtain xHI r7 where xHI: "reader_items psphray_funcs cod r6 ''xHI'' 0 g = Inr (xHI, r7)" "?from r7"
    by (rule derived_share [OF ye(2) assms(3) blocks(7) item(7) length_f32 order_refl])
  obtain ids r8 where ids: "reader_items psphray_funcs cod r7 ''id'' 0 ?room = Inr (ids, r8)" "?from r8"
      "share_items bytes64 g (drop gs (psys_id s)) ids"
    by (rule gas_share [OF xHI(2) assms(3) blocks(8) item(8) length_bytes(2) lens(6) room])
  have npar: "reader_npar r6 0 = g" "reader_npar r7 0 = g" "reader_npar r8 0 = g" using ye(2) xHI(2) ids(2) by (simp_all add: reads_from_def)
  obtain u where u: "start_ionizations c' gs (store_items 0 (float_of cod) xHI (replicate g 0)) (store_gas cod gs pos mass sml rho ie ye t) = Inr u"
      "abundances_only (store_gas cod gs pos mass sml rho ie ye t) u"
    using start_ionizations_frame [OF assms(6,7)] by blast
  have isz: "reader_itemsize psphray_funcs ''id'' = Inr 8"
    by (simp add: reader_itemsize_def psphray_funcs_def psphray_itemsizes_def row_def)
  have "read_epoch_file psphray_funcs cod c' fs fname gs t = Inr (gs + g, u\<lparr>psys_id := store_items gs (id_of 8) ids (psys_id u)\<rparr>)"
    using room u(1) unfolding store_gas_def
    by (simp add: read_epoch_file_def r(1) pos(1) mass(1) sml(1) rho(1) ie(1) ye(1) npar xHI(1) isz ids(1) Let_def)
  then show ?thesis by (rule that [OF pos(3) mass(3) sml(3) rho(3) ie(3) ye(3) ids(3) u(2)])
qed

text \<open>Storing a share that was read keeps the length of an array and extends what it agrees with.\<close>

lemma store_read:
  assumes "share_items enc g (drop k zs) items" and "take k xs = take k zs" and "length xs = m" "k + g \<le> m" "k + g \<le> n" "n \<le> length zs"
    and "\<And>y. y \<in> set (take n zs) \<Longrightarrow> dec (enc y) = y"
  shows "length (store_items k dec items xs) = m \<and> take (k + g) (store_items k dec items xs) = take (k + g) zs"
  using store_share [OF assms(1) [unfolded share_items_def] assms(2)] assms(3-7) in_share [of _ g k zs n] by simp

lemma read_epoch_file_result:
  assumes "fs fname = Some bytes" and "stored cod (output_header c s time nfiles g b) (output_items cod c s gs g bs b) bytes"
    and "share_ok s gs g bs b" and "arrays_room s (psys_npar s)" and "gs + g \<le> psys_npar_max t"
    and "c_hmf c' \<noteq> 0" "db (1 - c_hmf c') \<noteq> 0" and "floats_exact cod s" "read_upto gs s t"
  shows "\<exists>t'. read_epoch_file psphray_funcs cod c' fs fname gs t = Inr (gs + g, t') \<and> read_upto (gs + g) s t'
    \<and> psys_npar t' = psys_npar t \<and> psys_npar_max t' = psys_npar_max t"
proof -
  let ?m = "psys_npar_max t" and ?n = "psys_npar s"
  obtain pos mass sml rho ie ye enc ids u where items:
      "share_items (vec_image cod) g (drop gs (psys_pos s)) pos" "share_items (f32 cod) g (drop gs (psys_mass s)) mass"
      "share_items (f32 cod) g (drop gs (psys_sml s)) sml" "share_items (f32 cod) g (drop gs (psys_rho s)) rho"
      "share_items (f32 cod) g (drop gs (psys_ie s)) ie" "share_items enc g [0..<g] ye"
      "share_items bytes64 g (drop gs (psys_id s)) ids"
    and u: "abundances_only (store_gas cod gs pos mass sml rho ie ye t) u"
    and run: "read_epoch_file psphray_funcs cod c' fs fname gs t = Inr (gs + g, u\<lparr>psys_id := store_items gs (id_of 8) ids (psys_id u)\<rparr>)"
    by (rule read_epoch_file_run [of fs fname, OF assms(1-7)])
  let ?t = "u\<lparr>psys_id := store_items gs (id_of 8) ids (psys_id u)\<rparr>"
  have gn: "gs + g \<le> ?n" using assms(3) by (simp add: share_ok_def)
  have lens: "?n \<le> length (psys_pos s)" "?n \<le> length (psys_mass s)" "?n \<le> length (psys_sml s)" "?n \<le> length (psys_rho s)"
    "?n \<le> length (psys_ie s)" "?n \<le> length (psys_id s)" using assms(4) by (simp_all add: arrays_room_def)
  have old: "take gs (psys_pos t) = take gs (psys_pos s)" "take gs (psys_mass t) = take gs (psys_mass s)"
    "take gs (psys_sml t) = take gs (psys_sml s)" "take gs (psys_rho t) = take gs (psys_rho s)"
    "take gs (psys_ie t) = take gs (psys_ie s)" "take gs (psys_id t) = take gs (psys_id s)"
    and arr: "arrays_length t ?m" using assms(9) by (simp_all add: read_upto_def same_gas_def)
  have tl: "length (psys_pos t) = ?m" "length (psys_mass t) = ?m" "length (psys_sml t) = ?m" "length (psys_rho t) = ?m"
    "length (psys_ie t) = ?m" "length (psys_id t) = ?m" "length (psys_yeMET t) = ?m" using arr by (simp_all add: arrays_length_def)
  have keep: "vec_of cod (vec_image cod v) = v" if "v \<in> set (take ?n (psys_pos s))" for v
    using that assms(8) by (cases v) (auto simp: floats_exact_def list_all_iff intro!: decode_vec)
  have keepf: "float_of cod (f32 cod x) = x" if "x \<in> set (take ?n (psys_mass s)) \<union> set (take ?n (psys_sml s))
      \<union> set (take ?n (psys_rho s)) \<union> set (take ?n (psys_ie s))" for x
    using that assms(8) by (auto simp: floats_exact_def list_all_iff decode_float)
  note pos = store_read [OF items(1) old(1) tl(1) assms(5) gn lens(1) keep]
  note mass = store_read [OF items(2) old(2) tl(2) assms(5) gn lens(2) keepf]
  note sml = store_read [OF items(3) old(3) tl(3) assms(5) gn lens(3) keepf]
  note rho = store_read [OF items(4) old(4) tl(4) assms(5) gn lens(4) keepf]
  note ie = store_read [OF items(5) old(5) tl(5) assms(5) gn lens(5) keepf]
  note ids = store_read [OF items(7) old(6) tl(6) assms(5) gn lens(6) decode_id]
  have ye: "length (store_items gs (float_of cod) ye (psys_yeMET t)) = ?m"
    using store_any_length [OF items(6) [unfolded share_items_def], of gs "psys_yeMET t" "float_of cod"] tl(7) assms(5) by simp
  note fields = abundances_only_fields [OF u]
  have "arrays_length (store_gas cod gs pos mass sml rho ie ye t) ?m"
    using arr pos mass sml rho ie ye by (simp add: arrays_length_def store_gas_def)
  then have "arrays_length u ?m" by (simp add: fields(10))
  moreover have "psys_id u = psys_id t" by (simp add: fields(6) store_gas_def)
  ultimately have "arrays_length ?t ?m" using ids by (simp add: arrays_length_def)
  moreover have "same_gas (gs + g) s ?t"
    using pos mass sml rho ie ids by (simp add: same_gas_def fields store_gas_def)
  moreover have "psys_npar ?t = psys_npar t" "psys_npar_max ?t = ?m" by (simp_all add: fields store_gas_def)
  ultimately show ?thesis using run by (intro exI [of _ ?t]) (simp add: read_upto_def)
qed

section \<open>A snapshot is read back\<close>

lemma read_epoch_files_result:
  assumes "\<And>fid. fid < nfiles \<Longrightarrow> \<exists>bytes. fs (fname fid) = Some bytes \<and> file_stored cod c s time nfiles fid bytes"
    and "arrays_room s (psys_npar s)" and "floats_exact cod s" and "psys_npar s < 2 ^ 31" "length (psys_srcs s) < 2 ^ 31"
    and "c_hmf c' \<noteq> 0" "db (1 - c_hmf c') \<noteq> 0" and "0 < nfiles"
  shows "k \<le> nfiles \<Longrightarrow> read_upto (share_start (psys_npar s) nfiles k) s t \<Longrightarrow> psys_npar s \<le> psys_npar_max t \<Longrightarrow>
    \<exists>t'. read_epoch_files psphray_funcs cod c' fs fname [k..<nfiles] (share_start (psys_npar s) nfiles k) t = Inr t'
      \<and> read_upto (psys_npar s) s t' \<and> psys_npar t' = psys_npar t \<and> psys_npar_max t' = psys_npar_max t"
proof (induction "nfiles - k" arbitrary: k t)
  case 0
  then have "k = nfiles" by simp
  then have "share_start (psys_npar s) nfiles k = psys_npar s" using assms(8) by (simp add: share_start_def)
  then show ?case using 0 by (simp add: \<open>k = nfiles\<close>)
next
  case (Suc m)
  let ?n = "psys_npar s" and ?q = "length (psys_srcs s)"
  let ?gs = "share_start ?n nfiles k" and ?g = "share_size ?n nfiles k" and ?bs = "share_start ?q nfiles k" and ?b = "share_size ?q nfiles k"
  have k: "k < nfiles" using Suc.hyps(2) by simp
  note gas = share_bounds [OF k, of ?n] and src = share_bounds [OF k, of ?q]
  have ok: "share_ok s ?gs ?g ?bs ?b" using gas src assms(4,5) by (simp add: share_ok_def)
  have room: "?gs + ?g \<le> psys_npar_max t" using gas Suc.prems(3) by simp
  obtain bytes where b: "fs (fname k) = Some bytes" "stored cod (output_header c s time nfiles ?g ?b) (output_items cod c s ?gs ?g ?bs ?b) bytes"
    using assms(1) [OF k] by (auto simp: file_stored_def Let_def)
  obtain t1 where t1: "read_epoch_file psphray_funcs cod c' fs (fname k) ?gs t = Inr (?gs + ?g, t1)" "read_upto (?gs + ?g) s t1"
      "psys_npar t1 = psys_npar t" "psys_npar_max t1 = psys_npar_max t"
    using read_epoch_file_result [of fs "fname k", OF b ok assms(2) room assms(6,7,3) Suc.prems(2)] by blast
  obtain t2 where t2: "read_epoch_files psphray_funcs cod c' fs fname [k + 1..<nfiles] (share_start ?n nfiles (k + 1)) t1 = Inr t2"
      "read_upto ?n s t2" "psys_npar t2 = psys_npar t1" "psys_npar_max t2 = psys_npar_max t1"
  proof -
    have "m = nfiles - (k + 1)" "k + 1 \<le> nfiles" "psys_npar s \<le> psys_npar_max t1" using Suc.hyps(2) Suc.prems(3) t1(4) k by simp_all
    then show ?thesis using Suc.hyps(1) [of "k + 1" t1] t1(2) gas(1) that by auto
  qed
  have "[k..<nfiles] = k # [k + 1..<nfiles]" using k by (simp add: upt_conv_Cons)
  then show ?case using t1 t2 gas(1) by simp
qed

lemma epoch_room_enough:
  assumes "n \<le> 2 ^ 53" shows "n \<le> epoch_room n"
proof -
  have "1 \<le> db (105 / 100)" by (rule db.ge_one) simp
  then have "real n \<le> real n * db (105 / 100)" by (simp add: mult_le_cancel_left1)
  then have "db (real n) \<le> db (real n * db (105 / 100))" by (rule db.mono)
  moreover have "db (real n) = real n" using db_of_int [of "int n"] assms by simp
  ultimately have "real n \<le> db (real n * db (105 / 100))" by simp
  then show ?thesis unfolding epoch_room_def by (simp add: trunc_def le_nat_iff le_floor_iff)
qed

lemma alloc_epoch_fields:
  "psys_npar (alloc_epoch t) = ep_ngas (psys_epoch t)" "psys_npar_max (alloc_epoch t) = epoch_room (ep_ngas (psys_epoch t))"
  "psys_epoch (alloc_epoch t) = psys_epoch t" "arrays_length (alloc_epoch t) (epoch_room (ep_ngas (psys_epoch t)))"
  by (simp_all add: alloc_epoch_def Let_def arrays_length_def)

text \<open>
  The files that an output of the particles leaves: one for each share, each of which gives back
  what was written to it.
\<close>

lemma output_written:
  assumes "psys_ok s" and "sources_ready s" and "output_time c s = Inr time" and "list_all (exact64 cod) (output_doubles c s time)"
    and "psys_npar s < 2 ^ 31" "length (psys_srcs s) < 2 ^ 31" and "nfiles = ep_output_nfiles (psys_epoch s)"
    and "name = output_filename (sprintf base num) nfiles" "ep_output_filename (psys_epoch s) = Some base"
  shows "\<exists>fs'. psystem_write_output cod sprintf c num s fs = Inr fs'
    \<and> (\<forall>fid < nfiles. \<exists>bytes. fs' (name fid) = Some bytes \<and> file_stored cod c s time nfiles fid bytes)
    \<and> (\<forall>other. other \<notin> name ` {0..<nfiles} \<longrightarrow> fs' other = fs other)"
proof -
  let ?base = "sprintf base num"
  have one: "\<exists>bytes. write_output_file cod c s ?base nfiles fid fs = Inr (fs(output_filename ?base nfiles fid \<mapsto> bytes))
      \<and> file_stored cod c s time nfiles fid bytes" if "fid \<in> set [0..<nfiles]" for fid fs
    using write_output_file_result [OF psys_ok_room [OF assms(1)] assms(2-4) _ assms(5,6)] that by simp
  have inj: "inj_on (output_filename ?base nfiles) (set [0..<nfiles])"
    by (rule inj_onI) (auto dest: output_filename_distinct)
  show ?thesis
    using write_output_files_result [of "[0..<nfiles]" cod c s ?base nfiles "file_stored cod c s time nfiles" fs, OF one inj]
    by (simp add: psystem_write_output_def Let_def assms(7-9) atLeast0LessThan) (simp add: lessThan_def)
qed

text \<open>
  C36. What an output of the particles holds, the program reads back: after
  \<open>psystem_write_output\<close> the files of the snapshot are there, no other file has changed, and
  \<open>psystem_read_epoch\<close> of an epoch that names them, in whatever number of files and in whatever
  state the particle system is, returns, and gives the same number of particles with the same
  positions, masses, smoothing lengths, densities, internal energies and identifiers, in the same
  order, in arrays that have room for five per cent more.
\<close>

theorem snapshot_output_roundtrip:
  assumes "psys_ok s" and "sources_ready s" and "output_time c s = Inr time"
    and "psys_npar s < 2 ^ 31" "length (psys_srcs s) < 2 ^ 31"
    and "floats_exact cod s" and "list_all (exact64 cod) (output_doubles c s time)"
    and "nfiles = ep_output_nfiles (psys_epoch s)" "0 < nfiles" "nfiles < 2 ^ 31"
    and "ep_output_filename (psys_epoch s) = Some base"
    and "ep_format (psys_epoch t) = ''psphray''" "ep_ngas (psys_epoch t) = psys_npar s" "rc_Nfiles k = of_nat nfiles"
    and "\<And>fid. fid < nfiles \<Longrightarrow> reader_make_filename sprintf (ep_snapshot (psys_epoch t)) fid
           = output_filename (sprintf base num) nfiles fid"
    and "c_hmf c' \<noteq> 0" "db (1 - c_hmf c') \<noteq> 0"
  shows "\<exists>fs' t'. psystem_write_output cod sprintf c num s fs = Inr fs'
    \<and> (\<forall>other. (\<forall>fid < nfiles. other \<noteq> output_filename (sprintf base num) nfiles fid) \<longrightarrow> fs' other = fs other)
    \<and> psystem_read_epoch cod sprintf c' fs' k t = Inr t'
    \<and> psys_ok t' \<and> psys_npar t' = psys_npar s \<and> same_gas (psys_npar s) s t'"
proof -
  let ?name = "output_filename (sprintf base num) nfiles"
  obtain fs' where fs': "psystem_write_output cod sprintf c num s fs = Inr fs'"
      "\<And>fid. fid < nfiles \<Longrightarrow> \<exists>bytes. fs' (?name fid) = Some bytes \<and> file_stored cod c s time nfiles fid bytes"
      "\<forall>other. other \<notin> ?name ` {0..<nfiles} \<longrightarrow> fs' other = fs other"
    using output_written [OF assms(1-3,7,4,5,8) refl assms(11), of sprintf num fs] by blast
  have files: "\<exists>bytes. fs' (reader_make_filename sprintf (ep_snapshot (psys_epoch t)) fid) = Some bytes
      \<and> file_stored cod c s time nfiles fid bytes" if "fid < nfiles" for fid
    using fs'(2) [OF that] assms(15) [OF that] by simp
  have room: "psys_npar s \<le> psys_npar_max (alloc_epoch t)"
    using epoch_room_enough [of "psys_npar s"] assms(4,13) by (simp add: alloc_epoch_fields)
  have start: "share_start (psys_npar s) nfiles 0 = 0" by (simp add: share_start_def)
  have "read_upto 0 s (alloc_epoch t)" by (simp add: read_upto_def same_gas_def alloc_epoch_fields)
  then obtain t' where t': "read_epoch_files psphray_funcs cod c' fs' (reader_make_filename sprintf (ep_snapshot (psys_epoch t)))
        [0..<nfiles] 0 (alloc_epoch t) = Inr t'" "read_upto (psys_npar s) s t'" "psys_npar t' = psys_npar s"
      "psys_npar_max t' = psys_npar_max (alloc_epoch t)"
    using read_epoch_files_result [of nfiles fs' _ cod c s time c' 0 "alloc_epoch t",
        OF files psys_ok_room [OF assms(1)] assms(6,4,5,16,17,9)] room by (auto simp: start alloc_epoch_fields assms(13))
  have "unat (rc_Nfiles k) = nfiles" using assms(10,14) by (simp add: unat_of_nat)
  then have "psystem_read_epoch cod sprintf c' fs' k t = Inr t'"
    using t'(1) assms(12) by (simp add: psystem_read_epoch_def Let_def)
  moreover have "psys_ok t'" using t' room by (simp add: psys_ok_def read_upto_def)
  moreover have "same_gas (psys_npar s) s t'" using t'(2) by (simp add: read_upto_def)
  ultimately show ?thesis using fs'(1,3) t'(3) by (intro exI [of _ fs'] exI [of _ t']) (auto simp: image_iff)
qed

text \<open>A codec for three numbers, two particles in two files, and an age at which the redshift is not negative.\<close>

definition three_codec :: "real \<Rightarrow> codec" where
  "three_codec v = (let e = (\<lambda>x. if x = 0 then 0 else if x = 1 then 1 else 2); d = (\<lambda>n. if n = 0 then 0 else if n = 1 then 1 else v)
     in \<lparr>enc32 = (\<lambda>x. of_nat (e x)), dec32 = (\<lambda>w. d (unat w)), enc64 = (\<lambda>x. of_nat (e x)), dec64 = (\<lambda>w. d (unat w))\<rparr>)"

lemma three_exact: "exact32 (three_codec v) 0" "exact32 (three_codec v) 1"
  "exact64 (three_codec v) 0" "exact64 (three_codec v) 1" "exact64 (three_codec v) v"
  by (simp_all add: exact32_def exact64_def three_codec_def Let_def)

definition demo_output :: psystem where
  "demo_output = (let s = psys_of [(particle_at (0, 1, 1) 0)\<lparr>par_id := 7\<rparr>, (particle_at (1, 0, 0) 0)\<lparr>par_id := 9\<rparr>] 1
     in s\<lparr>psys_srcs := [demo_source], psys_tick_time := 0,
          psys_epoch := (psys_epoch s)\<lparr>ep_age := 1 / 16, ep_output_nfiles := 2, ep_output_filename := Some ''out''\<rparr>\<rparr>)"

definition demo_input :: psystem where
  "demo_input = (let s = psys_of [] 1
     in s\<lparr>psys_epoch := (psys_epoch s)\<lparr>ep_ngas := 2, ep_snapshot := ''out.%d'', ep_format := ''psphray''\<rparr>\<rparr>)"

definition demo_sprintf :: "string \<Rightarrow> nat \<Rightarrow> string" where
  "demo_sprintf f k = (if f = ''out'' then f else ''out.'' @ nat_text k)"

definition demo_config :: config where
  "demo_config = config_defaults\<lparr>c_omega_m := 1, c_omega_l := 1, c_omega_b := 0, c_h := 1, c_hmf := 1 / 2\<rparr>"

lemma demo_redshift:
  assumes "c_omega_m c = 1" and "c_omega_l c = 1" and "0 < t" "t \<le> 1 / 8"
  shows "0 \<le> t2z db c t"
proof -
  have pos: "0 < db x" if "0 < x" for x using db_twice [of x] that by simp
  define pre where "pre = db (2 / db (3 * db (sqrt 1)))"
  have pre: "1 / 3 \<le> pre" using db_twice [of "2 / 3"] db_of_int [of 3] by (simp add: pre_def)
  define q where "q = db (db (db (1 / 10) * t) / pre)"
  have h: "0 < db (1 / 10)" "db (1 / 10) \<le> 2 / 10" using db_twice [of "1 / 10"] by simp_all
  have ht: "db (1 / 10) * t \<le> 2 / 10 * (1 / 8)" by (rule mult_mono) (use h assms(3,4) in simp_all)
  have ht0: "0 < db (1 / 10) * t" using h(1) assms(3) by simp
  have n: "0 < db (db (1 / 10) * t)" "db (db (1 / 10) * t) \<le> 1 / 20"
    using pos [OF ht0] db_twice [of "db (1 / 10) * t"] ht ht0 by simp_all
  have "db (db (1 / 10) * t) / pre \<le> (1 / 20) / (1 / 3)" by (rule frac_le) (use n pre in simp_all)
  then have r: "db (db (1 / 10) * t) / pre \<le> 3 / 20" by simp
  have r0: "0 < db (db (1 / 10) * t) / pre" using n pre by simp
  have "q \<le> 2 * (3 / 20)"
    unfolding q_def by (rule order_trans [OF conjunct2 [OF db_twice [OF less_imp_le [OF r0]]]]) (use r in \<open>simp add: mult.commute\<close>)
  then have q: "0 < q" "q \<le> 1 / 2" using pos [OF r0] by (simp_all add: q_def)
  have "exp q \<le> 2" using exp_half_le2 q(2) order_trans by (metis exp_le_cancel_iff)
  moreover have "0 < exp (- q)" by simp
  ultimately have "exp q - exp (- q) \<le> 2" by linarith
  then have "sinh q \<le> 1" by (simp add: sinh_field_def)
  then have s: "0 < db (sinh q)" "db (sinh q) \<le> 1" using pos q(1) db.le_one by simp_all
  have "0 < db (sinh q) powr db (2 / 3)" "db (sinh q) powr db (2 / 3) \<le> 1"
    using s db.nonneg [of "2 / 3"] powr_le1 [of "db (2 / 3)" "db (sinh q)"] by simp_all
  then have a: "0 < db (db (db (sinh q) powr db (2 / 3)) * 1)" "db (db (db (sinh q) powr db (2 / 3)) * 1) \<le> 1"
    using pos db.le_one by simp_all
  then have "1 \<le> db (1 / db (db (db (sinh q) powr db (2 / 3)) * 1))" by (intro db.ge_one) simp
  then show ?thesis
    using db.nonneg [of "db (1 / db (db (db (sinh q) powr db (2 / 3)) * 1)) - 1"]
    by (simp add: t2z_def Let_def assms(1,2) q_def pre_def)
qed

lemma demo_time: obtains v where "output_time demo_config demo_output = Inr v"
proof -
  have "0 \<le> t2z db demo_config (db (1 / 16))"
    using db_twice [of "1 / 16"] by (intro demo_redshift) (simp_all add: demo_config_def)
  then have "1 \<le> db (1 + t2z db demo_config (db (1 / 16)))" by (intro db.ge_one) simp
  then show ?thesis using that by (simp add: output_time_def demo_output_def Let_def psys_of_def fdiv_def)
qed

lemma snapshot_output_roundtrip_witness:
  "\<exists>v fs' t'. psystem_write_output (three_codec v) demo_sprintf demo_config 3 demo_output Map.empty = Inr fs'
    \<and> psystem_read_epoch (three_codec v) demo_sprintf demo_config fs' (constants_blank\<lparr>rc_Nfiles := 2\<rparr>) demo_input = Inr t'
    \<and> take 2 (psys_pos t') = [(0, 1, 1), (1, 0, 0)] \<and> take 2 (psys_id t') = [7, 9]"
proof -
  obtain v where v: "output_time demo_config demo_output = Inr v" by (rule demo_time)
  let ?cod = "three_codec v"
  have ok: "psys_ok demo_output" by (simp add: demo_output_def Let_def psys_of_def psys_ok_def arrays_length_def)
  have ready: "sources_ready demo_output" by (simp add: demo_output_def Let_def sources_ready_def demo_source_def)
  have size: "psys_npar demo_output = 2" "length (psys_srcs demo_output) = 1"
    by (simp_all add: demo_output_def Let_def psys_of_def)
  have fl: "floats_exact ?cod demo_output"
    by (simp add: floats_exact_def demo_output_def Let_def psys_of_def particle_at_def three_exact)
  have dbl: "list_all (exact64 ?cod) (output_doubles demo_config demo_output v)"
    by (simp add: output_doubles_def demo_output_def demo_config_def Let_def psys_of_def three_exact)
  have names: "2 = ep_output_nfiles (psys_epoch demo_output)" "ep_format (psys_epoch demo_input) = ''psphray''"
    "ep_ngas (psys_epoch demo_input) = psys_npar demo_output" "ep_output_filename (psys_epoch demo_output) = Some ''out''"
    by (simp_all add: demo_output_def demo_input_def Let_def psys_of_def)
  have fname: "reader_make_filename demo_sprintf (ep_snapshot (psys_epoch demo_input)) fid
      = output_filename (demo_sprintf ''out'' 3) 2 fid" for fid
    by (simp add: reader_make_filename_def demo_sprintf_def demo_input_def demo_output_def Let_def psys_of_def output_filename_def)
  have hmf: "c_hmf demo_config \<noteq> 0" "db (1 - c_hmf demo_config) \<noteq> 0"
    using db_twice [of "1 / 2"] by (simp_all add: demo_config_def)
  have small: "psys_npar demo_output < 2 ^ 31" "length (psys_srcs demo_output) < 2 ^ 31" by (simp_all add: size)
  obtain fs' t' where "psystem_write_output ?cod demo_sprintf demo_config 3 demo_output Map.empty = Inr fs'"
      "psystem_read_epoch ?cod demo_sprintf demo_config fs' (constants_blank\<lparr>rc_Nfiles := 2\<rparr>) demo_input = Inr t'"
      "same_gas (psys_npar demo_output) demo_output t'"
    using snapshot_output_roundtrip [OF ok ready v small fl dbl names(1) _ _ names(4) names(2,3) _ fname hmf,
        of "constants_blank\<lparr>rc_Nfiles := 2\<rparr>" Map.empty] by auto
  moreover have "take 2 (psys_pos demo_output) = [(0, 1, 1), (1, 0, 0)]" "take 2 (psys_id demo_output) = [7, 9]"
    by (simp_all add: demo_output_def Let_def psys_of_def particle_at_def)
  ultimately show ?thesis unfolding same_gas_def size by (intro exI [of _ v] exI [of _ fs'] exI [of _ t']) simp
qed

end
