(* ===== verification/Particle_Match.thy ===== *)
theory Particle_Match imports Snapshot_Output begin

text \<open>
  Matching the particles of the next snapshot: the hash of the identifiers (\<open>idhash_rebuild\<close>), the
  distance of two positions and \<open>psystem_match_epoch\<close> of psystem.c. The table of \<open>2^28\<close> heads is a
  function from hashes to indices, \<open>None\<close> before it is allocated; the loop over a chain is partial,
  and that it ends is the result about the chains that \<open>idhash_rebuild\<close> links.
  Nothing checks that the particle at the end of the search has the identifier that was looked up.
\<close>

unbundle bit_operations_syntax

section \<open>The hash of the identifiers\<close>

definition IDHASHMASK :: "64 word" where "IDHASHMASK = 2 ^ 28 - 1"

definition idhash :: "64 word \<Rightarrow> nat" where
  "idhash i = unat (i AND IDHASHMASK)"

text \<open>
  The table: \<open>head\<close> has the index of the first particle of a chain and \<open>next\<close> that of the one
  after a particle; \<open>-1\<close> ends a chain.
\<close>

definition idhash_step :: "64 word list \<Rightarrow> nat \<Rightarrow> (nat \<Rightarrow> int) \<times> int list \<Rightarrow> (nat \<Rightarrow> int) \<times> int list" where
  "idhash_step ids i = (\<lambda>(head, nxt). (head(idhash (ids ! i) := int i), nxt[i := head (idhash (ids ! i))]))"

definition idhash_rebuild :: "64 word list \<Rightarrow> nat \<Rightarrow> psystem \<Rightarrow> psystem res" where
  "idhash_rebuild ids n s =
     (if psys_idhash_head s = None \<or> length (psys_idhash_next s) < n \<or> length ids < n then Inl Out_of_bounds
      else let (head, nxt) = fold (idhash_step ids) [0..<n] (\<lambda>_. - 1, replicate n (- 1) @ drop n (psys_idhash_next s))
           in Inr (s\<lparr>psys_idhash_head := Some head, psys_idhash_next := nxt\<rparr>))"

section \<open>Finding the particle of a snapshot\<close>

text \<open>The distance of two positions, in a periodic box to the nearest image.\<close>

definition axis_dist :: "psystem \<Rightarrow> real \<Rightarrow> real \<Rightarrow> real" where
  "axis_dist s p q =
     (let dd = \<bar>fl (p - q)\<bar>
      in if psys_periodic s \<and> dd > db (1 / 2 * psys_boxsize s) then fl (db (psys_boxsize s - dd)) else dd)"

definition dist_to :: "psystem \<Rightarrow> vec3 \<Rightarrow> vec3 \<Rightarrow> real" where
  "dist_to s = (\<lambda>(p0, p1, p2) (q0, q1, q2).
     let sq = (\<lambda>p q. fl (axis_dist s p q * axis_dist s p q))
     in fl (db (sqrt (db (db (db (0 + sq p0 q0) + sq p1 q1) + sq p2 q2)))))"

text \<open>The loop over a chain, with the best particle so far and its distance.\<close>

partial_function (option) search_chain :: "psystem \<Rightarrow> vec3 \<Rightarrow> int \<Rightarrow> int \<Rightarrow> real \<Rightarrow> (int \<times> real) res option" where
  "search_chain s p j best mindist =
     (if j = - 1 then Some (Inr (best, mindist))
      else if j < 0 \<or> length (psys_idhash_next s) \<le> nat j \<or> length (psys_pos s) \<le> nat j then Some (Inl Out_of_bounds)
      else
        let dst = dist_to s p (psys_pos s ! nat j)
        in if dst < mindist then search_chain s p (psys_idhash_next s ! nat j) j dst
           else search_chain s p (psys_idhash_next s ! nat j) best mindist)"

definition find_match :: "psystem \<Rightarrow> 64 word \<Rightarrow> vec3 \<Rightarrow> (int \<times> real) res option" where
  "find_match s i p =
     (case psys_idhash_head s of
        None \<Rightarrow> Some (Inl Out_of_bounds)
      | Some head \<Rightarrow> search_chain s p (head (idhash i)) (- 1) 500)"

section \<open>Matching\<close>

text \<open>A particle of the snapshot.\<close>

record gas =
  gas_id :: "64 word"
  gas_pos :: vec3
  gas_mass :: real
  gas_sml :: real
  gas_rho :: real
  gas_ie :: real
  gas_xHI :: real

definition match_helium :: "config \<Rightarrow> nat \<Rightarrow> real \<Rightarrow> psystem \<Rightarrow> (psystem \<times> real) res" where
  "match_helium c k yeMET s =
     rbind (fdiv db (db (yeMET * c_hmf c)) (db (1 - c_hmf c))) (\<lambda>q.
       let xHeII = db (q * 4); xHeIII = min 1 xHeII; xHeII = min 1 xHeII
       in rbind (fdiv db (db (db (xHeII + xHeIII) * db (1 - c_hmf c))) (c_hmf c)) (\<lambda>used.
            Inr (psys_set_lambdaHe k (db (db (1 - xHeII) - xHeIII)) xHeII xHeIII s, fdim db yeMET (db (used * (1 / 4))))))"

text \<open>A new particle: the counters \<open>heat\<close> and \<open>hits\<close> that are reset are those of particle 3.\<close>

definition new_particle :: "config \<Rightarrow> nat \<Rightarrow> gas \<Rightarrow> psystem \<Rightarrow> psystem res" where
  "new_particle c k g s =
     (let xHII = db (1 - gas_xHI g); s1 = psys_set_lambdaH k (gas_xHI g) xHII (s\<lparr>psys_id := (psys_id s)[k := gas_id g]\<rparr>);
          yeMET = fdim db (psys_yeMET s ! k) xHII
      in rbind (if cfg_h_only c then Inr (s1, yeMET) else match_helium c k yeMET s1) (\<lambda>(s2, yeMET').
           if psys_npar_max s \<le> 3 then Inl Out_of_bounds
           else Inr (s2\<lparr>psys_yeMET := (psys_yeMET s2)[k := fl yeMET'],
             psys_yGdepHI := (psys_yGdepHI s2)[k := 0], psys_yGdepHeI := (psys_yGdepHeI s2)[k := 0],
             psys_yGdepHeII := (psys_yGdepHeII s2)[k := 0], psys_yGrecHII := (psys_yGrecHII s2)[k := 0],
             psys_yGrecHeII := (psys_yGrecHeII s2)[k := 0], psys_yGrecHeIII := (psys_yGrecHeIII s2)[k := 0],
             psys_heat := (psys_heat s2)[3 := 0], psys_hits := (psys_hits s2)[3 := 0],
             psys_lasthit := (psys_lasthit s2)[k := 0], psys_flag := (psys_flag s2)[k := PF_NORMAL]\<rparr>)))"

definition update_particle :: "nat \<Rightarrow> gas \<Rightarrow> psystem \<Rightarrow> psystem" where
  "update_particle k g s = s\<lparr>psys_pos := (psys_pos s)[k := gas_pos g], psys_mass := (psys_mass s)[k := gas_mass g],
     psys_sml := (psys_sml s)[k := gas_sml g], psys_rho := (psys_rho s)[k := gas_rho g], psys_ie := (psys_ie s)[k := gas_ie g],
     psys_flag := (psys_flag s)[k := psys_flag s ! k AND NOT PF_INVALID]\<rparr>"

text \<open>
  One particle of the snapshot. When there is no room for a new one the code warns and goes on to
  write past the end of the arrays.
\<close>

definition match_particle :: "config \<Rightarrow> gas \<Rightarrow> psystem \<Rightarrow> psystem res option" where
  "match_particle c g s =
     (case find_match s (gas_id g) (gas_pos g) of
        None \<Rightarrow> None
      | Some r \<Rightarrow> Some (rbind r (\<lambda>(best, mindist).
          if best = - 1 then
            if psys_npar s = psys_npar_max s then Inl Out_of_bounds
            else new_particle c (psys_npar s) g (update_particle (psys_npar s) g (s\<lparr>psys_npar := psys_npar s + 1\<rparr>))
          else Inr (update_particle (nat best) g s))))"

fun match_particles :: "config \<Rightarrow> gas list \<Rightarrow> psystem \<Rightarrow> psystem res option" where
  "match_particles c [] s = Some (Inr s)"
| "match_particles c (g # gs) s =
     (case match_particle c g s of
        None \<Rightarrow> None
      | Some (Inl err) \<Rightarrow> Some (Inl err)
      | Some (Inr s') \<Rightarrow> match_particles c gs s')"

text \<open>
  The particles of a file. Identifiers of four bytes are read into the array of eight-byte ones,
  which the loop after it overwrites with an array that was never filled.
\<close>

definition gas_of_file :: "'h reader_funcs \<Rightarrow> codec \<Rightarrow> files \<Rightarrow> string \<Rightarrow> gas list res" where
  "gas_of_file F cod fs fname =
     rbind (reader_open F cod fs fname) (\<lambda>r.
       let n = reader_npar r 0; column = (\<lambda>dec (dflt :: real) items. store_items 0 dec items (replicate n dflt))
       in rbind (reader_items F cod r ''pos'' 0 n) (\<lambda>(pos, r).
          rbind (reader_items F cod r ''mass'' 0 n) (\<lambda>(mass, r).
          rbind (reader_items F cod r ''sml'' 0 n) (\<lambda>(sml, r).
          rbind (reader_items F cod r ''rho'' 0 n) (\<lambda>(rho, r).
          rbind (reader_items F cod r ''ie'' 0 n) (\<lambda>(ie, r).
          rbind (reader_items F cod r ''ye'' 0 n) (\<lambda>(ye, r).
          rbind (reader_items F cod r ''xHI'' 0 n) (\<lambda>(xHI, r).
          rbind (reader_itemsize F ''id'') (\<lambda>isz.
          rbind (reader_items F cod r ''id'' 0 n) (\<lambda>(ids, r).
            let fld = column (float_of cod) 0;
                id = (if isz = 4 then replicate n 0 else store_items 0 (id_of isz) ids (replicate n 0))
            in Inr (map (\<lambda>i. \<lparr>gas_id = id ! i,
                   gas_pos = store_items 0 (vec_of cod) pos (replicate n (0, 0, 0)) ! i,
                   gas_mass = fld mass ! i, gas_sml = fld sml ! i, gas_rho = fld rho ! i, gas_ie = fld ie ! i,
                   gas_xHI = fld xHI ! i\<rparr>) [0..<n])))))))))))"

text \<open>A reader of the format of the epoch.\<close>

definition gas_reader :: "codec \<Rightarrow> files \<Rightarrow> string \<Rightarrow> string \<Rightarrow> gas list res" where
  "gas_reader cod fs format fname =
     (if format = ''massiveblack'' \<or> format = ''e5'' then gas_of_file massiveblack_funcs cod fs fname
      else if format = ''psphray'' then gas_of_file psphray_funcs cod fs fname
      else Inl (Trap ''format unknown''))"

fun match_files :: "config \<Rightarrow> (string \<Rightarrow> gas list res) \<Rightarrow> string list \<Rightarrow> psystem \<Rightarrow> psystem res option" where
  "match_files c rd [] s = Some (Inr s)"
| "match_files c rd (fname # fnames) s =
     (case rd fname of
        Inl err \<Rightarrow> Some (Inl err)
      | Inr gs \<Rightarrow> (case match_particles c gs s of
          None \<Rightarrow> None
        | Some (Inl err) \<Rightarrow> Some (Inl err)
        | Some (Inr s') \<Rightarrow> match_files c rd fnames s'))"

definition invalidate :: "psystem \<Rightarrow> psystem" where
  "invalidate s = s\<lparr>psys_flag := map (\<lambda>i. if i < psys_npar s then psys_flag s ! i OR PF_INVALID else psys_flag s ! i)
     [0..<length (psys_flag s)]\<rparr>"

definition psystem_match_epoch :: "codec \<Rightarrow> (string \<Rightarrow> nat \<Rightarrow> string) \<Rightarrow> config \<Rightarrow> files \<Rightarrow> constants \<Rightarrow> psystem
    \<Rightarrow> psystem res option" where
  "psystem_match_epoch cod sprintf c fs k s =
     (case idhash_rebuild (psys_id s) (psys_npar s) s of
        Inl err \<Rightarrow> Some (Inl err)
      | Inr s1 \<Rightarrow>
          let ep = psys_epoch s
          in match_files c (gas_reader cod fs (ep_format ep))
               (map (reader_make_filename sprintf (ep_snapshot ep)) [0..<unat (rc_Nfiles k)]) (invalidate s1))"

section \<open>The chains\<close>

fun linked :: "int list \<Rightarrow> int \<Rightarrow> nat list \<Rightarrow> bool" where
  "linked nxt j [] \<longleftrightarrow> j = - 1"
| "linked nxt j (x # xs) \<longleftrightarrow> j = int x \<and> x < length nxt \<and> linked nxt (nxt ! x) xs"

text \<open>The particles with a hash, the last one first.\<close>

definition candidates :: "64 word list \<Rightarrow> nat \<Rightarrow> nat \<Rightarrow> nat list" where
  "candidates ids n h = filter (\<lambda>j. idhash (ids ! j) = h) (rev [0..<n])"

lemma candidates_Suc: "candidates ids (Suc n) h = (if idhash (ids ! n) = h then n # candidates ids n h else candidates ids n h)"
  by (simp add: candidates_def)

lemma set_candidates: "set (candidates ids n h) = {j. j < n \<and> idhash (ids ! j) = h}"
  by (auto simp: candidates_def)

lemma linked_update: "k \<notin> set xs \<Longrightarrow> linked (nxt[k := v]) j xs = linked nxt j xs"
  by (induction xs arbitrary: j) auto

lemma idhash_fold:
  assumes "n \<le> length nxt"
  shows "(\<forall>h. linked (snd (fold (idhash_step ids) [0..<n] (\<lambda>_. - 1, nxt))) (fst (fold (idhash_step ids) [0..<n] (\<lambda>_. - 1, nxt)) h) (candidates ids n h))
    \<and> length (snd (fold (idhash_step ids) [0..<n] (\<lambda>_. - 1, nxt))) = length nxt"
  using assms
proof (induction n)
  case 0
  then show ?case by (simp add: candidates_def)
next
  case (Suc n)
  obtain head nx where f: "fold (idhash_step ids) [0..<n] (\<lambda>_. - 1, nxt) = (head, nx)" by (cases "fold (idhash_step ids) [0..<n] (\<lambda>_. - 1, nxt)")
  have ih: "linked nx (head h) (candidates ids n h)" "length nx = length nxt" for h using Suc by (simp_all add: f)
  have step: "fold (idhash_step ids) [0..<Suc n] (\<lambda>_. - 1, nxt) = (head(idhash (ids ! n) := int n), nx[n := head (idhash (ids ! n))])"
    by (simp add: f idhash_step_def)
  have "n \<notin> set (candidates ids n h)" for h by (simp add: set_candidates)
  then have "linked (nx[n := head (idhash (ids ! n))]) ((head(idhash (ids ! n) := int n)) h) (candidates ids (Suc n) h)" for h
    using ih(1) ih(2) Suc.prems by (simp add: candidates_Suc linked_update)
  then show ?case unfolding step using ih(2) by simp
qed

lemma idhash_rebuild_linked:
  assumes "idhash_rebuild ids n s = Inr s1"
  shows "\<exists>head. psys_idhash_head s1 = Some head \<and> (\<forall>h. linked (psys_idhash_next s1) (head h) (candidates ids n h))
    \<and> s1 = s\<lparr>psys_idhash_head := Some head, psys_idhash_next := psys_idhash_next s1\<rparr>
    \<and> length (psys_idhash_next s1) = length (psys_idhash_next s)"
proof -
  let ?nxt = "replicate n (- 1) @ drop n (psys_idhash_next s)"
  obtain head nx where f: "fold (idhash_step ids) [0..<n] (\<lambda>_. - 1, ?nxt) = (head, nx)" by (cases "fold (idhash_step ids) [0..<n] (\<lambda>_. - 1, ?nxt)")
  have s1: "s1 = s\<lparr>psys_idhash_head := Some head, psys_idhash_next := nx\<rparr>" and len: "n \<le> length (psys_idhash_next s)"
    using assms by (auto simp: idhash_rebuild_def f split: if_split_asm)
  show ?thesis
    using idhash_fold [of n ?nxt ids] len by (intro exI [of _ head]) (simp add: s1 f)
qed

section \<open>The nearest candidate\<close>

fun nearest :: "(nat \<Rightarrow> real) \<Rightarrow> nat list \<Rightarrow> int \<Rightarrow> real \<Rightarrow> int \<times> real" where
  "nearest f [] best m = (best, m)"
| "nearest f (x # xs) best m = (if f x < m then nearest f xs (int x) (f x) else nearest f xs best m)"

lemma search_nearest:
  assumes "linked (psys_idhash_next s) j xs" and "\<forall>x \<in> set xs. x < length (psys_pos s)"
  shows "search_chain s p j best m = Some (Inr (nearest (\<lambda>x. dist_to s p (psys_pos s ! x)) xs best m))"
  using assms
proof (induction xs arbitrary: j best m)
  case (Cons x xs)
  then show ?case by (subst search_chain.simps) (simp add: Let_def)
qed (simp add: search_chain.simps)

lemma nearest_result:
  assumes "sorted_wrt (>) xs" and "nearest f xs best m = (b, d)"
  shows "b = best \<and> d = m \<and> (\<forall>x \<in> set xs. m \<le> f x)
    \<or> (\<exists>k \<in> set xs. b = int k \<and> d = f k \<and> f k < m \<and> (\<forall>x \<in> set xs. f k \<le> f x \<and> (f x = f k \<longrightarrow> x \<le> k)))"
  using assms
proof (induction xs arbitrary: best m)
  case (Cons x xs)
  show ?case
  proof (cases "f x < m")
    case True
    from Cons.IH [of "int x" "f x"] consider "b = int x" "d = f x" "\<forall>y \<in> set xs. f x \<le> f y"
      | k where "k \<in> set xs" "b = int k" "d = f k" "f k < f x" "\<forall>y \<in> set xs. f k \<le> f y \<and> (f y = f k \<longrightarrow> y \<le> k)"
      using Cons.prems True by auto
    then show ?thesis
    proof cases
      case 1
      then show ?thesis using True Cons.prems(1) by (intro disjI2 bexI [of _ x]) (auto dest: order_less_imp_le)
    next
      case 2
      then show ?thesis using True by (intro disjI2 bexI [of _ k]) auto
    qed
  next
    case False
    then show ?thesis using Cons.IH [of best m] Cons.prems by auto
  qed
qed simp

lemma candidates_sorted: "sorted_wrt (>) (candidates ids n h)"
  unfolding candidates_def by (rule sorted_wrt_filter) (simp add: sorted_wrt_rev)

lemma find_match_chain:
  assumes "idhash_rebuild ids n s = Inr s1" and "psys_idhash_head t = psys_idhash_head s1" "psys_idhash_next t = psys_idhash_next s1"
    and "n \<le> length (psys_pos t)"
  shows "\<exists>best d. find_match t i p = Some (Inr (best, d))
    \<and> nearest (\<lambda>x. dist_to t p (psys_pos t ! x)) (candidates ids n (idhash i)) (- 1) 500 = (best, d)
    \<and> (best = - 1 \<or> (\<exists>k < n. best = int k \<and> idhash (ids ! k) = idhash i))"
proof -
  obtain head where h: "psys_idhash_head s1 = Some head" "\<forall>h. linked (psys_idhash_next s1) (head h) (candidates ids n h)"
    using idhash_rebuild_linked [OF assms(1)] by blast
  let ?f = "\<lambda>x. dist_to t p (psys_pos t ! x)" and ?xs = "candidates ids n (idhash i)"
  obtain b d where bd: "nearest ?f ?xs (- 1) 500 = (b, d)" by (cases "nearest ?f ?xs (- 1) 500")
  have "find_match t i p = Some (Inr (nearest ?f ?xs (- 1) 500))"
    unfolding find_match_def assms(2) h(1) option.case
    by (rule search_nearest) (use h(2) assms(3,4) in \<open>auto simp: set_candidates\<close>)
  then show ?thesis using bd nearest_result [OF candidates_sorted bd] by (auto simp: set_candidates)
qed

text \<open>
  C38. Looking a particle of the snapshot up in the hash ends, whatever the particles are, and
  finds the nearest particle whose identifier has the same hash (not the same identifier: the upper
  36 bits do not count), as long as it is closer than 500; among several at the same distance it is
  the last one. When there is none closer the answer is that none was found. The positions may have
  changed since the hash was built.
\<close>

theorem find_match_nearest:
  assumes "idhash_rebuild ids n s = Inr s1" and "psys_idhash_head t = psys_idhash_head s1" "psys_idhash_next t = psys_idhash_next s1"
    and "n \<le> length (psys_pos t)"
  shows "\<exists>best d. find_match t i p = Some (Inr (best, d)) \<and>
    (best = - 1 \<and> (\<forall>j < n. idhash (ids ! j) = idhash i \<longrightarrow> 500 \<le> dist_to t p (psys_pos t ! j))
     \<or> (\<exists>k < n. best = int k \<and> idhash (ids ! k) = idhash i \<and> d = dist_to t p (psys_pos t ! k) \<and> d < 500
          \<and> (\<forall>j < n. idhash (ids ! j) = idhash i \<longrightarrow> d \<le> dist_to t p (psys_pos t ! j) \<and> (dist_to t p (psys_pos t ! j) = d \<longrightarrow> j \<le> k))))"
proof -
  let ?f = "\<lambda>x. dist_to t p (psys_pos t ! x)" and ?xs = "candidates ids n (idhash i)"
  obtain b d where bd: "find_match t i p = Some (Inr (b, d))" "nearest ?f ?xs (- 1) 500 = (b, d)"
    using find_match_chain [OF assms] by blast
  have "b = - 1 \<and> (\<forall>j < n. idhash (ids ! j) = idhash i \<longrightarrow> 500 \<le> ?f j)
     \<or> (\<exists>k < n. b = int k \<and> idhash (ids ! k) = idhash i \<and> d = ?f k \<and> d < 500
          \<and> (\<forall>j < n. idhash (ids ! j) = idhash i \<longrightarrow> d \<le> ?f j \<and> (?f j = d \<longrightarrow> j \<le> k)))"
    using nearest_result [OF candidates_sorted bd(2)] by (auto simp: set_candidates)
  then show ?thesis using bd(1) by blast
qed

definition demo_match :: psystem where
  "demo_match = psys_of [(particle_at (0, 0, 0) 0)\<lparr>par_id := 5\<rparr>, (particle_at (1, 0, 0) 0)\<lparr>par_id := 2 ^ 28 + 5\<rparr>] 10"

lemma find_match_nearest_witness:
  "\<exists>s1 d. idhash_rebuild (psys_id demo_match) 2 demo_match = Inr s1 \<and> find_match s1 5 (1, 0, 0) = Some (Inr (1, d))"
proof -
  obtain s1 where s1: "idhash_rebuild (psys_id demo_match) 2 demo_match = Inr s1"
    by (simp add: idhash_rebuild_def demo_match_def psys_of_def split_beta)
  then have same: "psys_pos s1 = psys_pos demo_match" "psys_periodic s1 = psys_periodic demo_match"
    by (auto simp: idhash_rebuild_def split_beta Let_def split: if_split_asm)
  have pos: "psys_pos demo_match = [(0, 0, 0), (1, 0, 0)]" "\<not> psys_periodic demo_match" and ids: "psys_id demo_match = [5, 2 ^ 28 + 5]"
    by (simp_all add: demo_match_def psys_of_def particle_at_def)
  have hash: "idhash (psys_id demo_match ! 1) = idhash 5" unfolding ids by (simp add: idhash_def IDHASHMASK_def)
  have d: "dist_to s1 (1, 0, 0) (psys_pos s1 ! 0) = 1" "dist_to s1 (1, 0, 0) (psys_pos s1 ! 1) = 0"
    by (simp_all add: same pos dist_to_def axis_dist_def Let_def)
  have "2 \<le> length (psys_pos s1)" by (simp add: same pos)
  from find_match_nearest [OF s1 refl refl this, of 5 "(1, 0, 0)"]
  obtain best e where m: "find_match s1 5 (1, 0, 0) = Some (Inr (best, e))"
    and c: "best = - 1 \<and> (\<forall>j < 2. idhash (psys_id demo_match ! j) = idhash 5 \<longrightarrow> 500 \<le> dist_to s1 (1, 0, 0) (psys_pos s1 ! j))
     \<or> (\<exists>k < 2. best = int k \<and> idhash (psys_id demo_match ! k) = idhash 5 \<and> e = dist_to s1 (1, 0, 0) (psys_pos s1 ! k) \<and> e < 500
          \<and> (\<forall>j < 2. idhash (psys_id demo_match ! j) = idhash 5 \<longrightarrow> e \<le> dist_to s1 (1, 0, 0) (psys_pos s1 ! j)
               \<and> (dist_to s1 (1, 0, 0) (psys_pos s1 ! j) = e \<longrightarrow> j \<le> k)))"
    by (elim exE conjE) (rule that)
  from c show ?thesis
  proof (elim disjE exE conjE)
    assume "\<forall>j < 2. idhash (psys_id demo_match ! j) = idhash 5 \<longrightarrow> 500 \<le> dist_to s1 (1, 0, 0) (psys_pos s1 ! j)"
    then show ?thesis using hash d(2) by (auto dest: spec [of _ 1])
  next
    fix k
    assume k: "k < 2" "best = int k" "e = dist_to s1 (1, 0, 0) (psys_pos s1 ! k)"
      and all: "\<forall>j < 2. idhash (psys_id demo_match ! j) = idhash 5 \<longrightarrow> e \<le> dist_to s1 (1, 0, 0) (psys_pos s1 ! j)
               \<and> (dist_to s1 (1, 0, 0) (psys_pos s1 ! j) = e \<longrightarrow> j \<le> k)"
    have "e \<le> 0" using spec [OF all, of 1] hash d(2) by simp
    then have "k = 1" using k(1,3) d(1) by (auto simp: less_Suc_eq numeral_2_eq_2)
    then show ?thesis using s1 m k(2) by auto
  qed
qed

section \<open>What matching keeps\<close>

definition carries :: "psystem \<Rightarrow> nat \<Rightarrow> gas \<Rightarrow> bool" where
  "carries s i g \<longleftrightarrow> psys_pos s ! i = gas_pos g \<and> psys_mass s ! i = gas_mass g \<and> psys_sml s ! i = gas_sml g
     \<and> psys_rho s ! i = gas_rho g \<and> psys_ie s ! i = gas_ie g"

lemma update_particle_fields [simp]:
  "psys_npar (update_particle k g s) = psys_npar s" "psys_npar_max (update_particle k g s) = psys_npar_max s"
  "psys_id (update_particle k g s) = psys_id s" "psys_idhash_head (update_particle k g s) = psys_idhash_head s"
  "psys_idhash_next (update_particle k g s) = psys_idhash_next s" "psys_epoch (update_particle k g s) = psys_epoch s"
  "psys_tick (update_particle k g s) = psys_tick s"
  "arrays_length (update_particle k g s) n = arrays_length s n"
  by (simp_all add: update_particle_def arrays_length_def)

lemma update_particle_carries:
  assumes "arrays_length s n" and "k < n" "i < n"
  shows "carries (update_particle k g s) i h = (if i = k then carries (update_particle k g s) k h else carries s i h)"
    "carries (update_particle k g s) k g"
    "invalid (update_particle k g s) i = (i \<noteq> k \<and> invalid s i)"
proof -
  have "(psys_flag s ! k AND NOT PF_INVALID) AND PF_INVALID = 0" by (simp add: and.assoc)
  then show "carries (update_particle k g s) i h = (if i = k then carries (update_particle k g s) k h else carries s i h)"
    "carries (update_particle k g s) k g" "invalid (update_particle k g s) i = (i \<noteq> k \<and> invalid s i)"
    using assms by (auto simp: carries_def update_particle_def arrays_length_def invalid_def nth_list_update)
qed

lemma new_particle_fields:
  assumes "new_particle c k g s = Inr s'"
  shows "psys_npar s' = psys_npar s" "psys_npar_max s' = psys_npar_max s" "psys_id s' = (psys_id s)[k := gas_id g]"
    "psys_flag s' = (psys_flag s)[k := PF_NORMAL]" "psys_idhash_head s' = psys_idhash_head s"
    "psys_idhash_next s' = psys_idhash_next s" "carries s' i h = carries s i h" "arrays_length s' n = arrays_length s n"
    "psys_epoch s' = psys_epoch s" "psys_tick s' = psys_tick s"
proof -
  obtain s2 y where s2: "(if cfg_h_only c then Inr (psys_set_lambdaH k (gas_xHI g) (db (1 - gas_xHI g)) (s\<lparr>psys_id := (psys_id s)[k := gas_id g]\<rparr>), fdim db (psys_yeMET s ! k) (db (1 - gas_xHI g)))
      else match_helium c k (fdim db (psys_yeMET s ! k) (db (1 - gas_xHI g))) (psys_set_lambdaH k (gas_xHI g) (db (1 - gas_xHI g)) (s\<lparr>psys_id := (psys_id s)[k := gas_id g]\<rparr>))) = Inr (s2, y)"
    and s': "s' = s2\<lparr>psys_yeMET := (psys_yeMET s2)[k := fl y],
             psys_yGdepHI := (psys_yGdepHI s2)[k := 0], psys_yGdepHeI := (psys_yGdepHeI s2)[k := 0],
             psys_yGdepHeII := (psys_yGdepHeII s2)[k := 0], psys_yGrecHII := (psys_yGrecHII s2)[k := 0],
             psys_yGrecHeII := (psys_yGrecHeII s2)[k := 0], psys_yGrecHeIII := (psys_yGrecHeIII s2)[k := 0],
             psys_heat := (psys_heat s2)[3 := 0], psys_hits := (psys_hits s2)[3 := 0],
             psys_lasthit := (psys_lasthit s2)[k := 0], psys_flag := (psys_flag s2)[k := PF_NORMAL]\<rparr>"
    using assms by (auto simp: new_particle_def Let_def rbind_Inr_iff split: if_split_asm)
  have "abundances_only (s\<lparr>psys_id := (psys_id s)[k := gas_id g]\<rparr>) s2"
  proof (cases "cfg_h_only c")
    case True
    then have "s2 = psys_set_lambdaH k (gas_xHI g) (db (1 - gas_xHI g)) (s\<lparr>psys_id := (psys_id s)[k := gas_id g]\<rparr>)" using s2 by simp
    then show ?thesis
      using abundances_onlyI [of _ "s\<lparr>psys_id := (psys_id s)[k := gas_id g]\<rparr>" "psys_lambdaHeI s" "psys_lambdaHeII s" "psys_yeMET s"]
      by (simp add: psys_set_lambdaH_def)
  next
    case False
    then show ?thesis
      using s2 abundances_onlyI [of _ "s\<lparr>psys_id := (psys_id s)[k := gas_id g]\<rparr>" _ _ "psys_yeMET s"]
      by (auto simp: match_helium_def Let_def rbind_Inr_iff psys_set_lambdaH_def psys_set_lambdaHe_def)
  qed
  then obtain a b d e where t: "s2 = s\<lparr>psys_id := (psys_id s)[k := gas_id g], psys_lambdaH := a, psys_lambdaHeI := b, psys_lambdaHeII := d, psys_yeMET := e\<rparr>"
      "length a = length (psys_lambdaH s)" "length b = length (psys_lambdaHeI s)" "length d = length (psys_lambdaHeII s)"
      "length e = length (psys_yeMET s)" unfolding abundances_only_def by auto
  show "psys_npar s' = psys_npar s" "psys_npar_max s' = psys_npar_max s" "psys_id s' = (psys_id s)[k := gas_id g]"
    "psys_flag s' = (psys_flag s)[k := PF_NORMAL]" "psys_idhash_head s' = psys_idhash_head s"
    "psys_idhash_next s' = psys_idhash_next s" "carries s' i h = carries s i h" "psys_epoch s' = psys_epoch s" "psys_tick s' = psys_tick s"
    unfolding s' t(1) by (simp_all add: carries_def)
  show "arrays_length s' n = arrays_length s n"
    unfolding s' t(1) by (simp add: arrays_length_def t(2-5))
qed

text \<open>The state of matching after the particles \<open>gs\<close>, from the state \<open>s0\<close> with the hash.\<close>

definition from_snapshot :: "psystem \<Rightarrow> gas list \<Rightarrow> psystem \<Rightarrow> nat \<Rightarrow> bool" where
  "from_snapshot s0 gs s i \<longleftrightarrow> (\<exists>g \<in> set gs. carries s i g
     \<and> (if i < psys_npar s0 then idhash (psys_id s ! i) = idhash (gas_id g) else psys_id s ! i = gas_id g))"

definition matched :: "psystem \<Rightarrow> gas list \<Rightarrow> psystem \<Rightarrow> bool" where
  "matched s0 gs s \<longleftrightarrow> psys_ok s \<and> psys_npar_max s = psys_npar_max s0 \<and> psys_npar s0 \<le> psys_npar s
     \<and> psys_epoch s = psys_epoch s0 \<and> psys_tick s = psys_tick s0 \<and> psys_idhash_head s = psys_idhash_head s0 \<and> psys_idhash_next s = psys_idhash_next s0
     \<and> (\<forall>i < psys_npar s0. psys_id s ! i = psys_id s0 ! i)
     \<and> (\<forall>i < psys_npar s. \<not> invalid s i \<longrightarrow> from_snapshot s0 gs s i) \<and> (\<forall>i < psys_npar s. psys_npar s0 \<le> i \<longrightarrow> \<not> invalid s i)"

lemma match_known:
  assumes "matched s0 gs s" and "k < psys_npar s0" "idhash (psys_id s0 ! k) = idhash (gas_id g)"
  shows "matched s0 (gs @ [g]) (update_particle k g s)"
proof -
  have ok: "arrays_length s (psys_npar_max s)" "psys_npar s \<le> psys_npar_max s" "psys_npar s0 \<le> psys_npar s"
    using assms(1) by (auto simp: matched_def psys_ok_def)
  have k: "k < psys_npar_max s" using ok assms(2) by simp
  note upd = update_particle_carries [OF ok(1) k]
  have "from_snapshot s0 (gs @ [g]) (update_particle k g s) i"
    if i: "i < psys_npar s" "\<not> invalid (update_particle k g s) i" for i
  proof (cases "i = k")
    case True
    have "psys_id s ! k = psys_id s0 ! k" using assms(1,2) by (simp add: matched_def)
    then show ?thesis using upd(2) [OF k, of g] assms(2,3) True by (auto simp: from_snapshot_def)
  next
    case False
    have im: "i < psys_npar_max s" using i(1) ok(2) by simp
    then have "from_snapshot s0 gs s i" using upd(3) [OF im, of g] i False assms(1) by (auto simp: matched_def)
    then show ?thesis using upd(1) [OF im, of g] False by (auto simp: from_snapshot_def)
  qed
  moreover have "\<not> invalid (update_particle k g s) i" if "i < psys_npar s" "psys_npar s0 \<le> i" for i
    using upd(3) [of i g] that ok(2) assms(1) by (auto simp: matched_def)
  moreover have "psys_ok (update_particle k g s)" using ok by (simp add: psys_ok_def)
  ultimately show ?thesis using assms(1) by (simp add: matched_def)
qed

lemma match_new:
  assumes "matched s0 gs s" and "psys_npar s < psys_npar_max s"
    and "new_particle c (psys_npar s) g (update_particle (psys_npar s) g (s\<lparr>psys_npar := psys_npar s + 1\<rparr>)) = Inr s'"
  shows "matched s0 (gs @ [g]) s'"
proof -
  let ?k = "psys_npar s" and ?u = "update_particle (psys_npar s) g (s\<lparr>psys_npar := psys_npar s + 1\<rparr>)"
  have ok: "arrays_length s (psys_npar_max s)" "psys_npar s0 \<le> ?k" using assms(1) by (auto simp: matched_def psys_ok_def)
  have arr: "arrays_length (s\<lparr>psys_npar := psys_npar s + 1\<rparr>) (psys_npar_max s)" using ok(1) by (simp add: arrays_length_def)
  note upd = update_particle_carries [OF arr assms(2)] and new = new_particle_fields [OF assms(3)]
  have len: "length (psys_flag ?u) = psys_npar_max s" "length (psys_id s) = psys_npar_max s"
    using arr ok(1) update_particle_fields(8) [of ?k g "s\<lparr>psys_npar := psys_npar s + 1\<rparr>" "psys_npar_max s"] by (simp_all add: arrays_length_def)
  have inv: "invalid s' i = (i \<noteq> ?k \<and> invalid s i)" if "i < psys_npar_max s" for i
    using upd(3) [OF that, of g] len(1) assms(2) that by (simp add: invalid_def new(4) nth_list_update PF_NORMAL_def)
  have from_here: "from_snapshot s0 (gs @ [g]) s' i" if i: "i < ?k + 1" "\<not> invalid s' i" for i
  proof (cases "i = ?k")
    case True
    have "carries s' ?k g" using upd(2) [OF assms(2)] new(7) by simp
    then show ?thesis using ok(2) True assms(2) len(2) by (auto simp: from_snapshot_def new(3))
  next
    case False
    have im: "i < psys_npar_max s" using i(1) assms(2) by simp
    have "from_snapshot s0 gs s i" using inv [OF im] i False assms(1) by (auto simp: matched_def)
    moreover have "carries s' i h = carries s i h" for h using upd(1) [OF im, of g h] new(7) [of i h] False by (simp add: carries_def)
    ultimately show ?thesis using False by (auto simp: from_snapshot_def new(3))
  qed
  have "psys_ok s'" using arr assms(2) new(1,2,8) by (simp add: psys_ok_def)
  moreover have "\<not> invalid s' i" if "i < ?k + 1" "psys_npar s0 \<le> i" for i
    using inv [of i] that assms(1,2) by (auto simp: matched_def less_Suc_eq)
  moreover have "psys_id s' ! i = psys_id s0 ! i" if "i < psys_npar s0" for i
    using assms(1) that ok(2) by (simp add: matched_def new(3))
  ultimately show ?thesis using assms(1) from_here by (simp add: matched_def new)
qed

lemma match_particle_step:
  assumes "idhash_rebuild (psys_id b) (psys_npar b) b = Inr s1" and "matched s0 gs s"
    and "psys_idhash_head s0 = psys_idhash_head s1" "psys_idhash_next s0 = psys_idhash_next s1"
    and "psys_npar s0 = psys_npar b" "psys_id s0 = psys_id b"
  shows "\<exists>r. match_particle c g s = Some r \<and> (\<forall>s'. r = Inr s' \<longrightarrow> matched s0 (gs @ [g]) s')"
proof -
  have "psys_npar s0 \<le> psys_npar s" "psys_ok s" using assms(2) by (simp_all add: matched_def)
  then have len: "psys_npar b \<le> length (psys_pos s)" using psys_ok_room [of s] assms(5) unfolding arrays_room_def by linarith
  have tab: "psys_idhash_head s = psys_idhash_head s1" "psys_idhash_next s = psys_idhash_next s1"
    using assms(2-4) by (simp_all add: matched_def)
  from find_match_chain [OF assms(1) tab len, of "gas_id g" "gas_pos g"]
  obtain best d where f: "find_match s (gas_id g) (gas_pos g) = Some (Inr (best, d))"
      "best = - 1 \<or> (\<exists>k < psys_npar b. best = int k \<and> idhash (psys_id b ! k) = idhash (gas_id g))"
    by (elim exE conjE) (rule that)
  from f(2) show ?thesis
  proof
    assume best: "best = - 1"
    show ?thesis
    proof (cases "psys_npar s = psys_npar_max s")
      case True
      then have "match_particle c g s = Some (Inl Out_of_bounds)" by (simp add: match_particle_def f(1) best)
      then show ?thesis by simp
    next
      case False
      then have room: "psys_npar s < psys_npar_max s" using assms(2) by (auto simp: matched_def psys_ok_def)
      have "match_particle c g s
          = Some (new_particle c (psys_npar s) g (update_particle (psys_npar s) g (s\<lparr>psys_npar := psys_npar s + 1\<rparr>)))"
        using False by (simp add: match_particle_def f(1) best)
      then show ?thesis
        using match_new [OF assms(2) room] by simp
    qed
  next
    assume "\<exists>k < psys_npar b. best = int k \<and> idhash (psys_id b ! k) = idhash (gas_id g)"
    then obtain k where k: "k < psys_npar s0" "best = int k" "idhash (psys_id s0 ! k) = idhash (gas_id g)" using assms(5,6) by auto
    have "match_particle c g s = Some (Inr (update_particle k g s))" by (simp add: match_particle_def f(1) k(2))
    then show ?thesis using match_known [OF assms(2) k(1,3)] by simp
  qed
qed

lemma match_particles_result:
  assumes "\<And>gs s g. matched s0 gs s \<Longrightarrow> \<exists>r. match_particle c g s = Some r \<and> (\<forall>s'. r = Inr s' \<longrightarrow> matched s0 (gs @ [g]) s')"
  shows "matched s0 gs s \<Longrightarrow> \<exists>r. match_particles c hs s = Some r \<and> (\<forall>s'. r = Inr s' \<longrightarrow> matched s0 (gs @ hs) s')"
proof (induction hs arbitrary: gs s)
  case (Cons h hs)
  obtain r where r: "match_particle c h s = Some r" "\<forall>s'. r = Inr s' \<longrightarrow> matched s0 (gs @ [h]) s'" using assms [OF Cons.prems] by blast
  show ?case
  proof (cases r)
    case (Inr s')
    then show ?thesis using Cons.IH [of "gs @ [h]" s'] r by simp
  qed (simp add: r(1))
qed simp

lemma matched_more: "matched s0 gs s \<Longrightarrow> set gs \<subseteq> set hs \<Longrightarrow> matched s0 hs s"
  unfolding matched_def from_snapshot_def by (meson subsetD)

lemma match_files_result:
  assumes "\<And>gs s g. matched s0 gs s \<Longrightarrow> \<exists>r. match_particle c g s = Some r \<and> (\<forall>s'. r = Inr s' \<longrightarrow> matched s0 (gs @ [g]) s')"
  shows "matched s0 gs s \<Longrightarrow> \<exists>r. match_files c rd fnames s = Some r \<and> (\<forall>s'. r = Inr s' \<longrightarrow>
    (\<exists>hss. map rd fnames = map Inr hss \<and> matched s0 (gs @ concat hss) s'))"
proof (induction fnames arbitrary: gs s)
  case (Cons fname fnames)
  show ?case
  proof (cases "rd fname")
    case (Inr hs)
    obtain r where r: "match_particles c hs s = Some r" "\<forall>s'. r = Inr s' \<longrightarrow> matched s0 (gs @ hs) s'"
      using match_particles_result [OF assms Cons.prems] by blast
    show ?thesis
    proof (cases r)
      case s': (Inr s')
      then obtain q where q: "match_files c rd fnames s' = Some q" "\<forall>t. q = Inr t \<longrightarrow> (\<exists>hss. map rd fnames = map Inr hss \<and> matched s0 (gs @ hs @ concat hss) t)"
        using Cons.IH [of "gs @ hs" s'] r(2) by auto
      have "\<exists>hss. map rd (fname # fnames) = map Inr hss \<and> matched s0 (gs @ concat hss) t" if "q = Inr t" for t
      proof -
        obtain hss where "map rd fnames = map Inr hss" "matched s0 (gs @ hs @ concat hss) t" using q(2) \<open>q = Inr t\<close> by blast
        then show ?thesis using Inr by (intro exI [of _ "hs # hss"]) simp
      qed
      then show ?thesis using q(1) r(1) s' Inr by simp
    qed (simp add: Inr r(1))
  qed simp
qed simp

lemma invalidate_fields [simp]: "psys_npar (invalidate s) = psys_npar s" "psys_npar_max (invalidate s) = psys_npar_max s"
  by (simp_all add: invalidate_def)

lemma matched_start:
  assumes "psys_ok s" and "idhash_rebuild (psys_id s) (psys_npar s) s = Inr s1"
  shows "matched (invalidate s1) [] (invalidate s1)" "psys_npar (invalidate s1) = psys_npar s" "psys_id (invalidate s1) = psys_id s"
    "psys_npar_max (invalidate s1) = psys_npar_max s"
proof -
  obtain head nx where s1: "s1 = s\<lparr>psys_idhash_head := Some head, psys_idhash_next := nx\<rparr>"
    using assms(2) by (auto simp: idhash_rebuild_def split_beta Let_def split: if_split_asm)
  have f: "psys_npar s1 = psys_npar s" "psys_id s1 = psys_id s" "psys_npar_max s1 = psys_npar_max s" by (simp_all add: s1)
  have arr: "arrays_length s1 (psys_npar_max s)" "arrays_length (invalidate s1) (psys_npar_max s)"
    using assms(1) by (simp_all add: s1 psys_ok_def arrays_length_def invalidate_def)
  have le: "psys_npar s \<le> psys_npar_max s" using assms(1) by (simp add: psys_ok_def)
  show "psys_npar (invalidate s1) = psys_npar s" "psys_id (invalidate s1) = psys_id s" "psys_npar_max (invalidate s1) = psys_npar_max s"
    by (simp_all add: invalidate_def f)
  have "(w OR PF_INVALID) AND PF_INVALID = PF_INVALID" for w by (rule bit_word_eqI) (auto simp: bit_simps)
  moreover have "length (psys_flag s1) = psys_npar_max s" using arr(1) by (simp add: arrays_length_def)
  ultimately have "invalid (invalidate s1) i" if "i < psys_npar s" for i
    using that le by (simp add: invalid_def invalidate_def f) (simp add: PF_INVALID_def)
  moreover have "psys_ok (invalidate s1)" using arr(2) le by (simp add: psys_ok_def f invalidate_fields)
  ultimately show "matched (invalidate s1) [] (invalidate s1)" using f by (simp add: matched_def invalidate_fields)
qed

text \<open>How matching ends: with the state after all the particles of the files.\<close>

lemma match_epoch_matched:
  assumes "psys_ok s" and "idhash_rebuild (psys_id s) (psys_npar s) s = Inr s1"
  shows "\<exists>r. psystem_match_epoch cod sprintf c fs k s = Some r \<and> (\<forall>s'. r = Inr s' \<longrightarrow>
    (\<exists>hss. map (gas_reader cod fs (ep_format (psys_epoch s))) (map (reader_make_filename sprintf (ep_snapshot (psys_epoch s))) [0..<unat (rc_Nfiles k)]) = map Inr hss
      \<and> matched (invalidate s1) (concat hss) s'))"
proof -
  let ?s0 = "invalidate s1" and ?rd = "gas_reader cod fs (ep_format (psys_epoch s))"
  let ?names = "map (reader_make_filename sprintf (ep_snapshot (psys_epoch s))) [0..<unat (rc_Nfiles k)]"
  note start = matched_start [OF assms]
  have same: "psys_idhash_head ?s0 = psys_idhash_head s1" "psys_idhash_next ?s0 = psys_idhash_next s1" by (simp_all add: invalidate_def)
  have step: "\<exists>r. match_particle c g t = Some r \<and> (\<forall>s'. r = Inr s' \<longrightarrow> matched ?s0 (gs @ [g]) s')" if "matched ?s0 gs t" for gs t g
    by (rule match_particle_step [OF assms(2) that same start(2,3)])
  obtain r where r: "match_files c ?rd ?names ?s0 = Some r"
      "\<forall>s'. r = Inr s' \<longrightarrow> (\<exists>hss. map ?rd ?names = map Inr hss \<and> matched ?s0 ([] @ concat hss) s')"
    using match_files_result [OF step start(1)] by blast
  have "psystem_match_epoch cod sprintf c fs k s = Some r" using r(1) by (simp add: psystem_match_epoch_def assms(2) Let_def)
  then show ?thesis using r(2) by auto
qed

lemma match_epoch_started:
  assumes "psys_ok s" and "psystem_match_epoch cod sprintf c fs k s = Some (Inr s')"
  shows "psys_ok s' \<and> psys_epoch s' = psys_epoch s \<and> psys_tick s' = psys_tick s"
proof (cases "idhash_rebuild (psys_id s) (psys_npar s) s")
  case (Inr s1)
  obtain hss where "matched (invalidate s1) (concat hss) s'"
    using match_epoch_matched [OF assms(1) Inr, of cod sprintf c fs k] assms(2) by auto
  moreover have "psys_epoch s1 = psys_epoch s" "psys_tick s1 = psys_tick s"
    using Inr by (auto simp: idhash_rebuild_def split_beta Let_def split: if_split_asm)
  ultimately show ?thesis by (simp add: matched_def invalidate_def)
qed (use assms(2) in \<open>simp add: psystem_match_epoch_def\<close>)

text \<open>
  C39. Matching a snapshot always ends. When it ends without an error the system is well formed in
  the memory it had, no particle is gone and no identifier of one has changed; every particle that is
  valid carries the position, mass, smoothing length, density and energy of one particle of the
  files, with the identifier of that particle when it is new and at least an identifier of the same
  hash when it was there before; and every new particle is valid.
\<close>

theorem match_epoch_keeps:
  assumes "psys_ok s"
  shows "\<exists>r. psystem_match_epoch cod sprintf c fs k s = Some r \<and> (\<forall>s'. r = Inr s' \<longrightarrow>
    psys_ok s' \<and> psys_npar_max s' = psys_npar_max s \<and> psys_npar s \<le> psys_npar s' \<and> (\<forall>i < psys_npar s. psys_id s' ! i = psys_id s ! i)
    \<and> (\<forall>i < psys_npar s'. psys_npar s \<le> i \<longrightarrow> \<not> invalid s' i)
    \<and> (\<forall>i < psys_npar s'. \<not> invalid s' i \<longrightarrow> (\<exists>fid < unat (rc_Nfiles k). \<exists>gs.
         gas_reader cod fs (ep_format (psys_epoch s)) (reader_make_filename sprintf (ep_snapshot (psys_epoch s)) fid) = Inr gs
         \<and> (\<exists>g \<in> set gs. carries s' i g \<and> (if i < psys_npar s then idhash (psys_id s ! i) = idhash (gas_id g) else psys_id s' ! i = gas_id g)))))"
proof (cases "idhash_rebuild (psys_id s) (psys_npar s) s")
  case (Inr s1)
  let ?s0 = "invalidate s1" and ?rd = "gas_reader cod fs (ep_format (psys_epoch s))"
  let ?names = "map (reader_make_filename sprintf (ep_snapshot (psys_epoch s))) [0..<unat (rc_Nfiles k)]"
  note start = matched_start [OF assms Inr]
  obtain r where run: "psystem_match_epoch cod sprintf c fs k s = Some r"
      and r: "\<forall>s'. r = Inr s' \<longrightarrow> (\<exists>hss. map ?rd ?names = map Inr hss \<and> matched ?s0 (concat hss) s')"
    using match_epoch_matched [OF assms Inr] by blast
  have source: "\<exists>fid < unat (rc_Nfiles k). \<exists>gs. ?rd (reader_make_filename sprintf (ep_snapshot (psys_epoch s)) fid) = Inr gs \<and> g \<in> set gs"
    if hg: "map ?rd ?names = map Inr hss" "g \<in> set (concat hss)" for hss g
  proof -
    obtain gs where gs: "gs \<in> set hss" "g \<in> set gs" using hg(2) by auto
    then obtain j where j: "j < length hss" "g \<in> set (hss ! j)" by (metis in_set_conv_nth)
    have len: "length hss = unat (rc_Nfiles k)" using map_eq_imp_length_eq [OF hg(1)] by simp
    have "map ?rd ?names ! j = map Inr hss ! j" using hg(1) by simp
    then have "?rd (reader_make_filename sprintf (ep_snapshot (psys_epoch s)) j) = Inr (hss ! j)" using j(1) len by simp
    then show ?thesis using j len by (intro exI [of _ j] conjI exI [of _ "hss ! j"]) simp_all
  qed
  show ?thesis
  proof (intro exI [of _ r] conjI run allI impI)
    fix s' assume "r = Inr s'"
    then obtain hss where hss: "map ?rd ?names = map Inr hss" "matched ?s0 (concat hss) s'" using r by auto
    note m = hss(2) [unfolded matched_def start(2-4)]
    show "psys_ok s'" "psys_npar_max s' = psys_npar_max s" "psys_npar s \<le> psys_npar s'" using m by simp_all
    show "psys_id s' ! i = psys_id s ! i" if "i < psys_npar s" for i using m that by simp
    show "\<not> invalid s' i" if "i < psys_npar s'" "psys_npar s \<le> i" for i using m that by simp
    show "\<exists>fid < unat (rc_Nfiles k). \<exists>gs. ?rd (reader_make_filename sprintf (ep_snapshot (psys_epoch s)) fid) = Inr gs
         \<and> (\<exists>g \<in> set gs. carries s' i g \<and> (if i < psys_npar s then idhash (psys_id s ! i) = idhash (gas_id g) else psys_id s' ! i = gas_id g))"
      if i: "i < psys_npar s'" "\<not> invalid s' i" for i
    proof -
      obtain g where g: "g \<in> set (concat hss)" "carries s' i g"
          "if i < psys_npar s then idhash (psys_id s' ! i) = idhash (gas_id g) else psys_id s' ! i = gas_id g"
      proof -
        have "from_snapshot ?s0 (concat hss) s' i" using m i by simp
        then show ?thesis unfolding from_snapshot_def start(2) by (elim bexE conjE) (rule that)
      qed
      have "if i < psys_npar s then idhash (psys_id s ! i) = idhash (gas_id g) else psys_id s' ! i = gas_id g"
        using g(3) m by auto
      then show ?thesis using source [OF hss(1) g(1)] g(2) by blast
    qed
  qed
qed (simp add: psystem_match_epoch_def)

lemma match_epoch_keeps_witness:
  "\<exists>s'. psystem_match_epoch zero_codec demo_sprintf demo_config Map.empty constants_blank demo_match = Some (Inr s')
    \<and> psys_ok s' \<and> psys_npar_max s' = psys_npar_max demo_match \<and> psys_id s' ! 1 = 2 ^ 28 + 5 \<and> invalid s' 0"
proof -
  have ok: "psys_ok demo_match" by (simp add: demo_match_def)
  have n: "psys_npar demo_match = 2" and ids: "psys_id demo_match ! 1 = 2 ^ 28 + 5" by (simp_all add: demo_match_def psys_of_def)
  have none: "unat (rc_Nfiles constants_blank) = 0" by (simp add: constants_blank_def)
  obtain s1 where s1: "idhash_rebuild (psys_id demo_match) 2 demo_match = Inr s1"
    by (simp add: idhash_rebuild_def demo_match_def psys_of_def split_beta)
  obtain r where r: "psystem_match_epoch zero_codec demo_sprintf demo_config Map.empty constants_blank demo_match = Some r"
    and all: "\<forall>s'. r = Inr s' \<longrightarrow> psys_ok s' \<and> psys_npar_max s' = psys_npar_max demo_match \<and> psys_npar demo_match \<le> psys_npar s'
      \<and> (\<forall>i < psys_npar demo_match. psys_id s' ! i = psys_id demo_match ! i)
      \<and> (\<forall>i < psys_npar s'. psys_npar demo_match \<le> i \<longrightarrow> \<not> invalid s' i)
      \<and> (\<forall>i < psys_npar s'. \<not> invalid s' i \<longrightarrow> (\<exists>fid < unat (rc_Nfiles constants_blank). \<exists>gs.
         gas_reader zero_codec Map.empty (ep_format (psys_epoch demo_match)) (reader_make_filename demo_sprintf (ep_snapshot (psys_epoch demo_match)) fid) = Inr gs
         \<and> (\<exists>g \<in> set gs. carries s' i g \<and> (if i < psys_npar demo_match then idhash (psys_id demo_match ! i) = idhash (gas_id g) else psys_id s' ! i = gas_id g))))"
    using match_epoch_keeps [OF ok, of zero_codec demo_sprintf demo_config Map.empty constants_blank] by (elim exE conjE) (rule that)
  have "r = Inr (invalidate s1)" using r by (simp add: psystem_match_epoch_def n s1 none Let_def)
  then show ?thesis using r all n ids none by (intro exI [of _ "invalidate s1"]) auto
qed

end
