(* ===== verification/Config_Init.thy ===== *)
theory Config_Init imports Config_Tree begin

text \<open>
  The defaults that \<open>cfg_init\<close> of \<open>src/src/config.c\<close> puts into the tree of the configuration: a list of
  paths with their defaults, in the order of the calls, each provided by \<open>config_ensure\<close>.

  A path is a list of names (\<open>components\<close>), followed by \<open>follow\<close> and \<open>get\<close>. The relation \<open>extends\<close>
  says that groups have only got new members; every lookup that succeeded still does
  (\<open>get_extends\<close>), and what is added is what was asked for, nothing else (\<open>update_adds_only\<close>).
\<close>

section \<open>The defaults of the configuration\<close>

text \<open>What a \<open>config_ensure\<close> of \<open>cfg_init\<close> puts at a path that is missing.\<close>

datatype cfg_default = DGroup | DString "string option" | DInt64 int | DBool bool | DFloat real

definition ensure_default :: "string \<times> cfg_default \<Rightarrow> config_t \<Rightarrow> config_t res" where
  "ensure_default = (\<lambda>(path, d) cf. case d of
       DGroup \<Rightarrow> config_ensure_group path cf
     | DString v \<Rightarrow> config_ensure_string path v cf
     | DInt64 v \<Rightarrow> config_ensure_int64 path v cf
     | DBool v \<Rightarrow> config_ensure_bool path v cf
     | DFloat v \<Rightarrow> config_ensure_float path v cf)"

fun ensure_defaults :: "(string \<times> cfg_default) list \<Rightarrow> config_t \<Rightarrow> config_t res" where
  "ensure_defaults [] cf = Inr cf"
| "ensure_defaults (e # es) cf = rbind (ensure_default e cf) (ensure_defaults es)"

text \<open>The calls of \<open>cfg_init\<close> in their order; the values are those of the variables before.\<close>

definition cfg_schema :: "config \<Rightarrow> int \<Rightarrow> (string \<times> cfg_default) list" where
  "cfg_schema c seed =
     [(''psphray'', DGroup),
      (''psphray.atomicRates'', DString None), (''psphray.crossSections'', DString None), (''psphray.seed'', DInt64 seed),
      (''psphray.writeInit'', DBool (cfg_write_init c)), (''psphray.onTheSpot'', DBool (cfg_on_the_spot c)),
      (''psphray.isothermal'', DBool (cfg_isothermal c)), (''psphray.HOnly'', DBool (cfg_h_only c)),
      (''psphray.adiabatic'', DBool (cfg_adiabatic c)), (''psphray.dumpHotspots'', DBool (cfg_dump_hotspots c)),
      (''psphray.traceOnly'', DBool (cfg_trace_only c)), (''psphray.noPhoton'', DBool (cfg_no_photon c)),
      (''psphray.disableLTE'', DBool (cfg_disable_lte c)), (''psphray.printRays'', DBool (cfg_print_rays c)),
      (''psphray.secondaryIonization'', DBool (cfg_secondary_ionization c)),
      (''psphray.octtree'', DGroup), (''psphray.octtree.particlesPerCell'', DInt64 (int (cfg_octtree_ppc c))),
      (''psphray.fakeTemperature'', DFloat (cfg_fake_temperature c)),
      (''psphray.recombineThreshold'', DFloat (cfg_recombine_threshold c)),
      (''psphray.boostSourceFactor'', DFloat (cfg_boost_source_factor c)),
      (''psphray.eos'', DGroup), (''psphray.eos.filename'', DString None),
      (''psphray.eos.cloudTemperature'', DFloat (cfg_eos_cloud_temperature c)),
      (''cosmology'', DGroup), (''cosmology.comoving'', DBool (cfg_comoving c)),
      (''cosmology.omegaL'', DFloat (c_omega_l c)), (''cosmology.omegaM'', DFloat (c_omega_m c)),
      (''cosmology.omegaB'', DFloat (c_omega_b c)), (''cosmology.h'', DFloat (c_h c)), (''cosmology.hmf'', DFloat (c_hmf c)),
      (''box'', DGroup), (''box.boxsize'', DFloat (- 1)), (''box.boundary'', DString (Some ''vaccum'')),
      (''units'', DGroup), (''units.massGramh'', DFloat (c_1_gramh c)), (''units.lengthCMh'', DFloat (c_1_cmh c)),
      (''units.timeSh'', DFloat (c_1_sech c))]"

section \<open>Paths as lists of names\<close>

function components :: "string \<Rightarrow> string list" where
  "components path = (let p = dropWhile path_token path
     in if p = [] then [] else takeWhile (\<lambda>ch. \<not> path_token ch) p # components (dropWhile (\<lambda>ch. \<not> path_token ch) p))"
  by pat_completeness auto

termination
proof (relation "measure length", goal_cases)
  case (2 path p)
  then have "\<not> path_token (hd p)" using hd_dropWhile [of path_token path] by auto
  then have "length (dropWhile (\<lambda>ch. \<not> path_token ch) p) < length p"
    using 2(2) by (cases p) (simp_all add: le_imp_less_Suc length_dropWhile_le)
  then show ?case using length_dropWhile_le [of path_token path] 2(1) by simp
qed simp

declare components.simps [simp del]

fun follow :: "setting \<Rightarrow> string list \<Rightarrow> loc option" where
  "follow s [] = Some []"
| "follow s (n # ns) = (case config_setting_get_member s n of None \<Rightarrow> None
     | Some i \<Rightarrow> (case setting_at s [i] of None \<Rightarrow> None | Some t \<Rightarrow> map_option (Cons i) (follow t ns)))"

fun get :: "setting \<Rightarrow> string list \<Rightarrow> setting option" where
  "get s [] = Some s"
| "get s (n # ns) = (case member s n of None \<Rightarrow> None | Some t \<Rightarrow> get t ns)"

lemma name_compare_zero:
  "config_name_compare p q = 0 \<longleftrightarrow> takeWhile (\<lambda>ch. \<not> path_token ch) p = takeWhile (\<lambda>ch. \<not> path_token ch) q"
proof (induction p q rule: config_name_compare.induct)
  case (1 p q)
  have tri: "a = b" if "\<not> (of_char a :: nat) < of_char b" "\<not> (of_char b :: nat) < of_char a" for a b :: char
    using that by (metis linorder_neqE_nat of_char_eq_iff)
  show ?case
    by (subst config_name_compare.simps, cases p; cases q) (use 1 tri in \<open>auto simp: Let_def\<close>)
qed

lemma list_search_component: "config_list_search ms p i = config_list_search ms (takeWhile (\<lambda>ch. \<not> path_token ch) p) i"
  by (induction ms p i rule: config_list_search.induct) (simp_all add: name_compare_zero takeWhile_takeWhile)

lemma lookup_follow: "config_lookup_from s path = follow s (components path)"
proof (induction s path rule: config_lookup_from.induct)
  case (1 s path)
  let ?p = "dropWhile path_token path"
  show ?case
  proof (cases "?p = []")
    case False
    have "config_setting_get_member s ?p = config_setting_get_member s (takeWhile (\<lambda>ch. \<not> path_token ch) ?p)"
      unfolding config_setting_get_member_def by (subst list_search_component) (rule refl)
    then show ?thesis
      using 1 False
      by (subst config_lookup_from.simps, subst components.simps) (auto simp: Let_def split: option.splits)
  qed (subst config_lookup_from.simps, subst components.simps, simp)
qed

lemma follow_get: "(case follow s ns of None \<Rightarrow> None | Some l \<Rightarrow> setting_at s l) = get s ns"
proof (induction ns arbitrary: s)
  case (Cons n ns)
  show ?case
  proof (cases "config_setting_get_member s n")
    case (Some i)
    have at: "setting_at s (i # l) = (case setting_at s [i] of None \<Rightarrow> None | Some t \<Rightarrow> setting_at t l)" for l
      by (simp split: setting.split)
    show ?thesis
    proof (cases "setting_at s [i]")
      case t: (Some t)
      show ?thesis
      proof (cases "follow t ns")
        case None
        then show ?thesis using Cons [of t] by (simp add: member_def Some t del: setting_at.simps(2))
      next
        case l: (Some l)
        then show ?thesis using Cons [of t] at [of l] by (simp add: member_def Some t del: setting_at.simps(2))
      qed
    qed (simp add: member_def Some del: setting_at.simps(2))
  qed (simp add: member_def)
qed simp

lemma found_at_get: "found_at cf path = get (ct_root cf) (components path)"
  unfolding found_at_def config_lookup_def lookup_follow by (rule follow_get)

lemma follow_None: "follow s ns = None \<longleftrightarrow> get s ns = None"
proof (induction ns arbitrary: s)
  case (Cons n ns)
  then show ?case by (auto simp: member_def split: option.splits simp del: setting_at.simps(2))
qed simp

lemma get_append: "get s (ns @ ms) = (case get s ns of None \<Rightarrow> None | Some t \<Rightarrow> get t ms)"
  by (induction ns arbitrary: s) (simp_all split: option.split)

section \<open>Extending a tree\<close>

text \<open>Members may have been added to groups; nothing else has changed.\<close>

inductive extends :: "setting \<Rightarrow> setting \<Rightarrow> bool" where
  extends_refl: "extends s s"
| extends_group: "length ms \<le> length ms' \<Longrightarrow>
    (\<And>i. i < length ms \<Longrightarrow> fst (ms' ! i) = fst (ms ! i) \<and> extends (snd (ms ! i)) (snd (ms' ! i))) \<Longrightarrow>
    extends (SGroup ms) (SGroup ms')"

inductive_cases extends_groupE: "extends (SGroup ms) t"

definition is_group :: "setting \<Rightarrow> bool" where
  "is_group s = (case s of SGroup _ \<Rightarrow> True | _ \<Rightarrow> False)"

lemma is_group_iff: "is_group s \<longleftrightarrow> (\<exists>ms. s = SGroup ms)"
  by (simp add: is_group_def split: setting.split)

lemma extends_leaf: "extends s t \<Longrightarrow> \<not> is_group s \<Longrightarrow> t = s"
  by (cases rule: extends.cases) (auto simp: is_group_def)

lemma extends_is_group: "extends s t \<Longrightarrow> is_group s \<Longrightarrow> is_group t"
  by (cases rule: extends.cases) (auto simp: is_group_def)

lemma extends_trans:
  assumes "extends s t" shows "extends t u \<Longrightarrow> extends s u"
  using assms
proof (induction arbitrary: u)
  case (extends_group ms ms')
  have "(\<exists>ms''. u = SGroup ms'' \<and> length ms' \<le> length ms'' \<and> (\<forall>i < length ms'. fst (ms'' ! i) = fst (ms' ! i)
      \<and> extends (snd (ms' ! i)) (snd (ms'' ! i))))"
    using \<open>extends (SGroup ms') u\<close> by (cases rule: extends_groupE) (auto intro: extends.extends_refl)
  then obtain ms'' where u: "u = SGroup ms''" "length ms' \<le> length ms''"
      "\<And>i. i < length ms' \<Longrightarrow> fst (ms'' ! i) = fst (ms' ! i) \<and> extends (snd (ms' ! i)) (snd (ms'' ! i))" by blast
  show ?case unfolding u(1)
  proof (rule extends.extends_group)
    show "length ms \<le> length ms''" using u(2) extends_group.hyps(1) by simp
    show "fst (ms'' ! i) = fst (ms ! i) \<and> extends (snd (ms ! i)) (snd (ms'' ! i))" if "i < length ms" for i
      using u(3) [of i] extends_group.IH [OF that] extends_group.hyps(1) that by auto
  qed
qed

lemma list_search_first:
  "config_list_search ms n k = Some j \<longleftrightarrow> (\<exists>i < length ms. j = k + i \<and> config_name_compare n (fst (ms ! i)) = 0
     \<and> (\<forall>h < i. config_name_compare n (fst (ms ! h)) \<noteq> 0))"
proof (induction ms arbitrary: k)
  case (Cons m ms)
  show ?case
  proof (cases "config_name_compare n (fst m) = 0")
    case True
    then show ?thesis by (auto simp: nth_Cons' intro!: exI [of _ 0])
  next
    case False
    have "(\<exists>i < length (m # ms). j = k + i \<and> config_name_compare n (fst ((m # ms) ! i)) = 0
        \<and> (\<forall>h < i. config_name_compare n (fst ((m # ms) ! h)) \<noteq> 0)) \<longleftrightarrow>
      (\<exists>i < length ms. j = Suc k + i \<and> config_name_compare n (fst (ms ! i)) = 0
        \<and> (\<forall>h < i. config_name_compare n (fst (ms ! h)) \<noteq> 0))" (is "?l \<longleftrightarrow> ?r")
    proof
      assume ?l
      then obtain i where i: "i < length (m # ms)" "j = k + i" "config_name_compare n (fst ((m # ms) ! i)) = 0"
          "\<forall>h < i. config_name_compare n (fst ((m # ms) ! h)) \<noteq> 0" by blast
      then obtain i' where "i = Suc i'" using False by (cases i) auto
      then show ?r using i by (intro exI [of _ i']) (auto dest: spec [of _ "Suc _"])
    next
      assume ?r
      then obtain i where i: "i < length ms" "j = Suc k + i" "config_name_compare n (fst (ms ! i)) = 0"
          "\<forall>h < i. config_name_compare n (fst (ms ! h)) \<noteq> 0" by blast
      then show ?l using False by (intro exI [of _ "Suc i"]) (auto simp: less_Suc_eq_0_disj)
    qed
    then show ?thesis using False Cons by simp
  qed
qed simp

lemma list_search_None: "config_list_search ms n k = None \<longleftrightarrow> (\<forall>i < length ms. config_name_compare n (fst (ms ! i)) \<noteq> 0)"
  by (induction ms n k rule: config_list_search.induct) (auto simp: nth_Cons' less_Suc_eq_0_disj)

lemma member_group: "member (SGroup ms) n = (case config_list_search ms n 0 of None \<Rightarrow> None | Some i \<Rightarrow> Some (snd (ms ! i)))"
proof (cases "config_list_search ms n 0")
  case (Some i)
  then have "i < length ms" by (auto simp: list_search_first)
  then show ?thesis by (simp add: member_def config_setting_get_member_def Some)
qed (simp add: member_def config_setting_get_member_def)

lemma member_not_group: "\<not> is_group s \<Longrightarrow> member s n = None"
  by (cases s) (simp_all add: member_def config_setting_get_member_def is_group_def)

lemma member_extends:
  assumes "extends s t" and "member s n = Some x"
  shows "\<exists>y. member t n = Some y \<and> extends x y"
  using assms(1)
proof cases
  case extends_refl
  then show ?thesis using assms(2) by (auto intro: extends.extends_refl)
next
  case (extends_group ms ms')
  obtain i where i: "config_list_search ms n 0 = Some i" "x = snd (ms ! i)"
    using assms(2) by (auto simp: extends_group(1) member_group split: option.splits)
  then have "i < length ms" by (simp add: list_search_first)
  moreover have "config_list_search ms' n 0 = Some i" using i(1) extends_group(3,4) by (auto simp: list_search_first)
  ultimately show ?thesis using i(2) extends_group(4) by (simp add: extends_group(2) member_group)
qed

lemma get_extends: "extends s t \<Longrightarrow> get s ns = Some x \<Longrightarrow> \<exists>y. get t ns = Some y \<and> extends x y"
proof (induction ns arbitrary: s t)
  case (Cons n ns)
  then obtain s' where s': "member s n = Some s'" "get s' ns = Some x" by (auto split: option.splits)
  then obtain t' where "member t n = Some t'" "extends s' t'" using member_extends [OF Cons.prems(1)] by blast
  then show ?case using Cons.IH s'(2) by simp
qed simp

text \<open>Replacing the setting at the end of a path by an extension of it.\<close>

lemma update_extends:
  assumes "follow s ns = Some l" and "get s ns = Some x" and "extends x y"
  shows "extends s (update_at (\<lambda>_. y) s l) \<and> get (update_at (\<lambda>_. y) s l) ns = Some y"
  using assms
proof (induction ns arbitrary: s l)
  case (Cons n ns)
  have "is_group s" using Cons.prems(2) member_not_group [of s n] by (cases "is_group s") auto
  then obtain ms where s: "s = SGroup ms" by (auto simp: is_group_iff)
  obtain i where i: "config_list_search ms n 0 = Some i"
    using Cons.prems(2) by (auto simp: s member_group split: option.splits)
  then have lt: "i < length ms" by (simp add: list_search_first)
  obtain l' where l: "l = i # l'" "follow (snd (ms ! i)) ns = Some l'" "get (snd (ms ! i)) ns = Some x"
    using Cons.prems(1,2) lt by (auto simp: s member_group config_setting_get_member_def i)
  let ?y = "update_at (\<lambda>_. y) (snd (ms ! i)) l'" and ?ms = "ms[i := (fst (ms ! i), update_at (\<lambda>_. y) (snd (ms ! i)) l')]"
  have y: "extends (snd (ms ! i)) ?y" "get ?y ns = Some y" using Cons.IH [OF l(2,3) Cons.prems(3)] by simp_all
  have u: "update_at (\<lambda>_. y) s l = SGroup ?ms" using lt by (simp add: s l(1))
  have names: "fst (?ms ! h) = fst (ms ! h)" if "h < length ms" for h using that by (cases "h = i") simp_all
  have "extends (SGroup ms) (SGroup ?ms)"
  proof (rule extends.extends_group)
    show "fst (?ms ! h) = fst (ms ! h) \<and> extends (snd (ms ! h)) (snd (?ms ! h))" if "h < length ms" for h
      using names [OF that] y(1) lt that by (cases "h = i") (simp_all add: extends.extends_refl)
  qed simp
  moreover have "config_list_search ?ms n 0 = Some i" using i names by (auto simp: list_search_first)
  ultimately show ?case using y(2) lt unfolding u by (simp add: s member_group)
qed simp

text \<open>A new member at the end of a group is found under its name when the name was free.\<close>

lemma member_append:
  assumes "member (SGroup ms) n = None"
  shows "member (SGroup (ms @ [(n, x)])) n = Some x" "extends (SGroup ms) (SGroup (ms @ [(n, x)]))"
proof -
  have "config_list_search ms n 0 = None" using assms by (simp add: member_group split: option.splits)
  then have free: "\<forall>i < length ms. config_name_compare n (fst (ms ! i)) \<noteq> 0" by (simp add: list_search_None)
  have "config_list_search (ms @ [(n, x)]) n 0 = Some (length ms)"
    using free by (auto simp: list_search_first nth_append name_compare_zero intro!: exI [of _ "length ms"])
  then show "member (SGroup (ms @ [(n, x)])) n = Some x" by (simp add: member_group)
  show "extends (SGroup ms) (SGroup (ms @ [(n, x)]))"
    by (rule extends.extends_group) (simp_all add: nth_append extends.extends_refl)
qed

section \<open>Nothing else is added\<close>

definition plain :: "string \<Rightarrow> bool" where
  "plain n \<longleftrightarrow> takeWhile (\<lambda>ch. \<not> path_token ch) n = n"

lemma components_plain: "n \<in> set (components path) \<Longrightarrow> plain n"
proof (induction path rule: components.induct)
  case (1 path)
  let ?p = "dropWhile path_token path"
  have "?p \<noteq> []" "n = takeWhile (\<lambda>ch. \<not> path_token ch) ?p \<or> n \<in> set (components (dropWhile (\<lambda>ch. \<not> path_token ch) ?p))"
    using 1(2) components.simps [of path] by (simp_all add: Let_def split: if_split_asm)
  then show ?case using 1(1) [OF refl] by (auto simp: plain_def takeWhile_takeWhile simp del: takeWhile_eq_all_conv)
qed

lemma plain_compare: "plain n \<Longrightarrow> plain m \<Longrightarrow> config_name_compare n x = 0 \<Longrightarrow> config_name_compare m x = 0 \<Longrightarrow> n = m"
  unfolding name_compare_zero plain_def by metis

lemma member_append_other:
  assumes "plain n" and "plain k" and "k \<noteq> n"
  shows "member (SGroup (ms @ [(n, x)])) k = member (SGroup ms) k"
proof -
  have "config_name_compare k n \<noteq> 0" using assms unfolding name_compare_zero plain_def by metis
  then have "config_list_search (ms @ [(n, x)]) k i = config_list_search ms k i" for i
    by (induction ms arbitrary: i) auto
  moreover have "i < length ms" if "config_list_search ms k 0 = Some i" for i using that by (simp add: list_search_first)
  ultimately show ?thesis by (auto simp: member_group nth_append split: option.splits)
qed

lemma member_append_old:
  assumes "member (SGroup ms) k = Some t" shows "member (SGroup (ms @ m)) k = Some t"
proof -
  obtain i where i: "config_list_search ms k 0 = Some i" "t = snd (ms ! i)"
    using assms by (auto simp: member_group split: option.splits)
  then have "i < length ms" "config_list_search (ms @ m) k 0 = Some i" by (auto simp: list_search_first nth_append)
  then show ?thesis using i(2) by (simp add: member_group nth_append)
qed

lemma update_adds_only:
  assumes "follow s ns = Some l" and "get s ns = Some (SGroup ms)" and "plain n" "list_all plain ns" "list_all plain q"
    and "\<And>k ks. get x (k # ks) = None" and "get s q = None" "q \<noteq> ns @ [n]"
  shows "get (update_at (\<lambda>_. SGroup (ms @ [(n, x)])) s l) q = None"
  using assms
proof (induction ns arbitrary: s l q)
  case Nil
  then obtain k ks where q: "q = k # ks" by (cases q) auto
  have s: "s = SGroup ms" "l = []" using Nil by simp_all
  show ?case
  proof (cases "k = n")
    case True
    then obtain j js where ks: "ks = j # js" using Nil.prems(8) q by (cases ks) auto
    show ?thesis
    proof (cases "member (SGroup ms) n")
      case None
      then show ?thesis using member_append(1) [OF None, of x] Nil.prems(6) [of j js] by (simp add: s q True ks del: get.simps(2)) simp
    next
      case (Some t)
      then have "member (SGroup (ms @ [(n, x)])) n = Some t" by (rule member_append_old)
      then show ?thesis using Nil.prems(7) Some by (simp add: s q True)
    qed
  next
    case False
    then show ?thesis using member_append_other [of n k ms x] Nil.prems by (simp add: s q)
  qed
next
  case (Cons m ns)
  obtain k ks where q: "q = k # ks" using Cons.prems(7) by (cases q) auto
  have "is_group s" using Cons.prems(2) member_not_group [of s m] by (cases "is_group s") auto
  then obtain gs where s: "s = SGroup gs" by (auto simp: is_group_iff)
  obtain i where i: "config_list_search gs m 0 = Some i"
    using Cons.prems(2) by (auto simp: s member_group split: option.splits)
  then have lt: "i < length gs" by (simp add: list_search_first)
  obtain l' where l: "l = i # l'" "follow (snd (gs ! i)) ns = Some l'" "get (snd (gs ! i)) ns = Some (SGroup ms)"
    using Cons.prems(1,2) lt by (auto simp: s member_group config_setting_get_member_def i)
  let ?y = "update_at (\<lambda>_. SGroup (ms @ [(n, x)])) (snd (gs ! i)) l'"
  let ?gs = "gs[i := (fst (gs ! i), update_at (\<lambda>_. SGroup (ms @ [(n, x)])) (snd (gs ! i)) l')]"
  have u: "update_at (\<lambda>_. SGroup (ms @ [(n, x)])) s l = SGroup ?gs" using lt by (simp add: s l(1))
  have names: "fst (?gs ! h) = fst (gs ! h)" if "h < length gs" for h using that by (cases "h = i") simp_all
  have search: "config_list_search ?gs k 0 = config_list_search gs k 0"
  proof (cases "config_list_search gs k 0")
    case None
    then have "config_list_search ?gs k 0 = None" using names by (simp add: list_search_None)
    then show ?thesis using None by simp
  next
    case (Some j)
    then have "config_list_search ?gs k 0 = Some j" using names by (auto simp: list_search_first)
    then show ?thesis using Some by simp
  qed
  show ?case
  proof (cases "config_list_search gs k 0")
    case None
    then show ?thesis unfolding u by (simp add: q member_group search)
  next
    case (Some j)
    then have j: "j < length gs" by (simp add: list_search_first)
    show ?thesis
    proof (cases "j = i")
      case True
      have "k = m"
        by (rule plain_compare [of _ _ "fst (gs ! i)"]) (use Some i Cons.prems(4,5) in \<open>auto simp: q True list_search_first\<close>)
      then have "get ?y ks = None"
        using Cons.IH [OF l(2,3) Cons.prems(3) _ _ Cons.prems(6), of ks] Cons.prems Some i by (simp add: q s member_group True)
      then show ?thesis unfolding u by (simp add: q member_group search Some True lt)
    next
      case False
      then show ?thesis unfolding u using Cons.prems(7) by (simp add: q s member_group search Some)
    qed
  qed
qed

section \<open>Providing a default\<close>

definition default_setting :: "cfg_default \<Rightarrow> setting" where
  "default_setting d = (case d of DGroup \<Rightarrow> SGroup [] | DString v \<Rightarrow> SString v | DInt64 v \<Rightarrow> SInt64 v
     | DBool v \<Rightarrow> SBool (if v then 1 else 0) | DFloat v \<Rightarrow> SFloat v)"

definition parent_names :: "string \<Rightarrow> string list" where
  "parent_names path = (case fst (split_path path) of None \<Rightarrow> [] | Some d \<Rightarrow> components d)"

text \<open>A path that \<open>config_ensure\<close> takes apart as the lookup does, with a name that can be added.\<close>

definition path_ok :: "string \<Rightarrow> bool" where
  "path_ok path \<longleftrightarrow> components path = parent_names path @ [snd (split_path path)] \<and> config_validate_name (snd (split_path path))"

lemma update_append:
  "setting_at s l = Some x \<Longrightarrow> update_at f (update_at (\<lambda>_. y) s l) (l @ k) = update_at (\<lambda>_. update_at f y k) s l"
  by (induction l arbitrary: s) (auto split: setting.splits if_split_asm)

lemma update_last: "update_at f (SGroup (ms @ [(n, x)])) [length ms] = SGroup (ms @ [(n, f x)])"
  by simp

lemma add_to_group:
  assumes "member (SGroup ms) name = None" and "config_validate_name name" and "CONFIG_TYPE_NONE \<le> ty" "ty \<le> CONFIG_TYPE_LIST"
  shows "config_setting_add (SGroup ms) name ty = Some (length ms, SGroup (ms @ [(name, new_setting ty)]))"
  using assms by (simp add: config_setting_add_def member_group config_setting_get_member_def split: option.splits)

lemma ensure_missing:
  assumes "path_ok path" and "found_at cf path = None" and "get (ct_root cf) (parent_names path) = Some (SGroup ms)"
    and "CONFIG_TYPE_NONE \<le> ty" "ty \<le> CONFIG_TYPE_LIST"
  obtains l where "config_ensure cf path ty = Inr (Some (l @ [length ms]), cf\<lparr>ct_root := update_at (\<lambda>_. SGroup (ms @ [(snd (split_path path), new_setting ty)])) (ct_root cf) l\<rparr>)"
    "follow (ct_root cf) (parent_names path) = Some l" "setting_at (ct_root cf) l = Some (SGroup ms)"
    "config_lookup cf path = None" "member (SGroup ms) (snd (split_path path)) = None"
proof -
  let ?name = "snd (split_path path)"
  have path: "components path = parent_names path @ [?name]" "config_validate_name ?name" using assms(1) by (simp_all add: path_ok_def)
  have none: "config_lookup cf path = None"
    using assms(2) follow_None by (simp add: found_at_get config_lookup_def lookup_follow)
  have "get (SGroup ms) [?name] = None" using assms(2,3) path(1) get_append [of "ct_root cf" "parent_names path" "[?name]"] by (simp add: found_at_get)
  then have free: "member (SGroup ms) ?name = None" by (simp split: option.splits)
  obtain l where l: "follow (ct_root cf) (parent_names path) = Some l"
    using assms(3) follow_None [of "ct_root cf" "parent_names path"] by (cases "follow (ct_root cf) (parent_names path)") auto
  have at: "setting_at (ct_root cf) l = Some (SGroup ms)" using follow_get [of "ct_root cf" "parent_names path"] l assms(3) by simp
  have dir: "(case fst (split_path path) of None \<Rightarrow> Some [] | Some d \<Rightarrow> config_lookup cf d) = Some l"
    using l by (simp add: parent_names_def config_lookup_def lookup_follow split: option.splits)
  have "config_ensure cf path ty = Inr (Some (l @ [length ms]), cf\<lparr>ct_root := update_at (\<lambda>_. SGroup (ms @ [(?name, new_setting ty)])) (ct_root cf) l\<rparr>)"
    by (simp add: config_ensure_def none dir at add_to_group [OF free path(2) assms(4,5)] split_beta)
  then show ?thesis using l at none free by (rule that)
qed

text \<open>What providing a default does to the tree.\<close>

definition provided :: "string \<Rightarrow> setting \<Rightarrow> config_t \<Rightarrow> config_t \<Rightarrow> bool" where
  "provided path x cf cf' \<longleftrightarrow> ct_auto cf' = ct_auto cf \<and> extends (ct_root cf) (ct_root cf')
     \<and> (\<forall>p. components p \<noteq> components path \<and> found_at cf p = None \<longrightarrow> found_at cf' p = None)
     \<and> (found_at cf path = None \<longrightarrow> found_at cf' path = Some x) \<and> (found_at cf path \<noteq> None \<longrightarrow> cf' = cf)"

lemma provided_present: "found_at cf path \<noteq> None \<Longrightarrow> provided path x cf cf"
  by (simp add: provided_def extends.extends_refl)

lemma lookup_present: "found_at cf path \<noteq> None \<Longrightarrow> \<exists>l. config_lookup cf path = Some l"
  by (simp add: found_at_def split: option.splits)

lemma provided_added:
  assumes "path_ok path" and "found_at cf path = None" and "get (ct_root cf) (parent_names path) = Some (SGroup ms)"
    and "follow (ct_root cf) (parent_names path) = Some l" and "member (SGroup ms) (snd (split_path path)) = None"
    and "\<And>k ks. get x (k # ks) = None"
  shows "provided path x cf (cf\<lparr>ct_root := update_at (\<lambda>_. SGroup (ms @ [(snd (split_path path), x)])) (ct_root cf) l\<rparr>)"
proof -
  let ?name = "snd (split_path path)" and ?root = "update_at (\<lambda>_. SGroup (ms @ [(snd (split_path path), x)])) (ct_root cf) l"
  have path: "components path = parent_names path @ [?name]" using assms(1) by (simp add: path_ok_def)
  have "plain ?name" "list_all plain (parent_names path)" using components_plain [of _ path] by (simp_all add: path list_all_iff)
  then have "get ?root (components p) = None" if "components p \<noteq> components path" "found_at cf p = None" for p
    using update_adds_only [OF assms(4,3) _ _ _ assms(6), where q = "components p"] that components_plain [of _ p]
    by (simp add: found_at_get path list_all_iff)
  then show ?thesis
    using update_extends [OF assms(4,3) member_append(2) [OF assms(5)]] member_append(1) [OF assms(5)] path assms(2)
    by (simp add: provided_def found_at_get get_append)
qed

lemma ensure_with_provides:
  assumes "path_ok path" and "get (ct_root cf) (parent_names path) = Some (SGroup ms)"
    and "CONFIG_TYPE_NONE \<le> ty" "ty \<le> CONFIG_TYPE_LIST" and "\<And>k ks. get (setv (new_setting ty)) (k # ks) = None"
  shows "\<exists>cf'. config_ensure_with ty setv path cf = Inr cf' \<and> provided path (setv (new_setting ty)) cf cf'"
proof (cases "found_at cf path = None")
  case True
  let ?name = "snd (split_path path)"
  obtain l where l: "config_ensure cf path ty = Inr (Some (l @ [length ms]), cf\<lparr>ct_root := update_at (\<lambda>_. SGroup (ms @ [(?name, new_setting ty)])) (ct_root cf) l\<rparr>)"
    "follow (ct_root cf) (parent_names path) = Some l" "setting_at (ct_root cf) l = Some (SGroup ms)" "config_lookup cf path = None"
    "member (SGroup ms) ?name = None"
    by (rule ensure_missing [OF assms(1) True assms(2-4)])
  have "config_ensure_with ty setv path cf
      = Inr (cf\<lparr>ct_root := update_at (\<lambda>_. SGroup (ms @ [(?name, setv (new_setting ty))])) (ct_root cf) l\<rparr>)"
    using update_append [OF l(3), of setv "SGroup (ms @ [(?name, new_setting ty)])" "[length ms]"]
    by (simp add: config_ensure_with_def l(1,4) update_last del: update_at.simps(2))
  then show ?thesis using provided_added [OF assms(1) True assms(2) l(2,5) assms(5)] by blast
next
  case False
  then show ?thesis using lookup_present [OF False] provided_present [OF False] by (auto simp: config_ensure_with_def)
qed

lemma leaf_empty: "get (SGroup []) (k # ks) = None" "get (SString v) (k # ks) = None" "get (SInt64 i) (k # ks) = None"
  "get (SBool b) (k # ks) = None" "get (SFloat r) (k # ks) = None"
  by (simp_all add: member_def config_setting_get_member_def)

lemma ensure_default_provides:
  assumes "path_ok path" and "get (ct_root cf) (parent_names path) = Some (SGroup ms)"
  shows "\<exists>cf'. ensure_default (path, d) cf = Inr cf' \<and> provided path (default_setting d) cf cf'"
proof (cases d)
  case DGroup
  show ?thesis
  proof (cases "found_at cf path = None")
    case True
    obtain l where l: "config_ensure cf path CONFIG_TYPE_GROUP = Inr (Some (l @ [length ms]),
        cf\<lparr>ct_root := update_at (\<lambda>_. SGroup (ms @ [(snd (split_path path), new_setting CONFIG_TYPE_GROUP)])) (ct_root cf) l\<rparr>)"
      "follow (ct_root cf) (parent_names path) = Some l" "member (SGroup ms) (snd (split_path path)) = None"
      by (rule ensure_missing [OF assms(1) True assms(2), of CONFIG_TYPE_GROUP]) (simp_all add: config_types)
    have "new_setting CONFIG_TYPE_GROUP = SGroup []" by (simp add: new_setting_def)
    then show ?thesis
      using provided_added [OF assms(1) True assms(2) l(2,3), of "SGroup []"] l(1) leaf_empty(1)
      by (simp add: ensure_default_def DGroup config_ensure_group_def default_setting_def)
  next
    case False
    then show ?thesis using lookup_present [OF False] provided_present [OF False]
      by (auto simp: ensure_default_def DGroup config_ensure_group_def config_ensure_def)
  qed
next
  case (DString v)
  then show ?thesis using ensure_with_provides [OF assms, of CONFIG_TYPE_STRING "config_setting_set_string v"]
    by (simp add: ensure_default_def config_ensure_string_def default_setting_def config_setting_set_string_def new_setting_def config_types leaf_empty del: get.simps(2))
next
  case (DInt64 v)
  then show ?thesis using ensure_with_provides [OF assms, of CONFIG_TYPE_INT64 "config_setting_set_int64 (ct_auto cf) v"]
    by (simp add: ensure_default_def config_ensure_int64_def default_setting_def config_setting_set_int64_def new_setting_def config_types leaf_empty del: get.simps(2))
next
  case (DBool v)
  then show ?thesis using ensure_with_provides [OF assms, of CONFIG_TYPE_BOOL "config_setting_set_bool (if v then 1 else 0)"]
    by (simp add: ensure_default_def config_ensure_bool_def default_setting_def config_setting_set_bool_def new_setting_def config_types leaf_empty del: get.simps(2))
next
  case (DFloat v)
  then show ?thesis using ensure_with_provides [OF assms, of CONFIG_TYPE_FLOAT "config_setting_set_float (ct_auto cf) v"]
    by (simp add: ensure_default_def config_ensure_float_def default_setting_def config_setting_set_float_def new_setting_def config_types leaf_empty del: get.simps(2))
qed

section \<open>All defaults\<close>

text \<open>Every entry comes after the groups on its path.\<close>

fun in_order :: "string list list \<Rightarrow> (string \<times> cfg_default) list \<Rightarrow> bool" where
  "in_order known [] \<longleftrightarrow> True"
| "in_order known ((path, d) # es) \<longleftrightarrow> path_ok path \<and> parent_names path \<in> set known
     \<and> in_order (if d = DGroup then components path # known else known) es"

definition groups_present :: "string list list \<Rightarrow> setting \<Rightarrow> bool" where
  "groups_present known s \<longleftrightarrow> (\<forall>ns \<in> set known. \<exists>g. get s ns = Some g \<and> is_group g)"

lemma groups_present_extends: "groups_present known s \<Longrightarrow> extends s t \<Longrightarrow> groups_present known t"
  unfolding groups_present_def by (meson get_extends extends_is_group)

lemma found_at_extends: "extends (ct_root cf) (ct_root cf') \<Longrightarrow> found_at cf p = Some x \<Longrightarrow> \<exists>y. found_at cf' p = Some y \<and> extends x y"
  by (auto simp: found_at_get dest: get_extends)

lemma ensure_defaults_result:
  assumes "in_order known es" and "groups_present known (ct_root cf)"
    and "\<And>p. (p, DGroup) \<in> set es \<Longrightarrow> found_at cf p = None \<or> (\<exists>ms. found_at cf p = Some (SGroup ms))"
    and "distinct (map (components \<circ> fst) es)"
  shows "\<exists>cf'. ensure_defaults es cf = Inr cf' \<and> ct_auto cf' = ct_auto cf \<and> extends (ct_root cf) (ct_root cf')
    \<and> (\<forall>(p, d) \<in> set es. \<exists>y. found_at cf' p = Some y \<and> (found_at cf p = None \<longrightarrow> extends (default_setting d) y))"
  using assms
proof (induction es arbitrary: known cf)
  case (Cons e es)
  obtain path d where e: "e = (path, d)" by (cases e)
  have ok: "path_ok path" "parent_names path \<in> set known" and rest: "in_order (if d = DGroup then components path # known else known) es"
    using Cons.prems(1) by (simp_all add: e)
  obtain ms where ms: "get (ct_root cf) (parent_names path) = Some (SGroup ms)"
    using Cons.prems(2) ok(2) by (auto simp: groups_present_def is_group_iff)
  obtain cf1 where cf1: "ensure_default (path, d) cf = Inr cf1" "provided path (default_setting d) cf cf1"
    using ensure_default_provides [OF ok(1) ms] by blast
  have ext: "extends (ct_root cf) (ct_root cf1)" "ct_auto cf1 = ct_auto cf" using cf1(2) by (simp_all add: provided_def)
  have here: "\<exists>y. found_at cf1 path = Some y \<and> (found_at cf path = None \<longrightarrow> y = default_setting d)"
    using cf1(2) by (auto simp: provided_def)
  have group: "\<exists>ms. found_at cf1 path = Some (SGroup ms)" if "d = DGroup"
    using cf1(2) Cons.prems(3) [of path] that by (auto simp: provided_def e default_setting_def)
  have known: "groups_present (if d = DGroup then components path # known else known) (ct_root cf1)"
    using groups_present_extends [OF Cons.prems(2) ext(1)] group by (auto simp: groups_present_def found_at_get is_group_def)
  have old: "found_at cf1 p = None \<or> (\<exists>ms. found_at cf1 p = Some (SGroup ms))" if p: "(p, DGroup) \<in> set es" for p
  proof (cases "found_at cf p = None")
    case True
    moreover have "components p \<noteq> components path" using Cons.prems(4) p by (force simp: e)
    ultimately have "found_at cf1 p = None" using cf1(2) by (simp add: provided_def)
    then show ?thesis ..
  next
    case False
    then obtain ms where "found_at cf p = Some (SGroup ms)" using Cons.prems(3) [of p] p by auto
    then obtain y where "found_at cf1 p = Some y" "extends (SGroup ms) y" using found_at_extends [OF ext(1)] by blast
    then show ?thesis using extends_is_group [of "SGroup ms" y] by (simp add: is_group_iff)
  qed
  have "distinct (map (components \<circ> fst) es)" using Cons.prems(4) by (simp add: comp_def)
  then have "\<exists>cf2. ensure_defaults es cf1 = Inr cf2 \<and> ct_auto cf2 = ct_auto cf1 \<and> extends (ct_root cf1) (ct_root cf2)
      \<and> (\<forall>(p, d) \<in> set es. \<exists>y. found_at cf2 p = Some y \<and> (found_at cf1 p = None \<longrightarrow> extends (default_setting d) y))"
    by (intro Cons.IH [OF rest known]) (rule old)
  then obtain cf2 where cf2: "ensure_defaults es cf1 = Inr cf2" "ct_auto cf2 = ct_auto cf1"
      "extends (ct_root cf1) (ct_root cf2)"
      "\<forall>(p, d) \<in> set es. \<exists>y. found_at cf2 p = Some y \<and> (found_at cf1 p = None \<longrightarrow> extends (default_setting d) y)"
    by (elim exE conjE) (rule that)
  have first: "\<exists>y. found_at cf2 path = Some y \<and> (found_at cf path = None \<longrightarrow> extends (default_setting d) y)"
  proof -
    from here obtain y where y: "found_at cf1 path = Some y" "found_at cf path = None \<longrightarrow> y = default_setting d"
      by (elim exE conjE) (rule that)
    from found_at_extends [OF cf2(3) y(1)] obtain z where "found_at cf2 path = Some z" "extends y z"
      by (elim exE conjE) (rule that)
    then show ?thesis using y(2) by (intro exI [of _ z] conjI impI) simp_all
  qed
  have "\<exists>y. found_at cf2 p = Some y \<and> (found_at cf p = None \<longrightarrow> extends (default_setting d') y)" if p: "(p, d') \<in> set es" for p d'
  proof -
    have "components p \<noteq> components path" using Cons.prems(4) p by (force simp: e)
    then have "found_at cf p = None \<longrightarrow> found_at cf1 p = None" using cf1(2) by (simp add: provided_def)
    then show ?thesis using bspec [OF cf2(4) p] by auto
  qed
  then have all: "\<forall>(p, d) \<in> set (e # es). \<exists>y. found_at cf2 p = Some y \<and> (found_at cf p = None \<longrightarrow> extends (default_setting d) y)"
    using first unfolding e list.set ball_simps by auto
  have run: "ensure_defaults (e # es) cf = Inr cf2" by (simp add: e cf1(1) cf2(1))
  show ?case
    by (rule exI [of _ cf2], intro conjI, rule run, use cf2(2) ext(2) in simp, rule extends_trans [OF ext(1) cf2(3)], rule all)
qed (simp add: extends.extends_refl)

lemma cfg_schema_order: "in_order [[]] (cfg_schema c seed)" "distinct (map (components \<circ> fst) (cfg_schema c seed))"
  by code_simp+

text \<open>
  C37. The defaults that \<open>cfg_init\<close> provides. When the file defines groups where groups are
  expected, all the defaults are provided without an error; then every setting of the program is
  there, and a setting the file does not define has the type and the value of its default. Nothing
  the file defines has changed: every setting that is not a group is what it was, under any path,
  and a group is still a group.
\<close>

theorem cfg_defaults_typed:
  assumes "is_group (ct_root cf)"
    and "list_all (\<lambda>(p, d). d = DGroup \<longrightarrow> (case found_at cf p of None \<Rightarrow> True | Some x \<Rightarrow> is_group x)) (cfg_schema c seed)"
  shows "\<exists>cf'. ensure_defaults (cfg_schema c seed) cf = Inr cf'
    \<and> (\<forall>(p, d) \<in> set (cfg_schema c seed). \<exists>x. found_at cf' p = Some x
         \<and> (found_at cf p = None \<longrightarrow> config_setting_type x = config_setting_type (default_setting d) \<and> (d \<noteq> DGroup \<longrightarrow> x = default_setting d)))
    \<and> (\<forall>p x. found_at cf p = Some x \<longrightarrow> (\<exists>y. found_at cf' p = Some y \<and> (if is_group x then is_group y else y = x)))"
proof -
  note order = cfg_schema_order [of c seed]
  have "found_at cf p = None \<or> (\<exists>ms. found_at cf p = Some (SGroup ms))" if "(p, DGroup) \<in> set (cfg_schema c seed)" for p
    using assms(2) that by (cases "found_at cf p") (auto simp: is_group_iff list_all_iff)
  moreover have "groups_present [[]] (ct_root cf)" using assms(1) by (simp add: groups_present_def)
  ultimately obtain cf' where cf': "ensure_defaults (cfg_schema c seed) cf = Inr cf'" "extends (ct_root cf) (ct_root cf')"
      "\<forall>(p, d) \<in> set (cfg_schema c seed). \<exists>y. found_at cf' p = Some y \<and> (found_at cf p = None \<longrightarrow> extends (default_setting d) y)"
    using ensure_defaults_result [OF order(1) _ _ order(2), of cf] by blast
  have kind: "config_setting_type x = config_setting_type (default_setting d) \<and> (d \<noteq> DGroup \<longrightarrow> x = default_setting d)"
    if "extends (default_setting d) x" for d x
  proof (cases "d = DGroup")
    case True
    then have "is_group x" using extends_is_group [OF that] by (simp add: default_setting_def is_group_def)
    then show ?thesis using True by (auto simp: is_group_iff default_setting_def)
  next
    case False
    then have "\<not> is_group (default_setting d)" by (cases d) (simp_all add: default_setting_def is_group_def)
    then show ?thesis using extends_leaf [OF that] by simp
  qed
  have "\<exists>y. found_at cf' p = Some y \<and> (if is_group x then is_group y else y = x)" if "found_at cf p = Some x" for p x
    using found_at_extends [OF cf'(2) that] extends_is_group extends_leaf by auto
  moreover have "\<exists>x. found_at cf' p = Some x
      \<and> (found_at cf p = None \<longrightarrow> config_setting_type x = config_setting_type (default_setting d) \<and> (d \<noteq> DGroup \<longrightarrow> x = default_setting d))"
    if pd: "(p, d) \<in> set (cfg_schema c seed)" for p d
  proof -
    obtain x where "found_at cf' p = Some x" "found_at cf p = None \<longrightarrow> extends (default_setting d) x" using bspec [OF cf'(3) pd] by auto
    then show ?thesis using kind by (intro exI [of _ x]) simp
  qed
  ultimately show ?thesis using cf'(1) by (intro exI [of _ cf'] conjI ballI) (simp_all add: split_paired_all)
qed

lemma cfg_defaults_typed_witness:
  "\<exists>cf'. ensure_defaults (cfg_schema config_defaults 123456)
       \<lparr>ct_root = SGroup [(''box'', SGroup [(''boxsize'', SInt 5)])], ct_auto = True\<rparr> = Inr cf'
     \<and> found_at cf' ''box.boxsize'' = Some (SInt 5) \<and> found_at cf' ''box.boundary'' = Some (SString (Some ''vaccum''))"
proof -
  let ?cf = "\<lparr>ct_root = SGroup [(''box'', SGroup [(''boxsize'', SInt 5)])], ct_auto = True\<rparr>"
  let ?s = "cfg_schema config_defaults 123456"
  have size: "found_at ?cf ''box.boxsize'' = Some (SInt 5)" "found_at ?cf ''box.boundary'' = None" by code_simp+
  have groups: "list_all (\<lambda>(p, d). d = DGroup \<longrightarrow> (case found_at ?cf p of None \<Rightarrow> True | Some x \<Rightarrow> is_group x)) ?s"
    by code_simp
  have "is_group (ct_root ?cf)" by (simp add: is_group_def)
  from cfg_defaults_typed [OF this groups] obtain cf' where cf': "ensure_defaults ?s ?cf = Inr cf'"
    and all: "\<forall>(p, d) \<in> set ?s. \<exists>x. found_at cf' p = Some x \<and> (found_at ?cf p = None
        \<longrightarrow> config_setting_type x = config_setting_type (default_setting d) \<and> (d \<noteq> DGroup \<longrightarrow> x = default_setting d))"
    and same: "\<forall>p x. found_at ?cf p = Some x \<longrightarrow> (\<exists>y. found_at cf' p = Some y \<and> (if is_group x then is_group y else y = x))"
    by (elim exE conjE) (rule that)
  have "(''box.boundary'', DString (Some ''vaccum'')) \<in> set ?s" by (simp add: cfg_schema_def)
  from bspec [OF all this] have "found_at cf' ''box.boundary'' = Some (SString (Some ''vaccum''))"
    by (auto simp: size default_setting_def)
  moreover have "found_at cf' ''box.boxsize'' = Some (SInt 5)"
    using same [rule_format, OF size(1)] by (auto simp: is_group_def)
  ultimately show ?thesis using cf' by blast
qed

end
