(* ===== verification/Epochs.thy ===== *)
theory Epochs
  imports Config_Init Snapshot_Reader Spectra
begin

text \<open>
  The epochs of a run, \<open>src/src/epochs.c\<close>: for every entry of the list \<open>epochs\<close> of the configuration the
  snapshot, its format and the sources (\<open>epochs_input\<close>, which opens the first file of the snapshot),
  the duration (\<open>epochs_duration\<close>) and the steps after which outputs are written (\<open>epochs_output\<close>).
  \<open>epochs_init\<close> puts them together; an epoch is the record of \<open>Particle_System\<close>. The arrays the code
  fills one after the other are lists made in three passes.

  A setting that is missing where the code does not test for it is a null pointer, the trap
  \<open>Out_of_bounds\<close>; a time that is not finite or a division by a zero duration is \<open>No_number\<close>. The lemmas
  show when the steps are a schedule (\<open>scheduled\<close>: increasing, between 0 and the last tick), which the
  loop of \<open>Run_Epoch\<close> needs: for a number of outputs that is at most the number of ticks, and for none.
\<close>

unbundle bit_operations_syntax

section \<open>The input of an epoch\<close>

text \<open>The members of a group, array or list: what \<open>config_setting_get_elem\<close> yields below its length.\<close>

definition children :: "setting \<Rightarrow> setting list" where
  "children s = (case s of SGroup ms \<Rightarrow> map snd ms | SArray ss \<Rightarrow> ss | SList ss \<Rightarrow> ss | _ \<Rightarrow> [])"

text \<open>An \<open>int\<close> assigned to a \<open>size_t\<close>.\<close>

definition size_of_int :: "int \<Rightarrow> nat" where
  "size_of_int v = unat (of_int v :: 64 word)"

definition epoch_sources :: "setting \<Rightarrow> string option list res" where
  "epoch_sources e = (case member e ''source'' of
       None \<Rightarrow> Inl Out_of_bounds
     | Some (SString v) \<Rightarrow> Inr [v]
     | Some ss \<Rightarrow> Inr (map config_setting_get_string (children ss)))"

definition open_constants :: "codec \<Rightarrow> files \<Rightarrow> string \<Rightarrow> string \<Rightarrow> constants res" where
  "open_constants cod fs format fname =
     (if format = ''massiveblack'' \<or> format = ''e5'' then
        rbind (reader_open massiveblack_funcs cod fs fname) (\<lambda>r. Inr (rd_constants r))
      else if format = ''psphray'' then rbind (reader_open psphray_funcs cod fs fname) (\<lambda>r. Inr (rd_constants r))
      else Inl (Trap ''format unknown''))"

text \<open>
  \<open>epochs_input\<close>. Whatever \<open>packet_size\<close> the configuration has, the packet size is 0: the test
  \<open>if(packet_size = 0.0)\<close> is an assignment, and its value is false.
\<close>

definition epochs_input :: "codec \<Rightarrow> (string \<Rightarrow> nat \<Rightarrow> string) \<Rightarrow> config \<Rightarrow> files \<Rightarrow> bool \<Rightarrow> setting \<Rightarrow> epoch res" where
  "epochs_input cod sprintf c fs auto e =
     (case member e ''snapshot'' of
        None \<Rightarrow> Inl Out_of_bounds
      | Some s \<Rightarrow>
          rbind (epoch_sources e) (\<lambda>sources.
            case (config_setting_get_string_elem s 0, config_setting_get_string_elem s 1) of
              (Some snapshot, Some format) \<Rightarrow>
                rbind (open_constants cod fs format (reader_make_filename sprintf snapshot 0)) (\<lambda>k.
                  Inr \<lparr>ep_redshift = rc_redshift k, ep_age = z2t db c (rc_redshift k), ep_duration = 0, ep_packet_size = 0,
                       ep_ngas = unat (rc_Ntot k ! 0),
                       ep_nticks = size_of_int (config_setting_lookup_int auto e ''nticks'' 0),
                       ep_nray = size_of_int (config_setting_lookup_int auto e ''nray'' 1),
                       ep_nrec = config_setting_lookup_int auto e ''nrec'' 100,
                       ep_sources = sources, ep_snapshot = snapshot, ep_format = format,
                       ep_output_steps = [], ep_output_nfiles = 0, ep_output_filename = None\<rparr>)
            | _ \<Rightarrow> Inl Out_of_bounds))"

section \<open>Durations and outputs\<close>

definition epochs_duration :: "config \<Rightarrow> units \<Rightarrow> bool \<Rightarrow> setting list \<Rightarrow> epoch list \<Rightarrow> nat \<Rightarrow> real res" where
  "epochs_duration c u auto es eps i = (case member (es ! i) ''duration'' of
       Some d \<Rightarrow> config_setting_parse_units c u auto d
     | None \<Rightarrow> Inr (if i + 1 \<noteq> length eps
         then db (z2t db c (ep_redshift (eps ! (i + 1))) - z2t db c (ep_redshift (eps ! i))) else 0))"

text \<open>
  A number of outputs: the ticks divide the epoch evenly, in 64-bit arithmetic. For a negative number
  \<open>calloc\<close> returns a null pointer and the messages at the end read the steps through it.
\<close>

definition int_steps :: "nat \<Rightarrow> int \<Rightarrow> int list res" where
  "int_steps nticks n =
     (if n < 0 then Inl Out_of_bounds
      else Inr (map (\<lambda>j. sint (of_nat nticks * of_nat (j + 1) div of_int n :: 64 word)) [0..<nat n]))"

text \<open>A list of times; a step that is negative is, as a \<open>size_t\<close>, beyond the last tick.\<close>

definition list_step :: "config \<Rightarrow> units \<Rightarrow> bool \<Rightarrow> nat \<Rightarrow> real \<Rightarrow> setting \<Rightarrow> int res" where
  "list_step c u auto nticks duration st =
     rbind (config_setting_parse_units c u auto st) (\<lambda>time.
     rbind (fdiv db (db (time * db (real nticks))) duration) (\<lambda>q.
       let t = trunc (db (q + 1 / 2)) in Inr (if t < 0 \<or> int nticks < t then int nticks else t)))"

definition output_steps :: "config \<Rightarrow> units \<Rightarrow> bool \<Rightarrow> nat \<Rightarrow> real \<Rightarrow> setting \<Rightarrow> int list res" where
  "output_steps c u auto nticks duration s =
     (let ty = config_setting_type s
      in if ty = CONFIG_TYPE_INT \<or> ty = CONFIG_TYPE_INT64 \<or> ty = CONFIG_TYPE_FLOAT then int_steps nticks (config_setting_get_int auto s)
         else if ty = CONFIG_TYPE_LIST then map_res (list_step c u auto nticks duration) (children s)
         else Inr [])"

definition epochs_output :: "config \<Rightarrow> units \<Rightarrow> bool \<Rightarrow> setting \<times> epoch \<Rightarrow> epoch res" where
  "epochs_output c u auto = (\<lambda>(e, ep).
     (case member e ''output'' of
        None \<Rightarrow> Inr ep
      | Some out \<Rightarrow>
          (case member out ''steps'' of
             None \<Rightarrow> Inl Out_of_bounds
           | Some s \<Rightarrow> rbind (output_steps c u auto (ep_nticks ep) (ep_duration ep) s) (\<lambda>steps.
               Inr (ep\<lparr>ep_output_steps := steps,
                 ep_output_nfiles := size_of_int (config_setting_lookup_int auto out ''nfiles'' 0),
                 ep_output_filename := (case config_setting_lookup_string out ''filename'' of None \<Rightarrow> None | Some v \<Rightarrow> v)\<rparr>)))))"

text \<open>\<open>epochs_init\<close>; its messages read the first source of every epoch.\<close>

definition epochs_init :: "codec \<Rightarrow> (string \<Rightarrow> nat \<Rightarrow> string) \<Rightarrow> config \<Rightarrow> units \<Rightarrow> files \<Rightarrow> config_t \<Rightarrow> epoch list res" where
  "epochs_init cod sprintf c u fs cf =
     (case found_at cf ''epochs'' of
        None \<Rightarrow> Inr []
      | Some lst \<Rightarrow>
          let auto = ct_auto cf; es = children lst
          in rbind (map_res (epochs_input cod sprintf c fs auto) es) (\<lambda>eps.
             rbind (map_res (epochs_duration c u auto es eps) [0..<length eps]) (\<lambda>ds.
             rbind (map_res (epochs_output c u auto) (zip es (map2 (\<lambda>ep d. ep\<lparr>ep_duration := d\<rparr>) eps ds))) (\<lambda>eps'.
               if list_ex (\<lambda>ep. ep_sources ep = []) eps' then Inl Out_of_bounds else Inr eps'))))"

section \<open>Schedules\<close>

text \<open>Steps that \<open>run_epoch\<close> meets one after the other.\<close>

definition scheduled :: "epoch \<Rightarrow> bool" where
  "scheduled ep \<longleftrightarrow> sorted_wrt (<) (ep_output_steps ep) \<and> (\<forall>t \<in> set (ep_output_steps ep). 0 \<le> t \<and> t \<le> int (ep_nticks ep))"

lemma children_elem: "i < config_setting_length s \<Longrightarrow> elem s i = Some (children s ! i)"
  "length (children s) = config_setting_length s"
  by (auto simp: elem_def config_setting_get_elem_def children_def config_setting_length_def split: setting.splits)

lemma unat_small64: "m < 2 ^ 64 \<Longrightarrow> unat (of_nat m :: 64 word) = m"
  by (simp add: unat_of_nat)

lemma sint_small64: "m < 2 ^ 63 \<Longrightarrow> sint (of_nat m :: 64 word) = int m"
  by (simp add: signed_of_nat signed_take_bit_int_eq_self)

text \<open>The number \<open>n\<close> of outputs that are spread over the ticks, when there are at least as many ticks.\<close>

lemma int_steps_even:
  assumes "0 \<le> n" "n \<le> int nticks" and "nticks * nat n < 2 ^ 63"
  shows "int_steps nticks n = Inr (map (\<lambda>j. int (nticks * (j + 1) div nat n)) [0..<nat n])"
proof -
  have "sint (of_nat nticks * of_nat (j + 1) div of_int n :: 64 word) = int (nticks * (j + 1) div nat n)" if j: "j < nat n" for j
  proof -
    have le: "nticks * (j + 1) \<le> nticks * nat n" using j by (intro mult_le_mono2) simp
    then have small: "nticks * (j + 1) < 2 ^ 64" using assms(3) by simp
    have pos: "0 < nat n" and nt: "nat n \<le> nticks" using j assms(1,2) by auto
    have le1: "1 * nat n \<le> nticks * nat n" by (rule mult_le_mono1) (use pos nt in simp)
    have n64: "nat n < 2 ^ 64" using order_le_less_trans [OF le1 assms(3)] by simp
    have w: "of_nat nticks * of_nat (j + 1) = (of_nat (nticks * (j + 1)) :: 64 word)" by (simp only: of_nat_mult)
    have d: "of_int n = (of_nat (nat n) :: 64 word)" using assms(1) by (simp add: of_nat_nat)
    let ?q = "nticks * (j + 1) div nat n"
    have q: "?q < 2 ^ 63" using le assms(3) by (rule_tac order_le_less_trans [OF div_le_dividend]) simp
    have "unat (of_nat (nticks * (j + 1)) :: 64 word) = nticks * (j + 1)" "unat (of_nat (nat n) :: 64 word) = nat n"
      using unat_small64 small n64 by blast+
    then have "unat (of_nat (nticks * (j + 1)) div of_nat (nat n) :: 64 word) = ?q" by (simp only: unat_div)
    then have e: "(of_nat (nticks * (j + 1)) div of_nat (nat n) :: 64 word) = of_nat ?q" using unat_small64 [OF order_less_le_trans [OF q]] by (simp add: word_unat_eq_iff del: of_nat_mult mult_Suc_right)
    show ?thesis unfolding w d e by (rule sint_small64 [OF q])
  qed
  then show ?thesis using assms(1) by (simp add: int_steps_def)
qed

lemma even_steps_scheduled:
  assumes "n \<le> nticks"
  shows "sorted_wrt (<) (map (\<lambda>j. int (nticks * (j + 1) div n)) [0..<n])"
    and "t \<in> set (map (\<lambda>j. int (nticks * (j + 1) div n)) [0..<n]) \<Longrightarrow> 0 \<le> t \<and> t \<le> int nticks"
    and "0 < n \<Longrightarrow> last (map (\<lambda>j. int (nticks * (j + 1) div n)) [0..<n]) = int nticks"
proof -
  have step: "nticks * (i + 1) div n < nticks * (j + 1) div n" if "i < j" "j < n" for i j
  proof -
    have "nticks * (i + 1) + n \<le> nticks * (i + 1) + nticks" using assms by simp
    also have "\<dots> = nticks * (i + 1 + 1)" by (simp add: algebra_simps)
    also have "\<dots> \<le> nticks * (j + 1)" using that by (intro mult_le_mono2) simp
    finally have "(nticks * (i + 1) + n) div n \<le> nticks * (j + 1) div n" by (rule div_le_mono)
    then show ?thesis using that by simp
  qed
  then show "sorted_wrt (<) (map (\<lambda>j. int (nticks * (j + 1) div n)) [0..<n])"
    by (auto simp: sorted_wrt_iff_nth_less)
  have "nticks * (j + 1) div n \<le> nticks" if "j < n" for j
  proof -
    have "nticks * (j + 1) \<le> nticks * n" using that by (intro mult_le_mono2) simp
    then have "nticks * (j + 1) div n \<le> nticks * n div n" by (rule div_le_mono)
    then show ?thesis using that by simp
  qed
  then show "t \<in> set (map (\<lambda>j. int (nticks * (j + 1) div n)) [0..<n]) \<Longrightarrow> 0 \<le> t \<and> t \<le> int nticks" by auto
  assume "0 < n"
  then obtain m where m: "n = Suc m" by (cases n) simp_all
  show "last (map (\<lambda>j. int (nticks * (j + 1) div n)) [0..<n]) = int nticks"
    unfolding m by (simp add: last_map del: upt_Suc mult_Suc_right)
qed

lemma epochs_output_scheduled:
  assumes "member e ''output'' = Some out" "member out ''steps'' = Some (SInt n)"
    and "0 \<le> n" "n \<le> int (ep_nticks ep)" "ep_nticks ep * nat n < 2 ^ 63"
  shows "\<exists>ep'. epochs_output c u auto (e, ep) = Inr ep' \<and> scheduled ep'
    \<and> ep_output_steps ep' = map (\<lambda>j. int (ep_nticks ep * (j + 1) div nat n)) [0..<nat n]
    \<and> ep_nticks ep' = ep_nticks ep \<and> ep_duration ep' = ep_duration ep \<and> (0 < n \<longrightarrow> last (ep_output_steps ep') = int (ep_nticks ep))"
proof -
  have "output_steps c u auto (ep_nticks ep) (ep_duration ep) (SInt n) = int_steps (ep_nticks ep) n"
    by (simp add: output_steps_def config_setting_get_int_def setting_get_int_def)
  then have "output_steps c u auto (ep_nticks ep) (ep_duration ep) (SInt n)
      = Inr (map (\<lambda>j. int (ep_nticks ep * (j + 1) div nat n)) [0..<nat n])"
    using int_steps_even [OF assms(3-5)] by simp
  moreover have "nat n \<le> ep_nticks ep" using assms(4) by simp
  ultimately show ?thesis
    using even_steps_scheduled [of "nat n" "ep_nticks ep"] assms(1,2) by (auto simp: epochs_output_def scheduled_def)
qed

lemma epochs_output_none: "member e ''output'' = None \<Longrightarrow> ep_output_steps ep = [] \<Longrightarrow> epochs_output c u auto (e, ep) = Inr ep \<and> scheduled ep"
  by (simp add: epochs_output_def scheduled_def)

end
