(* ===== verification/Startup.thy ===== *)
theory Startup
  imports Epochs Particle_Match Run_Epoch Sources
begin

text \<open>
  From the configuration to the last output: \<open>cfg_init\<close> of \<open>src/src/config.c\<close> (defaults, units, flags,
  tables, epochs), \<open>psystem_switch_epoch\<close> of \<open>src/src/psystem.c\<close> (box, particles, hotspots, sources, the
  initial output) and the loop over the epochs in \<open>main\<close>. The parts are composed as the code
  composes them; \<open>platform\<close> gathers what the libraries and the uninitialized memory decide. \<open>sm_outs\<close> is
  not in the code: it records every output, with its epoch and number, next to the files.

  The lemmas carry the shape of the particle system, its epoch and its tick through the switch to an
  epoch (\<open>at_start\<close>), from reading or matching to the sources; the property is that a run writes the
  outputs that are due (\<open>due_outputs\<close>), and only these, in order.
\<close>

unbundle bit_operations_syntax

section \<open>What the model takes from outside\<close>

text \<open>
  The libraries and the contents of memory that is not initialized: the encoding of floating point
  numbers in files, \<open>asprintf\<close> with a number, text files by name, \<open>gsl_heapsort_index\<close>,
  \<open>gsl_eigen_symmv\<close>, the random numbers and the state a seed gives, the integrator, the conversion of a
  \<open>double\<close> that is too large, the table of the smoothing kernel; then fresh memory of each kind, and the room for the
  tree (\<open>rt_room\<close>).
\<close>

record 'g platform =
  pf_codec :: codec
  pf_sprintf :: "string \<Rightarrow> nat \<Rightarrow> string"
  pf_text :: "string \<Rightarrow> text_file"
  pf_heapsort :: "int list \<Rightarrow> nat list"
  pf_eigen :: "real list \<Rightarrow> vec3 \<times> vec3"
  pf_rng :: "'g rng"
  pf_seed :: "int \<Rightarrow> 'g"
  pf_lsoda :: lsoda
  pf_conv :: "real \<Rightarrow> nat"
  pf_kernel :: "real list"
  pf_bufsize :: nat
  pf_cells :: "nat \<Rightarrow> nat \<Rightarrow> real"
  pf_particles :: "nat \<Rightarrow> particle"
  pf_sources :: "nat \<Rightarrow> source"
  pf_links :: "nat \<Rightarrow> nat option"
  pf_heads :: "nat \<Rightarrow> int"
  pf_nexts :: "nat \<Rightarrow> int"
  pf_mask :: "32 word list"
  pf_room :: nat

section \<open>Reading the configuration\<close>

text \<open>The constants that the units depend on.\<close>

definition cfg_constants :: "config_t \<Rightarrow> (config_t \<times> config) res" where
  "cfg_constants cf =
     (let c = config_defaults; hmf = config_lookup_float cf ''cosmology.hmf'' (c_hmf c); hemf = db (1 - hmf)
      in rbind (config_ensure_float ''cosmology.hemf'' hemf cf) (\<lambda>cf'.
           Inr (cf', c\<lparr>c_h := config_lookup_float cf' ''cosmology.h'' (c_h c), c_hmf := hmf,
             c_hemf := config_lookup_float cf' ''cosmology.hemf'' hemf,
             c_omega_l := config_lookup_float cf' ''cosmology.omegaL'' (c_omega_l c),
             c_omega_m := config_lookup_float cf' ''cosmology.omegaM'' (c_omega_m c),
             c_omega_b := config_lookup_float cf' ''cosmology.omegaB'' (c_omega_b c),
             c_1_cmh := config_lookup_float cf' ''units.lengthCMh'' (c_1_cmh c),
             c_1_gramh := config_lookup_float cf' ''units.massGramh'' (c_1_gramh c),
             c_1_sech := config_lookup_float cf' ''units.timeSh'' (c_1_sech c)\<rparr>)))"

text \<open>The flags of the run. Nothing looks \<open>psphray.octtree.particlesPerCell\<close> up.\<close>

definition cfg_flags :: "config_t \<Rightarrow> config \<Rightarrow> config" where
  "cfg_flags cf c =
     c\<lparr>cfg_write_init := config_lookup_bool cf ''psphray.writeInit'' (cfg_write_init c),
       cfg_on_the_spot := config_lookup_bool cf ''psphray.onTheSpot'' (cfg_on_the_spot c),
       cfg_isothermal := config_lookup_bool cf ''psphray.isothermal'' (cfg_isothermal c),
       cfg_adiabatic := config_lookup_bool cf ''psphray.adiabatic'' (cfg_adiabatic c),
       cfg_dump_hotspots := config_lookup_bool cf ''psphray.dumpHotspots'' (cfg_dump_hotspots c),
       cfg_trace_only := config_lookup_bool cf ''psphray.traceOnly'' (cfg_trace_only c),
       cfg_no_photon := config_lookup_bool cf ''psphray.noPhoton'' (cfg_no_photon c),
       cfg_h_only := config_lookup_bool cf ''psphray.HOnly'' (cfg_h_only c),
       cfg_secondary_ionization := config_lookup_bool cf ''psphray.secondaryIonization'' (cfg_secondary_ionization c),
       cfg_comoving := config_lookup_bool cf ''cosmology.comoving'' (cfg_comoving c),
       cfg_disable_lte := config_lookup_bool cf ''psphray.disableLTE'' (cfg_disable_lte c),
       cfg_print_rays := config_lookup_bool cf ''psphray.printRays'' (cfg_print_rays c),
       cfg_fake_temperature := config_lookup_float cf ''psphray.fakeTemperature'' (cfg_fake_temperature c),
       cfg_eos_cloud_temperature := config_lookup_float cf ''psphray.eos.cloudTemperature'' (cfg_eos_cloud_temperature c),
       cfg_recombine_threshold := config_lookup_float cf ''psphray.recombineThreshold'' (cfg_recombine_threshold c),
       cfg_boost_source_factor := config_lookup_float cf ''psphray.boostSourceFactor'' (cfg_boost_source_factor c)\<rparr>"

definition secion_zero :: secion where
  "secion_zero = \<lparr>si_tab = tabfun2_zero, SECION_PHI_HI = 0, SECION_PHI_HEI = 0, SECION_EH = 0\<rparr>"

definition eos_zero :: eos_state where
  "eos_zero = \<lparr>eos_tab = tabfun_zero, EOS_X = 0, EOS_EGYHOT = 0\<rparr>"

definition CFG_SEED :: int where "CFG_SEED = 123456"

record 'g run =
  rn_platform :: "'g platform"
  rn_env :: "'g env"
  rn_tree :: config_t
  rn_epochs :: "epoch list"

text \<open>
  \<open>cfg_init\<close> on the tree that libconfig parsed, \<open>None\<close> when it reported an error. The table of cross
  sections is looked up as \<open>psphray.xsfilename\<close>, although the default is for \<open>psphray.crossSections\<close>.
\<close>

definition cfg_init :: "'g platform \<Rightarrow> files \<Rightarrow> config_t option \<Rightarrow> ('g run \<times> 'g) res" where
  "cfg_init P fs parsed = (case parsed of
       None \<Rightarrow> Inl (Trap ''config error'')
     | Some cf0 \<Rightarrow>
         rbind (ensure_defaults (cfg_schema config_defaults CFG_SEED) (cf0\<lparr>ct_auto := True\<rparr>)) (\<lambda>cf1.
         rbind (cfg_constants cf1) (\<lambda>(cf, c0).
           let seed = config_lookup_int64 cf ''psphray.seed'' CFG_SEED; u = units_init db c0; c1 = cfg_flags cf c0;
               eosfilename = config_lookup_string cf ''psphray.eos.filename'' None;
               c = c1\<lparr>cfg_enable_eos := eosfilename \<noteq> None\<rparr>
           in case config_lookup_string cf ''psphray.atomicRates'' None of
                None \<Rightarrow> Inl Out_of_bounds
              | Some arfilename \<Rightarrow>
                  rbind (ar_init (pf_cells P) (pf_bufsize P) u (pf_text P arfilename) atomic_start) (\<lambda>a1.
                  rbind (xs_init (pf_cells P) (pf_bufsize P) u
                    (map_option (pf_text P) (config_lookup_string cf ''psphray.xsfilename'' None)) a1) (\<lambda>a.
                  rbind (case eosfilename of
                      None \<Rightarrow> Inr eos_zero
                    | Some f \<Rightarrow> eos_init (pf_cells P) (pf_bufsize P) (pf_text P f)) (\<lambda>eos.
                  rbind (lte_init u a) (\<lambda>ltes.
                  rbind (spec_init 65536 (pf_text P) c u cf) (\<lambda>specs.
                  rbind (if cfg_secondary_ionization c then secion_init u else Inr secion_zero) (\<lambda>si.
                  rbind (epochs_init (pf_codec P) (pf_sprintf P) c u fs cf) (\<lambda>eps.
                    Inr (\<lparr>rn_platform = P,
                      rn_env = \<lparr>e_config = c, e_units = u, e_specs = specs, e_ltes = ltes,
                        e_physics = \<lparr>ph_atomic = a, ph_secion = si, ph_eos = eos, ph_kernel = pf_kernel P\<rparr>,
                        e_rng = pf_rng P, e_conv = pf_conv P, e_lsoda = pf_lsoda P\<rparr>,
                      rn_tree = cf, rn_epochs = eps\<rparr>, pf_seed P seed)))))))))))"

section \<open>Switching to an epoch\<close>

definition read_hotspot :: "config \<Rightarrow> units \<Rightarrow> bool \<Rightarrow> setting \<Rightarrow> (vec3 \<times> real) res" where
  "read_hotspot c u auto h = (case elem h 0 of
       None \<Rightarrow> Inl Out_of_bounds
     | Some mid \<Rightarrow>
         rbind (config_setting_parse_units_elem c u auto mid 0) (\<lambda>x.
         rbind (config_setting_parse_units_elem c u auto mid 1) (\<lambda>y.
         rbind (config_setting_parse_units_elem c u auto mid 2) (\<lambda>z.
           case elem h 1 of
             None \<Rightarrow> Inl Out_of_bounds
           | Some radius \<Rightarrow> rbind (config_setting_parse_units c u auto radius) (\<lambda>r.
               case (x, y, z) of (Some x, Some y, Some z) \<Rightarrow> Inr ((x, y, z), r) | _ \<Rightarrow> Inl Out_of_bounds)))))"

definition read_hotspots :: "config \<Rightarrow> units \<Rightarrow> config_t \<Rightarrow> (vec3 \<times> real) list res" where
  "read_hotspots c u cf = (case found_at cf ''psphray.hotspots'' of
       None \<Rightarrow> Inr []
     | Some hs \<Rightarrow> map_res (read_hotspot c u (ct_auto cf)) (children hs))"

definition switch_box :: "config_t \<Rightarrow> constants \<Rightarrow> psystem \<Rightarrow> psystem res" where
  "switch_box cf k s =
     (let box = config_lookup_float cf ''box.boxsize'' (psys_boxsize s);
          s' = s\<lparr>psys_boxsize := if box = - 1 then rc_boxsize k else box\<rparr>
      in case config_lookup_string cf ''box.boundary'' None of
           None \<Rightarrow> Inl Out_of_bounds
         | Some b \<Rightarrow>
             if b = ''vaccum'' then Inr (s'\<lparr>psys_periodic := False\<rparr>)
             else if b = ''periodic'' then Inr (s'\<lparr>psys_periodic := True\<rparr>)
             else Inl (Trap ''boundary type unknown''))"

text \<open>The times of the last hits, in ticks before the start of the epoch.\<close>

definition rescale_lasthit :: "epoch \<Rightarrow> psystem \<Rightarrow> psystem res" where
  "rescale_lasthit prev s =
     rbind (fdiv db (ep_duration prev) (db (real (ep_nticks prev)))) (\<lambda>last_ticktime.
     rbind (map_res (\<lambda>i.
         rbind (fdiv db (db (db (db (of_int (psys_lasthit s ! i)) * last_ticktime) - ep_duration prev)) (psys_tick_time s)) (\<lambda>q.
           Inr (trunc q))) [0..<psys_npar s]) (\<lambda>hits.
       Inr (s\<lparr>psys_lasthit := hits @ drop (psys_npar s) (psys_lasthit s)\<rparr>)))"

definition switch_particles :: "'g run \<Rightarrow> nat \<Rightarrow> constants \<Rightarrow> psystem \<Rightarrow> files \<Rightarrow> psystem res option" where
  "switch_particles rn i k s fs =
     (let P = rn_platform rn; c = e_config (rn_env rn)
      in if i = 0 then
           Some (rbind (psystem_read_epoch (pf_codec P) (pf_sprintf P) c fs k s) (\<lambda>s'.
             Inr (s'\<lparr>psys_idhash_head := Some (pf_heads P), psys_idhash_next := map (pf_nexts P) [0..<psys_npar_max s']\<rparr>)))
         else
           map_option (\<lambda>r. rbind r (rescale_lasthit (rn_epochs rn ! (i - 1))))
             (psystem_match_epoch (pf_codec P) (pf_sprintf P) c fs k s))"

definition switch_tidy :: "'g run \<Rightarrow> psystem \<Rightarrow> psystem res" where
  "switch_tidy rn s =
     (let P = rn_platform rn; c = e_config (rn_env rn); u = e_units (rn_env rn)
      in rbind (compress s) (\<lambda>s1.
         rbind (read_hotspots c u (rn_tree rn)) (\<lambda>hotspots.
         rbind (hilbert_reorder (pf_heapsort P) (pf_particles P) (setup_hotspots hotspots s1)) (\<lambda>s2.
           psystem_read_source (pf_sources P) (pf_eigen P) (pf_text P) c u (e_specs (rn_env rn)) s2))))"

definition psystem_switch_epoch :: "'g run \<Rightarrow> nat \<Rightarrow> psystem \<Rightarrow> files \<Rightarrow> (psystem \<times> files) res option" where
  "psystem_switch_epoch rn i s fs =
     (let P = rn_platform rn; c = e_config (rn_env rn); ep = rn_epochs rn ! i
      in case rbind (fdiv db (ep_duration ep) (db (real (ep_nticks ep)))) (\<lambda>tick_time.
              rbind (open_constants (pf_codec P) fs (ep_format ep) (reader_make_filename (pf_sprintf P) (ep_snapshot ep) 0)) (\<lambda>k.
              rbind (switch_box (rn_tree rn) k (s\<lparr>psys_epoch := ep, psys_tick := 0, psys_tick_time := tick_time\<rparr>)) (\<lambda>s1.
                Inr (k, s1)))) of
           Inl err \<Rightarrow> Some (Inl err)
         | Inr (k, s1) \<Rightarrow>
             map_option (\<lambda>r. rbind r (\<lambda>s2. rbind (switch_tidy rn s2) (\<lambda>s3.
               if cfg_write_init c
               then rbind (psystem_write_output (pf_codec P) (pf_sprintf P) c 0 s3 fs) (\<lambda>fs'. Inr (s3, fs'))
               else Inr (s3, fs))))
             (switch_particles rn i k s1 fs))"

section \<open>The run\<close>

text \<open>The state of a run, with the outputs so far: epoch, number and the system that was written.\<close>

record 'g sim =
  sm_loop :: "'g loop"
  sm_rt :: raytrace
  sm_files :: files
  sm_outs :: "(nat \<times> nat \<times> psystem) list"

fun write_outputs :: "'g run \<Rightarrow> (nat \<times> psystem) list \<Rightarrow> files \<Rightarrow> files res" where
  "write_outputs rn [] fs = Inr fs"
| "write_outputs rn ((k, s) # outs) fs =
     rbind (psystem_write_output (pf_codec (rn_platform rn)) (pf_sprintf (rn_platform rn)) (e_config (rn_env rn)) k s fs)
       (write_outputs rn outs)"

definition switched :: "'g run \<Rightarrow> nat \<Rightarrow> 'g sim \<Rightarrow> psystem \<times> files \<Rightarrow> 'g sim" where
  "switched rn i m = (\<lambda>(s, fs). m\<lparr>sm_loop := (sm_loop m)\<lparr>l_psys := s\<rparr>, sm_files := fs,
     sm_outs := sm_outs m @ (if cfg_write_init (e_config (rn_env rn)) then [(i, 0, s)] else [])\<rparr>)"

definition run_switched :: "'g run \<Rightarrow> nat \<Rightarrow> 'g sim \<Rightarrow> 'g sim res option" where
  "run_switched rn i m =
     (let s = l_psys (sm_loop m)
      in if ep_duration (psys_epoch s) \<le> 0 then Some (Inr m)
         else case rt_switch_epoch (cfg_octtree_ppc (e_config (rn_env rn))) (int i) s (pf_links (rn_platform rn)) (sm_rt m) of
             None \<Rightarrow> None
           | Some (Inl err) \<Rightarrow> Some (Inl err)
           | Some (Inr rt) \<Rightarrow>
               map_option (\<lambda>r. rbind r (\<lambda>(l, outs). rbind (write_outputs rn outs (sm_files m)) (\<lambda>fs.
                   Inr \<lparr>sm_loop = l, sm_rt = rt, sm_files = fs, sm_outs = sm_outs m @ map (Pair i) outs\<rparr>)))
                 (run_epoch (rn_env rn) rt (pf_mask (rn_platform rn)) (sm_loop m)))"

definition epoch_pass :: "'g run \<Rightarrow> nat \<Rightarrow> 'g sim \<Rightarrow> 'g sim res option" where
  "epoch_pass rn i m = (case psystem_switch_epoch rn i (l_psys (sm_loop m)) (sm_files m) of
       None \<Rightarrow> None
     | Some (Inl err) \<Rightarrow> Some (Inl err)
     | Some (Inr sf) \<Rightarrow> run_switched rn i (switched rn i m sf))"

fun epoch_passes :: "'g run \<Rightarrow> nat list \<Rightarrow> 'g sim \<Rightarrow> 'g sim res option" where
  "epoch_passes rn [] m = Some (Inr m)"
| "epoch_passes rn (i # is) m = (case epoch_pass rn i m of
       None \<Rightarrow> None
     | Some (Inl err) \<Rightarrow> Some (Inl err)
     | Some (Inr m') \<Rightarrow> epoch_passes rn is m')"

text \<open>The static variables before the run: zeros and null pointers, and \<open>mxstep\<close>.\<close>

definition epoch_zero :: epoch where
  "epoch_zero = \<lparr>ep_redshift = 0, ep_age = 0, ep_duration = 0, ep_packet_size = 0, ep_ngas = 0, ep_nticks = 0, ep_nray = 0,
     ep_nrec = 0, ep_sources = [], ep_snapshot = [], ep_format = [], ep_output_steps = [], ep_output_nfiles = 0,
     ep_output_filename = None\<rparr>"

definition psys_zero :: psystem where
  "psys_zero = (psys_of [] 0)\<lparr>psys_idhash_head := None, psys_tick_time := 0, psys_epoch := epoch_zero\<rparr>"

definition sim_start :: "nat \<Rightarrow> 'g \<Rightarrow> files \<Rightarrow> 'g sim" where
  "sim_start room g fs =
     \<lparr>sm_loop = \<lparr>l_psys = psys_zero, l_block = [], l_r_length = 0, l_active_set = [], l_x_src_length = 0,
        l_active = \<lparr>bm_bits = 0, bm_bits_alloc = 0, bm_bytes = 0, bm_length = 0, bm_data = []\<rparr>,
        l_stat = stat_zero, l_rng = g, l_mxstep = 1000\<rparr>,
      sm_rt = \<lparr>rt_next = [], rt_pool = [], rt_pool_size = 0, rt_room = room\<rparr>, sm_files = fs, sm_outs = []\<rparr>"

text \<open>\<open>main\<close> after its options, with the parsed configuration and the first epoch.\<close>

definition psphray_main :: "'g platform \<Rightarrow> files \<Rightarrow> config_t option \<Rightarrow> int \<Rightarrow> ('g run \<times> 'g sim) res option" where
  "psphray_main P fs parsed start = (case cfg_init P fs parsed of
       Inl err \<Rightarrow> Some (Inl err)
     | Inr (rn, g) \<Rightarrow>
         if start < 0 then Some (Inl Out_of_bounds)
         else map_option (\<lambda>r. rbind r (\<lambda>m. Inr (rn, m)))
           (epoch_passes rn [nat start..<length (rn_epochs rn)] (sim_start (pf_room P) g fs)))"

section \<open>What switching to an epoch keeps\<close>

text \<open>A well-formed system at the start of an epoch.\<close>

definition at_start :: "epoch \<Rightarrow> psystem \<Rightarrow> bool" where
  "at_start ep s \<longleftrightarrow> psys_ok s \<and> psys_epoch s = ep \<and> psys_tick s = 0"

lemma at_start_frame:
  assumes "at_start ep s" and "psys_epoch s' = psys_epoch s" "psys_tick s' = psys_tick s" and "psys_ok s \<Longrightarrow> psys_ok s'"
  shows "at_start ep s'"
  using assms by (simp add: at_start_def)

text \<open>The items that were read, if any, are as many as the file has particles.\<close>

definition items_fit :: "nat \<Rightarrow> 'a list option \<Rightarrow> bool" where
  "items_fit n items \<longleftrightarrow> (\<forall>bs. items = Some bs \<longrightarrow> length bs = n)"

lemma reader_items_frame:
  assumes "reader_items F cod r blk p cap = Inr (items, r')"
  shows "reader_npar r' q = reader_npar r q" and "items_fit (reader_npar r p) items"
  using assms by (auto simp: reader_items_def reader_read_def rbind_Inr_iff reader_npar_def items_fit_def split: if_split_asm)

lemma store_items_length:
  assumes "items_fit n items" and "n \<le> length xs - k"
  shows "length (store_items k dec items xs) = length xs"
  using assms by (cases items) (auto simp: store_items_def items_fit_def)

lemma start_ionization_only:
  assumes "start_ionization c k x s = Inr t"
  shows "abundances_only s t"
proof -
  obtain s2 y where s2: "(if cfg_h_only c then Inr (psys_set_lambdaH k x (db (1 - x)) s, fdim db (psys_yeMET s ! k) (db (1 - x)))
      else helium_start c k (fdim db (psys_yeMET s ! k) (db (1 - x))) (psys_set_lambdaH k x (db (1 - x)) s)) = Inr (s2, y)"
    and t: "t = s2\<lparr>psys_yeMET := (psys_yeMET s2)[k := fl y]\<rparr>"
    using assms by (auto simp: start_ionization_def Let_def rbind_Inr_iff split: if_split_asm)
  have "abundances_only s s2"
  proof (cases "cfg_h_only c")
    case True
    then have "s2 = psys_set_lambdaH k x (db (1 - x)) s" using s2 by simp
    then show ?thesis
      using abundances_onlyI [of _ s "psys_lambdaHeI s" "psys_lambdaHeII s" "psys_yeMET s"] by (simp add: psys_set_lambdaH_def)
  next
    case False
    then show ?thesis
      using s2 abundances_onlyI [of _ s _ _ "psys_yeMET s"]
      by (auto simp: helium_start_def Let_def rbind_Inr_iff psys_set_lambdaH_def psys_set_lambdaHe_def)
  qed
  moreover have "abundances_only s2 t"
    using abundances_onlyI [of "psys_lambdaH s2" s2 "psys_lambdaHeI s2" "psys_lambdaHeII s2" "(psys_yeMET s2)[k := fl y]"] by (simp add: t)
  ultimately show ?thesis by (rule abundances_only_trans)
qed

lemma start_ionizations_only: "start_ionizations c k xs s = Inr t \<Longrightarrow> abundances_only s t"
proof (induction xs arbitrary: k s)
  case (Cons x xs)
  then show ?case using abundances_only_trans start_ionization_only by (fastforce simp: rbind_Inr_iff)
qed (simp add: abundances_only_refl)

lemma abundances_tick: "abundances_only s t \<Longrightarrow> psys_tick t = psys_tick s"
  by (auto simp: abundances_only_def)

lemma unless_Inl: "(if b then Inl err else r) = Inr y \<longleftrightarrow> \<not> b \<and> r = Inr y"
  by simp

lemma read_epoch_file_parts:
  assumes "read_epoch_file F cod c fs fname nread s = Inr (n, s')"
  shows "\<exists>r r1 r2 r3 r4 r5 r6 r7 r8 pos mass sml rho ie ye xHI isz ids s2.
    reader_items F cod r ''pos'' 0 (psys_npar_max s - nread) = Inr (pos, r1)
    \<and> reader_items F cod r1 ''mass'' 0 (psys_npar_max s - nread) = Inr (mass, r2)
    \<and> reader_items F cod r2 ''sml'' 0 (psys_npar_max s - nread) = Inr (sml, r3)
    \<and> reader_items F cod r3 ''rho'' 0 (psys_npar_max s - nread) = Inr (rho, r4)
    \<and> reader_items F cod r4 ''ie'' 0 (psys_npar_max s - nread) = Inr (ie, r5)
    \<and> reader_items F cod r5 ''ye'' 0 (psys_npar_max s - nread) = Inr (ye, r6)
    \<and> reader_items F cod r6 ''xHI'' 0 (reader_npar r6 0) = Inr (xHI, r7)
    \<and> reader_items F cod r7 ''id'' 0 (psys_npar_max s - nread) = Inr (ids, r8)
    \<and> \<not> psys_npar_max s - nread < reader_npar r7 0
    \<and> start_ionizations c nread (store_items 0 (float_of cod) xHI (replicate (reader_npar r7 0) 0)) (store_gas cod nread pos mass sml rho ie ye s) = Inr s2
    \<and> s' = s2\<lparr>psys_id := store_items nread (id_of isz) ids (psys_id s2)\<rparr>"
proof -
  note read = assms [unfolded read_epoch_file_def Let_def store_gas_def [symmetric] rbind_Inr_iff split_paired_Ex prod.case unless_Inl prod.inject sum.inject]
  from read show ?thesis by (elim exE conjE, intro exI conjI) (assumption+, erule sym)
qed

lemma read_file_at_start:
  assumes "read_epoch_file F cod c fs fname nread s = Inr (n, s')" and "at_start ep s"
  shows "at_start ep s' \<and> psys_npar_max s' = psys_npar_max s"
proof -
  obtain r r1 r2 r3 r4 r5 r6 r7 r8 pos mass sml rho ie ye xHI isz ids s2 where
      it: "reader_items F cod r ''pos'' 0 (psys_npar_max s - nread) = Inr (pos, r1)"
        "reader_items F cod r1 ''mass'' 0 (psys_npar_max s - nread) = Inr (mass, r2)"
        "reader_items F cod r2 ''sml'' 0 (psys_npar_max s - nread) = Inr (sml, r3)"
        "reader_items F cod r3 ''rho'' 0 (psys_npar_max s - nread) = Inr (rho, r4)"
        "reader_items F cod r4 ''ie'' 0 (psys_npar_max s - nread) = Inr (ie, r5)"
        "reader_items F cod r5 ''ye'' 0 (psys_npar_max s - nread) = Inr (ye, r6)"
        "reader_items F cod r6 ''xHI'' 0 (reader_npar r6 0) = Inr (xHI, r7)"
        "reader_items F cod r7 ''id'' 0 (psys_npar_max s - nread) = Inr (ids, r8)"
      and room: "\<not> psys_npar_max s - nread < reader_npar r7 0"
      and ion: "start_ionizations c nread (store_items 0 (float_of cod) xHI (replicate (reader_npar r7 0) 0))
        (store_gas cod nread pos mass sml rho ie ye s) = Inr s2"
      and s': "s' = s2\<lparr>psys_id := store_items nread (id_of isz) ids (psys_id s2)\<rparr>"
    using read_epoch_file_parts [OF assms(1)] by (elim exE conjE) (rule that)
  have ok: "arrays_length s (psys_npar_max s)" "psys_npar s \<le> psys_npar_max s" using assms(2) by (simp_all add: at_start_def psys_ok_def)
  have np: "reader_npar r 0 = reader_npar r7 0" "reader_npar r1 0 = reader_npar r7 0" "reader_npar r2 0 = reader_npar r7 0"
      "reader_npar r3 0 = reader_npar r7 0" "reader_npar r4 0 = reader_npar r7 0" "reader_npar r5 0 = reader_npar r7 0"
    using it(1-7) [THEN reader_items_frame(1), of 0] by simp_all
  have fits: "reader_npar r7 0 \<le> psys_npar_max s - nread" using room by simp
  note len = it(1-6) [THEN reader_items_frame(2), unfolded np, THEN store_items_length]
  have arr: "arrays_length (store_gas cod nread pos mass sml rho ie ye s) (psys_npar_max s)"
    using ok(1) fits unfolding store_gas_def arrays_length_def by (simp add: len)
  note ab = start_ionizations_only [OF ion]
  have s2: "arrays_length s2 (psys_npar_max s)" "psys_npar s2 = psys_npar s" "psys_npar_max s2 = psys_npar_max s" "psys_epoch s2 = psys_epoch s"
      "psys_tick s2 = psys_tick s"
    using abundances_only_fields(7-10) [OF ab] arr abundances_tick [OF ab] by (simp_all add: store_gas_def)
  have "length (psys_id s2) = psys_npar_max s" using s2(1) by (simp add: arrays_length_def)
  then have "length (store_items nread (id_of isz) ids (psys_id s2)) = psys_npar_max s"
    using fits by (simp add: store_items_length [OF it(8) [THEN reader_items_frame(2)]])
  then have "psys_ok s'" using s2 ok(2) by (simp add: s' psys_ok_def arrays_length_def)
  then show ?thesis using assms(2) s2 by (simp add: at_start_def s')
qed

lemma read_files_at_start:
  "read_epoch_files F cod c fs fname fids nread s = Inr s' \<Longrightarrow> at_start ep s \<Longrightarrow> at_start ep s'"
proof (induction fids arbitrary: nread s)
  case (Cons fid fids)
  then show ?case using read_file_at_start by (auto simp: rbind_Inr_iff) blast
qed simp

lemma read_epoch_at_start:
  assumes "psystem_read_epoch cod sprintf c fs k s = Inr s'" and "psys_epoch s = ep" "psys_tick s = 0" "ep_ngas ep \<le> 2 ^ 53"
  shows "at_start ep s'"
proof -
  have "at_start ep (alloc_epoch s)"
    using alloc_epoch_fields [of s] epoch_room_enough [of "ep_ngas ep"] assms(2-4)
    by (simp add: at_start_def psys_ok_def) (simp add: alloc_epoch_def Let_def)
  then show ?thesis
    using assms(1) by (auto simp: psystem_read_epoch_def Let_def split: if_split_asm intro: read_files_at_start)
qed

lemma map_res_length: "map_res f xs = Inr ys \<Longrightarrow> length ys = length xs"
  by (induction xs arbitrary: ys) (auto simp: rbind_Inr_iff)

lemma psys_ok_lasthit: "length xs = psys_npar_max s \<Longrightarrow> psys_ok s \<Longrightarrow> psys_ok (s\<lparr>psys_lasthit := xs\<rparr>)"
  by (simp add: psys_ok_def arrays_length_def)

lemma rescale_at_start:
  assumes "rescale_lasthit prev s = Inr s'" and "at_start ep s"
  shows "at_start ep s'"
proof -
  obtain hits where hits: "length hits = psys_npar s" "s' = s\<lparr>psys_lasthit := hits @ drop (psys_npar s) (psys_lasthit s)\<rparr>"
  proof -
    from assms(1) [unfolded rescale_lasthit_def rbind_Inr_iff] obtain lt hits where
        hits: "map_res (\<lambda>i. rbind (fdiv db (db (db (db (of_int (psys_lasthit s ! i)) * lt) - ep_duration prev)) (psys_tick_time s)) (\<lambda>q. Inr (trunc q)))
          [0..<psys_npar s] = Inr hits"
        and s': "Inr (s\<lparr>psys_lasthit := hits @ drop (psys_npar s) (psys_lasthit s)\<rparr>) = (Inr s' :: psystem res)"
      by (elim exE conjE) (rule that)
    have n: "length hits = psys_npar s" using map_res_length [OF hits] by simp
    show ?thesis by (rule that [OF n Inr_inject [OF s', symmetric]])
  qed
  have "psys_ok s" "length (psys_lasthit s) = psys_npar_max s" "psys_npar s \<le> psys_npar_max s"
    using assms(2) by (simp_all add: at_start_def psys_ok_def arrays_length_def)
  then have "psys_ok s'" unfolding hits(2) by (intro psys_ok_lasthit) (simp_all add: hits(1))
  then show ?thesis using assms(2) by (simp add: at_start_def hits(2))
qed

lemma switch_particles_at_start:
  assumes "switch_particles rn i k s fs = Some (Inr s')" and "at_start ep s" "ep_ngas ep \<le> 2 ^ 53"
  shows "at_start ep s'"
proof (cases "i = 0")
  case True
  then obtain t where t: "psystem_read_epoch (pf_codec (rn_platform rn)) (pf_sprintf (rn_platform rn)) (e_config (rn_env rn)) fs k s = Inr t"
      and s': "s' = t\<lparr>psys_idhash_head := Some (pf_heads (rn_platform rn)), psys_idhash_next := map (pf_nexts (rn_platform rn)) [0..<psys_npar_max t]\<rparr>"
    using assms(1) by (auto simp: switch_particles_def Let_def rbind_Inr_iff)
  have "at_start ep t" by (rule read_epoch_at_start [OF t]) (use assms(2,3) in \<open>simp_all add: at_start_def\<close>)
  then show ?thesis by (rule at_start_frame) (simp_all add: s' psys_ok_def arrays_length_def)
next
  case False
  then obtain t where t: "psystem_match_epoch (pf_codec (rn_platform rn)) (pf_sprintf (rn_platform rn)) (e_config (rn_env rn)) fs k s = Some (Inr t)"
      and s': "rescale_lasthit (rn_epochs rn ! (i - 1)) t = Inr s'"
    using assms(1) by (auto simp: switch_particles_def Let_def rbind_Inr_iff)
  have "at_start ep t" using match_epoch_started [OF _ t] assms(2) by (simp add: at_start_def)
  then show ?thesis by (rule rescale_at_start [OF s'])
qed

lemma compress_loop_clock:
  "compress_loop i j s = (j', s') \<Longrightarrow> psys_epoch s' = psys_epoch s \<and> psys_tick s' = psys_tick s"
proof (induction i j s rule: compress_loop.induct)
  case (1 i j s)
  have "psys_epoch (psys_swap i j s) = psys_epoch s" "psys_tick (psys_swap i j s) = psys_tick s" by (simp_all add: psys_swap_def)
  then show ?case using 1 by (subst (asm) (3) compress_loop.simps) (auto simp: Let_def split: if_split_asm)
qed

lemma compress_at_start:
  assumes "compress s = Inr s'" and "at_start ep s"
  shows "at_start ep s'"
proof -
  have ok: "psys_ok s" using assms(2) by (simp add: at_start_def)
  have n: "0 < psys_npar s" using assms(1) by (cases "psys_npar s = 0") (simp_all add: compress_def)
  obtain i where i: "i < psys_npar s" "\<not> invalid s i" using compress_none_valid [OF n] assms(1) by auto
  obtain t where "compress s = Inr t" "psys_ok t" using compress_result [OF ok i] by blast
  then have "psys_ok s'" using assms(1) by simp
  moreover have "psys_epoch s' = psys_epoch s \<and> psys_tick s' = psys_tick s"
  proof -
    obtain j t where loop: "compress_loop 0 (last_valid s 0 (psys_npar s - Suc 0)) s = (j, t)" by fastforce
    have "s' = t\<lparr>psys_npar := j + 1\<rparr>" using assms(1) by (auto simp: compress_def Let_def loop rbind_Inr_iff split: if_split_asm)
    then show ?thesis using compress_loop_clock [OF loop] by simp
  qed
  ultimately show ?thesis using at_start_frame [OF assms(2)] by simp
qed

lemma mark_hotspot_at_start: "at_start ep s \<Longrightarrow> at_start ep (mark_hotspot h s)"
  by (rule at_start_frame) (simp_all add: mark_hotspot_def psys_ok_def arrays_length_def split_beta)

lemma setup_hotspots_at_start:
  assumes "at_start ep s" shows "at_start ep (setup_hotspots hs s)"
proof -
  have "at_start ep (fold mark_hotspot hs t)" if "at_start ep t" for t
    using that by (induction hs arbitrary: t) (simp_all add: mark_hotspot_at_start)
  moreover have "at_start ep (s\<lparr>psys_flag := map (\<lambda>i. if i < psys_npar s then psys_flag s ! i AND NOT PF_HOTSPOT
      else psys_flag s ! i) [0..<length (psys_flag s)]\<rparr>)"
    by (rule at_start_frame [OF assms]) (simp_all add: psys_ok_def arrays_length_def)
  ultimately show ?thesis by (simp add: setup_hotspots_def)
qed

lemma permute_same:
  assumes "permute p xs n m f = Inr ys" and "length zs = length xs"
  shows "permute p zs n m g = Inr (map (\<lambda>i. zs ! (p ! i)) [0..<n] @ map g [n..<m])"
  using assms by (auto simp: permute_def split: if_split_asm)

lemma hilbert_reorder_at_start:
  assumes "hilbert_reorder hsort fresh s = Inr s'" and "at_start ep s"
  shows "at_start ep s'"
proof -
  define perm where "perm = hsort (map (\<lambda>i. sint (reorder_key (reorder_fac s) (psys_pos s ! i))) [0..<psys_npar s])"
  have s': "permute_all perm fresh s = Inr s'" using assms(1) by (simp add: hilbert_reorder_def perm_def)
  have ok: "arrays_length s (psys_npar_max s)" "psys_npar s \<le> psys_npar_max s" using assms(2) by (simp_all add: at_start_def psys_ok_def)
  obtain ys where pos: "permute perm (psys_pos s) (psys_npar s) (psys_npar_max s) (\<lambda>k. par_pos (fresh k)) = Inr ys"
    using s' unfolding permute_all_def Let_def by (cases "permute perm (psys_pos s) (psys_npar s) (psys_npar_max s) (\<lambda>k. par_pos (fresh k))") simp_all
  have "arrays_length s' (psys_npar_max s) \<and> psys_npar s' = psys_npar s \<and> psys_npar_max s' = psys_npar_max s
    \<and> psys_epoch s' = psys_epoch s \<and> psys_tick s' = psys_tick s"
    using s' ok unfolding permute_all_def Let_def arrays_length_def
    by (simp add: permute_same [OF pos]) (drule sym, simp)
  then show ?thesis using assms(2) ok(2) by (simp add: at_start_def psys_ok_def)
qed

lemma at_start_srcs [simp]: "at_start ep (s\<lparr>psys_srcs := x\<rparr>) = at_start ep s"
  by (simp add: at_start_def psys_ok_def arrays_length_def)

lemma put_src_at_start: "put_src i x s = Inr s' \<Longrightarrow> at_start ep s \<Longrightarrow> at_start ep s'"
  by (auto simp: put_src_def split: if_split_asm)

lemma add_srcs_at_start: "add_srcs fresh n s = Inr s' \<Longrightarrow> at_start ep s \<Longrightarrow> at_start ep s'"
  by (auto simp: add_srcs_def split: if_split_asm)

lemma source_lines_at_start:
  "source_file_lines fresh eigen c u specs lines stage isrc s = Inr (n, s') \<Longrightarrow> at_start ep s \<Longrightarrow> at_start ep s'"
proof (induction lines arbitrary: stage isrc s)
  case (Cons line lines)
  then show ?case
    using put_src_at_start [of _ _ _ _ ep] add_srcs_at_start [of _ _ _ _ ep]
    by (auto simp: rbind_Inr_iff split: if_split_asm option.splits)
qed simp

lemma source_lines2_at_start:
  "source_file2_lines fresh eigen c u specs lines st s = Inr (v2, st', s') \<Longrightarrow> at_start ep s \<Longrightarrow> at_start ep s'"
proof (induction lines arbitrary: st s)
  case (Cons line lines)
  then show ?case
    using put_src_at_start [of _ _ _ _ ep] add_srcs_at_start [of _ _ _ _ ep]
    by (auto simp: rbind_Inr_iff Let_def split: if_split_asm option.splits prod.splits)
qed simp

lemma source_file_at_start:
  assumes "psystem_read_source_file2 fresh eigen c u specs tf s = Inr s'" and "at_start ep s"
  shows "at_start ep s'"
proof -
  obtain lines v2 st t where tf: "tf = Some lines" and t: "source_file2_lines fresh eigen c u specs lines sr_start s = Inr (v2, st, t)"
      and rest: "(if \<not> v2 then psystem_read_source_file fresh eigen c u specs tf t
          else if sr_isrc st \<noteq> length (psys_srcs t) then Inl (Trap ''wrong number of sources'') else Inr t) = Inr s'"
    using assms(1) by (auto simp: psystem_read_source_file2_def rbind_Inr_iff split: option.splits)
  have "at_start ep t" by (rule source_lines2_at_start [OF t assms(2)])
  then show ?thesis
    using rest source_lines_at_start
    by (auto simp: psystem_read_source_file_def tf rbind_Inr_iff split: if_split_asm)
qed

lemma source_files_at_start:
  "read_source_files (psystem_read_source_file2 fresh eigen c u specs) files names s = Inr s' \<Longrightarrow> at_start ep s \<Longrightarrow> at_start ep s'"
proof (induction names arbitrary: s)
  case (Cons f names)
  then show ?case using source_file_at_start by (cases f) (auto simp: rbind_Inr_iff)
qed simp

lemma read_source_at_start:
  assumes "psystem_read_source fresh eigen files c u specs s = Inr s'" and "at_start ep s"
  shows "at_start ep s'"
proof -
  obtain t where t: "read_source_files (psystem_read_source_file2 fresh eigen c u specs) files (ep_sources (psys_epoch s)) (s\<lparr>psys_srcs := []\<rparr>) = Inr t"
      and s': "\<exists>x. s' = t\<lparr>psys_srcs := x\<rparr>"
    using assms(1) by (auto simp: psystem_read_source_def Let_def rbind_Inr_iff split: if_split_asm)
  have "at_start ep t" using source_files_at_start [OF t] assms(2) by simp
  then show ?thesis using s' by auto
qed

lemma switch_tidy_at_start: "switch_tidy rn s = Inr s' \<Longrightarrow> at_start ep s \<Longrightarrow> at_start ep s'"
  unfolding switch_tidy_def Let_def rbind_Inr_iff
  by (elim exE conjE) (rule read_source_at_start, assumption, rule hilbert_reorder_at_start, assumption, rule setup_hotspots_at_start,
    rule compress_at_start)

lemma psystem_switch_epoch_result:
  assumes "psystem_switch_epoch rn i s fs = Some (Inr (s', fs'))" and "psys_ok s" "ep_ngas (rn_epochs rn ! i) \<le> 2 ^ 53"
  shows "at_start (rn_epochs rn ! i) s'" and "(if cfg_write_init (e_config (rn_env rn))
    then psystem_write_output (pf_codec (rn_platform rn)) (pf_sprintf (rn_platform rn)) (e_config (rn_env rn)) 0 s' fs else Inr fs) = Inr fs'"
proof -
  let ?ep = "rn_epochs rn ! i"
  obtain tt k s1 s2 where s1: "switch_box (rn_tree rn) k (s\<lparr>psys_epoch := ?ep, psys_tick := 0, psys_tick_time := tt\<rparr>) = Inr s1"
      and s2: "switch_particles rn i k s1 fs = Some (Inr s2)" and s3: "switch_tidy rn s2 = Inr s'"
      and out: "(if cfg_write_init (e_config (rn_env rn))
    then psystem_write_output (pf_codec (rn_platform rn)) (pf_sprintf (rn_platform rn)) (e_config (rn_env rn)) 0 s' fs else Inr fs) = Inr fs'"
    using assms(1) unfolding psystem_switch_epoch_def Let_def
    by (auto simp: rbind_Inr_iff split: sum.splits if_split_asm)
  have "at_start ?ep (s\<lparr>psys_epoch := ?ep, psys_tick := 0, psys_tick_time := tt\<rparr>)"
    using assms(2) by (simp add: at_start_def psys_ok_def arrays_length_def)
  then have "at_start ?ep s1"
    by (rule at_start_frame) (use s1 in \<open>auto simp: switch_box_def Let_def psys_ok_def arrays_length_def split: option.splits if_split_asm\<close>)
  then have "at_start ?ep s2" by (rule switch_particles_at_start [OF s2 _ assms(3)])
  then show "at_start ?ep s'" by (rule switch_tidy_at_start [OF s3])
  show "(if cfg_write_init (e_config (rn_env rn))
    then psystem_write_output (pf_codec (rn_platform rn)) (pf_sprintf (rn_platform rn)) (e_config (rn_env rn)) 0 s' fs else Inr fs) = Inr fs'"
    by (rule out)
qed

section \<open>The outputs of a run\<close>

text \<open>
  The outputs an epoch is due: number 0 at its start when \<open>writeInit\<close> is set, then, unless it has no
  duration, one at each of its steps.
\<close>

definition due_outputs :: "'g run \<Rightarrow> nat \<Rightarrow> (nat \<times> nat \<times> int) list" where
  "due_outputs rn i =
     (let ep = rn_epochs rn ! i
      in (if cfg_write_init (e_config (rn_env rn)) then [(i, 0, 0)] else [])
         @ (if ep_duration ep \<le> 0 then []
            else zip (replicate (length (ep_output_steps ep)) i) (zip [1..<length (ep_output_steps ep) + 1] (ep_output_steps ep))))"

definition stamps :: "(nat \<times> nat \<times> psystem) list \<Rightarrow> (nat \<times> nat \<times> int) list" where
  "stamps outs = map (\<lambda>(i, k, s). (i, k, psys_tick s)) outs"

definition logged :: "'g run \<Rightarrow> (nat \<times> nat \<times> psystem) list \<Rightarrow> bool" where
  "logged rn outs \<longleftrightarrow> (\<forall>(i, k, s) \<in> set outs. psys_ok s \<and> psys_epoch s = rn_epochs rn ! i)"

lemma write_outputs_append: "write_outputs rn (xs @ ys) fs = rbind (write_outputs rn xs fs) (write_outputs rn ys)"
proof (induction xs arbitrary: fs)
  case (Cons x xs)
  obtain k s where x: "x = (k, s)" by (cases x)
  show ?case
    unfolding x append_Cons write_outputs.simps
    by (cases "psystem_write_output (pf_codec (rn_platform rn)) (pf_sprintf (rn_platform rn)) (e_config (rn_env rn)) k s fs")
      (simp_all add: Cons)
qed simp

lemma stamps_pairs: "stamps (map (Pair i) outs) = zip (replicate (length outs) i) (map (\<lambda>(k, s). (k, psys_tick s)) outs)"
  by (induction outs) (auto simp: stamps_def)

lemma run_switched_result:
  assumes "run_switched rn i m = Some (Inr m')" and "at_start (rn_epochs rn ! i) (l_psys (sm_loop m))" "scheduled (rn_epochs rn ! i)"
  shows "\<exists>outs. sm_outs m' = sm_outs m @ map (Pair i) outs \<and> write_outputs rn outs (sm_files m) = Inr (sm_files m')
    \<and> stamps (map (Pair i) outs) = (if ep_duration (rn_epochs rn ! i) \<le> 0 then []
        else zip (replicate (length (ep_output_steps (rn_epochs rn ! i))) i)
          (zip [1..<length (ep_output_steps (rn_epochs rn ! i)) + 1] (ep_output_steps (rn_epochs rn ! i))))
    \<and> logged rn (map (Pair i) outs) \<and> psys_ok (l_psys (sm_loop m'))"
proof -
  let ?s = "l_psys (sm_loop m)" and ?ep = "rn_epochs rn ! i"
  have s: "psys_ok ?s" "psys_epoch ?s = ?ep" "psys_tick ?s = 0" using assms(2) by (simp_all add: at_start_def)
  show ?thesis
  proof (cases "ep_duration ?ep \<le> 0")
    case True
    then show ?thesis using assms(1) s by (intro exI [of _ "[]"]) (simp add: run_switched_def logged_def stamps_def)
  next
    case False
    then obtain rt l outs fs where run: "run_epoch (rn_env rn) rt (pf_mask (rn_platform rn)) (sm_loop m) = Some (Inr (l, outs))"
        and fs: "write_outputs rn outs (sm_files m) = Inr fs"
        and m': "m' = \<lparr>sm_loop = l, sm_rt = rt, sm_files = fs, sm_outs = sm_outs m @ map (Pair i) outs\<rparr>"
      using assms(1) s(2) by (auto simp: run_switched_def Let_def rbind_Inr_iff split: option.splits sum.splits)
    have sch: "sorted_wrt (<) (ep_output_steps (psys_epoch ?s))"
        "\<forall>t \<in> set (ep_output_steps (psys_epoch ?s)). psys_tick ?s \<le> t \<and> t \<le> int (ep_nticks (psys_epoch ?s))"
        "psys_tick ?s \<le> int (ep_nticks (psys_epoch ?s))"
      using assms(3) s by (auto simp: scheduled_def)
    note steps = run_epoch_steps [OF run s(1) sch(3,1,2), unfolded s(2)]
    have len: "length outs = length (ep_output_steps ?ep)" using arg_cong [OF steps(4), of length] by simp
    have st: "stamps (map (Pair i) outs) = zip (replicate (length (ep_output_steps ?ep)) i)
          (zip [1..<length (ep_output_steps ?ep) + 1] (ep_output_steps ?ep))"
      unfolding stamps_pairs outputs_zip [of psys_tick outs] steps(3,4) len by (rule refl)
    have "psys_ok t \<and> psys_epoch t = ?ep" if "(k, t) \<in> set outs" for k t
    proof -
      have "steady ?s t" using steps(5) that by force
      then show ?thesis using steady_epoch [of ?s t] s(2) by (simp add: steady_def)
    qed
    then have "logged rn (map (Pair i) outs)" by (auto simp: logged_def)
    moreover have "psys_ok l_psys'" if "l_psys' = l_psys l" for l_psys' using steps(1) that by (simp add: steady_def)
    ultimately show ?thesis
      using False fs st by (intro exI [of _ outs]) (simp add: m' del: upt_Suc)
  qed
qed

lemma epoch_pass_result:
  assumes "epoch_pass rn i m = Some (Inr m')" and "psys_ok (l_psys (sm_loop m))"
    and "scheduled (rn_epochs rn ! i)" "ep_ngas (rn_epochs rn ! i) \<le> 2 ^ 53"
  shows "\<exists>outs. sm_outs m' = sm_outs m @ outs \<and> stamps outs = due_outputs rn i
    \<and> write_outputs rn (map snd outs) (sm_files m) = Inr (sm_files m') \<and> logged rn outs \<and> psys_ok (l_psys (sm_loop m'))"
proof -
  obtain s fs where sw: "psystem_switch_epoch rn i (l_psys (sm_loop m)) (sm_files m) = Some (Inr (s, fs))"
      and run: "run_switched rn i (switched rn i m (s, fs)) = Some (Inr m')"
    using assms(1) by (auto simp: epoch_pass_def split: option.splits sum.splits)
  note switch = psystem_switch_epoch_result [OF sw assms(2,4)]
  let ?first = "if cfg_write_init (e_config (rn_env rn)) then [(i, 0, s)] else []"
  have m: "l_psys (sm_loop (switched rn i m (s, fs))) = s" "sm_files (switched rn i m (s, fs)) = fs"
      "sm_outs (switched rn i m (s, fs)) = sm_outs m @ ?first" by (simp_all add: switched_def)
  obtain outs where outs: "sm_outs m' = (sm_outs m @ ?first) @ map (Pair i) outs" "write_outputs rn outs fs = Inr (sm_files m')"
      "stamps (map (Pair i) outs) = (if ep_duration (rn_epochs rn ! i) \<le> 0 then []
        else zip (replicate (length (ep_output_steps (rn_epochs rn ! i))) i)
          (zip [1..<length (ep_output_steps (rn_epochs rn ! i)) + 1] (ep_output_steps (rn_epochs rn ! i))))"
      "logged rn (map (Pair i) outs)" "psys_ok (l_psys (sm_loop m'))"
    using run_switched_result [OF run, unfolded m, OF switch(1) assms(3)] by blast
  have t: "psys_tick s = 0" "psys_ok s" "psys_epoch s = rn_epochs rn ! i" using switch(1) by (simp_all add: at_start_def)
  have "stamps (?first @ map (Pair i) outs) = due_outputs rn i"
    using outs(3) t(1) by (simp add: due_outputs_def Let_def stamps_def del: upt_Suc)
  moreover have "write_outputs rn (map snd (?first @ map (Pair i) outs)) (sm_files m) = Inr (sm_files m')"
    using switch(2) outs(2) by (simp add: write_outputs_append comp_def split: if_split_asm)
  moreover have "logged rn (?first @ map (Pair i) outs)" using outs(4) t by (auto simp: logged_def)
  ultimately show ?thesis using outs(1,5) by (intro exI [of _ "?first @ map (Pair i) outs"]) simp
qed

text \<open>
  C40. A run that ends without an error has written exactly the outputs its epochs were due, one epoch
  after the other and in the order of their numbers: the initial output of an epoch at its tick 0,
  the others at the steps of the epoch, and none for an epoch without duration. The files are what
  writing these outputs one after the other makes of the files at the start, and every system that
  was written was well formed and in its epoch. The schedules of the epochs have increasing steps up
  to the last tick, as those \<open>epochs_init\<close> makes of a number of outputs (\<open>epochs_output_scheduled\<close>).
\<close>

theorem run_writes_outputs:
  assumes "epoch_passes rn js m = Some (Inr m')" and "psys_ok (l_psys (sm_loop m))"
    and "\<forall>i \<in> set js. scheduled (rn_epochs rn ! i) \<and> ep_ngas (rn_epochs rn ! i) \<le> 2 ^ 53"
  shows "\<exists>outs. sm_outs m' = sm_outs m @ outs \<and> stamps outs = concat (map (due_outputs rn) js)
    \<and> write_outputs rn (map snd outs) (sm_files m) = Inr (sm_files m') \<and> logged rn outs \<and> psys_ok (l_psys (sm_loop m'))"
  using assms
proof (induction js arbitrary: m)
  case Nil
  then show ?case by (intro exI [of _ "[]"]) (simp add: stamps_def logged_def)
next
  case (Cons i js)
  obtain m1 where m1: "epoch_pass rn i m = Some (Inr m1)" and rest: "epoch_passes rn js m1 = Some (Inr m')"
    using Cons.prems(1) by (auto split: option.splits sum.splits)
  obtain outs where outs: "sm_outs m1 = sm_outs m @ outs" "stamps outs = due_outputs rn i"
      "write_outputs rn (map snd outs) (sm_files m) = Inr (sm_files m1)" "logged rn outs" "psys_ok (l_psys (sm_loop m1))"
    using epoch_pass_result [OF m1 Cons.prems(2)] Cons.prems(3) by auto
  obtain more where more: "sm_outs m' = sm_outs m1 @ more" "stamps more = concat (map (due_outputs rn) js)"
      "write_outputs rn (map snd more) (sm_files m1) = Inr (sm_files m')" "logged rn more" "psys_ok (l_psys (sm_loop m'))"
    using Cons.IH [OF rest outs(5)] Cons.prems(3) by auto
  have "logged rn (outs @ more)" using outs(4) more(4) by (auto simp: logged_def)
  moreover have "stamps (outs @ more) = concat (map (due_outputs rn) (i # js))" using outs(2) more(2) by (simp add: stamps_def)
  moreover have "write_outputs rn (map snd (outs @ more)) (sm_files m) = Inr (sm_files m')"
    using outs(3) more(3) by (simp add: write_outputs_append)
  ultimately show ?case using outs(1) more(1,5) by (intro exI [of _ "outs @ more"]) simp
qed

section \<open>A small run\<close>

definition demo_platform :: "unit platform" where
  "demo_platform = \<lparr>pf_codec = zero_codec, pf_sprintf = (\<lambda>f k. f),
     pf_text = (\<lambda>_. Some [''1'', ''0 0 0 1 0 0 5 mono point'']), pf_heapsort = argsort_ints,
     pf_eigen = (\<lambda>_. ((0, 0, 0), (0, 0, 0))), pf_rng = e_rng demo_env, pf_seed = (\<lambda>_. ()), pf_lsoda = e_lsoda demo_env,
     pf_conv = e_conv demo_env, pf_kernel = [], pf_bufsize = 0, pf_cells = (\<lambda>_ _. 0),
     pf_particles = (\<lambda>_. particle_at (0, 0, 0) 0), pf_sources = (\<lambda>_. demo_source), pf_links = (\<lambda>_. None),
     pf_heads = (\<lambda>_. 0), pf_nexts = (\<lambda>_. 0), pf_mask = [], pf_room = 0\<rparr>"

definition demo_run :: "unit run" where
  "demo_run = \<lparr>rn_platform = demo_platform, rn_env = demo_env,
     rn_tree = \<lparr>ct_root = SGroup [(''box'', SGroup [(''boxsize'', SInt 1), (''boundary'', SString (Some ''vaccum''))])], ct_auto = True\<rparr>,
     rn_epochs = [epoch_zero\<lparr>ep_ngas := 1, ep_nticks := 1, ep_sources := [Some ''src''], ep_snapshot := ''snap'',
       ep_format := ''psphray'', ep_output_filename := Some ''out''\<rparr>]\<rparr>"

lemma demo_header: "\<exists>bs k. open_constants zero_codec [''snap'' \<mapsto> bs] ''psphray'' ''snap'' = Inr k \<and> rc_Nfiles k = 0"
proof -
  have "header_exact zero_codec psphray_blank" "exact64 zero_codec (hd_OmegaB psphray_blank)" "psphray_shape psphray_blank"
    by (simp_all add: header_exact_def exact64_def zero_codec_def psphray_blank_def psphray_shape_def list_all_iff)
  from psphray.write_header_result [OF this(3) conjI [OF this(1,2)], of "\<lparr>f_bytes = [], f_pos = 0\<rparr>"]
  obtain f' :: cfile where f': "\<forall>g g0. f_bytes g = f_bytes f' \<and> psphray_shape g0 \<longrightarrow>
      (\<exists>pos. block_read psphray_funcs zero_codec g0 ''header'' [] 0 1 g = Inr (psphray_blank, [], g\<lparr>f_pos := pos\<rparr>))"
    by (elim exE conjE) (rule that)
  have same: "f_bytes \<lparr>f_bytes = f_bytes f', f_pos = 0\<rparr> = f_bytes f' \<and> psphray_shape psphray_blank" using blank_shape by simp
  obtain pos where rd: "block_read psphray_funcs zero_codec psphray_blank ''header'' [] 0 1 \<lparr>f_bytes = f_bytes f', f_pos = 0\<rparr>
      = Inr (psphray_blank, [], \<lparr>f_bytes = f_bytes f', f_pos = pos\<rparr>)"
    using mp [OF spec [OF spec [OF f']] same] by auto
  have blank: "rf_blank psphray_funcs = psphray_blank" "rf_get_constants psphray_funcs = psphray_get_constants"
    by (simp_all add: psphray_funcs_def)
  have "rc_Nfiles (psphray_get_constants psphray_blank constants_blank) = 0"
    by (simp add: psphray_get_constants_def get_common_def psphray_blank_def)
  then show ?thesis
    by (intro exI [of _ "f_bytes f'"]) (simp add: open_constants_def reader_open_def blank rd)
qed

lemma demo_source_line:
  "\<exists>x. source1 eigen c u (e_specs demo_env) ''0 0 0 1 0 0 5 mono point'' y = Inr x \<and> src_cursor x < length (src_Ngamma_dots x)"
proof -
  have "case scan_source1 ''0 0 0 1 0 0 5 mono point'' of Some (xs, sp, ty, r) \<Rightarrow> length xs = 7 \<and> sp = ''mono'' \<and> ty = ''point'' | None \<Rightarrow> False"
    by code_simp
  then obtain a0 a1 a2 a3 a4 a5 a6 r where "scan_source1 ''0 0 0 1 0 0 5 mono point'' = Some ([a0, a1, a2, a3, a4, a5, a6], ''mono'', ''point'', r)"
    by (auto simp: numeral_eq_Suc length_Suc_conv split: option.splits)
  moreover have "spec_get (e_specs demo_env) ''mono'' = Inr 0" by (simp add: spec_get_def demo_env_def spec_zero_def)
  moreover have "\<exists>v. point_rate u (e_specs demo_env) 0 a6 = Inr v" by (simp add: point_rate_def spec_N_from_lum_def demo_env_def)
  ultimately show ?thesis by (auto simp: source1_def Let_def)
qed

lemma demo_sources:
  assumes "ep_sources (psys_epoch s) = [Some ''src'']"
  shows "\<exists>s'. psystem_read_source (pf_sources demo_platform) eigen (pf_text demo_platform) c u (e_specs demo_env) s = Inr s'"
proof -
  let ?line = "''0 0 0 1 0 0 5 mono point''" and ?s = "s\<lparr>psys_srcs := [demo_source]\<rparr>"
  have scan: "\<not> skip_line ''1''" "\<not> skip_line ?line" "scan_head2 ''1'' = (Some 1, None, None)" "map_option fst (scan_int ''1'') = Some 1"
    by code_simp+
  obtain x where x: "source1 eigen c u (e_specs demo_env) ?line demo_source = Inr x" "src_cursor x < length (src_Ngamma_dots x)"
    using demo_source_line by blast
  have add: "add_srcs (pf_sources demo_platform) 1 (s\<lparr>psys_srcs := []\<rparr>) = Inr ?s" by (simp add: add_srcs_def demo_platform_def)
  have "psystem_read_source_file2 (pf_sources demo_platform) eigen c u (e_specs demo_env) (Some [''1'', ?line]) (s\<lparr>psys_srcs := []\<rparr>)
      = Inr (s\<lparr>psys_srcs := [x]\<rparr>)"
    using scan(4) x(1) add
    by (auto simp: psystem_read_source_file2_def psystem_read_source_file_def scan(1-3) sr_start_def put_src_def split: option.splits)
  moreover have "pf_text demo_platform f = Some [''1'', ?line]" for f by (simp add: demo_platform_def)
  ultimately have "read_source_files (psystem_read_source_file2 (pf_sources demo_platform) eigen c u (e_specs demo_env)) (pf_text demo_platform)
      (ep_sources (psys_epoch s)) (s\<lparr>psys_srcs := []\<rparr>) = Inr (s\<lparr>psys_srcs := [x]\<rparr>)" by (simp add: assms)
  then show ?thesis using x(2) by (simp add: psystem_read_source_def Let_def)
qed

lemma demo_run_parts:
  "rn_platform demo_run = demo_platform" "rn_env demo_run = demo_env"
  "rn_tree demo_run = \<lparr>ct_root = SGroup [(''box'', SGroup [(''boxsize'', SInt 1), (''boundary'', SString (Some ''vaccum''))])], ct_auto = True\<rparr>"
  "pf_codec demo_platform = zero_codec" "pf_heapsort demo_platform = argsort_ints" "pf_sprintf demo_platform = (\<lambda>f k. f)"
  "cfg_write_init (e_config demo_env)"
  by (simp_all add: demo_run_def demo_platform_def demo_env_def config_defaults_def)

lemma demo_epoch_fields:
  "ep_ngas (rn_epochs demo_run ! 0) = 1" "ep_nticks (rn_epochs demo_run ! 0) = 1" "ep_sources (rn_epochs demo_run ! 0) = [Some ''src'']"
  "ep_snapshot (rn_epochs demo_run ! 0) = ''snap''" "ep_format (rn_epochs demo_run ! 0) = ''psphray''"
  "ep_output_filename (rn_epochs demo_run ! 0) = Some ''out''" "ep_output_nfiles (rn_epochs demo_run ! 0) = 0"
  "ep_output_steps (rn_epochs demo_run ! 0) = []" "ep_duration (rn_epochs demo_run ! 0) = 0"
  by (simp_all add: demo_run_def epoch_zero_def)

lemma demo_tree:
  "config_lookup_string (rn_tree demo_run) ''box.boundary'' None = Some ''vaccum''" "found_at (rn_tree demo_run) ''psphray.hotspots'' = None"
  unfolding demo_run_parts by code_simp+

lemma demo_box:
  "\<exists>s1. switch_box (rn_tree demo_run) k s = Inr s1 \<and> psys_epoch s1 = psys_epoch s \<and> psys_tick s1 = psys_tick s"
  unfolding switch_box_def Let_def demo_tree(1) by simp

lemma demo_particles:
  assumes "psys_epoch s1 = rn_epochs demo_run ! 0" "psys_tick s1 = 0" "rc_Nfiles k = 0"
  shows "\<exists>s2. switch_particles demo_run 0 k s1 fs = Some (Inr s2) \<and> at_start (rn_epochs demo_run ! 0) s2
    \<and> 0 < psys_npar s2 \<and> \<not> invalid s2 0"
proof -
  let ?P = demo_platform
  define s2 where "s2 = (alloc_epoch s1)\<lparr>psys_idhash_head := Some (pf_heads ?P), psys_idhash_next := map (pf_nexts ?P) [0..<psys_npar_max (alloc_epoch s1)]\<rparr>"
  have read: "psystem_read_epoch zero_codec sp c fs k s1 = Inr (alloc_epoch s1)" for sp c
    by (simp add: psystem_read_epoch_def Let_def assms demo_epoch_fields(4,5))
  have "at_start (rn_epochs demo_run ! 0) (alloc_epoch s1)"
    by (rule read_epoch_at_start [OF read assms(1,2)]) (simp add: demo_epoch_fields(1))
  then have "at_start (rn_epochs demo_run ! 0) s2"
    by (rule at_start_frame) (simp_all add: s2_def psys_ok_def arrays_length_def)
  moreover have "switch_particles demo_run 0 k s1 fs = Some (Inr s2)"
    by (simp add: switch_particles_def Let_def demo_run_parts read s2_def)
  moreover have "0 < psys_npar s2" "\<not> invalid s2 0"
    using epoch_room_enough [of 1] assms(1) demo_epoch_fields(1)
    by (simp_all add: s2_def invalid_def alloc_epoch_def Let_def)
  ultimately show ?thesis by blast
qed

lemma demo_tidy:
  assumes "at_start (rn_epochs demo_run ! 0) s2" and one: "0 < psys_npar s2" "\<not> invalid s2 0"
  shows "\<exists>s5. switch_tidy demo_run s2 = Inr s5"
proof -
  let ?P = demo_platform and ?c = "e_config demo_env"
  obtain s3 where s3: "compress s2 = Inr s3" using compress_result [OF _ one] assms(1) unfolding at_start_def by blast
  have start3: "at_start (rn_epochs demo_run ! 0) (setup_hotspots [] s3)"
    by (rule setup_hotspots_at_start [OF compress_at_start [OF s3 assms(1)]])
  then have "psys_ok (setup_hotspots [] s3)" by (simp add: at_start_def)
  then obtain s4 where s4: "hilbert_reorder argsort_ints (pf_particles ?P) (setup_hotspots [] s3) = Inr s4"
    using argsort_ints.reorders [of "setup_hotspots [] s3" "pf_particles ?P"] by blast
  have "ep_sources (psys_epoch s4) = [Some ''src'']"
    using hilbert_reorder_at_start [OF s4 start3] demo_epoch_fields(3) by (simp add: at_start_def)
  then obtain s5 where "psystem_read_source (pf_sources ?P) (pf_eigen ?P) (pf_text ?P) ?c (e_units demo_env) (e_specs demo_env) s4 = Inr s5"
    using demo_sources by blast
  then have "switch_tidy demo_run s2 = Inr s5"
    by (simp only: switch_tidy_def Let_def demo_run_parts(1,2,5) s3 read_hotspots_def demo_tree(2) option.case s4 rbind_simps)
  then show ?thesis by blast
qed

lemma demo_switch:
  "\<exists>fs s. psystem_switch_epoch demo_run 0 psys_zero fs = Some (Inr (s, fs)) \<and> at_start (rn_epochs demo_run ! 0) s"
proof -
  let ?ep = "rn_epochs demo_run ! 0"
  obtain bs k where k: "open_constants zero_codec [''snap'' \<mapsto> bs] ''psphray'' ''snap'' = Inr k" "rc_Nfiles k = 0"
    using demo_header by blast
  let ?fs = "[''snap'' \<mapsto> bs]" and ?s = "psys_zero\<lparr>psys_epoch := ?ep, psys_tick := 0, psys_tick_time := 0\<rparr>"
  obtain s1 where s1: "switch_box (rn_tree demo_run) k ?s = Inr s1" "psys_epoch s1 = ?ep" "psys_tick s1 = 0"
    using demo_box [of k ?s] by auto
  obtain s2 where s2: "switch_particles demo_run 0 k s1 ?fs = Some (Inr s2)" "at_start ?ep s2" "0 < psys_npar s2" "\<not> invalid s2 0"
    using demo_particles [OF s1(2,3) k(2)] by blast
  obtain s5 where s5: "switch_tidy demo_run s2 = Inr s5" using demo_tidy [OF s2(2-4)] by blast
  have start5: "at_start ?ep s5" by (rule switch_tidy_at_start [OF s5 s2(2)])
  have "psystem_write_output zero_codec (\<lambda>f k. f) (e_config demo_env) 0 s5 ?fs = Inr ?fs"
    using start5 demo_epoch_fields(6,7) by (simp add: psystem_write_output_def at_start_def Let_def)
  then have "psystem_switch_epoch demo_run 0 psys_zero ?fs = Some (Inr (s5, ?fs))"
    by (simp add: psystem_switch_epoch_def Let_def demo_run_parts(1,2,4,6,7) demo_epoch_fields(2,4,5,9) fdiv_def reader_make_filename_def k(1) s1(1) s2(1) s5)
  then show ?thesis using start5 by blast
qed

lemma run_writes_outputs_witness:
  "\<exists>fs m'. epoch_passes demo_run [0] (sim_start 0 () fs) = Some (Inr m') \<and> stamps (sm_outs m') = [(0, 0, 0)] \<and> sm_files m' = fs"
proof -
  obtain fs s where sw: "psystem_switch_epoch demo_run 0 psys_zero fs = Some (Inr (s, fs))" and start: "at_start (rn_epochs demo_run ! 0) s"
    using demo_switch by blast
  define m where "m = sim_start 0 () fs"
  have m: "l_psys (sm_loop m) = psys_zero" "sm_files m = fs" "sm_outs m = []" by (simp_all add: m_def sim_start_def)
  have "run_switched demo_run 0 (switched demo_run 0 m (s, fs)) = Some (Inr (switched demo_run 0 m (s, fs)))"
    using start demo_epoch_fields(9) by (simp add: run_switched_def switched_def at_start_def)
  then have run: "epoch_passes demo_run [0] m = Some (Inr (switched demo_run 0 m (s, fs)))"
    by (simp add: epoch_pass_def m sw)
  have "psys_ok (l_psys (sm_loop m))" by (simp add: m psys_zero_def psys_ok_def psys_of_def arrays_length_def)
  moreover have "\<forall>i \<in> set [0]. scheduled (rn_epochs demo_run ! i) \<and> ep_ngas (rn_epochs demo_run ! i) \<le> 2 ^ 53"
    by (simp add: scheduled_def demo_epoch_fields(1,8))
  ultimately obtain outs where "sm_outs (switched demo_run 0 m (s, fs)) = outs" "stamps outs = due_outputs demo_run 0"
    using run_writes_outputs [OF run] m(3) by auto
  moreover have "due_outputs demo_run 0 = [(0, 0, 0)]" by (simp add: due_outputs_def Let_def demo_run_parts(2,7) demo_epoch_fields(8,9))
  ultimately show ?thesis using run unfolding m_def [symmetric]
    by (intro exI [of _ fs] exI [of _ "switched demo_run 0 m (s, fs)"]) (simp add: m_def [symmetric] switched_def)
qed

end
