(* ===== verification/Spec2Isabelle.thy ===== *)
theory Spec2Isabelle
  imports Prelude Float_Model Growable_Array Sorting_Arrays Bit_Mask Peano_Keys Morton_Key Pluecker Config_Units Particle_System Octree Octree_Boxes Ray_Trace
    C_Text Tabulated Rates Config_Tree Spectra Sources Ray_Emission Photon_Deposit Evolution Run_Epoch Byte_File Snapshot_Format Snapshot_Reader Snapshot_Output Particle_Match Config_Init Epochs Startup
begin

text \<open>
  A verification development for \<^bold>\<open>psphray\<close>, a radiative transfer code: it reads snapshots of a
  cosmological simulation as smoothed gas particles, casts rays from sources through an adaptive
  octree, lets the particles absorb the photons, integrates their ionization and temperature, and
  writes snapshots. The C code under \<open>src/src\<close> and \<open>src/support\<close> is translated function by function.

  \<^bold>\<open>How a run goes, and where its parts are.\<close>
  \<^item> \<open>main\<close> (\<open>Startup\<close>) calls \<open>cfg_init\<close>, then for every epoch \<open>psystem_switch_epoch\<close>, and, if the epoch has a
    duration, \<open>rt_switch_epoch\<close> and \<open>run_epoch\<close>. The global variables are the records \<open>run\<close> (fixed
    after \<open>cfg_init\<close>) and \<open>sim\<close> (what changes).
  \<^item> \<open>cfg_init\<close> of \<open>config.c\<close>: defaults (\<open>Config_Init\<close>, on the tree of settings of \<open>Config_Tree\<close>, which models
    the part of libconfig that looks settings up and adds them), constants and flags (\<open>Startup\<close>),
    units (\<open>units.c\<close>, \<open>Config_Units\<close>), tables (\<open>tabfun.c\<close>, \<open>Tabulated\<close>, read with \<open>C_Text\<close>), rates and cross sections
    (\<open>atomic-rate.c\<close>, \<open>secion.c\<close>, \<open>eos.c\<close>, \<open>sph-depth.c\<close> in \<open>Rates\<close>), spectra (\<open>spectra.c\<close>, \<open>lte.c\<close> in \<open>Spectra\<close>) and
    epochs (\<open>epochs.c\<close>, \<open>Epochs\<close>).
  \<^item> \<open>psystem_switch_epoch\<close> (\<open>psystem.c\<close>, \<open>Startup\<close>) reads the first snapshot (\<open>Snapshot_Reader\<close>) or matches a
    later one with the particles there are (\<open>Particle_Match\<close>), drops invalid particles and sorts the rest
    along a curve (\<open>Particle_System\<close>, keys in \<open>Peano_Keys\<close>), reads the sources (\<open>sources.c\<close>, \<open>Sources\<close>) and
    writes the initial output (\<open>Snapshot_Output\<close>).
  \<^item> \<open>rt_switch_epoch\<close> (\<open>raytrace.c\<close>) builds the octree (\<open>Octree\<close>) and shrinks its boxes (\<open>Octree_Boxes\<close>); \<open>rt_trace\<close>
    follows a ray through it (\<open>Ray_Trace\<close>) with the box test of \<open>pluecker-sse.c\<close> (\<open>Pluecker\<close>).
  \<^item> \<open>run_epoch\<close> (\<open>loop.c\<close>, \<open>Run_Epoch\<close>) does the ticks: \<open>emit_rays\<close>, \<open>trace\<close>, \<open>merge_pars\<close> (\<open>Ray_Emission\<close>), \<open>deposit\<close>
    (\<open>Photon_Deposit\<close>), \<open>update_pars\<close> with the integrators of \<open>solve.c\<close> (\<open>Evolution\<close>), and asks for outputs.
  \<^item> Snapshots: bytes of files (\<open>Byte_File\<close>), the generated readers and writers of the two formats
    (\<open>Snapshot_Format\<close>), \<open>reader.c\<close> (\<open>Snapshot_Reader\<close>).
  \<^item> Support: the growing arrays and the sorting and searching of \<open>array.h\<close> (\<open>Growable_Array\<close>,
    \<open>Sorting_Arrays\<close>), the bit mask of \<open>bitmask.h\<close> (\<open>Bit_Mask\<close>), \<open>mortonkey.c\<close> (\<open>Morton_Key\<close>), \<open>peano.c\<close>
    (\<open>Peano_Keys\<close>). \<open>Prelude\<close> has the result type and the shared lemmas, \<open>Float_Model\<close> the floating point numbers.

  \<^bold>\<open>Conventions.\<close> A call returns \<open>'a res\<close>: \<open>Inr\<close> the result or \<open>Inl\<close> a trap. \<open>Trap msg\<close> is the program's \<open>ERROR\<close>;
  \<open>Out_of_bounds\<close> an access outside an array, through a null pointer or to indeterminate memory; \<open>No_number\<close> a
  division by zero or a conversion whose value is not a number, where the model stops although the C
  program would carry an infinity or a NaN on; \<open>Hang\<close> that the fuel of a walk is used up. Integers keep their
  width as words where they can wrap, and are \<open>int\<close> or \<open>nat\<close> where a bound is shown or their range makes a
  wrap impossible (\<open>next_pool_size_no_wrap\<close> for the octree). A \<open>double\<close> or \<open>float\<close> is the real number
  it stands for; \<open>db\<close> and \<open>fl\<close> round to 53 and 24 bits with unbounded exponents, ties to even, and every
  operation is rounded as the code rounds it. Where a formula has the rounding as an argument \<open>rd\<close>, the
  program is the instance \<open>db\<close>; the laws that only hold without rounding are stated for \<open>\<lambda>x. x\<close> and
  say so. The parallel loops are modelled in the order of their index, except for \<open>bitmask_aquire\<close>,
  whose accesses may find what other threads made of the mask in between.

  \<^bold>\<open>Loops.\<close> Loops with a measure are recursive functions. Walks along links have fuel: the number of cells
  or of slots plus one, which the invariants \<open>tree_ok\<close>, \<open>chain\<close> and \<open>links_ok\<close> show to be enough, so that
  \<open>Hang\<close> never occurs. \<open>build_tree\<close>, \<open>trace_loop\<close>, \<open>search_chain\<close>, \<open>run_ticks\<close>, \<open>array_roundup\<close>, \<open>leader_walk\<close>
  and \<open>cycle_shift\<close> are partial functions whose value \<open>None\<close> is not to return; that they return is proved
  (\<open>octree_built\<close>, \<open>rt_trace_finds_particles\<close>, \<open>find_match_nearest\<close>, \<open>run_epoch_returns\<close>, \<open>array_roundup_least\<close>,
  \<open>sort_pool_is_stable_sort\<close>).

  \<^bold>\<open>What is a parameter.\<close> How a machine writes floating point numbers (\<open>codec\<close>, with the hypothesis that the
  values at hand survive), \<open>asprintf\<close> with a number, the contents of text files, \<open>gsl_heapsort_index\<close> (locale
  \<open>index_sorter\<close>, interpreted by the program's own \<open>argsort\<close>), the eigenvectors and the random numbers of GSL, the LSODA
  integrator (nothing is assumed of its result), the tree that libconfig's parser makes, conversions of too large
  numbers, memory that is not initialized, and the memory there is for the octree. \<open>platform\<close> collects them.

  \<^bold>\<open>Interfaces.\<close> \<open>rounding\<close> (\<open>db\<close>, \<open>fl\<close>), \<open>vector\<close> (growing arrays), \<open>bitset\<close> (bit mask), \<open>key_order\<close> (comparison functions of
  sorting: keys, rays, intersections), \<open>index_permutation\<close> (\<open>argsort\<close>), \<open>index_sorter\<close>, \<open>snapshot_format\<close> and \<open>snapshot_header\<close>
  (both formats).

  \<^bold>\<open>What the theorems show.\<close>
  \<^item> Support: the two key routines agree for all points and are bijections with adjacent
    consecutive keys; capacity doubling; list, set and sorting behaviour of arrays and mask; the lock.
  \<^item> Units and tables: the meaning of unit expressions, conversions inverse to each other, the lookups
    equal the linear and the bilinear interpolant.
  \<^item> Particles: \<open>compress\<close>, \<open>hilbert_reorder\<close> and matching keep whole particles and the invariant \<open>psys_ok\<close>.
  \<^item> Octree and rays: the tree is complete and correct or the memory is exhausted, which coincident
    particles always cause; its boxes cover; a ray returns each particle it meets once.
  \<^item> Physics: rays share the photons, absorption is bounded, \<open>deposit\<close> has no error (multiphase model
    and fast electrons off), evolution keeps ionizations in range for any integrator.
  \<^item> Epochs and runs: \<open>run_epoch\<close> ends, its outputs are those of the schedule, \<open>epochs_output\<close> makes such
    schedules of a number of outputs, and a whole run writes what is due and nothing else.
  \<^item> Files: items and constants round trip through the bytes of a snapshot, and a whole particle
    system through the files that \<open>psystem_write_output\<close> makes and \<open>psystem_read_epoch\<close> reads.

  \<^bold>\<open>Not modelled.\<close> Messages and statistics that are only printed (\<open>psystem_stat\<close>, log files), the vendored
  libraries (jemalloc, LSODA, the parser of libconfig), the options of the command line, the tool
  \<open>balance.c\<close>, code outside the build (\<open>rtree.c\<close>, \<open>discrete.c\<close>), test programs and \<open>gen.py\<close>. Memory is assumed to suffice
  for everything but the octree, whose building loop is where the code asks for more and more.
\<close>

end
